(* ===== verification/Prelude.thy ===== *)
theory Prelude
  imports Main "HOL-Library.Word"
begin

text \<open>
  Shared vocabulary of the development: the machine integers of the Go code, Go byte slices,
  the little-endian codec of \<open>encoding/binary\<close>, \<open>io.ReadFull\<close>, and the generic lemmas
  on lists and words that the component theories use.

  Go's \<open>uintN\<close> is \<open>N word\<close>. A signed \<open>int32\<close> that is only copied, compared for equality
  or converted to \<open>uint32\<close> is a \<open>32 word\<close> too (the conversions are the identity on the bits);
  where its sign matters it is read with \<open>sint\<close>.
\<close>

unbundle bit_operations_syntax

named_theorems go_defs \<open>definitions unfolded by the component proofs\<close>
named_theorems inv_intros \<open>preservation of the components' invariants\<close>

type_synonym byte = "8 word"
type_synonym u8 = "8 word"
type_synonym u16 = "16 word"
type_synonym u32 = "32 word"
type_synonym i32 = "32 word"
type_synonym u64 = "64 word"

lemma unat_lt: "unat (w :: 'a::len word) < 2 ^ LENGTH('a)"
  by (rule unsigned_less)

lemmas unat_lt_simps =
  unat_lt [where 'a = 8, simplified] unat_lt [where 'a = 16, simplified]
  unat_lt [where 'a = 32, simplified] unat_lt [where 'a = 64, simplified]

subsection \<open>Little-endian integers\<close>

text \<open>
  \<open>binary.LittleEndian.PutUintN(b, v)\<close> stores the \<open>n = N / 8\<close> bytes \<open>le_enc n (unat v)\<close>;
  \<open>binary.LittleEndian.UintN(b)\<close> reads \<open>of_nat (le_dec b)\<close>.
\<close>

fun le_enc :: "nat \<Rightarrow> nat \<Rightarrow> byte list" where
  "le_enc 0 x = []"
| "le_enc (Suc n) x = of_nat (x mod 256) # le_enc n (x div 256)"

fun le_dec :: "byte list \<Rightarrow> nat" where
  "le_dec [] = 0"
| "le_dec (b # bs) = unat b + 256 * le_dec bs"

lemma length_le_enc [simp]: "length (le_enc n x) = n"
  by (induction n arbitrary: x) auto

lemma unat_of_nat_byte [simp]: "unat (of_nat (x mod 256) :: byte) = x mod 256"
  by (simp add: unat_of_nat)

lemma le_dec_enc: "le_dec (le_enc n x) = x mod 256 ^ n"
proof (induction n arbitrary: x)
  case (Suc n)
  have "le_dec (le_enc (Suc n) x) = x mod 256 + 256 * (x div 256 mod 256 ^ n)"
    using Suc.IH by simp
  also have "\<dots> = x mod (256 * 256 ^ n)"
    by (simp add: mod_mult2_eq)
  finally show ?case by simp
qed simp

lemma le_dec_bound: "le_dec bs < 256 ^ length bs"
proof (induction bs)
  case (Cons b bs)
  have "unat b < 256" using unat_lt [of b] by simp
  with Cons.IH show ?case by simp
qed simp

lemma le_enc_dec: "length bs = n \<Longrightarrow> le_enc n (le_dec bs) = bs"
proof (induction bs arbitrary: n)
  case (Cons b bs)
  have b: "unat b < 256" using unat_lt [of b] by simp
  have "of_nat ((unat b + 256 * le_dec bs) mod 256) = b"
    using b by simp
  moreover have "(unat b + 256 * le_dec bs) div 256 = le_dec bs"
    using b by simp
  ultimately show ?case using Cons by auto
qed simp

lemma le_u16 [simp]: "(of_nat (le_dec (le_enc 2 (unat w))) :: u16) = w"
  using unat_lt [of w] by (simp add: le_dec_enc)

lemma le_u32 [simp]: "(of_nat (le_dec (le_enc 4 (unat w))) :: u32) = w"
  using unat_lt [of w] by (simp add: le_dec_enc)

lemma le_u64 [simp]: "(of_nat (le_dec (le_enc 8 (unat w))) :: u64) = w"
  using unat_lt [of w] by (simp add: le_dec_enc)

subsection \<open>Go byte slices\<close>

text \<open>
  A non-nil slice is its backing array (from the slice's start, so its length is the capacity)
  and its length. Re-slicing \<open>s[:n]\<close> keeps the array; it panics when \<open>n\<close> exceeds the capacity,
  which \<open>slice_ok\<close> of the result excludes.
\<close>

datatype gslice = SNil | Slc (backing: "byte list") (slen: nat)

fun slice_bytes :: "gslice \<Rightarrow> byte list" where
  "slice_bytes SNil = []"
| "slice_bytes (Slc a n) = take n a"

fun slice_len :: "gslice \<Rightarrow> nat" where
  "slice_len SNil = 0"
| "slice_len (Slc a n) = n"

fun slice_cap :: "gslice \<Rightarrow> nat" where
  "slice_cap SNil = 0"
| "slice_cap (Slc a n) = length a"

fun slice_ok :: "gslice \<Rightarrow> bool" where
  "slice_ok SNil = True"
| "slice_ok (Slc a n) = (n \<le> length a)"

fun reslice :: "gslice \<Rightarrow> nat \<Rightarrow> gslice" where
  "reslice SNil n = SNil"
| "reslice (Slc a m) n = Slc a n"

text \<open>Overwriting part of an array (Go's \<open>copy\<close>, or a \<open>Put\<close> into a sub-slice).\<close>

definition overwrite :: "nat \<Rightarrow> byte list \<Rightarrow> byte list \<Rightarrow> byte list" where
  "overwrite off bs a = take off a @ bs @ drop (off + length bs) a"

fun slice_write :: "nat \<Rightarrow> byte list \<Rightarrow> gslice \<Rightarrow> gslice" where
  "slice_write off bs SNil = SNil"
| "slice_write off bs (Slc a n) = Slc (overwrite off bs a) n"

lemma length_overwrite [simp]:
  "off + length bs \<le> length a \<Longrightarrow> length (overwrite off bs a) = length a"
  by (simp add: overwrite_def)

lemma take_overwrite_0 [simp]: "take (length bs) (overwrite 0 bs a) = bs"
  by (simp add: overwrite_def)

lemma take_drop_overwrite:
  "off \<le> length a \<Longrightarrow> take (length bs) (drop off (overwrite off bs a)) = bs"
  by (simp add: overwrite_def)

lemma take_overwrite_before:
  "n \<le> off \<Longrightarrow> off \<le> length a \<Longrightarrow> take n (overwrite off bs a) = take n a"
  by (simp add: overwrite_def)

lemma slice_len_bytes: "slice_ok s \<Longrightarrow> length (slice_bytes s) = slice_len s"
  by (cases s) auto

subsection \<open>Readers\<close>

text \<open>
  A reader is the bytes it still delivers before end of stream. \<open>io.ReadFull\<close> into a buffer of
  \<open>n\<close> bytes either delivers \<open>n\<close> bytes or everything that is left together with
  \<open>io.EOF\<close> (nothing was read) or \<open>io.ErrUnexpectedEOF\<close>.
\<close>

datatype io_err = EOF | ErrUnexpectedEOF

definition read_full :: "nat \<Rightarrow> byte list \<Rightarrow> byte list \<times> byte list \<times> io_err option" where
  "read_full n r = (if n \<le> length r then (take n r, drop n r, None)
                    else (r, [], Some (if r = [] then EOF else ErrUnexpectedEOF)))"

lemma read_full_append [simp]:
  "length bs = n \<Longrightarrow> read_full n (bs @ rest) = (bs, rest, None)"
  by (simp add: read_full_def)

lemma read_full_short:
  "length r < n \<Longrightarrow> read_full n r = (r, [], Some (if r = [] then EOF else ErrUnexpectedEOF))"
  by (simp add: read_full_def)

subsection \<open>Self-delimiting codecs\<close>

text \<open>
  The contract between a writer of consecutive records and their reader: a record that satisfies
  \<open>ok\<close> is read back from the front of any stream it starts, and the rest of the stream is left
  untouched. What follows for whole streams is proved once, in the locale.
\<close>

fun dec_stream :: "('b list \<Rightarrow> ('m \<times> 'b list) option) \<Rightarrow> nat \<Rightarrow> 'b list \<Rightarrow> ('m list \<times> 'b list) option" where
  "dec_stream dec 0 r = Some ([], r)"
| "dec_stream dec (Suc n) r =
     (case dec r of None \<Rightarrow> None
      | Some (m, r') \<Rightarrow> map_option (\<lambda>(ms, r''). (m # ms, r'')) (dec_stream dec n r'))"

locale stream_codec =
  fixes enc :: "'m \<Rightarrow> 'b list"
    and dec :: "'b list \<Rightarrow> ('m \<times> 'b list) option"
    and ok :: "'m \<Rightarrow> bool"
  assumes dec_enc: "ok m \<Longrightarrow> dec (enc m @ rest) = Some (m, rest)"
    and enc_nonempty: "ok m \<Longrightarrow> enc m \<noteq> []"
begin

lemma dec_stream_enc:
  "list_all ok ms \<Longrightarrow> dec_stream dec (length ms) (concat (map enc ms) @ rest) = Some (ms, rest)"
  by (induction ms) (simp_all add: dec_enc)

lemma enc_inj: "ok m \<Longrightarrow> ok m' \<Longrightarrow> enc m @ r = enc m' @ r' \<Longrightarrow> m = m' \<and> r = r'"
  by (metis dec_enc option.inject prod.inject)

lemma stream_unique:
  "list_all ok ms \<Longrightarrow> list_all ok ms' \<Longrightarrow> concat (map enc ms) = concat (map enc ms') \<Longrightarrow> ms = ms'"
proof (induction ms arbitrary: ms')
  case Nil
  then show ?case by (cases ms') (auto dest: enc_nonempty)
next
  case (Cons m ms)
  then obtain m' ms'' where ms': "ms' = m' # ms''"
    by (cases ms') (auto dest: enc_nonempty)
  with Cons.prems have "m = m' \<and> concat (map enc ms) = concat (map enc ms'')"
    using enc_inj [of m m' "concat (map enc ms)" "concat (map enc ms'')"] by simp
  with ms' Cons show ?case by simp
qed

end

end
