(* ===== verification/Mux_Frame.thy ===== *)
theory Mux_Frame
  imports Prelude
begin

text \<open>
  The frame codec of the stream multiplexer: \<open>lib/nps_mux/netpackager.go\<close> with the buffer pools
  of \<open>lib/nps_mux/pool.go\<close> and the frame flags of \<open>lib/nps_mux/mux.go\<close>.

  A packager is a record of the fields of \<open>muxPackager\<close> and its embedded \<open>basePackager\<close>; its
  methods take and return it, together with the buffer pool they use. The pool is a list of free
  buffers, of which \<open>Get\<close> takes the first: the lemmas hold for every pool content, so for
  whichever item \<open>sync.Pool\<close> hands out. The writer is a parameter: \<open>wr w bs\<close> is the writer after
  \<open>w.Write(bs)\<close> and whether the call returned no error.
\<close>

subsection \<open>Constants and data\<close>

definition poolSizeBuffer :: nat where "poolSizeBuffer = 4096"
definition poolSizeWindow :: nat where "poolSizeWindow = poolSizeBuffer - 2 - 4 - 4 - 1"
definition maximumSegmentSize :: nat where "maximumSegmentSize = poolSizeWindow"

definition muxPingFlag :: u8 where "muxPingFlag = 0"
definition muxNewConnOk :: u8 where "muxNewConnOk = 1"
definition muxNewConnFail :: u8 where "muxNewConnFail = 2"
definition muxNewMsg :: u8 where "muxNewMsg = 3"
definition muxNewMsgPart :: u8 where "muxNewMsgPart = 4"
definition muxMsgSendOk :: u8 where "muxMsgSendOk = 5"
definition muxNewConn :: u8 where "muxNewConn = 6"
definition muxConnClose :: u8 where "muxConnClose = 7"
definition muxPingReturn :: u8 where "muxPingReturn = 8"

lemmas mux_size_defs = maximumSegmentSize_def poolSizeWindow_def poolSizeBuffer_def
lemmas mux_flag_defs = muxPingFlag_def muxNewConnOk_def muxNewConnFail_def muxNewMsg_def
  muxNewMsgPart_def muxMsgSendOk_def muxNewConn_def muxConnClose_def muxPingReturn_def

record muxPackager =
  flag :: u8
  pid :: i32
  window :: u64
  buf :: gslice
  plength :: u16
  content :: gslice

text \<open>The dynamic type of the \<open>content interface{}\<close> argument of \<open>Set\<close>.\<close>

datatype iface = INil | IBytes gslice | IUint64 u64

datatype mux_err =
    NewpackNil | NewpackZero | NewpackTooLarge
  | InvalidPacket | InvalidBuffer | ContentNotBytes | WindowNotUint64
  | UnpackZeroLength | UnpackLengthCap | UnpackTooLarge
  | IoErr io_err | WriteErr

subsection \<open>The buffer pool\<close>

type_synonym wpool = "gslice list"

fun windowBuff_Get :: "wpool \<Rightarrow> gslice \<times> wpool" where
  "windowBuff_Get [] = (Slc (replicate poolSizeWindow 0) poolSizeWindow, [])"
| "windowBuff_Get (b # bs) = (reslice b poolSizeWindow, bs)"

definition windowBuff_Put :: "gslice \<Rightarrow> wpool \<Rightarrow> wpool" where
  "windowBuff_Put x pl = reslice x poolSizeWindow # pl"

text \<open>A buffer of the pool: an array of \<open>poolSizeWindow\<close> bytes.\<close>

fun pool_buf :: "gslice \<Rightarrow> bool" where
  "pool_buf SNil = False"
| "pool_buf (Slc a n) = (length a = poolSizeWindow \<and> n \<le> poolSizeWindow)"

definition pool_ok :: "wpool \<Rightarrow> bool" where
  "pool_ok pl \<longleftrightarrow> (\<forall>b \<in> set pl. pool_buf b)"

subsection \<open>basePackager\<close>

definition basePackager_reset :: "muxPackager \<Rightarrow> muxPackager" where
  "basePackager_reset p = p\<lparr>plength := 0, content := reslice (content p) 0\<rparr>"

definition basePackager_setLength :: "muxPackager \<Rightarrow> muxPackager" where
  "basePackager_setLength p = p\<lparr>plength := of_nat (slice_len (content p))\<rparr>"

definition basePackager_Set :: "gslice \<Rightarrow> muxPackager \<Rightarrow> muxPackager \<times> mux_err option" where
  "basePackager_Set data p =
     (let p0 = basePackager_reset p; n = slice_len data in
      if data = SNil then (p0, Some NewpackNil)
      else if n = 0 then (p0, Some NewpackZero)
      else if n > maximumSegmentSize then (p0, Some NewpackTooLarge)
      else
        let c = (if slice_cap (content p0) < n then Slc (replicate n 0) n
                 else reslice (content p0) n)
        in (basePackager_setLength (p0\<lparr>content := slice_write 0 (slice_bytes data) c\<rparr>), None))"

definition basePackager_Pack ::
  "('w \<Rightarrow> byte list \<Rightarrow> 'w \<times> bool) \<Rightarrow> 'w option \<Rightarrow> muxPackager
     \<Rightarrow> 'w option \<times> muxPackager \<times> mux_err option" where
  "basePackager_Pack wr w p =
     (case w of
        None \<Rightarrow> (None, p, Some InvalidPacket)
      | Some v \<Rightarrow>
        if slice_len (buf p) < 7 \<or> unat (plength p) > slice_len (content p)
        then (w, p, Some InvalidPacket)
        else
          let p1 = p\<lparr>buf := slice_write 5 (le_enc 2 (unat (plength p))) (buf p)\<rparr>;
              (v1, ok1) = wr v (take 7 (slice_bytes (buf p1)))
          in if \<not> ok1 then (Some v1, p1, Some WriteErr)
             else let (v2, ok2) = wr v1 (take (unat (plength p)) (slice_bytes (content p1)))
                  in (Some v2, p1, if ok2 then None else Some WriteErr))"

definition basePackager_UnPack ::
  "byte list \<Rightarrow> muxPackager \<Rightarrow> u16 \<times> muxPackager \<times> byte list \<times> mux_err option" where
  "basePackager_UnPack r p =
     (let p0 = basePackager_reset p;
          (hd2, r1, e1) = read_full 2 r;
          p1 = p0\<lparr>buf := slice_write 5 hd2 (buf p0)\<rparr>
      in case e1 of Some e \<Rightarrow> (0, p1, r1, Some (IoErr e))
       | None \<Rightarrow>
         let n1 = (of_nat (length hd2) :: u16);
             len = (of_nat (le_dec (take 2 (drop 5 (slice_bytes (buf p1))))) :: u16);
             p2 = p1\<lparr>plength := len\<rparr>
         in if len = 0 then (n1, p2, r1, Some UnpackZeroLength)
            else if unat len > slice_cap (content p2) then (n1, p2, r1, Some UnpackLengthCap)
            else if unat len > maximumSegmentSize then (n1, p2, r1, Some UnpackTooLarge)
            else
              let p3 = p2\<lparr>content := reslice (content p2) (unat len)\<rparr>;
                  (body, r2, e2) = read_full (unat len) r1;
                  p4 = p3\<lparr>content := slice_write 0 body (content p3)\<rparr>
              in (n1 + of_nat (length body), p4, r2, map_option IoErr e2))"

subsection \<open>muxPackager\<close>

definition muxPackager_reset :: "muxPackager \<Rightarrow> muxPackager" where
  "muxPackager_reset p =
     p\<lparr>pid := 0, flag := 0, plength := 0, content := SNil, window := 0, buf := SNil\<rparr>"

text \<open>The flags whose frames carry a length-prefixed payload.\<close>

definition data_flag :: "u8 \<Rightarrow> bool" where
  "data_flag f \<longleftrightarrow> f = muxPingFlag \<or> f = muxPingReturn \<or> f = muxNewMsg \<or> f = muxNewMsgPart"

definition muxPackager_Set ::
  "u8 \<Rightarrow> i32 \<Rightarrow> iface \<Rightarrow> wpool \<Rightarrow> muxPackager \<Rightarrow> muxPackager \<times> wpool \<times> mux_err option" where
  "muxPackager_Set f i c pl p =
     (let (b, pl1) = windowBuff_Get pl;
          p1 = (muxPackager_reset p)\<lparr>buf := b, flag := f, pid := i\<rparr>
      in if data_flag f then
           let (b2, pl2) = windowBuff_Get pl1; p2 = p1\<lparr>content := b2\<rparr>
           in case c of
                IBytes data \<Rightarrow> let (p3, e) = basePackager_Set data p2 in (p3, pl2, e)
              | _ \<Rightarrow> (p2, pl2, Some ContentNotBytes)
         else if f = muxMsgSendOk then
           (case c of IUint64 w \<Rightarrow> (p1\<lparr>window := w\<rparr>, pl1, None)
            | _ \<Rightarrow> (p1, pl1, Some WindowNotUint64))
         else (p1, pl1, None))"

text \<open>The deferred part of \<open>Pack\<close> and the body of \<open>releaseMuxPack\<close>: give the buffers back.\<close>

definition give_back :: "muxPackager \<Rightarrow> wpool \<Rightarrow> muxPackager \<times> wpool" where
  "give_back p pl =
     (let (p1, pl1) = (if content p \<noteq> SNil then (p\<lparr>content := SNil\<rparr>, windowBuff_Put (content p) pl)
                       else (p, pl))
      in if buf p1 \<noteq> SNil then (p1\<lparr>buf := SNil\<rparr>, windowBuff_Put (buf p1) pl1) else (p1, pl1))"

definition muxPackager_Pack_body ::
  "('w \<Rightarrow> byte list \<Rightarrow> 'w \<times> bool) \<Rightarrow> 'w option \<Rightarrow> muxPackager
     \<Rightarrow> 'w option \<times> muxPackager \<times> mux_err option" where
  "muxPackager_Pack_body wr w p =
     (case w of None \<Rightarrow> (None, p, Some InvalidBuffer)
      | Some v \<Rightarrow>
        if slice_len (buf p) < 13 then (w, p, Some InvalidBuffer)
        else
          let p1 = p\<lparr>buf := slice_write 1 (le_enc 4 (unat (pid p)))
                       (slice_write 0 [flag p] (reslice (buf p) 13))\<rparr>
          in if data_flag (flag p) then basePackager_Pack wr w p1
             else if flag p = muxMsgSendOk then
               let p2 = p1\<lparr>buf := slice_write 5 (le_enc 8 (unat (window p))) (buf p1)\<rparr>;
                   (v1, ok) = wr v (take 13 (slice_bytes (buf p2)))
               in (Some v1, p2, if ok then None else Some WriteErr)
             else
               let (v1, ok) = wr v (take 5 (slice_bytes (buf p1)))
               in (Some v1, p1, if ok then None else Some WriteErr))"

definition muxPackager_Pack ::
  "('w \<Rightarrow> byte list \<Rightarrow> 'w \<times> bool) \<Rightarrow> 'w option \<Rightarrow> wpool \<Rightarrow> muxPackager
     \<Rightarrow> 'w option \<times> muxPackager \<times> wpool \<times> mux_err option" where
  "muxPackager_Pack wr w pl p =
     (let (w', p', e) = muxPackager_Pack_body wr w p;
          (p'', pl') = give_back p' pl
      in (w', p'', pl', e))"

definition muxPackager_UnPack ::
  "byte list \<Rightarrow> wpool \<Rightarrow> muxPackager \<Rightarrow> u16 \<times> muxPackager \<times> byte list \<times> wpool \<times> mux_err option" where
  "muxPackager_UnPack r pl p =
     (let (b, pl1) = windowBuff_Get pl;
          (h, r1, e1) = read_full 5 r;
          p1 = p\<lparr>buf := slice_write 0 h (reslice b 13)\<rparr>
      in case e1 of
           Some e \<Rightarrow> (0, p1\<lparr>buf := SNil\<rparr>, r1, windowBuff_Put (buf p1) pl1, Some (IoErr e))
         | None \<Rightarrow>
           let n1 = (of_nat (length h) :: u16);
               p2 = p1\<lparr>flag := slice_bytes (buf p1) ! 0,
                       pid := of_nat (le_dec (take 4 (drop 1 (slice_bytes (buf p1)))))\<rparr>
           in if data_flag (flag p2) then
                let (c, pl2) = windowBuff_Get pl1;
                    (m, p3, r2, e2) = basePackager_UnPack r1 (p2\<lparr>content := c\<rparr>)
                in (case e2 of
                      Some e \<Rightarrow> (n1, p3\<lparr>content := SNil, buf := SNil\<rparr>, r2,
                                windowBuff_Put (buf p3) (windowBuff_Put (content p3) pl2), Some e)
                    | None \<Rightarrow> (n1 + m, p3\<lparr>buf := SNil\<rparr>, r2, windowBuff_Put (buf p3) pl2, None))
              else if flag p2 = muxMsgSendOk then
                let (wb, r2, e2) = read_full 8 r1;
                    p3 = p2\<lparr>buf := slice_write 5 wb (buf p2)\<rparr>;
                    p4 = p3\<lparr>window := of_nat (le_dec (take 8 (drop 5 (slice_bytes (buf p3)))))\<rparr>
                in (n1 + of_nat (length wb), p4\<lparr>buf := SNil\<rparr>, r2, windowBuff_Put (buf p4) pl1,
                    map_option IoErr e2)
              else (n1, p2\<lparr>buf := SNil\<rparr>, r1, windowBuff_Put (buf p2) pl1, None))"

text \<open>\<open>muxPack.Put\<close> resets the packager before pooling it; \<open>releaseMuxPack\<close> of a non-nil packet.\<close>

definition releaseMuxPack :: "muxPackager \<Rightarrow> wpool \<Rightarrow> muxPackager \<times> wpool" where
  "releaseMuxPack p pl = (let (p', pl') = give_back p pl in (muxPackager_reset p', pl'))"

subsection \<open>The wire format\<close>

text \<open>
  The reference description of a frame, against which the packager is proved: five bytes of flag
  and stream id, then a two-byte length and the payload, or the eight bytes of an acknowledgement.
\<close>

datatype wire = WData u8 i32 "byte list" | WAck i32 u64 | WCtl u8 i32

fun encode_wire :: "wire \<Rightarrow> byte list" where
  "encode_wire (WData f i d) = f # le_enc 4 (unat i) @ le_enc 2 (length d) @ d"
| "encode_wire (WAck i w) = muxMsgSendOk # le_enc 4 (unat i) @ le_enc 8 (unat w)"
| "encode_wire (WCtl f i) = f # le_enc 4 (unat i)"

fun wire_ok :: "wire \<Rightarrow> bool" where
  "wire_ok (WData f i d) = (data_flag f \<and> 0 < length d \<and> length d \<le> maximumSegmentSize)"
| "wire_ok (WAck i w) = True"
| "wire_ok (WCtl f i) = (\<not> data_flag f \<and> f \<noteq> muxMsgSendOk)"

definition wire_of :: "muxPackager \<Rightarrow> wire" where
  "wire_of p = (if data_flag (flag p) then WData (flag p) (pid p) (slice_bytes (content p))
                else if flag p = muxMsgSendOk then WAck (pid p) (window p)
                else WCtl (flag p) (pid p))"

text \<open>A packager that is ready to be written.\<close>

definition pack_ready :: "muxPackager \<Rightarrow> bool" where
  "pack_ready p \<longleftrightarrow> pool_buf (buf p) \<and> slice_len (buf p) = poolSizeWindow \<and>
     (if data_flag (flag p)
      then pool_buf (content p) \<and> unat (plength p) = slice_len (content p) \<and> 0 < slice_len (content p)
      else content p = SNil)"

lemma data_flag_ack [simp]: "\<not> data_flag muxMsgSendOk"
  by (simp add: data_flag_def mux_flag_defs)

lemma Get_pool_buf:
  "pool_ok pl \<Longrightarrow> windowBuff_Get pl = (b, pl') \<Longrightarrow>
     pool_buf b \<and> slice_len b = poolSizeWindow \<and> pool_ok pl'"
  by (cases pl; cases "hd pl") (auto simp: pool_ok_def)

lemma Put_pool_ok: "pool_ok pl \<Longrightarrow> pool_buf b \<Longrightarrow> pool_ok (windowBuff_Put b pl)"
  by (cases b) (auto simp: pool_ok_def windowBuff_Put_def)

lemma pool_buf_cases:
  assumes "pool_buf b"
  obtains a n where "b = Slc a n" "length a = poolSizeWindow" "n \<le> poolSizeWindow"
  using assms by (cases b) auto

lemma wire_ok_wire_of: "pack_ready p \<Longrightarrow> wire_ok (wire_of p)"
  by (cases "content p") (auto simp: pack_ready_def wire_of_def maximumSegmentSize_def)

subsection \<open>Set, Pack and UnPack against the wire format\<close>


lemma header_bytes:
  "5 + length xs \<le> length a \<Longrightarrow>
     take (5 + length xs) (overwrite 5 xs (overwrite 1 (le_enc 4 i) (overwrite 0 [f] a)))
       = f # le_enc 4 i @ xs"
proof -
  assume l: "5 + length xs \<le> length a"
  have "overwrite 5 xs (overwrite 1 (le_enc 4 i) (overwrite 0 [f] a))
    = (f # le_enc 4 i @ xs) @ drop (5 + length xs) (overwrite 1 (le_enc 4 i) (overwrite 0 [f] a))"
    using l by (cases a) (auto simp: overwrite_def)
  moreover have "5 + length xs = length (f # le_enc 4 i @ xs)"
    by simp
  ultimately show ?thesis
    by (metis append_eq_conv_conj)
qed

lemma header_bytes5:
  "5 \<le> length a \<Longrightarrow> take 5 (overwrite 1 (le_enc 4 i) (overwrite 0 [f] a)) = f # le_enc 4 i"
  by (cases a) (auto simp: overwrite_def)

lemma basePackager_Set_ok:
  assumes "pool_buf (content p)" "slice_ok data" "data \<noteq> SNil"
    "0 < slice_len data" "slice_len data \<le> maximumSegmentSize"
  shows "\<exists>c. basePackager_Set data p = (p\<lparr>plength := of_nat (slice_len data), content := c\<rparr>, None) \<and>
     pool_buf c \<and> slice_len c = slice_len data \<and> slice_bytes c = slice_bytes data"
proof -
  obtain a n where c: "content p = Slc a n" "length a = poolSizeWindow"
    using assms(1) by (rule pool_buf_cases)
  let ?c = "Slc (overwrite 0 (slice_bytes data) a) (slice_len data)"
  have l: "length (slice_bytes data) = slice_len data"
    using assms(2) by (rule slice_len_bytes)
  have "basePackager_Set data p = (p\<lparr>plength := of_nat (slice_len data), content := ?c\<rparr>, None)"
    using assms c by (simp add: basePackager_Set_def basePackager_reset_def
        basePackager_setLength_def maximumSegmentSize_def Let_def)
  moreover have "pool_buf ?c"
    using assms(5) c l by (simp add: maximumSegmentSize_def)
  moreover have "slice_bytes ?c = slice_bytes data"
    using take_overwrite_0 [of "slice_bytes data" a] l by simp
  ultimately show ?thesis by auto
qed

lemma basePackager_Set_rejects:
  "snd (basePackager_Set data p) =
     (if data = SNil then Some NewpackNil else if slice_len data = 0 then Some NewpackZero
      else if slice_len data > maximumSegmentSize then Some NewpackTooLarge else None)"
  by (simp add: basePackager_Set_def Let_def)

definition iface_wire :: "u8 \<Rightarrow> i32 \<Rightarrow> iface \<Rightarrow> wire" where
  "iface_wire f i c =
     (case c of IBytes d \<Rightarrow> WData f i (slice_bytes d) | IUint64 w \<Rightarrow> WAck i w | INil \<Rightarrow> WCtl f i)"

fun iface_fits :: "u8 \<Rightarrow> iface \<Rightarrow> bool" where
  "iface_fits f (IBytes d) = (data_flag f \<and> d \<noteq> SNil \<and> slice_ok d \<and>
     0 < slice_len d \<and> slice_len d \<le> maximumSegmentSize)"
| "iface_fits f (IUint64 w) = (f = muxMsgSendOk)"
| "iface_fits f INil = (\<not> data_flag f \<and> f \<noteq> muxMsgSendOk)"

lemma MSS_u16: "n \<le> maximumSegmentSize \<Longrightarrow> unat (of_nat n :: u16) = n"
  by (simp add: mux_size_defs unat_of_nat)

lemma muxPackager_Set_ok:
  assumes "pool_ok pl" "iface_fits f c" "muxPackager_Set f i c pl p = (p', pl', e)"
  shows "e = None \<and> pack_ready p' \<and> wire_of p' = iface_wire f i c \<and> pool_ok pl'"
proof -
  obtain b pl1 where b: "windowBuff_Get pl = (b, pl1)" by fastforce
  obtain b2 pl2 where b2: "windowBuff_Get pl1 = (b2, pl2)" by fastforce
  note B = Get_pool_buf [OF assms(1) b]
  have B2: "pool_buf b2 \<and> slice_len b2 = poolSizeWindow \<and> pool_ok pl2"
    using Get_pool_buf b2 B by blast
  show ?thesis
  proof (cases c)
    case INil
    with assms b B show ?thesis
      by (auto simp: muxPackager_Set_def muxPackager_reset_def pack_ready_def wire_of_def iface_wire_def)
  next
    case (IUint64 w)
    with assms b B show ?thesis
      by (auto simp: muxPackager_Set_def muxPackager_reset_def pack_ready_def wire_of_def iface_wire_def)
  next
    case (IBytes d)
    let ?p2 = "(muxPackager_reset p)\<lparr>buf := b, flag := f, pid := i, content := b2\<rparr>"
    have "pool_buf (content ?p2)" using B2 by simp
    with IBytes assms(2) obtain c' where
      S: "basePackager_Set d ?p2 = (?p2\<lparr>plength := of_nat (slice_len d), content := c'\<rparr>, None)"
         "pool_buf c'" "slice_len c' = slice_len d" "slice_bytes c' = slice_bytes d"
      using basePackager_Set_ok [of ?p2 d] by auto
    then show ?thesis
      using IBytes assms b b2 B B2 MSS_u16
      by (auto simp: muxPackager_Set_def pack_ready_def wire_of_def iface_wire_def)
  qed
qed

lemma muxPackager_Pack_writes:
  assumes ok: "\<And>v bs. snd (wr v bs)" and app: "\<And>v bs. written (fst (wr v bs)) = written v @ bs"
    and "pack_ready p" and P: "muxPackager_Pack wr (Some w) pl p = (w', p', pl', e)"
  shows "e = None \<and> (\<exists>v. w' = Some v \<and> written v = written w @ encode_wire (wire_of p))"
proof -
  have wr: "wr v bs = (v', b) \<Longrightarrow> b \<and> written v' = written v @ bs" for v bs v' b
    using ok [of v bs] app [of v bs] by simp
  obtain a n where a: "buf p = Slc a n" "length a = poolSizeWindow" "n = poolSizeWindow"
    using assms(3) by (auto simp: pack_ready_def elim: pool_buf_cases)
  have l: "13 \<le> length a" using a by (simp add: mux_size_defs)
  have l7: "take 7 (overwrite 5 (le_enc 2 k) (overwrite 1 (le_enc 4 i) (overwrite 0 [f] a)))
      = f # le_enc 4 i @ le_enc 2 k" for f i k
    using header_bytes [of "le_enc 2 k" a i f] l by simp
  have l13: "take 13 (overwrite 5 (le_enc 8 k) (overwrite 1 (le_enc 4 i) (overwrite 0 [f] a)))
      = f # le_enc 4 i @ le_enc 8 k" for f i k
    using header_bytes [of "le_enc 8 k" a i f] l by simp
  have len: "slice_len (buf p) = 4085" using a by (simp add: mux_size_defs)
  show ?thesis
  proof (cases "data_flag (flag p)")
    case True
    then obtain d m where d: "content p = Slc d m" "m \<le> length d" "unat (plength p) = m"
      using assms(3) by (auto simp: pack_ready_def elim: pool_buf_cases)
    from P True a len d l7 show ?thesis
      by (auto simp: muxPackager_Pack_def muxPackager_Pack_body_def basePackager_Pack_def Let_def wire_of_def take_take min_def
          split: prod.splits if_splits dest!: wr)
  next
    case False
    with P a len l header_bytes5 [of a] l13 show ?thesis
      by (auto simp: muxPackager_Pack_def muxPackager_Pack_body_def Let_def wire_of_def take_take min_def
          split: prod.splits if_splits dest!: wr)
  qed
qed

lemma give_back_owns_nothing:
  "give_back p pl = (p', pl') \<Longrightarrow> content p' = SNil \<and> buf p' = SNil"
  by (auto simp: give_back_def Let_def split: if_splits)

definition owned :: "muxPackager \<Rightarrow> nat" where
  "owned p = (if content p = SNil then 0 else 1) + (if buf p = SNil then 0 else 1)"

lemma give_back_length: "give_back p pl = (p', pl') \<Longrightarrow> length pl' = length pl + owned p"
  by (auto simp: give_back_def owned_def windowBuff_Put_def Let_def split: if_splits)

lemma slice_nil_iff [simp]:
  "(slice_write off bs s = SNil) = (s = SNil)" "(reslice s n = SNil) = (s = SNil)"
  by (cases s; simp)+

lemma Pack_body_owned:
  "muxPackager_Pack_body wr w p = (w', p', e) \<Longrightarrow> owned p' = owned p"
  by (auto simp: muxPackager_Pack_body_def basePackager_Pack_def Let_def owned_def
      split: option.splits prod.splits if_splits)

lemma Pack_releases:
  assumes "muxPackager_Pack wr w pl p = (w', p', pl', e)"
  shows "owned p' = 0 \<and> length pl' = length pl + owned p"
proof -
  obtain w1 p1 e1 where B: "muxPackager_Pack_body wr w p = (w1, p1, e1)"
    by (metis prod_cases3)
  obtain p2 pl2 where G: "give_back p1 pl = (p2, pl2)" by fastforce
  from assms B G have "p' = p2" "pl' = pl2" by (auto simp: muxPackager_Pack_def)
  with give_back_owns_nothing [OF G] give_back_length [OF G] Pack_body_owned [OF B]
  show ?thesis by (simp add: owned_def)
qed


text \<open>What \<open>UnPack\<close> sees in its header buffer after reading the first five bytes.\<close>

lemma header_read:
  assumes "length a = poolSizeWindow" "length t = 4"
  shows "take 13 (overwrite 0 (f # t) a) ! 0 = f"
    "take 4 (drop 1 (take 13 (overwrite 0 (f # t) a))) = t"
  using assms by (auto simp: overwrite_def)

lemma header_reread:
  assumes "length a = poolSizeWindow" "length xs \<le> 8"
  shows "take (length xs) (drop 5 (take 13 (overwrite 5 xs a))) = xs"
  using assms by (simp add: overwrite_def mux_size_defs)

lemma base_UnPack_ok:
  assumes "pool_buf (content p)" "slice_len (content p) = poolSizeWindow"
    "buf p = Slc a 13" "length a = poolSizeWindow"
    "0 < length d" "length d \<le> maximumSegmentSize"
  shows "\<exists>a' c. basePackager_UnPack (le_enc 2 (length d) @ d @ rest) p =
      (of_nat (2 + length d), p\<lparr>buf := Slc a' 13, plength := of_nat (length d), content := c\<rparr>, rest, None)
     \<and> length a' = poolSizeWindow \<and> pool_buf c \<and> slice_bytes c = d"
proof -
  obtain b where b: "content p = Slc b poolSizeWindow" "length b = poolSizeWindow"
    using assms(1,2) by (cases "content p") auto
  have lt: "length d < 256 ^ 2" using assms(6) by (simp add: mux_size_defs)
  let ?a = "overwrite 5 (le_enc 2 (length d)) a"
  have hdr: "take 2 (drop 5 (take 13 ?a)) = le_enc 2 (length d)"
    using header_reread [OF assms(4), of "le_enc 2 (length d)"] by simp
  have u: "unat (of_nat (length d) :: u16) = length d"
    using assms(6) by (rule MSS_u16)
  have nz: "(of_nat (length d) :: u16) \<noteq> 0"
    using u assms(5) by (metis unat_0 less_numeral_extra(3))
  have "basePackager_UnPack (le_enc 2 (length d) @ d @ rest) p =
      (2 + of_nat (length d), p\<lparr>buf := Slc ?a 13, plength := of_nat (length d),
          content := Slc (overwrite 0 d b) (length d)\<rparr>, rest, None)"
    using assms(3,4,6) b hdr u nz lt
    by (simp add: basePackager_UnPack_def basePackager_reset_def Let_def le_dec_enc
        maximumSegmentSize_def)
  moreover have "length ?a = poolSizeWindow"
    using assms(4) by (simp add: mux_size_defs)
  moreover have "pool_buf (Slc (overwrite 0 d b) (length d))"
    using b assms(6) by (simp add: maximumSegmentSize_def)
  moreover have "slice_bytes (Slc (overwrite 0 d b) (length d)) = d"
    by simp
  moreover have "(2 + of_nat (length d) :: u16) = of_nat (2 + length d)"
    by simp
  ultimately show ?thesis by metis
qed

lemma UnPack_encode:
  assumes "pool_ok pl" "wire_ok m"
  shows "\<exists>p' pl'. muxPackager_UnPack (encode_wire m @ rest) pl p
      = (of_nat (length (encode_wire m)), p', rest, pl', None)
     \<and> wire_of p' = m \<and> buf p' = SNil \<and> pool_ok pl'"
proof -
  obtain b pl1 where b: "windowBuff_Get pl = (b, pl1)" by fastforce
  note B = Get_pool_buf [OF assms(1) b]
  obtain a n where a: "b = Slc a n" "length a = poolSizeWindow"
    using B by (auto elim: pool_buf_cases)
  have ov: "length (overwrite 0 (f # le_enc 4 i) a) = poolSizeWindow" for f i
    using a by (simp add: mux_size_defs)
  have put: "length a' = poolSizeWindow \<Longrightarrow> pool_ok pl0 \<Longrightarrow> pool_ok (windowBuff_Put (Slc a' 13) pl0)" for a' pl0
    using Put_pool_ok [of pl0 "Slc a' 13"] by (simp add: mux_size_defs)
  note hdr = header_read [OF a(2), of "le_enc 4 _", simplified]
  show ?thesis
  proof (cases m)
    case (WData f i d)
    obtain c pl2 where c: "windowBuff_Get pl1 = (c, pl2)" by fastforce
    have C: "pool_buf c" "slice_len c = poolSizeWindow" "pool_ok pl2"
      using Get_pool_buf [OF _ c] B by auto
    let ?p = "p\<lparr>buf := Slc (overwrite 0 (f # le_enc 4 (unat i)) a) 13, flag := f, pid := i, content := c\<rparr>"
    have q: "pool_buf (content ?p)" "slice_len (content ?p) = poolSizeWindow"
      "buf ?p = Slc (overwrite 0 (f # le_enc 4 (unat i)) a) 13" "0 < length d" "length d \<le> maximumSegmentSize"
      using C WData assms(2) by simp_all
    obtain a' c' where U: "basePackager_UnPack (le_enc 2 (length d) @ d @ rest) ?p =
      (of_nat (2 + length d), ?p\<lparr>buf := Slc a' 13, plength := of_nat (length d), content := c'\<rparr>, rest, None)"
      "length a' = poolSizeWindow" "pool_buf c'" "slice_bytes c' = d"
      using base_UnPack_ok [OF q(1-3) ov q(4,5)] by blast
    have "muxPackager_UnPack (encode_wire m @ rest) pl p =
        (of_nat (length (encode_wire m)),
         ?p\<lparr>buf := SNil, plength := of_nat (length d), content := c'\<rparr>, rest,
         windowBuff_Put (Slc a' 13) pl2, None)"
      using WData assms(2) a b c U hdr
      by (simp add: muxPackager_UnPack_def Let_def read_full_append [where bs = "f # le_enc 4 (unat i)", simplified])
    then show ?thesis
      using U WData assms(2) C put by (auto simp: wire_of_def)
  next
    case (WAck i w)
    let ?a = "overwrite 0 (muxMsgSendOk # le_enc 4 (unat i)) a"
    have "take 8 (drop 5 (take 13 (overwrite 5 (le_enc 8 (unat w)) ?a))) = le_enc 8 (unat w)"
      using header_reread [of ?a "le_enc 8 (unat w)"] ov by simp
    with WAck a b hdr B ov put show ?thesis
      by (simp add: muxPackager_UnPack_def Let_def wire_of_def
          read_full_append [where bs = "muxMsgSendOk # le_enc 4 (unat i)", simplified] mux_size_defs)
  next
    case (WCtl f i)
    with assms(2) a b hdr B ov put show ?thesis
      by (simp add: muxPackager_UnPack_def Let_def wire_of_def
          read_full_append [where bs = "f # le_enc 4 (unat i)", simplified])
  qed
qed


lemma read_full_cases:
  assumes "read_full n r = (h, r1, e)"
  obtains "e = None" "r = h @ r1" "length h = n"
  | x where "e = Some x" "h = r" "length r < n" "r1 = []"
  using assms by (cases "n \<le> length r") (auto simp: read_full_def)

lemma overwrite_pool:
  "length a = poolSizeWindow \<Longrightarrow> off + length bs \<le> 13 \<Longrightarrow> length (overwrite off bs a) = poolSizeWindow"
  by (simp add: mux_size_defs)

lemma base_UnPack_shape:
  assumes U: "basePackager_UnPack r p = (n, p', r', e)"
    and p: "buf p = Slc a 13" "length a = poolSizeWindow" "pool_buf (content p)"
  shows "\<exists>a' l c. p' = p\<lparr>buf := Slc a' 13, plength := l, content := c\<rparr> \<and> length a' = poolSizeWindow \<and>
     pool_buf c \<and> (e = None \<longrightarrow> 0 < slice_len c \<and> slice_len c \<le> maximumSegmentSize \<and>
        r = le_enc 2 (slice_len c) @ slice_bytes c @ r')"
proof -
  obtain b m where b: "content p = Slc b m" "length b = poolSizeWindow"
    using p(3) by (rule pool_buf_cases)
  obtain h r1 e1 where R: "read_full 2 r = (h, r1, e1)" by (metis prod_cases3)
  from R show ?thesis
  proof (cases rule: read_full_cases)
    case (2 x)
    with U R p b have "p' = p\<lparr>buf := Slc (overwrite 5 h a) 13, plength := 0, content := Slc b 0\<rparr>"
      and "e = Some (IoErr x)"
      by (auto simp: basePackager_UnPack_def basePackager_reset_def Let_def)
    moreover have "length (overwrite 5 h a) = poolSizeWindow"
      using overwrite_pool [OF p(2), of 5 h] 2 by simp
    moreover have "pool_buf (Slc b 0)" using b by simp
    ultimately show ?thesis by blast
  next
    case 1
    let ?a = "overwrite 5 h a" and ?len = "of_nat (le_dec h) :: u16"
    have h: "take 2 (drop 5 (take 13 ?a)) = h"
      using header_reread [OF p(2), of h] 1 by simp
    have la: "length ?a = poolSizeWindow" using p(2) 1 by (simp add: overwrite_pool)
    have lb: "le_dec h < 2 ^ 16" using le_dec_bound [of h] 1 by simp
    have ul: "unat ?len = le_dec h" using lb by (simp add: unat_of_nat)
    obtain body r2 e2 where R2: "read_full (unat ?len) r1 = (body, r2, e2)" by (metis prod_cases3)
    let ?q = "p\<lparr>buf := Slc ?a 13, plength := ?len, content := Slc b 0\<rparr>"
    show ?thesis
    proof (cases "?len = 0 \<or> unat ?len > length b \<or> unat ?len > maximumSegmentSize")
      case True
      then have "p' = ?q \<and> e \<noteq> None"
        using U R p b 1 h
        by (auto simp: basePackager_UnPack_def basePackager_reset_def Let_def split: if_splits)
      moreover have "pool_buf (Slc b 0)" using b by simp
      ultimately show ?thesis using la by blast
    next
      case False
      let ?c = "Slc (overwrite 0 body b) (unat ?len)"
      have P: "p' = ?q\<lparr>content := ?c\<rparr>" "r' = r2" "e = map_option IoErr e2"
        using U R R2 p b 1 h False
        by (auto simp: basePackager_UnPack_def basePackager_reset_def Let_def)
      have bl: "length body \<le> unat ?len"
        using R2 by (cases rule: read_full_cases) auto
      have c: "pool_buf ?c"
        using bl b False by (simp add: maximumSegmentSize_def)
      have "0 < unat ?len" using False by (metis neq0_conv unat_eq_zero)
      moreover have "r = le_enc 2 (unat ?len) @ take (unat ?len) (overwrite 0 body b) @ r'" if "e = None"
      proof -
        have "e2 = None" using P(3) that by simp
        from R2 this have "r1 = body @ r2" "length body = unat ?len"
          by (auto elim: read_full_cases)
        moreover have "le_enc 2 (unat ?len) = h" using ul 1 le_enc_dec [of h 2] by simp
        ultimately show ?thesis using 1 P(2) take_overwrite_0 [of body b] by simp
      qed
      ultimately have "0 < slice_len ?c \<and> slice_len ?c \<le> maximumSegmentSize \<and>
         (e = None \<longrightarrow> r = le_enc 2 (slice_len ?c) @ slice_bytes ?c @ r')"
        using False by simp
      with P(1) la c show ?thesis by (intro exI [of _ ?a] exI [of _ ?len] exI [of _ ?c]) simp
    qed
  qed
qed

lemma UnPack_sound:
  assumes "pool_ok pl" "content p = SNil"
    and U: "muxPackager_UnPack r pl p = (n, p', r', pl', e)"
  shows "buf p' = SNil \<and> pool_ok pl' \<and> (e \<noteq> None \<longrightarrow> content p' = SNil) \<and>
     (e = None \<longrightarrow> wire_ok (wire_of p') \<and> r = encode_wire (wire_of p') @ r')"
proof -
  obtain b pl1 where b: "windowBuff_Get pl = (b, pl1)" by fastforce
  note B = Get_pool_buf [OF assms(1) b]
  obtain a m where a: "b = Slc a m" "length a = poolSizeWindow"
    using B by (auto elim: pool_buf_cases)
  have put: "length a' = poolSizeWindow \<Longrightarrow> pool_ok pl0 \<Longrightarrow> pool_ok (windowBuff_Put (Slc a' 13) pl0)" for a' pl0
    using Put_pool_ok [of pl0 "Slc a' 13"] by (simp add: mux_size_defs)
  obtain h r1 e1 where R: "read_full 5 r = (h, r1, e1)" by (metis prod_cases3)
  from R show ?thesis
  proof (cases rule: read_full_cases)
    case (2 x)
    with U R a b assms(2) B put overwrite_pool [OF a(2), of 0 h] show ?thesis
      by (auto simp: muxPackager_UnPack_def Let_def)
  next
    case 1
    then obtain f t where h: "h = f # t" "length t = 4" by (cases h) auto
    let ?i = "of_nat (le_dec t) :: i32" and ?a = "overwrite 0 h a"
    have la: "length ?a = poolSizeWindow" using a(2) 1 by (simp add: overwrite_pool)
    have "le_dec t < 2 ^ 32" using le_dec_bound [of t] h by simp
    then have i: "le_enc 4 (unat ?i) = t" using h le_enc_dec [of t 4] by (simp add: unat_of_nat)
    note hdr = header_read [OF a(2) h(2), of f]
    let ?p = "p\<lparr>buf := Slc ?a 13, flag := f, pid := ?i\<rparr>"
    consider (data) "data_flag f" | (ack) "\<not> data_flag f" "f = muxMsgSendOk"
      | (ctl) "\<not> data_flag f" "f \<noteq> muxMsgSendOk" by blast
    then show ?thesis
    proof cases
      case data
      obtain c pl2 where c: "windowBuff_Get pl1 = (c, pl2)" by fastforce
      have C: "pool_buf c" "pool_ok pl2" using Get_pool_buf [OF _ c] B by auto
      obtain k q r2 e2 where W: "basePackager_UnPack r1 (?p\<lparr>content := c\<rparr>) = (k, q, r2, e2)"
        by (metis prod_cases4)
      obtain a' l c' where q: "q = ?p\<lparr>buf := Slc a' 13, plength := l, content := c'\<rparr>"
        "length a' = poolSizeWindow" "pool_buf c'"
        "e2 = None \<longrightarrow> 0 < slice_len c' \<and> slice_len c' \<le> maximumSegmentSize \<and>
           r1 = le_enc 2 (slice_len c') @ slice_bytes c' @ r2"
        using base_UnPack_shape [OF W, of ?a] la C(1) by auto
      have cl: "length (slice_bytes c') = slice_len c'" using q(3) by (cases c') auto
      show ?thesis
      proof (cases e2)
        case None
        then have "p' = q\<lparr>buf := SNil\<rparr>" "r' = r2" "e = None" "pl' = windowBuff_Put (Slc a' 13) pl2"
          using U R 1 a b c h hdr data W q(1) by (auto simp: muxPackager_UnPack_def Let_def)
        with q None data cl 1 h i put C(2) show ?thesis by (simp add: wire_of_def)
      next
        case (Some x)
        then have "p' = q\<lparr>content := SNil, buf := SNil\<rparr>" "e = Some x"
          "pl' = windowBuff_Put (Slc a' 13) (windowBuff_Put c' pl2)"
          using U R 1 a b c h hdr data W q(1) by (auto simp: muxPackager_UnPack_def Let_def)
        with q put C(2) Put_pool_ok [of pl2 c'] show ?thesis by simp
      qed
    next
      case ack
      obtain wb r2 e2 where R2: "read_full 8 r1 = (wb, r2, e2)" by (metis prod_cases3)
      have lw: "length wb \<le> 8" using R2 by (cases rule: read_full_cases) auto
      let ?w = "of_nat (le_dec (take 8 (drop 5 (take 13 (overwrite 5 wb ?a))))) :: u64"
      have P: "p' = ?p\<lparr>window := ?w, buf := SNil\<rparr>" "r' = r2" "e = map_option IoErr e2"
        "pl' = windowBuff_Put (Slc (overwrite 5 wb ?a) 13) pl1"
        using U R R2 1 a b h hdr ack by (auto simp: muxPackager_UnPack_def Let_def)
      have "r1 = le_enc 8 (unat ?w) @ r2" if "e2 = None"
      proof -
        from R2 that have "r1 = wb @ r2" "length wb = 8" by (auto elim: read_full_cases)
        moreover have "le_enc 8 (unat ?w) = wb"
          using header_reread [OF la, of wb] \<open>length wb = 8\<close> le_dec_bound [of wb] le_enc_dec [of wb 8]
          by (simp add: unat_of_nat)
        ultimately show ?thesis by simp
      qed
      with P ack assms(2) 1 h i B put lw la overwrite_pool [OF la, of 5 wb] show ?thesis
        by (auto simp: wire_of_def)
    next
      case ctl
      with U R 1 a b h hdr have "p' = ?p\<lparr>buf := SNil\<rparr>" "r' = r1" "e = None"
        "pl' = windowBuff_Put (Slc ?a 13) pl1"
        by (auto simp: muxPackager_UnPack_def Let_def)
      with ctl 1 h i B put la show ?thesis by (simp add: wire_of_def)
    qed
  qed
qed


subsection \<open>Streams of frames\<close>

text \<open>One iteration of the read loop: a fresh packager and a reader, as in \<open>readSession\<close>.\<close>

definition fresh_pack :: muxPackager where
  "fresh_pack = \<lparr>flag = 0, pid = 0, window = 0, buf = SNil, plength = 0, content = SNil\<rparr>"

definition read_frame :: "byte list \<Rightarrow> (wire \<times> byte list) option" where
  "read_frame r = (case muxPackager_UnPack r [] fresh_pack of
      (n, p, r', pl, None) \<Rightarrow> Some (wire_of p, r') | _ \<Rightarrow> None)"

lemma pool_ok_Nil [simp]: "pool_ok []"
  by (simp add: pool_ok_def)

lemma read_frame_encode: "wire_ok m \<Longrightarrow> read_frame (encode_wire m @ rest) = Some (m, rest)"
  using UnPack_encode [OF pool_ok_Nil, of m rest fresh_pack] by (auto simp: read_frame_def)

interpretation frames: stream_codec encode_wire read_frame wire_ok
proof unfold_locales
  fix m rest
  assume "wire_ok m"
  then show "read_frame (encode_wire m @ rest) = Some (m, rest)" by (rule read_frame_encode)
next
  fix m
  show "encode_wire m \<noteq> []" by (cases m) simp_all
qed

text \<open>C3 Frame round trip: a packet built by \<open>Set\<close> from a payload of 1 to 4085 bytes, from a window
  value or from no payload, and written by \<open>Pack\<close> to a writer that accepts its bytes, is read back by
  \<open>UnPack\<close> with the same flag, stream id and payload, whatever follows it on the stream and whatever
  the pools held; the count \<open>UnPack\<close> returns is the number of bytes written.\<close>

theorem mux_frame_roundtrip:
  assumes "pool_ok pl" "pool_ok pl2" "iface_fits f c"
    and "\<And>v bs. snd (wr v bs)" and "\<And>v bs. written (fst (wr v bs)) = written v @ bs"
  shows "case muxPackager_Set f i c pl p of (p1, pl1, e1) \<Rightarrow> e1 = None \<and>
     (case muxPackager_Pack wr (Some w) pl1 p1 of (w', p2, _, e2) \<Rightarrow> e2 = None \<and>
       (\<exists>v bs q pl'. w' = Some v \<and> written v = written w @ bs \<and>
         muxPackager_UnPack (bs @ rest) pl2 p0 = (of_nat (length bs), q, rest, pl', None) \<and>
         wire_of q = iface_wire f i c))"
proof -
  obtain p1 pl1 e1 where S: "muxPackager_Set f i c pl p = (p1, pl1, e1)" by (metis prod_cases3)
  note s = muxPackager_Set_ok [OF assms(1,3) S]
  obtain w' p2 pl' e2 where P: "muxPackager_Pack wr (Some w) pl1 p1 = (w', p2, pl', e2)"
    by (metis prod_cases4)
  have ready: "pack_ready p1" using s by simp
  have k: "e2 = None \<and> (\<exists>v. w' = Some v \<and> written v = written w @ encode_wire (wire_of p1))"
    using ready P by (rule muxPackager_Pack_writes [where wr = wr and written = written, OF assms(4,5)])
  have ok: "wire_ok (wire_of p1)" using ready by (rule wire_ok_wire_of)
  show ?thesis
    using S P s k UnPack_encode [OF assms(2) ok, of rest p0] by auto
qed

theorem mux_frame_roundtrip_witness:
  "case muxPackager_Set muxConnClose 7 INil [] fresh_pack of (p1, pl1, e1) \<Rightarrow> e1 = None \<and>
     (case muxPackager_Pack (\<lambda>v bs. (v @ bs, True)) (Some []) pl1 p1 of (w', p2, _, e2) \<Rightarrow> e2 = None \<and>
       (\<exists>v bs q pl'. w' = Some v \<and> v = [] @ bs \<and>
         muxPackager_UnPack (bs @ [1, 2]) [] fresh_pack = (of_nat (length bs), q, [1, 2], pl', None) \<and>
         wire_of q = WCtl muxConnClose 7))"
proof -
  have "iface_fits muxConnClose INil"
    by (simp add: data_flag_def mux_flag_defs)
  moreover have "iface_wire muxConnClose 7 INil = WCtl muxConnClose 7"
    by (simp add: iface_wire_def)
  ultimately show ?thesis
    using mux_frame_roundtrip [where pl = "[]" and ?pl2.0 = "[]" and f = muxConnClose and c = INil and
        wr = "\<lambda>v bs. (v @ bs, True)" and written = "\<lambda>v. v" and i = 7 and p = fresh_pack and
        w = "[]" and rest = "[1, 2]" and ?p0.0 = fresh_pack]
    by simp
qed

text \<open>\<open>UnPack\<close> accepts nothing but well-formed frames and leaks no buffer: when it returns no error,
  the bytes it consumed are exactly the canonical encoding of the packet it delivers, whose payload
  has 1 to 4085 bytes; when it returns an error, the packager keeps no payload; in both cases the
  header buffer is back in the pool.\<close>

theorem mux_unpack_exact:
  assumes "pool_ok pl" "content p = SNil"
    and "muxPackager_UnPack r pl p = (n, p', r', pl', e)"
  shows "buf p' = SNil \<and> pool_ok pl' \<and> (e \<noteq> None \<longrightarrow> content p' = SNil) \<and>
     (e = None \<longrightarrow> wire_ok (wire_of p') \<and> r = encode_wire (wire_of p') @ r')"
  using assms by (rule UnPack_sound)

theorem mux_unpack_exact_witness:
  "pool_ok [] \<and> content fresh_pack = SNil \<and>
   (\<exists>n p' r' pl'. muxPackager_UnPack [7, 1, 0, 0, 0, 9] [] fresh_pack = (n, p', r', pl', None) \<and>
      buf p' = SNil \<and> [7, 1, 0, 0, 0, 9] = encode_wire (wire_of p') @ r')"
proof -
  have ok: "wire_ok (WCtl 7 1)" by (simp add: data_flag_def mux_flag_defs)
  have e: "encode_wire (WCtl 7 1) @ [9] = [7, 1, 0, 0, 0, 9]"
    by code_simp
  obtain p' pl' where U: "muxPackager_UnPack (encode_wire (WCtl 7 1) @ [9]) [] fresh_pack
      = (of_nat (length (encode_wire (WCtl 7 1))), p', [9], pl', None)"
    using UnPack_encode [OF pool_ok_Nil ok, of "[9]" fresh_pack] by blast
  have f: "content fresh_pack = SNil" by (simp add: fresh_pack_def)
  show ?thesis
    using mux_unpack_exact [OF pool_ok_Nil f U] U f e by auto
qed

text \<open>Streams: the read loop decodes the concatenation of any sequence of well-formed frames into
  exactly that sequence, and no byte string is the concatenation of two different sequences.\<close>

theorem mux_stream_decodes:
  assumes "list_all wire_ok ms"
  shows "dec_stream read_frame (length ms) (concat (map encode_wire ms) @ rest) = Some (ms, rest) \<and>
    (\<forall>ms'. list_all wire_ok ms' \<longrightarrow> concat (map encode_wire ms') = concat (map encode_wire ms) \<longrightarrow> ms' = ms)"
  using frames.dec_stream_enc [OF assms] frames.stream_unique assms by blast

theorem mux_stream_decodes_witness:
  "dec_stream read_frame 2 (concat (map encode_wire [WCtl muxNewConn 3, WAck 3 77]) @ [1])
     = Some ([WCtl muxNewConn 3, WAck 3 77], [1])"
proof -
  have ok: "list_all wire_ok [WCtl muxNewConn 3, WAck 3 77]"
    by (simp add: data_flag_def mux_flag_defs)
  show ?thesis using mux_stream_decodes [OF ok, of "[1]"] by (simp add: numeral_2_eq_2)
qed

text \<open>Truncation: on a stream that ends inside a frame \<open>UnPack\<close> returns an error.\<close>

theorem mux_unpack_truncated:
  assumes "pool_ok pl" "content p = SNil" "wire_ok m" "encode_wire m = r @ s" "s \<noteq> []"
  shows "\<exists>n p' r' pl' e. muxPackager_UnPack r pl p = (n, p', r', pl', Some e)"
proof -
  obtain n p' r' pl' e where U: "muxPackager_UnPack r pl p = (n, p', r', pl', e)"
    by (metis prod_cases5)
  have "e \<noteq> None"
  proof
    assume "e = None"
    then have "wire_ok (wire_of p')" "r = encode_wire (wire_of p') @ r'"
      using UnPack_sound [OF assms(1,2) U] by auto
    with frames.enc_inj [of m "wire_of p'" "[]" "r' @ s"] assms(3-5) show False by simp
  qed
  with U show ?thesis by auto
qed

theorem mux_unpack_truncated_witness:
  "\<exists>n p' r' pl' e. muxPackager_UnPack [7, 1, 0] [] fresh_pack = (n, p', r', pl', Some e)"
proof -
  have f: "content fresh_pack = SNil" by (simp add: fresh_pack_def)
  have ok: "wire_ok (WCtl 7 1)" by (simp add: data_flag_def mux_flag_defs)
  have e: "encode_wire (WCtl 7 1) = [7, 1, 0] @ [0, 0]"
    by code_simp
  show ?thesis using mux_unpack_truncated [OF pool_ok_Nil f ok e] by simp
qed

text \<open>Buffer ownership: whatever the outcome, after \<open>Pack\<close> the packager owns no pooled buffer and
  the pool has grown by exactly the buffers it owned before.\<close>

theorem mux_pack_releases:
  assumes "muxPackager_Pack wr w pl p = (w', p', pl', e)"
  shows "owned p' = 0 \<and> length pl' = length pl + owned p"
  using assms by (rule Pack_releases)

theorem mux_pack_releases_witness:
  "case muxPackager_Pack (\<lambda>v bs. (v, False)) (Some ()) [] (fresh_pack\<lparr>buf := Slc [] 0\<rparr>) of
     (w', p', pl', e) \<Rightarrow> owned p' = 0 \<and> length pl' = 1"
proof -
  obtain w' p' pl' e where P: "muxPackager_Pack (\<lambda>v bs. (v, False)) (Some ()) [] (fresh_pack\<lparr>buf := Slc [] 0\<rparr>)
      = (w', p', pl', e)" by (metis prod_cases4)
  show ?thesis using mux_pack_releases [OF P] P by (simp add: owned_def fresh_pack_def)
qed

end
