(* ===== verification/Mux_Queue.thy ===== *)
theory Mux_Queue
  imports Mux_Frame "HOL-Library.Multiset"
begin

text \<open>
  The queues of the multiplexer, \<open>lib/nps_mux/queue.go\<close>: the ring buffer \<open>bufDequeue\<close> with its packed
  head and tail indices, the growing chain \<open>bufChain\<close> of ring buffers, and the three queues built on
  it (\<open>priorityQueue\<close>, \<open>connQueue\<close>, \<open>receiveWindowQueue\<close>).

  All three queues call the chain with their mutex held, so a chain operation runs without
  interference: every compare-and-swap of the source succeeds at its first attempt, \<open>newChain\<close> is 0
  between operations, and the retry counters stay 0. The one loop that could still run forever is
  \<open>bufDequeue.popTail\<close> on an empty slot; the model returns \<open>None\<close> there, and the lemmas show that it
  never does. A chain is the list of its ring buffers from \<open>tail\<close> to \<open>head\<close>.
\<close>

subsection \<open>The ring buffer\<close>


record 'a bufDequeue =
  headTail :: u64
  vals :: "'a option list"
  dqStarving :: u32

definition dequeueBits :: nat where "dequeueBits = 32"
definition dequeueLimit :: nat where "dequeueLimit = (2 ^ dequeueBits) div 4"

definition bufDequeue_unpack :: "u64 \<Rightarrow> u32 \<times> u32" where
  "bufDequeue_unpack ptrs =
     (ucast (drop_bit dequeueBits ptrs AND mask dequeueBits), ucast (ptrs AND mask dequeueBits))"

definition bufDequeue_pack :: "u32 \<Rightarrow> u32 \<Rightarrow> u64" where
  "bufDequeue_pack head tail =
     push_bit dequeueBits (ucast head) OR ucast (tail AND mask dequeueBits)"

definition bufDequeue_pushHead :: "'a \<Rightarrow> 'a bufDequeue \<Rightarrow> 'a bufDequeue \<times> bool" where
  "bufDequeue_pushHead val d =
     (let (head, tail) = bufDequeue_unpack (headTail d); n = length (vals d) in
      if (tail + of_nat n) AND mask dequeueBits = head then (d, False)
      else (d\<lparr>headTail := bufDequeue_pack (head + 1) tail,
              vals := (vals d)[unat (head AND of_nat (n - 1)) := Some val]\<rparr>, True))"

definition bufDequeue_popTail :: "'a bufDequeue \<Rightarrow> ('a option \<times> 'a bufDequeue) option" where
  "bufDequeue_popTail d =
     (let (head, tail) = bufDequeue_unpack (headTail d); n = length (vals d) in
      if tail = head then Some (None, d)
      else
        let slot = unat (tail AND of_nat (n - 1)) in
        case vals d ! slot of
          None \<Rightarrow> None
        | Some v \<Rightarrow> Some (Some v,
            d\<lparr>vals := (vals d)[slot := None],
              headTail := headTail d + (if tail < - 1 then 1 else NOT (of_nat (2 ^ 32 - 1 - 1)))\<rparr>))"

definition newDequeue :: "nat \<Rightarrow> 'a bufDequeue" where
  "newDequeue n = \<lparr>headTail = 0, vals = replicate n None, dqStarving = 0\<rparr>"

lemma unpack_nat:
  "bufDequeue_unpack w = (of_nat (unat w div 2 ^ 32), of_nat (unat w mod 2 ^ 32))"
proof -
  have "unat w div 2 ^ 32 < 2 ^ 32" using unat_lt [of w] by simp
  then have "ucast (drop_bit 32 w AND mask 32 :: u64) = (of_nat (unat w div 2 ^ 32) :: u32)"
    by (simp add: word_unat_eq_iff unat_of_nat flip: take_bit_eq_mask
        add: unsigned_take_bit_eq unsigned_drop_bit_eq unsigned_ucast_eq take_bit_eq_mod drop_bit_eq_div
          unat_div_distrib unat_mod_distrib)
  moreover have "ucast (w AND mask 32 :: u64) = (of_nat (unat w mod 2 ^ 32) :: u32)"
    by (simp add: word_unat_eq_iff unat_of_nat flip: take_bit_eq_mask
        add: unsigned_take_bit_eq unsigned_ucast_eq take_bit_eq_mod unat_mod_distrib)
  ultimately show ?thesis by (simp add: bufDequeue_unpack_def dequeueBits_def)
qed

lemma unat_pack: "unat (bufDequeue_pack h t) = unat h * 2 ^ 32 + unat t"
proof -
  have m: "t AND mask 32 = t"
    by (simp add: take_bit_word_eq_self flip: take_bit_eq_mask)
  have "push_bit 32 (ucast h :: u64) + ucast t = push_bit 32 (ucast h) OR ucast t"
    by (rule disjunctive_add) (auto simp: bit_simps dest: bit_imp_le_length)
  then have "bufDequeue_pack h t = push_bit 32 (ucast h) + ucast t"
    by (simp add: bufDequeue_pack_def dequeueBits_def m)
  moreover have "unat (push_bit 32 (ucast h :: u64)) = unat h * 2 ^ 32"
    using unat_lt [of h] by (simp add: push_bit_eq_mult unat_word_ariths unsigned_ucast_eq take_bit_eq_mod)
  ultimately show ?thesis
    using unat_lt [of h] unat_lt [of t]
    by (simp add: unat_word_ariths unsigned_ucast_eq take_bit_eq_mod)
qed

lemma unpack_pack [simp]: "bufDequeue_unpack (bufDequeue_pack h t) = (h, t)"
  using unat_lt [of h] unat_lt [of t] by (simp add: unpack_nat unat_pack)

lemma pack_unpack: "bufDequeue_unpack w = (h, t) \<Longrightarrow> w = bufDequeue_pack h t"
proof -
  assume "bufDequeue_unpack w = (h, t)"
  then have h: "h = of_nat (unat w div 2 ^ 32)" and t: "t = of_nat (unat w mod 2 ^ 32)"
    by (simp_all add: unpack_nat)
  have "unat w div 2 ^ 32 < 2 ^ 32" using unat_lt [of w] by simp
  then have "unat h = unat w div 2 ^ 32" "unat t = unat w mod 2 ^ 32"
    unfolding h t by (simp_all add: unat_of_nat)
  then have "unat w = unat (bufDequeue_pack h t)" unfolding unat_pack by simp
  then show ?thesis by (simp add: word_unat_eq_iff)
qed

text \<open>Advancing the tail in the packed word: the carry of a wrapping tail does not reach the head.\<close>

lemma pack_tail_step:
  "bufDequeue_pack h t + (if t < - 1 then 1 else NOT (of_nat (2 ^ 32 - 1 - 1))) = bufDequeue_pack h (t + 1)"
proof (cases "t < - 1")
  case True
  then have "unat t + 1 < 2 ^ 32" by (simp add: word_less_nat_alt unsigned_minus_1_eq_mask mask_eq_exp_minus_1)
  then have "unat (t + 1) = unat t + 1" by (simp add: unat_word_ariths)
  then have "unat (bufDequeue_pack h t + 1) = unat (bufDequeue_pack h (t + 1))"
    using unat_lt [of h] \<open>unat t + 1 < 2 ^ 32\<close> by (simp add: unat_word_ariths unat_pack)
  with True show ?thesis by (simp add: word_unat_eq_iff)
next
  case False
  then have t: "t = - 1" by (metis word_order.not_eq_extremum)
  have u: "unat t = 2 ^ 32 - 1" using t by (simp add: unsigned_minus_1_eq_mask mask_eq_exp_minus_1)
  have k: "4294967295 \<le> bufDequeue_pack h t"
    using u by (simp add: word_le_nat_alt unat_pack)
  have "bufDequeue_pack h t + NOT (of_nat (2 ^ 32 - 1 - 1)) = bufDequeue_pack h t - 4294967295"
    by simp
  moreover have "unat (bufDequeue_pack h t - 4294967295) = unat (bufDequeue_pack h (t + 1))"
    using unat_sub [OF k] u t by (simp add: unat_pack)
  ultimately have "unat (bufDequeue_pack h t + NOT (of_nat (2 ^ 32 - 1 - 1))) = unat (bufDequeue_pack h (t + 1))"
    by simp
  with False show ?thesis by (simp only: if_False word_unat_eq_iff)
qed


subsection \<open>The ring buffer as a list\<close>

definition dq_size :: "'a bufDequeue \<Rightarrow> nat" where
  "dq_size d = (let (h, t) = bufDequeue_unpack (headTail d) in unat (h - t))"

definition dq_slot :: "'a bufDequeue \<Rightarrow> nat \<Rightarrow> nat" where
  "dq_slot d i = (unat (snd (bufDequeue_unpack (headTail d))) + i) mod length (vals d)"

definition dq_list :: "'a bufDequeue \<Rightarrow> 'a list" where
  "dq_list d = map (\<lambda>i. the (vals d ! dq_slot d i)) [0..<dq_size d]"

definition dq_inv :: "'a bufDequeue \<Rightarrow> bool" where
  "dq_inv d \<longleftrightarrow> (\<exists>k \<le> 30. length (vals d) = 2 ^ k) \<and> dq_size d \<le> length (vals d) \<and>
     (\<forall>i < dq_size d. vals d ! dq_slot d i \<noteq> None)"

lemma and_len_mask: "k \<le> 30 \<Longrightarrow> unat ((w :: u32) AND of_nat (2 ^ k - 1)) = unat w mod 2 ^ k"
proof -
  assume "k \<le> 30"
  have "(of_nat (2 ^ k - 1) :: u32) = mask k"
    by (simp add: mask_eq_exp_minus_1 of_nat_diff)
  then have "unat (w AND of_nat (2 ^ k - 1)) = take_bit k (unat w)"
    by (simp add: unsigned_take_bit_eq flip: take_bit_eq_mask)
  then show ?thesis by (simp only: take_bit_eq_mod)
qed

lemma mod_ring_inj:
  fixes t :: nat
  assumes "i < n" "j < n" "(t + i) mod n = (t + j) mod n"
  shows "i = j"
proof -
  have *: "b \<le> a \<Longrightarrow> a < n \<Longrightarrow> (t + a) mod n = (t + b) mod n \<Longrightarrow> a = b" for a b
    using mod_eq_dvd_iff_nat [of "t + b" "t + a" n] by (auto dest: dvd_imp_le)
  show "i = j" using assms * [of i j] * [of j i] by linarith
qed

lemma unat_add_mod:
  fixes w :: u32
  assumes "k \<le> 30"
  shows "unat (w + of_nat i) mod 2 ^ k = (unat w + i) mod 2 ^ k"
proof -
  have "(2 :: nat) ^ k dvd 2 ^ 32" using assms by (intro le_imp_power_dvd) simp
  then have d: "(2 :: nat) ^ k dvd 4294967296" by simp
  have "unat (w + of_nat i) = (unat w + i mod 4294967296) mod 4294967296"
    by (simp add: unat_word_ariths unat_of_nat)
  also have "\<dots> mod 2 ^ k = (unat w + i) mod 2 ^ k"
    using mod_mod_cancel [OF d, of "unat w + i mod 4294967296"] mod_mod_cancel [OF d, of i]
      mod_add_right_eq [of "unat w" "i mod 4294967296" "2 ^ k"] mod_add_right_eq [of "unat w" i "2 ^ k"]
    by simp
  finally show ?thesis .
qed

lemma dq_cases:
  obtains h t where "headTail d = bufDequeue_pack h t"
  by (metis pack_unpack surj_pair)

lemma dq_of_pack:
  "headTail d = bufDequeue_pack h t \<Longrightarrow> dq_size d = unat (h - t)"
  "headTail d = bufDequeue_pack h t \<Longrightarrow> dq_slot d i = (unat t + i) mod length (vals d)"
  by (simp_all add: dq_size_def dq_slot_def)

lemma u32_distance: "(h :: u32) = t + of_nat (unat (h - t))"
  by simp

lemma newDequeue_inv: "k \<le> 30 \<Longrightarrow> dq_inv (newDequeue (2 ^ k) :: 'a bufDequeue) \<and> dq_list (newDequeue (2 ^ k) :: 'a bufDequeue) = []"
  by (auto simp: newDequeue_def dq_inv_def dq_list_def dq_size_def unpack_nat)

lemma pushHead_full:
  assumes "dq_inv d"
  shows "snd (bufDequeue_pushHead x d) \<longleftrightarrow> dq_size d < length (vals d)"
    and "\<not> snd (bufDequeue_pushHead x d) \<Longrightarrow> fst (bufDequeue_pushHead x d) = d"
proof -
  obtain h t where ht: "headTail d = bufDequeue_pack h t" by (rule dq_cases)
  obtain k where k: "k \<le> 30" "length (vals d) = 2 ^ k" using assms by (auto simp: dq_inv_def)
  have le: "(2 :: nat) ^ k \<le> 2 ^ 30" using k by (intro power_increasing) simp_all
  have m: "(t + of_nat (2 ^ k)) AND mask 32 = t + of_nat (2 ^ k)"
    by (simp add: take_bit_word_eq_self flip: take_bit_eq_mask)
  have "t + of_nat (2 ^ k) = h \<longleftrightarrow> unat (h - t) = 2 ^ k"
  proof
    assume "t + of_nat (2 ^ k) = h"
    then have "h - t = of_nat (2 ^ k)" by auto
    then show "unat (h - t) = 2 ^ k" using le by (simp add: unat_of_nat del: of_nat_power)
  next
    assume "unat (h - t) = 2 ^ k"
    then show "t + of_nat (2 ^ k) = h" using u32_distance [of h t] by (simp del: of_nat_power)
  qed
  with assms ht k m show "snd (bufDequeue_pushHead x d) \<longleftrightarrow> dq_size d < length (vals d)"
    by (auto simp: bufDequeue_pushHead_def dq_of_pack dq_inv_def dequeueBits_def Let_def)
  show "\<not> snd (bufDequeue_pushHead x d) \<Longrightarrow> fst (bufDequeue_pushHead x d) = d"
    by (auto simp: bufDequeue_pushHead_def Let_def split: prod.splits if_splits)
qed


lemma u32_Suc: "unat (w :: u32) < 2 ^ 30 \<Longrightarrow> unat (w + 1) = Suc (unat w)"
  by (simp add: unat_word_ariths)

lemma unat_Suc_distance:
  "unat ((h :: u32) - t) < 2 ^ 30 \<Longrightarrow> unat (h + 1 - t) = Suc (unat (h - t))"
  using u32_Suc [of "h - t"] by (metis add_diff_eq diff_add_eq)

lemma pushHead_ok:
  assumes inv: "dq_inv d" and room: "dq_size d < length (vals d)"
  shows "dq_inv (fst (bufDequeue_pushHead x d)) \<and>
     dq_list (fst (bufDequeue_pushHead x d)) = dq_list d @ [x]"
proof -
  obtain h t where ht: "headTail d = bufDequeue_pack h t" by (rule dq_cases)
  obtain k where k: "k \<le> 30" "length (vals d) = 2 ^ k" using inv by (auto simp: dq_inv_def)
  have le: "(2 :: nat) ^ k \<le> 2 ^ 30" using k by (intro power_increasing) simp_all
  define n where "n = dq_size d"
  have n: "unat (h - t) = n" "n < 2 ^ k" using ht room k by (simp_all add: n_def dq_of_pack)
  have slot: "unat (h AND of_nat (2 ^ k - 1)) = (unat t + n) mod 2 ^ k"
    using u32_distance [of h t] unat_add_mod [OF k(1), of t n] n and_len_mask [OF k(1), of h] by simp
  have ok: "snd (bufDequeue_pushHead x d)" using pushHead_full(1) [OF inv] room by simp
  define d' where "d' = fst (bufDequeue_pushHead x d)"
  have d': "headTail d' = bufDequeue_pack (h + 1) t" "vals d' = (vals d)[(unat t + n) mod 2 ^ k := Some x]"
    using ok ht k slot by (auto simp: d'_def bufDequeue_pushHead_def Let_def split: if_splits)
  have size': "dq_size d' = Suc n"
    using n le unat_Suc_distance [of h t] d'(1) by (simp add: dq_of_pack)
  have old: "vals d' ! dq_slot d' i = vals d ! dq_slot d i" if "i < n" for i
  proof -
    have "(unat t + n) mod 2 ^ k \<noteq> (unat t + i) mod 2 ^ k"
      using mod_ring_inj [of n "2 ^ k" i "unat t"] that n by auto
    then show ?thesis using d' ht k by (simp add: dq_of_pack)
  qed
  have new: "vals d' ! dq_slot d' n = Some x"
    using d' k by (simp add: dq_of_pack)
  have "dq_inv d'"
    using inv size' n old new k d'(2) by (auto simp: dq_inv_def n_def less_Suc_eq)
  moreover have "dq_list d' = dq_list d @ [x]"
    using size' old new by (simp add: dq_list_def n_def)
  ultimately show ?thesis by (simp add: d'_def)
qed

lemma popTail_empty: "dq_inv d \<Longrightarrow> dq_list d = [] \<Longrightarrow> bufDequeue_popTail d = Some (None, d)"
proof -
  assume "dq_list d = []"
  obtain h t where ht: "headTail d = bufDequeue_pack h t" by (rule dq_cases)
  with \<open>dq_list d = []\<close> have "h - t = 0" by (simp add: dq_list_def dq_of_pack unat_eq_zero)
  with ht show ?thesis by (simp add: bufDequeue_popTail_def)
qed

lemma popTail_ok:
  assumes inv: "dq_inv d" and xs: "dq_list d = x # xs"
  shows "\<exists>d'. bufDequeue_popTail d = Some (Some x, d') \<and> dq_inv d' \<and> dq_list d' = xs"
proof -
  obtain h t where ht: "headTail d = bufDequeue_pack h t" by (rule dq_cases)
  obtain k where k: "k \<le> 30" "length (vals d) = 2 ^ k" using inv by (auto simp: dq_inv_def)
  obtain n where n: "dq_size d = Suc n" using xs by (cases "dq_size d") (auto simp: dq_list_def)
  have ne: "t \<noteq> h" using n ht by (auto simp: dq_of_pack)
  have hn: "unat (h - t) = Suc n" "Suc n \<le> 2 ^ k" using n ht inv k by (simp_all add: dq_of_pack dq_inv_def)
  have s0: "unat (t AND of_nat (2 ^ k - 1)) = dq_slot d 0"
    using and_len_mask [OF k(1), of t] ht k by (simp add: dq_of_pack)
  have v0: "vals d ! dq_slot d 0 = Some x"
    using inv n xs by (auto simp: dq_inv_def dq_list_def upt_rec)
  define d' where "d' = d\<lparr>vals := (vals d)[dq_slot d 0 := None], headTail := bufDequeue_pack h (t + 1)\<rparr>"
  have pop: "bufDequeue_popTail d = Some (Some x, d')"
    unfolding bufDequeue_popTail_def ht unpack_pack Let_def prod.case k(2) s0 v0 option.case pack_tail_step d'_def
    using ne by simp
  have "h - t \<noteq> 0" using ne by simp
  then have "unat (h - t - 1) = n" using hn(1) unat_minus_one [of "h - t"] by (metis diff_Suc_1)
  moreover have "h - (t + 1) = h - t - 1" by simp
  ultimately have "unat (h - (t + 1)) = n" by metis
  then have size': "dq_size d' = n" by (simp add: d'_def dq_of_pack)
  have old: "vals d' ! dq_slot d' i = vals d ! dq_slot d (Suc i)" if "i < n" for i
  proof -
    have s: "dq_slot d' i = dq_slot d (Suc i)"
      using unat_add_mod [OF k(1), of t 1] ht k
      by (simp add: d'_def dq_of_pack) (metis mod_add_left_eq add.assoc plus_1_eq_Suc)
    have "dq_slot d 0 \<noteq> dq_slot d (Suc i)"
      using mod_ring_inj [of 0 "2 ^ k" "Suc i" "unat t"] that hn ht k by (auto simp: dq_of_pack)
    with s show ?thesis by (simp add: d'_def)
  qed
  have "dq_inv d'"
    using inv size' n old k by (auto simp: dq_inv_def d'_def)
  moreover have "dq_list d' = xs"
  proof -
    have "dq_list d = x # map (\<lambda>i. the (vals d ! dq_slot d (Suc i))) [0..<n]"
      using n v0 by (simp add: dq_list_def upt_conv_Cons map_Suc_upt [symmetric] o_def del: upt_Suc)
    moreover have "dq_list d' = map (\<lambda>i. the (vals d ! dq_slot d (Suc i))) [0..<n]"
      unfolding dq_list_def size' by (rule map_cong) (auto simp: old)
    ultimately show ?thesis using xs by simp
  qed
  ultimately show ?thesis using pop by blast
qed


subsection \<open>The chain of ring buffers\<close>

type_synonym 'a bufChain = "'a bufDequeue list"

definition bufChain_new :: "nat \<Rightarrow> 'a bufChain" where
  "bufChain_new initSize = [newDequeue initSize]"

definition bufChain_pushHead :: "'a \<Rightarrow> 'a bufChain \<Rightarrow> 'a bufChain" where
  "bufChain_pushHead val c =
     (let d = last c; (d', ok) = bufDequeue_pushHead val d in
      if ok then butlast c @ [d']
      else
        let newSize = length (vals d) * 2;
            newSize' = (if newSize \<ge> dequeueLimit then dequeueLimit else newSize);
            (d2, _) = bufDequeue_pushHead val (newDequeue newSize')
        in c @ [d2])"

fun bufChain_popTail :: "'a bufChain \<Rightarrow> ('a option \<times> 'a bufChain) option" where
  "bufChain_popTail [] = Some (None, [])"
| "bufChain_popTail (d # ds) =
     (case bufDequeue_popTail d of
        None \<Rightarrow> None
      | Some (Some v, d') \<Rightarrow> Some (Some v, d' # ds)
      | Some (None, d') \<Rightarrow> if ds = [] then Some (None, [d']) else bufChain_popTail ds)"

definition chain_list :: "'a bufChain \<Rightarrow> 'a list" where
  "chain_list c = concat (map dq_list c)"

definition chain_inv :: "'a bufChain \<Rightarrow> bool" where
  "chain_inv c \<longleftrightarrow> c \<noteq> [] \<and> list_all dq_inv c"

lemma chain_new_inv:
  "k \<le> 30 \<Longrightarrow> chain_inv (bufChain_new (2 ^ k) :: 'a bufChain) \<and> chain_list (bufChain_new (2 ^ k) :: 'a bufChain) = []"
  using newDequeue_inv [of k, where 'a = 'a] by (simp add: chain_inv_def chain_list_def bufChain_new_def)

lemma chain_grow_size:
  assumes "k \<le> 30"
  obtains j where "j \<le> 30" "(if (2::nat) ^ k * 2 \<ge> dequeueLimit then dequeueLimit else 2 ^ k * 2) = 2 ^ j"
proof (cases "(2::nat) ^ k * 2 \<ge> dequeueLimit")
  case True
  then show ?thesis using that [of 30] by (simp add: dequeueLimit_def dequeueBits_def)
next
  case False
  then have "(2::nat) ^ Suc k < 2 ^ 30" by (simp add: dequeueLimit_def dequeueBits_def)
  then have "Suc k < 30" by (rule power_less_imp_less_exp [rotated]) simp
  then show ?thesis using False that [of "Suc k"] by simp
qed

lemma chain_push:
  assumes "chain_inv c"
  shows "chain_inv (bufChain_pushHead x c) \<and> chain_list (bufChain_pushHead x c) = chain_list c @ [x]"
proof -
  obtain ds d where c: "c = ds @ [d]" using assms by (cases c rule: rev_cases) (auto simp: chain_inv_def)
  have inv: "dq_inv d" "list_all dq_inv ds" using assms c by (auto simp: chain_inv_def)
  obtain d' ok where P: "bufDequeue_pushHead x d = (d', ok)" by fastforce
  show ?thesis
  proof (cases ok)
    case True
    then have "dq_size d < length (vals d)" using pushHead_full(1) [OF inv(1), of x] P by simp
    from pushHead_ok [OF inv(1) this, of x] P True inv c show ?thesis
      by (simp add: bufChain_pushHead_def chain_inv_def chain_list_def)
  next
    case False
    obtain k where k: "k \<le> 30" "length (vals d) = 2 ^ k" using inv by (auto simp: dq_inv_def)
    obtain j where j: "j \<le> 30" "(if (2::nat) ^ k * 2 \<ge> dequeueLimit then dequeueLimit else 2 ^ k * 2) = 2 ^ j"
      using chain_grow_size [OF k(1)] .
    let ?n = "newDequeue (2 ^ j) :: 'a bufDequeue"
    have n: "dq_inv ?n" "dq_list ?n = []" using newDequeue_inv [OF j(1)] by auto
    then have "dq_size ?n < length (vals ?n)" by (simp add: dq_list_def newDequeue_def)
    from pushHead_ok [OF n(1) this, of x] n P False inv c k(2) j(2) show ?thesis
      by (auto simp: bufChain_pushHead_def chain_inv_def chain_list_def Let_def split: prod.splits)
  qed
qed

lemma chain_pop:
  "list_all dq_inv c \<Longrightarrow> c \<noteq> [] \<Longrightarrow>
     \<exists>c'. bufChain_popTail c = Some (case chain_list c of [] \<Rightarrow> None | x # _ \<Rightarrow> Some x, c') \<and>
          chain_inv c' \<and> chain_list c' = tl (chain_list c)"
proof (induction c)
  case (Cons d ds)
  show ?case
  proof (cases "dq_list d")
    case Nil
    then have p: "bufDequeue_popTail d = Some (None, d)" using Cons.prems popTail_empty [of d] by simp
    show ?thesis
    proof (cases "ds = []")
      case True
      then show ?thesis using p Nil Cons.prems by (simp add: chain_list_def chain_inv_def)
    next
      case False
      then show ?thesis using p Nil Cons.IH Cons.prems by (auto simp: chain_list_def)
    qed
  next
    case (Cons x xs)
    then obtain d' where "bufDequeue_popTail d = Some (Some x, d')" "dq_inv d'" "dq_list d' = xs"
      using Cons.prems popTail_ok [of d x xs] by auto
    with Cons Cons.prems show ?thesis by (auto simp: chain_list_def chain_inv_def)
  qed
qed simp

subsection \<open>The contract of a first-in first-out queue\<close>

text \<open>\<open>pop\<close> returns \<open>None\<close> when the code would not return, and \<open>Some (None, q)\<close> on an empty queue.\<close>

locale fifo =
  fixes push :: "'a \<Rightarrow> 'q \<Rightarrow> 'q"
    and pop :: "'q \<Rightarrow> ('a option \<times> 'q) option"
    and contents :: "'q \<Rightarrow> 'a list"
    and inv :: "'q \<Rightarrow> bool"
  assumes push_inv: "inv q \<Longrightarrow> inv (push x q)"
    and push_contents: "inv q \<Longrightarrow> contents (push x q) = contents q @ [x]"
    and pop_returns: "inv q \<Longrightarrow>
      \<exists>q'. pop q = Some (case contents q of [] \<Rightarrow> None | x # _ \<Rightarrow> Some x, q') \<and>
           inv q' \<and> contents q' = tl (contents q)"
begin

lemma pop_Some:
  "inv q \<Longrightarrow> pop q = Some (r, q') \<Longrightarrow>
     inv q' \<and> contents q = (case r of None \<Rightarrow> [] | Some x \<Rightarrow> x # contents q') \<and> (r = None \<longrightarrow> contents q' = [])"
  using pop_returns [of q] by (auto split: list.splits)

lemma pop_not_stuck: "inv q \<Longrightarrow> pop q \<noteq> None"
  using pop_returns [of q] by auto

lemma pushes_contents: "inv q \<Longrightarrow> inv (fold push xs q) \<and> contents (fold push xs q) = contents q @ xs"
  by (induction xs arbitrary: q) (simp_all add: push_inv push_contents)

end

interpretation chain: fifo bufChain_pushHead bufChain_popTail chain_list chain_inv
proof unfold_locales
  fix c :: "'a bufChain" and x
  assume "chain_inv c"
  then show "chain_inv (bufChain_pushHead x c)" "chain_list (bufChain_pushHead x c) = chain_list c @ [x]"
    using chain_push [of c x] by auto
next
  fix c :: "'a bufChain"
  assume "chain_inv c"
  then show "\<exists>c'. bufChain_popTail c = Some (case chain_list c of [] \<Rightarrow> None | x # _ \<Rightarrow> Some x, c') \<and>
       chain_inv c' \<and> chain_list c' = tl (chain_list c)"
    using chain_pop [of c] by (simp add: chain_inv_def)
qed


subsection \<open>The write queue of the multiplexer\<close>

record priorityQueue =
  highestChain :: "muxPackager bufChain"
  middleChain :: "muxPackager bufChain"
  lowestChain :: "muxPackager bufChain"
  starving :: u8
  pqStop :: bool

definition priorityQueue_New :: priorityQueue where
  "priorityQueue_New = \<lparr>highestChain = bufChain_new 4, middleChain = bufChain_new 32,
     lowestChain = bufChain_new 256, starving = 0, pqStop = False\<rparr>"

definition priorityQueue_push :: "muxPackager \<Rightarrow> priorityQueue \<Rightarrow> priorityQueue" where
  "priorityQueue_push p q =
     (if flag p = muxPingFlag \<or> flag p = muxPingReturn
      then q\<lparr>highestChain := bufChain_pushHead p (highestChain q)\<rparr>
      else if flag p = muxNewConn \<or> flag p = muxNewConnOk \<or> flag p = muxNewConnFail
      then q\<lparr>middleChain := bufChain_pushHead p (middleChain q)\<rparr>
      else q\<lparr>lowestChain := bufChain_pushHead p (lowestChain q)\<rparr>)"

definition priorityQueue_Push :: "muxPackager \<Rightarrow> priorityQueue \<times> wpool \<Rightarrow> priorityQueue \<times> wpool" where
  "priorityQueue_Push p s =
     (let (q, pl) = s in
      if pqStop q then (q, snd (releaseMuxPack p pl)) else (priorityQueue_push p q, pl))"

definition maxStarving :: u8 where "maxStarving = 8"

definition priorityQueue_tryPopLocked :: "priorityQueue \<Rightarrow> (muxPackager option \<times> priorityQueue) option" where
  "priorityQueue_tryPopLocked q0 =
    (case bufChain_popTail (highestChain q0) of
       None \<Rightarrow> None
     | Some (Some p, c) \<Rightarrow> Some (Some p, q0\<lparr>highestChain := c\<rparr>)
     | Some (None, c) \<Rightarrow>
       let q1 = q0\<lparr>highestChain := c\<rparr> in
       case (if starving q1 < maxStarving then bufChain_popTail (middleChain q1)
             else Some (None, middleChain q1)) of
         None \<Rightarrow> None
       | Some (Some p, c) \<Rightarrow> Some (Some p, q1\<lparr>middleChain := c, starving := starving q1 + 1\<rparr>)
       | Some (None, c) \<Rightarrow>
         let q2 = q1\<lparr>middleChain := c\<rparr> in
         case bufChain_popTail (lowestChain q2) of
           None \<Rightarrow> None
         | Some (Some p, c) \<Rightarrow>
             Some (Some p, q2\<lparr>lowestChain := c,
               starving := (if starving q2 > 0 then starving q2 div 2 else starving q2)\<rparr>)
         | Some (None, c) \<Rightarrow>
           let q3 = q2\<lparr>lowestChain := c\<rparr> in
           if starving q3 > 0 then
             (case bufChain_popTail (middleChain q3) of
                None \<Rightarrow> None
              | Some (Some p, c) \<Rightarrow> Some (Some p, q3\<lparr>middleChain := c, starving := starving q3 + 1\<rparr>)
              | Some (None, c) \<Rightarrow> Some (None, q3\<lparr>middleChain := c\<rparr>))
           else Some (None, q3))"

definition priorityQueue_Stop :: "priorityQueue \<Rightarrow> priorityQueue" where
  "priorityQueue_Stop q = q\<lparr>pqStop := True\<rparr>"

text \<open>\<open>Pop\<close>: one pass of its loop either returns (a packet, or \<open>nil\<close> once stopped) or goes to sleep
  on the condition variable.\<close>

datatype 'a pop_pass = Returned "'a option" | Sleeps

definition priorityQueue_Pop_pass :: "priorityQueue \<Rightarrow> (muxPackager pop_pass \<times> priorityQueue) option" where
  "priorityQueue_Pop_pass q =
     (case priorityQueue_tryPopLocked q of
        None \<Rightarrow> None
      | Some (Some p, q') \<Rightarrow> Some (Returned (Some p), q')
      | Some (None, q') \<Rightarrow> Some (if pqStop q' then Returned None else Sleeps, q'))"

definition pq_inv :: "priorityQueue \<Rightarrow> bool" where
  "pq_inv q \<longleftrightarrow> chain_inv (highestChain q) \<and> chain_inv (middleChain q) \<and> chain_inv (lowestChain q)"

text \<open>The abstract state: three lists and the starvation counter, and what a pop does to them.\<close>

type_synonym prio_abs = "muxPackager list \<times> muxPackager list \<times> muxPackager list \<times> u8"

definition pq_abs :: "priorityQueue \<Rightarrow> prio_abs" where
  "pq_abs q = (chain_list (highestChain q), chain_list (middleChain q), chain_list (lowestChain q), starving q)"

fun prio_pop :: "prio_abs \<Rightarrow> muxPackager option \<times> prio_abs" where
  "prio_pop (h # hs, ms, ls, s) = (Some h, hs, ms, ls, s)"
| "prio_pop ([], ms, ls, s) =
     (case ms of
        m # ms' \<Rightarrow>
          (case ls of
             [] \<Rightarrow> (Some m, [], ms', [], s + 1)
           | l # ls' \<Rightarrow> if s < maxStarving then (Some m, [], ms', ls, s + 1) else (Some l, [], ms, ls', s div 2))
      | [] \<Rightarrow> (case ls of [] \<Rightarrow> (None, [], [], [], s) | l # ls' \<Rightarrow> (Some l, [], [], ls', s div 2)))"

lemma chain_pop_split:
  assumes "chain_inv c"
  obtains c' where "chain_list c = []" "bufChain_popTail c = Some (None, c')" "chain_inv c'" "chain_list c' = []"
  | x xs c' where "chain_list c = x # xs" "bufChain_popTail c = Some (Some x, c')" "chain_inv c'" "chain_list c' = xs"
  using chain.pop_returns [OF assms] by (cases "chain_list c") auto

lemma u8_pos_iff: "\<not> (s :: u8) < 8 \<Longrightarrow> 0 < s"
  by (simp add: word_less_nat_alt)

lemma tryPopLocked_refines:
  assumes "pq_inv q"
  shows "\<exists>r q'. priorityQueue_tryPopLocked q = Some (r, q') \<and> pq_inv q' \<and> pqStop q' = pqStop q \<and>
     prio_pop (pq_abs q) = (r, pq_abs q')"
proof -
  have inv: "chain_inv (highestChain q)" "chain_inv (middleChain q)" "chain_inv (lowestChain q)"
    using assms by (auto simp: pq_inv_def)
  note D = priorityQueue_tryPopLocked_def pq_inv_def pq_abs_def Let_def
  show ?thesis
  proof (cases rule: chain_pop_split [OF inv(1)])
    case (2 x xs c')
    then show ?thesis using inv by (simp add: D)
  next
    case (1 ch)
    note H = 1
    show ?thesis
    proof (cases rule: chain_pop_split [OF inv(2)])
      case (1 cm)
      note M = 1
      show ?thesis
      proof (cases rule: chain_pop_split [OF inv(3)])
        case (1 cl)
        moreover obtain cm' where "bufChain_popTail cm = Some (None, cm')" "chain_inv cm'" "chain_list cm' = []"
          by (rule chain_pop_split [OF M(3)]) (use M in auto)
        ultimately show ?thesis using H M inv by (auto simp: D)
      next
        case (2 l ls cl)
        then show ?thesis using H M inv by (auto simp: D word_gt_0)
      qed
    next
      case (2 m ms cm)
      note M = 2
      show ?thesis
      proof (cases rule: chain_pop_split [OF inv(3)])
        case (1 cl)
        then show ?thesis using H M inv u8_pos_iff [of "starving q"] by (auto simp: D maxStarving_def word_gt_0)
      next
        case (2 l ls cl)
        then show ?thesis using H M inv u8_pos_iff [of "starving q"] by (auto simp: D maxStarving_def word_gt_0)
      qed
    qed
  qed
qed


lemma New_inv: "pq_inv priorityQueue_New \<and> pq_abs priorityQueue_New = ([], [], [], 0)"
  using chain_new_inv [of 2, where 'a = muxPackager] chain_new_inv [of 5, where 'a = muxPackager]
    chain_new_inv [of 8, where 'a = muxPackager]
  by (simp add: pq_inv_def pq_abs_def priorityQueue_New_def)

lemma push_inv: "pq_inv q \<Longrightarrow> pq_inv (priorityQueue_push p q)"
  by (simp add: priorityQueue_push_def pq_inv_def chain.push_inv)

subsection \<open>Runs of the write queue\<close>

text \<open>The priority class of a packet, as \<open>push\<close> distinguishes them.\<close>

datatype pclass = High | Middle | Low

definition pclass_of :: "muxPackager \<Rightarrow> pclass" where
  "pclass_of p = (if flag p = muxPingFlag \<or> flag p = muxPingReturn then High
     else if flag p = muxNewConn \<or> flag p = muxNewConnOk \<or> flag p = muxNewConnFail then Middle else Low)"

fun class_list :: "pclass \<Rightarrow> prio_abs \<Rightarrow> muxPackager list" where
  "class_list High (hs, ms, ls, s) = hs"
| "class_list Middle (hs, ms, ls, s) = ms"
| "class_list Low (hs, ms, ls, s) = ls"

definition sorted_classes :: "priorityQueue \<Rightarrow> bool" where
  "sorted_classes q \<longleftrightarrow> (\<forall>k. \<forall>p \<in> set (class_list k (pq_abs q)). pclass_of p = k)"

text \<open>Producers and the consumer of one queue, in any order of their critical sections.\<close>

datatype pqop = OpPush muxPackager | OpPop

fun pq_run :: "pqop list \<Rightarrow> priorityQueue \<Rightarrow> (muxPackager list \<times> priorityQueue) option" where
  "pq_run [] q = Some ([], q)"
| "pq_run (OpPush p # ops) q = pq_run ops (priorityQueue_push p q)"
| "pq_run (OpPop # ops) q =
     (case priorityQueue_tryPopLocked q of
        None \<Rightarrow> None
      | Some (None, q') \<Rightarrow> pq_run ops q'
      | Some (Some p, q') \<Rightarrow> map_option (\<lambda>(ps, q''). (p # ps, q'')) (pq_run ops q'))"

fun pushed :: "pqop list \<Rightarrow> muxPackager list" where
  "pushed [] = []"
| "pushed (OpPush p # ops) = p # pushed ops"
| "pushed (OpPop # ops) = pushed ops"

lemma push_class_list:
  "pq_inv q \<Longrightarrow> class_list k (pq_abs (priorityQueue_push p q)) =
     class_list k (pq_abs q) @ (if pclass_of p = k then [p] else [])"
  by (cases k) (simp_all add: priorityQueue_push_def pq_abs_def pclass_of_def pq_inv_def chain.push_contents)

lemma push_starving [simp]: "starving (priorityQueue_push p q) = starving q"
  by (simp add: priorityQueue_push_def)

lemma push_sorted: "pq_inv q \<Longrightarrow> sorted_classes q \<Longrightarrow> sorted_classes (priorityQueue_push p q)"
  by (auto simp: sorted_classes_def push_class_list split: if_splits)

lemma pop_class_list:
  assumes "prio_pop a = (r, a')" "\<And>k p. p \<in> set (class_list k a) \<Longrightarrow> pclass_of p = k"
  shows "class_list k a = (case r of None \<Rightarrow> [] | Some p \<Rightarrow> if pclass_of p = k then [p] else []) @ class_list k a'"
proof -
  obtain hs ms ls s where a: "a = (hs, ms, ls, s)" by (metis prod_cases4)
  have "\<forall>p \<in> set hs. pclass_of p = High" "\<forall>p \<in> set ms. pclass_of p = Middle" "\<forall>p \<in> set ls. pclass_of p = Low"
    using assms(2) [of _ High] assms(2) [of _ Middle] assms(2) [of _ Low] a by auto
  with assms(1) a show ?thesis
    by (cases k; cases hs) (auto split: list.splits if_splits)
qed

lemma tryPop_cases:
  assumes "pq_inv q" "sorted_classes q" "priorityQueue_tryPopLocked q = Some (r, q')"
  shows "pq_inv q'" "sorted_classes q'" "pqStop q' = pqStop q" "prio_pop (pq_abs q) = (r, pq_abs q')"
    "class_list k (pq_abs q) =
      (case r of None \<Rightarrow> [] | Some p \<Rightarrow> if pclass_of p = k then [p] else []) @ class_list k (pq_abs q')"
proof -
  show *: "pq_inv q'" "prio_pop (pq_abs q) = (r, pq_abs q')" "pqStop q' = pqStop q"
    using tryPopLocked_refines [OF assms(1)] assms(3) by auto
  show **: "class_list k (pq_abs q) =
      (case r of None \<Rightarrow> [] | Some p \<Rightarrow> if pclass_of p = k then [p] else []) @ class_list k (pq_abs q')" for k
    using pop_class_list [OF *(2)] assms(2) by (auto simp: sorted_classes_def)
  have "set (class_list k (pq_abs q')) \<subseteq> set (class_list k (pq_abs q))" for k
    using ** [of k] by auto
  with assms(2) show "sorted_classes q'" unfolding sorted_classes_def by blast
qed

lemma pq_run_conserves:
  "pq_inv q \<Longrightarrow> sorted_classes q \<Longrightarrow>
   \<exists>ps q'. pq_run ops q = Some (ps, q') \<and> pq_inv q' \<and> sorted_classes q' \<and>
     (\<forall>k. class_list k (pq_abs q) @ filter (\<lambda>p. pclass_of p = k) (pushed ops)
        = filter (\<lambda>p. pclass_of p = k) ps @ class_list k (pq_abs q'))"
proof (induction ops arbitrary: q)
  case (Cons x ops)
  show ?case
  proof (cases x)
    case (OpPush p)
    have i: "pq_inv (priorityQueue_push p q)" "sorted_classes (priorityQueue_push p q)"
      using Cons.prems by (simp_all add: push_inv push_sorted)
    obtain ps q' where R: "pq_run ops (priorityQueue_push p q) = Some (ps, q')" "pq_inv q'" "sorted_classes q'"
      "\<And>k. class_list k (pq_abs (priorityQueue_push p q)) @ filter (\<lambda>p. pclass_of p = k) (pushed ops)
        = filter (\<lambda>p. pclass_of p = k) ps @ class_list k (pq_abs q')"
      using Cons.IH [OF i] by blast
    have "class_list k (pq_abs q) @ filter (\<lambda>p. pclass_of p = k) (pushed (x # ops))
        = filter (\<lambda>p. pclass_of p = k) ps @ class_list k (pq_abs q')" for k
      using R(4) [of k] OpPush Cons.prems by (auto simp: push_class_list split: if_splits)
    with R(1-3) OpPush show ?thesis by auto
  next
    case OpPop
    obtain r q1 where T: "priorityQueue_tryPopLocked q = Some (r, q1)"
      using tryPopLocked_refines [OF Cons.prems(1)] by blast
    note t = tryPop_cases [OF Cons.prems T]
    obtain ps q' where R: "pq_run ops q1 = Some (ps, q')" "pq_inv q'" "sorted_classes q'"
      "\<And>k. class_list k (pq_abs q1) @ filter (\<lambda>p. pclass_of p = k) (pushed ops)
        = filter (\<lambda>p. pclass_of p = k) ps @ class_list k (pq_abs q')"
      using Cons.IH [OF t(1,2)] by blast
    show ?thesis
      using OpPop T R t(5) by (cases r) auto
  qed
qed simp


lemma prio_pop_starving:
  assumes "prio_pop a = (r, a')" "\<And>k p. p \<in> set (class_list k a) \<Longrightarrow> pclass_of p = k"
    and "a = (hs, ms, ls, s)" "a' = (hs', ms', ls', s')" "ls \<noteq> []"
  obtains p where "r = Some p" "pclass_of p = High" "s' = s"
  | p where "r = Some p" "pclass_of p = Middle" "s < maxStarving" "s' = s + 1"
  | p where "r = Some p" "pclass_of p = Low"
proof -
  have "\<forall>p \<in> set hs. pclass_of p = High" "\<forall>p \<in> set ms. pclass_of p = Middle" "\<forall>p \<in> set ls. pclass_of p = Low"
    using assms(2) [of _ High] assms(2) [of _ Middle] assms(2) [of _ Low] assms(3) by auto
  note c = this
  obtain l ls2 where ls: "ls = l # ls2" using assms(5) by (cases ls) auto
  show ?thesis
  proof (cases hs)
    case (Cons h hs2)
    then show ?thesis using assms(1,3,4) c by (intro that(1) [of h]) simp_all
  next
    case Nil
    show ?thesis
    proof (cases "\<exists>m ms2. ms = m # ms2 \<and> s < maxStarving")
      case True
      then obtain m ms2 where "ms = m # ms2" "s < maxStarving" by blast
      then show ?thesis using assms(1,3,4) c Nil ls by (intro that(2) [of m]) simp_all
    next
      case False
      then have "r = Some l" using assms(1,3,4) Nil ls by (cases ms) auto
      then show ?thesis using c ls by (intro that(3) [of l]) simp_all
    qed
  qed
qed

lemma low_waits:
  assumes "pq_inv q" "sorted_classes q" "chain_list (lowestChain q) \<noteq> []"
    and "pq_run ops q = Some (ps, q')" "\<forall>p \<in> set ps. pclass_of p \<noteq> Low"
  shows "length (filter (\<lambda>p. pclass_of p = Middle) ps) \<le> 8 - unat (starving q)"
  using assms
proof (induction ops arbitrary: q ps)
  case (Cons x ops)
  show ?case
  proof (cases x)
    case (OpPush p)
    have "chain_list (lowestChain (priorityQueue_push p q)) \<noteq> []"
      using push_class_list [OF Cons.prems(1), of Low p] Cons.prems(3) by (auto simp: pq_abs_def)
    with Cons.prems OpPush Cons.IH [of "priorityQueue_push p q" ps] show ?thesis
      by (simp add: push_inv push_sorted)
  next
    case OpPop
    obtain r q1 where T: "priorityQueue_tryPopLocked q = Some (r, q1)"
      using tryPopLocked_refines [OF Cons.prems(1)] by blast
    note t = tryPop_cases [OF Cons.prems(1,2) T]
    obtain ps1 where ps: "pq_run ops q1 = Some (ps1, q')" "ps = (case r of None \<Rightarrow> ps1 | Some p \<Rightarrow> p # ps1)"
      using OpPop T Cons.prems(4) by (cases r) auto
    have "r = None \<or> (\<exists>p. r = Some p \<and> pclass_of p \<noteq> Low)"
      using ps Cons.prems(5) by (cases r) auto
    then have low: "chain_list (lowestChain q1) \<noteq> []"
      using t(5) [of Low] Cons.prems(3) by (auto simp: pq_abs_def)
    have IH: "length (filter (\<lambda>p. pclass_of p = Middle) ps1) \<le> 8 - unat (starving q1)"
      using Cons.IH [OF t(1,2) low ps(1)] ps(2) Cons.prems(5) by (cases r) auto
    have srt: "p \<in> set (class_list k (pq_abs q)) \<Longrightarrow> pclass_of p = k" for k p
      using Cons.prems(2) by (auto simp: sorted_classes_def)
    show ?thesis
    proof (rule prio_pop_starving [OF t(4) srt pq_abs_def pq_abs_def Cons.prems(3)])
      fix p assume "r = Some p" "pclass_of p = High" "starving q1 = starving q"
      then show ?thesis using IH ps(2) by simp
    next
      fix p assume p: "r = Some p" "pclass_of p = Middle" "starving q < maxStarving" "starving q1 = starving q + 1"
      then have "unat (starving q1) = Suc (unat (starving q))" "unat (starving q) < 8"
        by (auto simp: word_less_nat_alt unat_word_ariths maxStarving_def)
      then show ?thesis using IH ps(2) p by simp
    next
      fix p assume "r = Some p" "pclass_of p = Low"
      then show ?thesis using ps(2) Cons.prems(5) by simp
    qed
  qed
qed simp


subsection \<open>The queue of incoming streams\<close>

record 'c connQueue =
  cqChain :: "'c bufChain"
  cqStop :: bool

definition connQueue_New :: "'c connQueue" where
  "connQueue_New = \<lparr>cqChain = bufChain_new 32, cqStop = False\<rparr>"

text \<open>\<open>Push\<close> returns the queue and, when the queue is stopped, the connection it closes instead.\<close>

definition connQueue_Push :: "'c \<Rightarrow> 'c connQueue \<Rightarrow> 'c connQueue \<times> 'c option" where
  "connQueue_Push x q = (if cqStop q then (q, Some x) else (q\<lparr>cqChain := bufChain_pushHead x (cqChain q)\<rparr>, None))"

definition connQueue_tryPopLocked :: "'c connQueue \<Rightarrow> ('c option \<times> 'c connQueue) option" where
  "connQueue_tryPopLocked q =
     map_option (\<lambda>(r, c). (r, q\<lparr>cqChain := c\<rparr>)) (bufChain_popTail (cqChain q))"

definition connQueue_Pop_pass :: "'c connQueue \<Rightarrow> ('c pop_pass \<times> 'c connQueue) option" where
  "connQueue_Pop_pass q =
     (case connQueue_tryPopLocked q of
        None \<Rightarrow> None
      | Some (Some x, q') \<Rightarrow> Some (Returned (Some x), q')
      | Some (None, q') \<Rightarrow> Some (if cqStop q' then Returned None else Sleeps, q'))"

definition connQueue_Stop :: "'c connQueue \<Rightarrow> 'c connQueue" where
  "connQueue_Stop q = q\<lparr>cqStop := True\<rparr>"

definition cq_inv :: "'c connQueue \<Rightarrow> bool" where "cq_inv q \<longleftrightarrow> chain_inv (cqChain q)"
definition cq_list :: "'c connQueue \<Rightarrow> 'c list" where "cq_list q = chain_list (cqChain q)"

interpretation connq: fifo "\<lambda>x q. q\<lparr>cqChain := bufChain_pushHead x (cqChain q)\<rparr>"
  connQueue_tryPopLocked cq_list cq_inv
proof unfold_locales
  fix q :: "'c connQueue"
  assume q: "cq_inv q"
  show "\<exists>q'. connQueue_tryPopLocked q = Some (case cq_list q of [] \<Rightarrow> None | x # _ \<Rightarrow> Some x, q') \<and>
     cq_inv q' \<and> cq_list q' = tl (cq_list q)"
    using chain.pop_returns [of "cqChain q"] q
    by (auto simp: connQueue_tryPopLocked_def cq_inv_def cq_list_def)
qed (simp_all add: cq_inv_def cq_list_def chain.push_inv chain.push_contents)

subsection \<open>The receive queue of a stream\<close>

record listElement =
  eBuf :: gslice
  eL :: u16
  ePart :: bool

definition newListElement :: "gslice \<Rightarrow> u16 \<Rightarrow> bool \<Rightarrow> listElement option" where
  "newListElement b l part =
     (if (of_nat (slice_len b) :: u16) \<noteq> l then None else Some \<lparr>eBuf = b, eL = l, ePart = part\<rparr>)"

text \<open>\<open>readOp\<close> is a channel with one slot: whether it holds a token. The deadline is kept as a value
  of an arbitrary type of times by the operations that use it, not here.\<close>

record receiveWindowQueue =
  rqLength :: u32
  rqChain :: "listElement bufChain"
  rqStopped :: bool
  rqReadOp :: bool

definition newReceiveWindowQueue :: receiveWindowQueue where
  "newReceiveWindowQueue = \<lparr>rqLength = 0, rqChain = bufChain_new 64, rqStopped = False, rqReadOp = False\<rparr>"

definition discardListElement :: "listElement \<Rightarrow> wpool \<Rightarrow> wpool" where
  "discardListElement e pl =
     (if eBuf e \<noteq> SNil \<and> slice_cap (eBuf e) \<ge> poolSizeWindow then windowBuff_Put (eBuf e) pl else pl)"

definition rq_allowPop :: "receiveWindowQueue \<Rightarrow> receiveWindowQueue" where
  "rq_allowPop q = q\<lparr>rqReadOp := True\<rparr>"

text \<open>The locked section of \<open>Push\<close>; \<open>Push\<close> itself then signals with \<open>allowPop\<close>.\<close>

definition rq_PushLocked :: "listElement \<Rightarrow> receiveWindowQueue \<Rightarrow> receiveWindowQueue" where
  "rq_PushLocked e q = q\<lparr>rqChain := bufChain_pushHead e (rqChain q), rqLength := rqLength q + ucast (eL e)\<rparr>"

definition receiveWindowQueue_Push ::
  "listElement option \<Rightarrow> receiveWindowQueue \<Rightarrow> wpool \<Rightarrow> receiveWindowQueue \<times> wpool" where
  "receiveWindowQueue_Push x q pl =
     (case x of None \<Rightarrow> (q, pl)
      | Some e \<Rightarrow> if rqStopped q then (q, discardListElement e pl)
                  else (rq_allowPop (rq_PushLocked e q), pl))"

definition rq_popLocked :: "receiveWindowQueue \<Rightarrow> (listElement option \<times> receiveWindowQueue) option" where
  "rq_popLocked q =
     (case bufChain_popTail (rqChain q) of
        None \<Rightarrow> None
      | Some (None, c) \<Rightarrow> Some (None, q\<lparr>rqChain := c\<rparr>)
      | Some (Some e, c) \<Rightarrow> Some (Some e, q\<lparr>rqChain := c,
          rqLength := (if rqLength q \<ge> ucast (eL e) then rqLength q - ucast (eL e) else 0)\<rparr>))"

definition rq_Stop :: "receiveWindowQueue \<Rightarrow> receiveWindowQueue" where
  "rq_Stop q = q\<lparr>rqStopped := True\<rparr>"

definition rq_list :: "receiveWindowQueue \<Rightarrow> listElement list" where
  "rq_list q = chain_list (rqChain q)"

definition rq_bytes :: "listElement list \<Rightarrow> nat" where
  "rq_bytes es = sum_list (map (\<lambda>e. unat (eL e)) es)"

text \<open>\<open>Len\<close> is the number of queued payload bytes.\<close>

definition rq_inv :: "receiveWindowQueue \<Rightarrow> bool" where
  "rq_inv q \<longleftrightarrow> chain_inv (rqChain q) \<and> unat (rqLength q) = rq_bytes (rq_list q)"

lemma unat_ucast_u16 [simp]: "unat (ucast (l :: u16) :: u32) = unat l"
  using unat_lt [of l] by (simp add: unsigned_ucast_eq take_bit_eq_mod)

lemma rq_new_inv: "rq_inv newReceiveWindowQueue \<and> rq_list newReceiveWindowQueue = []"
  using chain_new_inv [of 6, where 'a = listElement]
  by (simp add: rq_inv_def rq_list_def rq_bytes_def newReceiveWindowQueue_def)

lemma rq_push:
  assumes "rq_inv q" "rq_bytes (rq_list q) + unat (eL e) < 2 ^ 32"
  shows "rq_inv (rq_PushLocked e q) \<and> rq_list (rq_PushLocked e q) = rq_list q @ [e]"
  using assms by (simp add: rq_inv_def rq_list_def rq_PushLocked_def rq_bytes_def chain.push_inv
      chain.push_contents unat_word_ariths)

lemma rq_pop:
  assumes "rq_inv q"
  shows "\<exists>q'. rq_popLocked q = Some (case rq_list q of [] \<Rightarrow> None | e # _ \<Rightarrow> Some e, q') \<and> rq_inv q' \<and>
     rq_list q' = tl (rq_list q) \<and> rqStopped q' = rqStopped q \<and> rqReadOp q' = rqReadOp q"
proof -
  have c: "chain_inv (rqChain q)" using assms by (simp add: rq_inv_def)
  show ?thesis
  proof (cases rule: chain_pop_split [OF c])
    case (1 c')
    then show ?thesis using assms by (simp add: rq_popLocked_def rq_inv_def rq_list_def)
  next
    case (2 e es c')
    then have "unat (rqLength q) = unat (eL e) + rq_bytes es"
      using assms by (simp add: rq_inv_def rq_list_def rq_bytes_def)
    then have "(ucast (eL e) :: u32) \<le> rqLength q" "unat (rqLength q - ucast (eL e)) = rq_bytes es"
      by (simp_all add: word_le_nat_alt unat_sub)
    with 2 show ?thesis by (simp add: rq_popLocked_def rq_inv_def rq_list_def)
  qed
qed


subsection \<open>Blocking reads: producers, the consumer and Stop\<close>

text \<open>
  \<open>Pop\<close> checks the queue under its mutex, drains a stale token and then sleeps on the channels
  outside the mutex; \<open>Push\<close> publishes under the mutex and signals after releasing it. The step
  relation interleaves these sections: \<open>pending\<close> counts producers between the two sections of
  \<open>Push\<close>, and the program counter is that of the one consumer (\<open>receiveWindow\<close> holds \<open>readMu\<close>).
\<close>

datatype popPC = Outside | Checking | Waiting | Rechecking

text \<open>What the last call of \<open>Pop\<close> returned.\<close>

datatype popOut = NoResult | GotElement listElement | GotEOF | GotTimeout

record popSys =
  pq :: receiveWindowQueue
  pending :: nat
  pc :: popPC
  popResult :: popOut

inductive pop_step :: "popSys \<Rightarrow> popSys \<Rightarrow> bool" where
  push: "\<not> rqStopped (pq s) \<Longrightarrow> rq_bytes (rq_list (pq s)) + unat (eL e) < 2 ^ 32 \<Longrightarrow>
     pop_step s (s\<lparr>pq := rq_PushLocked e (pq s), pending := Suc (pending s)\<rparr>)"
| signal: "pending s = Suc n \<Longrightarrow> pop_step s (s\<lparr>pq := rq_allowPop (pq s), pending := n\<rparr>)"
| signal_closed: "pending s = Suc n \<Longrightarrow> rqStopped (pq s) \<Longrightarrow> pop_step s (s\<lparr>pending := n\<rparr>)"
| stop: "pop_step s (s\<lparr>pq := rq_Stop (pq s)\<rparr>)"
| call: "pc s = Outside \<Longrightarrow> pop_step s (s\<lparr>pc := Checking\<rparr>)"
| hit: "pc s = Checking \<Longrightarrow> rq_popLocked (pq s) = Some (Some e, q') \<Longrightarrow>
     pop_step s (s\<lparr>pq := q', pc := Outside, popResult := GotElement e\<rparr>)"
| eof: "pc s = Checking \<Longrightarrow> rq_popLocked (pq s) = Some (None, q') \<Longrightarrow> rqStopped q' \<Longrightarrow>
     pop_step s (s\<lparr>pq := q', pc := Outside, popResult := GotEOF\<rparr>)"
| wait: "pc s = Checking \<Longrightarrow> rq_popLocked (pq s) = Some (None, q') \<Longrightarrow> \<not> rqStopped q' \<Longrightarrow>
     pop_step s (s\<lparr>pq := q'\<lparr>rqReadOp := False\<rparr>, pc := Waiting\<rparr>)"
| wake: "pc s = Waiting \<Longrightarrow> rqReadOp (pq s) \<Longrightarrow>
     pop_step s (s\<lparr>pq := (pq s)\<lparr>rqReadOp := False\<rparr>, pc := Checking\<rparr>)"
| wake_stop: "pc s = Waiting \<Longrightarrow> rqStopped (pq s) \<Longrightarrow> pop_step s (s\<lparr>pc := Rechecking\<rparr>)"
| timeout: "pc s = Waiting \<Longrightarrow> pop_step s (s\<lparr>pc := Rechecking\<rparr>)"
| recheck: "pc s = Rechecking \<Longrightarrow> \<not> rqStopped (pq s) \<Longrightarrow> rq_popLocked (pq s) = Some (r, q') \<Longrightarrow>
     pop_step s (s\<lparr>pq := q', pc := Outside,
       popResult := (case r of None \<Rightarrow> GotTimeout | Some e \<Rightarrow> GotElement e)\<rparr>)"
| recheck_stop: "pc s = Rechecking \<Longrightarrow> rqStopped (pq s) \<Longrightarrow> pop_step s (s\<lparr>pc := Outside, popResult := GotEOF\<rparr>)"

definition pop_init :: popSys where
  "pop_init = \<lparr>pq = newReceiveWindowQueue, pending = 0, pc = Outside, popResult = NoResult\<rparr>"

definition pop_inv :: "popSys \<Rightarrow> bool" where
  "pop_inv s \<longleftrightarrow> rq_inv (pq s) \<and>
     (pc s = Waiting \<longrightarrow> rq_list (pq s) \<noteq> [] \<longrightarrow> rqReadOp (pq s) \<or> 0 < pending s \<or> rqStopped (pq s))"

lemma rq_flags [simp]:
  "rq_list (q\<lparr>rqReadOp := b\<rparr>) = rq_list q" "rq_inv (q\<lparr>rqReadOp := b\<rparr>) = rq_inv q"
  "rq_list (rq_Stop q) = rq_list q" "rq_inv (rq_Stop q) = rq_inv q" "rqReadOp (rq_Stop q) = rqReadOp q"
  "rq_list (rq_allowPop q) = rq_list q" "rq_inv (rq_allowPop q) = rq_inv q" "rqReadOp (rq_allowPop q)"
  "rqStopped (rq_Stop q)"
  by (simp_all add: rq_list_def rq_inv_def rq_Stop_def rq_allowPop_def)

lemma rq_pop_Some:
  "rq_inv q \<Longrightarrow> rq_popLocked q = Some (r, q') \<Longrightarrow> rq_inv q' \<and> rqStopped q' = rqStopped q \<and>
     rq_list q = (case r of None \<Rightarrow> [] | Some e \<Rightarrow> e # rq_list q') \<and> (r = None \<longrightarrow> rq_list q' = [])"
  using rq_pop [of q] by (auto split: list.splits)

lemma pop_step_inv: "pop_step s s' \<Longrightarrow> pop_inv s \<Longrightarrow> pop_inv s'"
proof (induction rule: pop_step.induct)
  case (push s e)
  then show ?case using rq_push [of "pq s" e] by (simp add: pop_inv_def)
qed (auto simp: pop_inv_def dest: rq_pop_Some)

lemma pop_reachable_inv: "pop_step\<^sup>*\<^sup>* pop_init s \<Longrightarrow> pop_inv s"
proof (induction rule: rtranclp_induct)
  case base
  then show ?case using rq_new_inv by (simp add: pop_inv_def pop_init_def)
qed (blast intro: pop_step_inv)

text \<open>C37 No lost wake-up: in every state reached by any interleaving of producers, the consumer, its
  deadline and \<open>Stop\<close>, a consumer that sleeps in \<open>Pop\<close> while the receive queue holds data has a wake-up
  under way: a token in the channel, a producer about to signal, or the closed stop channel.\<close>

theorem no_lost_wakeup:
  assumes "pop_step\<^sup>*\<^sup>* pop_init s" "pc s = Waiting" "rq_list (pq s) \<noteq> []"
  shows "rqReadOp (pq s) \<or> 0 < pending s \<or> rqStopped (pq s)"
  using pop_reachable_inv [OF assms(1)] assms(2,3) by (simp add: pop_inv_def)

definition wakeup_example :: popSys where
  "wakeup_example = \<lparr>pq = rq_PushLocked \<lparr>eBuf = SNil, eL = 1, ePart = False\<rparr>
      (newReceiveWindowQueue\<lparr>rqReadOp := False\<rparr>), pending = 1, pc = Waiting, popResult = NoResult\<rparr>"

lemma rq_pop_new: "\<exists>q'. rq_popLocked newReceiveWindowQueue = Some (None, q') \<and> q' = newReceiveWindowQueue"
  by (simp add: rq_popLocked_def newReceiveWindowQueue_def bufChain_new_def bufDequeue_popTail_def
      newDequeue_def unpack_nat)

lemma wakeup_example_reachable: "pop_step\<^sup>*\<^sup>* pop_init wakeup_example"
proof -
  let ?w = "pop_init\<lparr>pq := newReceiveWindowQueue\<lparr>rqReadOp := False\<rparr>, pc := Waiting\<rparr>"
  have 1: "pop_step pop_init (pop_init\<lparr>pc := Checking\<rparr>)"
    by (rule pop_step.call) (simp add: pop_init_def)
  have 2: "pop_step (pop_init\<lparr>pc := Checking\<rparr>) ?w"
    using pop_step.wait [of "pop_init\<lparr>pc := Checking\<rparr>" newReceiveWindowQueue] rq_pop_new
    by (simp add: pop_init_def) (simp add: newReceiveWindowQueue_def)
  have "rq_list newReceiveWindowQueue = []" using rq_new_inv by simp
  then have 3: "pop_step ?w wakeup_example"
    using pop_step.push [of ?w "\<lparr>eBuf = SNil, eL = 1, ePart = False\<rparr>"]
    by (simp add: pop_init_def wakeup_example_def rq_bytes_def) (simp add: newReceiveWindowQueue_def)
  show ?thesis
    by (rule rtranclp.rtrancl_into_rtrancl [OF rtranclp.rtrancl_into_rtrancl [OF r_into_rtranclp [where r = pop_step, OF 1] 2] 3])
qed

lemma wakeup_example_queued: "rq_list (pq wakeup_example) \<noteq> []"
proof -
  have "rq_inv (newReceiveWindowQueue\<lparr>rqReadOp := False\<rparr>)" "rq_list newReceiveWindowQueue = []"
    using rq_new_inv by simp_all
  then show ?thesis
    using rq_push [of "newReceiveWindowQueue\<lparr>rqReadOp := False\<rparr>" "\<lparr>eBuf = SNil, eL = 1, ePart = False\<rparr>"]
    by (simp add: wakeup_example_def rq_bytes_def)
qed

theorem no_lost_wakeup_witness:
  "pc wakeup_example = Waiting \<and> rq_list (pq wakeup_example) \<noteq> [] \<and>
   (rqReadOp (pq wakeup_example) \<or> 0 < pending wakeup_example \<or> rqStopped (pq wakeup_example))"
proof -
  have w: "pc wakeup_example = Waiting" by (simp add: wakeup_example_def)
  show ?thesis using no_lost_wakeup [OF wakeup_example_reachable w wakeup_example_queued] w wakeup_example_queued
    by simp
qed

text \<open>A race between \<open>Stop\<close> and a consumer about to sleep loses queued data: \<open>Pop\<close> can report the end
  of the stream while the queue still holds an element that was pushed before \<open>Stop\<close>. The consumer has
  found the queue empty, the producer pushes, signals and stops the queue, and the consumer's \<open>select\<close>
  takes the closed \<open>stopOp\<close> rather than the token; the recheck then skips the queue because it is stopped.\<close>

theorem stop_race_reports_eof_with_data_queued:
  "\<exists>s. pop_step\<^sup>*\<^sup>* pop_init s \<and> popResult s = GotEOF \<and> rq_list (pq s) \<noteq> [] \<and> pending s = 0"
proof -
  let ?s1 = "wakeup_example\<lparr>pq := rq_allowPop (pq wakeup_example), pending := 0\<rparr>"
  let ?s2 = "?s1\<lparr>pq := rq_Stop (pq ?s1)\<rparr>"
  let ?s3 = "?s2\<lparr>pc := Rechecking\<rparr>"
  let ?s4 = "?s3\<lparr>pc := Outside, popResult := GotEOF\<rparr>"
  have "pop_step wakeup_example ?s1" by (rule pop_step.signal) (simp add: wakeup_example_def)
  moreover have "pop_step ?s1 ?s2" by (rule pop_step.stop)
  moreover have "pop_step ?s2 ?s3" by (rule pop_step.wake_stop) (simp_all add: wakeup_example_def)
  moreover have "pop_step ?s3 ?s4" by (rule pop_step.recheck_stop) simp_all
  ultimately have "pop_step\<^sup>*\<^sup>* pop_init ?s4"
    using wakeup_example_reachable by (meson rtranclp.rtrancl_into_rtrancl)
  moreover have "rq_list (pq ?s4) \<noteq> []"
    using wakeup_example_queued by simp
  ultimately show ?thesis by (intro exI [of _ ?s4]) simp
qed


subsection \<open>Properties of the queues\<close>

text \<open>C38 The ring buffer implements a bounded first-in first-out list, across the wrap-around of its
  32-bit indices: \<open>pushHead\<close> succeeds exactly when a slot is free and then appends, and changes nothing
  otherwise; \<open>popTail\<close> always returns, with the oldest element or with the report that the buffer is
  empty.\<close>

theorem dequeue_implements_list:
  assumes "dq_inv d"
  shows "(case bufDequeue_pushHead x d of (d', ok) \<Rightarrow> dq_inv d' \<and>
       (if length (dq_list d) < length (vals d) then ok \<and> dq_list d' = dq_list d @ [x] else \<not> ok \<and> d' = d)) \<and>
     (\<exists>d'. bufDequeue_popTail d = Some (case dq_list d of [] \<Rightarrow> None | y # _ \<Rightarrow> Some y, d') \<and>
       dq_inv d' \<and> dq_list d' = tl (dq_list d))"
proof (intro conjI)
  have l: "length (dq_list d) = dq_size d" by (simp add: dq_list_def)
  show "case bufDequeue_pushHead x d of (d', ok) \<Rightarrow> dq_inv d' \<and>
       (if length (dq_list d) < length (vals d) then ok \<and> dq_list d' = dq_list d @ [x] else \<not> ok \<and> d' = d)"
    using pushHead_full [OF assms, of x] pushHead_ok [OF assms, of x] assms l
    by (cases "bufDequeue_pushHead x d") auto
  show "\<exists>d'. bufDequeue_popTail d = Some (case dq_list d of [] \<Rightarrow> None | y # _ \<Rightarrow> Some y, d') \<and>
       dq_inv d' \<and> dq_list d' = tl (dq_list d)"
    using popTail_empty [OF assms] popTail_ok [OF assms] assms by (cases "dq_list d") auto
qed

text \<open>A buffer of two slots whose tail index is the largest 32-bit value.\<close>

definition wrapping_dequeue :: "nat bufDequeue" where
  "wrapping_dequeue = \<lparr>headTail = bufDequeue_pack 0 (- 1), vals = [None, Some 7], dqStarving = 0\<rparr>"

theorem dequeue_implements_list_witness:
  "dq_list wrapping_dequeue = [7] \<and>
   (case bufDequeue_pushHead 9 wrapping_dequeue of (d', ok) \<Rightarrow> ok \<and> dq_list d' = [7, 9]) \<and>
   (\<exists>d'. bufDequeue_popTail wrapping_dequeue = Some (Some 7, d') \<and> dq_list d' = [])"
proof -
  have s: "dq_size wrapping_dequeue = 1" by (simp add: wrapping_dequeue_def dq_size_def)
  have sl: "dq_slot wrapping_dequeue 0 = 1"
  proof -
    have "length (vals wrapping_dequeue) = 2" by (simp add: wrapping_dequeue_def)
    moreover have "unat (- 1 :: u32) = 4294967295"
      by (simp add: unsigned_minus_1_eq_mask mask_eq_exp_minus_1)
    ultimately show ?thesis by (simp add: dq_slot_def) (simp add: wrapping_dequeue_def)
  qed
  have l: "dq_list wrapping_dequeue = [7]"
    unfolding dq_list_def s using sl by (simp add: wrapping_dequeue_def)
  have v: "length (vals wrapping_dequeue) = 2 ^ 1" by (simp add: wrapping_dequeue_def)
  have i: "dq_inv wrapping_dequeue"
    unfolding dq_inv_def s using sl v by (auto simp: wrapping_dequeue_def intro: exI [of _ 1])
  show ?thesis
    using dequeue_implements_list [OF i, of 9] l v by auto
qed

text \<open>C35 \<open>tryPopLocked\<close> refines the abstract scheduler: pings first; then stream-control packets, unless
  eight of them have been preferred to waiting data; then data. It always returns, and it returns nothing
  only when all three queues are empty.\<close>

theorem tryPop_refines_scheduler:
  assumes "pq_inv q"
  shows "\<exists>r q'. priorityQueue_tryPopLocked q = Some (r, q') \<and> pq_inv q' \<and>
     prio_pop (pq_abs q) = (r, pq_abs q') \<and>
     (r = None \<longleftrightarrow> chain_list (highestChain q) = [] \<and> chain_list (middleChain q) = [] \<and>
        chain_list (lowestChain q) = [])"
proof -
  obtain r q' where T: "priorityQueue_tryPopLocked q = Some (r, q')" "pq_inv q'" "prio_pop (pq_abs q) = (r, pq_abs q')"
    using tryPopLocked_refines [OF assms] by blast
  moreover have "r = None \<longleftrightarrow> chain_list (highestChain q) = [] \<and> chain_list (middleChain q) = [] \<and>
        chain_list (lowestChain q) = []"
    using T(3) by (cases "chain_list (highestChain q)") (auto simp: pq_abs_def split: list.splits if_splits)
  ultimately show ?thesis by blast
qed

theorem tryPop_refines_scheduler_witness:
  "\<exists>q'. priorityQueue_tryPopLocked priorityQueue_New = Some (None, q') \<and> pq_inv q'"
  using tryPop_refines_scheduler [of priorityQueue_New] New_inv by (auto simp: pq_abs_def)

text \<open>Nothing is lost, duplicated or reordered within a class: in any sequence of pushes and pops on
  the write queue, for each priority class the packets that were queued or pushed are, in order, the
  packets that were popped followed by those still queued.\<close>

theorem write_queue_conserves:
  assumes "pq_inv q" "sorted_classes q"
  shows "\<exists>ps q'. pq_run ops q = Some (ps, q') \<and> pq_inv q' \<and> sorted_classes q' \<and>
     (\<forall>k. class_list k (pq_abs q) @ filter (\<lambda>p. pclass_of p = k) (pushed ops)
        = filter (\<lambda>p. pclass_of p = k) ps @ class_list k (pq_abs q'))"
  using assms by (rule pq_run_conserves)

lemma New_sorted: "sorted_classes priorityQueue_New"
proof -
  have "pq_abs priorityQueue_New = ([], [], [], 0)" using New_inv by simp
  moreover have "class_list k ([], [], [], 0) = []" for k by (cases k) simp_all
  ultimately show ?thesis by (simp add: sorted_classes_def)
qed

theorem write_queue_conserves_witness:
  "\<exists>ps q'. pq_run [OpPush fresh_pack, OpPop] priorityQueue_New = Some (ps, q') \<and>
     [fresh_pack] = filter (\<lambda>p. pclass_of p = High) ps @ class_list High (pq_abs q')"
proof -
  have f: "pclass_of fresh_pack = High" by (simp add: pclass_of_def fresh_pack_def muxPingFlag_def)
  have e: "class_list High (pq_abs priorityQueue_New) = []" using New_inv by simp
  obtain ps q' where "pq_run [OpPush fresh_pack, OpPop] priorityQueue_New = Some (ps, q')"
    "\<forall>k. class_list k (pq_abs priorityQueue_New) @ filter (\<lambda>p. pclass_of p = k) (pushed [OpPush fresh_pack, OpPop])
        = filter (\<lambda>p. pclass_of p = k) ps @ class_list k (pq_abs q')"
    using write_queue_conserves [OF conjunct1 [OF New_inv] New_sorted, of "[OpPush fresh_pack, OpPop]"] by blast
  then show ?thesis using e f by (auto dest: spec [of _ High])
qed



text \<open>\<open>Len\<close> is exact: as long as fewer than \<open>2 ^ 32\<close> bytes are queued, pushing and popping elements keeps
  the length counter of a receive queue equal to the number of payload bytes it holds, and the guard that
  resets a too small counter to zero never acts.\<close>

theorem receive_queue_length_exact:
  assumes "rq_inv q" "rq_bytes (rq_list q) + unat (eL e) < 2 ^ 32"
  shows "unat (rqLength (rq_PushLocked e q)) = rq_bytes (rq_list q) + unat (eL e) \<and>
     (\<exists>r q'. rq_popLocked (rq_PushLocked e q) = Some (Some r, q') \<and> eL r = eL (hd (rq_list q @ [e])) \<and>
       rq_inv q' \<and> unat (rqLength q') = rq_bytes (rq_list q) + unat (eL e) - unat (eL r) \<and>
       ucast (eL r) \<le> rqLength (rq_PushLocked e q))"
proof (intro conjI)
  have p: "rq_inv (rq_PushLocked e q)" "rq_list (rq_PushLocked e q) = rq_list q @ [e]"
    using rq_push [OF assms] by auto
  then show l: "unat (rqLength (rq_PushLocked e q)) = rq_bytes (rq_list q) + unat (eL e)"
    by (simp add: rq_inv_def rq_bytes_def)
  obtain r es where es: "rq_list q @ [e] = r # es" by (cases "rq_list q") auto
  obtain q' where q': "rq_popLocked (rq_PushLocked e q) = Some (Some r, q')" "rq_inv q'" "rq_list q' = es"
    using rq_pop [OF p(1)] p(2) es by auto
  have "rq_bytes (rq_list q) + unat (eL e) = unat (eL r) + rq_bytes es"
    using arg_cong [OF es, of rq_bytes] by (simp add: rq_bytes_def)
  then have "unat (rqLength q') = rq_bytes (rq_list q) + unat (eL e) - unat (eL r)"
    "ucast (eL r) \<le> rqLength (rq_PushLocked e q)"
    using q'(2,3) l by (simp_all add: rq_inv_def word_le_nat_alt)
  then show "\<exists>r q'. rq_popLocked (rq_PushLocked e q) = Some (Some r, q') \<and> eL r = eL (hd (rq_list q @ [e])) \<and>
       rq_inv q' \<and> unat (rqLength q') = rq_bytes (rq_list q) + unat (eL e) - unat (eL r) \<and>
       ucast (eL r) \<le> rqLength (rq_PushLocked e q)"
    using q' es by auto
qed

theorem receive_queue_length_exact_witness:
  "unat (rqLength (rq_PushLocked \<lparr>eBuf = SNil, eL = 5, ePart = True\<rparr> newReceiveWindowQueue)) = 5"
  using receive_queue_length_exact [of newReceiveWindowQueue "\<lparr>eBuf = SNil, eL = 5, ePart = True\<rparr>"] rq_new_inv
  by (simp add: rq_bytes_def)

end
