(* ===== verification/Mux_Window.thy ===== *)
theory Mux_Window
  imports Mux_Queue Complex_Main
begin

text \<open>
  The flow control of a multiplexed stream, \<open>lib/nps_mux/conn.go\<close>: the packed window word, the
  receive window (queue, element being read, acknowledgements), the send window, and the
  measurements that size the window.

  \<^item> The \<open>window\<close> word is changed by compare-and-swap loops only. An operation of the model is one such
    loop at its successful exchange: what it read of the word is still the word's value then.
  \<^item> \<open>sendInfo(muxMsgSendOk, id, w)\<close> is the value \<open>w\<close> handed to the writer queue; operations return
    the acknowledgements they emit.
  \<^item> \<open>float64\<close> is \<open>real\<close>: rounding is not modelled. The bandwidths and the latency only choose the new
    window size; the flow-control theorems hold for every choice.
  \<^item> The stream of one direction is a step relation \<open>flow_step\<close> that interleaves the writer, the
    frame reader of the other side, its consumer and the acknowledgements.
\<close>

subsection \<open>The window word\<close>

record window =
  maxSizeDone :: u64
  off :: u32
  closeOp :: bool

definition windowBits :: nat where "windowBits = 31"
definition waitBits :: nat where "waitBits = dequeueBits + windowBits"

definition window_unpack :: "u64 \<Rightarrow> u32 \<times> u32 \<times> bool" where
  "window_unpack ptrs =
     (ucast (drop_bit dequeueBits ptrs AND mask windowBits),
      ucast (ptrs AND mask windowBits),
      drop_bit waitBits ptrs AND 1 = 1)"

definition window_pack :: "u32 \<Rightarrow> u32 \<Rightarrow> bool \<Rightarrow> u64" where
  "window_pack maxSize done wait =
     (if wait then
        (push_bit waitBits 1 OR push_bit dequeueBits (ucast (maxSize AND mask windowBits))) OR
        ucast (done AND mask windowBits)
      else
        (push_bit waitBits 0 OR push_bit dequeueBits (ucast (maxSize AND mask windowBits))) OR
        ucast (done AND mask windowBits))"

text \<open>\<open>CloseWindow\<close> closes \<open>closeOpCh\<close> only when it is the call that sets \<open>closeOp\<close>, so the channel is
  closed exactly when \<open>closeOp\<close> holds; the result says whether this call closed it.\<close>

definition window_CloseWindow :: "'a window_scheme \<Rightarrow> 'a window_scheme \<times> bool" where
  "window_CloseWindow w = (if closeOp w then (w, False) else (w\<lparr>closeOp := True\<rparr>, True))"

definition fits31 :: "u32 \<Rightarrow> bool" where "fits31 x \<longleftrightarrow> unat x < 2 ^ 31"

lemma u32_mask31: "fits31 x \<Longrightarrow> x AND mask windowBits = x"
  by (simp add: fits31_def windowBits_def word_unat_eq_iff unsigned_take_bit_eq take_bit_eq_mod unat_mod_distrib
      flip: take_bit_eq_mask)

lemma fits31_mask: "fits31 (x AND mask windowBits)"
  by (simp add: fits31_def windowBits_def unsigned_take_bit_eq take_bit_eq_mod unat_mod_distrib flip: take_bit_eq_mask)

lemma bit_wait: "bit (9223372036854775808 :: u64) n \<longleftrightarrow> n = 63"
proof -
  have "(9223372036854775808 :: u64) = 2 ^ 63" by simp
  then show ?thesis by (simp only: bit_exp_iff) (auto simp: possible_bit_word)
qed

lemma bit_wait_int: "bit (9223372036854775808 :: int) n \<longleftrightarrow> n = 63"
proof -
  have "(9223372036854775808 :: int) = 2 ^ 63" by simp
  then show ?thesis by (simp only: bit_exp_iff) auto
qed

lemma bit31: "bit (2147483648 :: u64) n \<longleftrightarrow> n = 31"
proof -
  have "(2147483648 :: u64) = 2 ^ 31" by simp
  then show ?thesis by (simp only: bit_exp_iff) (auto simp: possible_bit_word)
qed

lemma bit31_int: "bit (2147483648 :: int) n \<longleftrightarrow> n = 31"
proof -
  have "(2147483648 :: int) = 2 ^ 31" by simp
  then show ?thesis by (simp only: bit_exp_iff) auto
qed

lemma unpack_pack_mask:
  "window_unpack (window_pack m d w) = (m AND mask windowBits, d AND mask windowBits, w)"
proof -
  have "ucast (drop_bit 32 (window_pack m d w) AND mask 31) = m AND mask 31"
    by (rule bit_eqI) (auto simp: window_pack_def dequeueBits_def windowBits_def waitBits_def bit_simps bit_wait bit_wait_int)
  moreover have "ucast (window_pack m d w AND mask 31) = d AND mask 31"
    by (rule bit_eqI) (auto simp: window_pack_def dequeueBits_def windowBits_def waitBits_def bit_simps bit_wait bit_wait_int)
  moreover have "drop_bit 63 (window_pack m d w) AND 1 = (if w then 1 else 0)"
    by (rule bit_eqI) (auto simp: window_pack_def dequeueBits_def windowBits_def waitBits_def bit_simps bit_wait bit_wait_int)
  ultimately show ?thesis
    by (simp add: window_unpack_def dequeueBits_def windowBits_def waitBits_def)
qed

lemma window_unpack_pack [simp]:
  "fits31 m \<Longrightarrow> fits31 d \<Longrightarrow> window_unpack (window_pack m d w) = (m, d, w)"
  by (simp add: unpack_pack_mask u32_mask31)

lemma window_unpack_fits: "window_unpack p = (m, d, w) \<Longrightarrow> fits31 m \<and> fits31 d"
proof -
  have "unat (ucast (q AND mask 31 :: u64) :: u32) < 2 ^ 31" for q
  proof -
    have "unat (q AND mask 31 :: u64) < 2 ^ 31"
      by (simp add: unsigned_take_bit_eq take_bit_eq_mod unat_mod_distrib flip: take_bit_eq_mask)
    then show ?thesis by (simp add: unsigned_ucast_eq take_bit_eq_mod)
  qed
  then show "window_unpack p = (m, d, w) \<Longrightarrow> ?thesis"
    by (auto simp: window_unpack_def fits31_def windowBits_def)
qed

abbreviation w_max :: "u64 \<Rightarrow> u32" where "w_max p \<equiv> fst (window_unpack p)"
abbreviation w_done :: "u64 \<Rightarrow> u32" where "w_done p \<equiv> fst (snd (window_unpack p))"
abbreviation w_wait :: "u64 \<Rightarrow> bool" where "w_wait p \<equiv> snd (snd (window_unpack p))"

lemma w_fits [simp]: "fits31 (w_max p)" "fits31 (w_done p)"
  using window_unpack_fits [of p] by (metis prod.collapse)+


subsection \<open>The bandwidth seen by the consumer\<close>

record writeBandwidth =
  writeBW :: real
  readEnd :: "real option"
  duration :: real
  bwBufLength :: u32
  ratio :: u32

definition writeCalcThreshold :: u32 where "writeCalcThreshold = 5 * 1024 * 1024"

definition newWriteBandwidth :: writeBandwidth where
  "newWriteBandwidth = \<lparr>writeBW = 0, readEnd = None, duration = 0, bwBufLength = 0, ratio = 1\<rparr>"

definition writeBandwidth_calcBandWidth :: "writeBandwidth \<Rightarrow> writeBandwidth" where
  "writeBandwidth_calcBandWidth b =
     b\<lparr>writeBW := real (unat (bwBufLength b)) / duration b, bwBufLength := 0, duration := 0\<rparr>"

text \<open>Times are seconds; \<open>None\<close> is the zero time. \<open>t1\<close> and \<open>t2\<close> are the two readings of the clock.\<close>

definition writeBandwidth_StartRead :: "real \<Rightarrow> real \<Rightarrow> writeBandwidth \<Rightarrow> writeBandwidth" where
  "writeBandwidth_StartRead t1 t2 b =
     (let b1 = (if readEnd b = None then b\<lparr>readEnd := Some t1\<rparr> else b);
          b2 = b1\<lparr>duration := duration b1 + (t2 - the (readEnd b1))\<rparr>
      in if bwBufLength b2 \<ge> writeCalcThreshold * ratio b2 then writeBandwidth_calcBandWidth b2 else b2)"

definition writeBandwidth_endRead :: "real \<Rightarrow> writeBandwidth \<Rightarrow> writeBandwidth" where
  "writeBandwidth_endRead now b = b\<lparr>readEnd := Some now\<rparr>"

definition writeBandwidth_SetCopySize :: "real \<Rightarrow> u16 \<Rightarrow> writeBandwidth \<Rightarrow> writeBandwidth" where
  "writeBandwidth_SetCopySize now n b =
     writeBandwidth_endRead now (b\<lparr>bwBufLength := bwBufLength b + ucast n\<rparr>)"

definition writeBandwidth_Get :: "writeBandwidth \<Rightarrow> real" where
  "writeBandwidth_Get b = (if writeBW b \<le> 0 then 0 else writeBW b)"

definition writeBandwidth_GrowRatio :: "writeBandwidth \<Rightarrow> writeBandwidth" where
  "writeBandwidth_GrowRatio b = b\<lparr>ratio := ratio b + 1\<rparr>"


subsection \<open>The receive window\<close>

datatype win_err =
    WriteOnClosedWindow | ZeroLengthFrame | LengthMismatch | WindowClosed | MuxClosed | DeadlineExceeded | WinEOF

record receiveWindow = window +
  bufQueue :: receiveWindowQueue
  element :: "listElement option"
  rwCount :: u8
  bw :: writeBandwidth
  inputClosed :: bool

text \<open>The element taken from \<open>listEle\<close> is zeroed, so the first read finds \<open>off\<close> equal to its length.\<close>

definition receiveWindow_New :: receiveWindow where
  "receiveWindow_New = \<lparr>maxSizeDone = window_pack (of_nat (maximumSegmentSize * 30)) 0 False, off = 0,
     closeOp = False, bufQueue = newReceiveWindowQueue,
     element = Some \<lparr>eBuf = SNil, eL = 0, ePart = False\<rparr>, rwCount = 0, bw = newWriteBandwidth,
     inputClosed = False\<rparr>"

definition receiveWindow_remainingSize :: "u32 \<Rightarrow> u16 \<Rightarrow> receiveWindow \<Rightarrow> u32" where
  "receiveWindow_remainingSize maxSize delta r =
     (let l = uint maxSize - uint (rqLength (bufQueue r)) - uint delta
      in if l > 0 then word_of_int l else 0)"

text \<open>\<open>uint32(x)\<close> of a non-negative float.\<close>

definition u32_of_float :: "real \<Rightarrow> u32" where "u32_of_float x = word_of_int \<lfloor>x\<rfloor>"

definition maximumWindowSize :: nat where "maximumWindowSize = 2 ^ 27"

text \<open>The first estimate of the window size, from the bandwidths and the latency.\<close>

definition calcSize_estimate :: "real \<Rightarrow> real \<Rightarrow> real \<Rightarrow> u32" where
  "calcSize_estimate muxBw connBw latency =
     (let mss = maximumSegmentSize;
          n0 = (if connBw > 0 \<and> muxBw > 0
                then u32_of_float (latency * (muxBw + (if connBw > muxBw then muxBw else connBw))) else 0);
          n1 = (if n0 < of_nat (mss * 30) then of_nat (mss * 30) else n0)
      in if n1 < u32_of_float (real (mss * 3000) * latency) then u32_of_float (real (mss * 3000) * latency) else n1)"

text \<open>One pass of its loop, up to the exchange: the new size from the estimate \<open>n\<close> and the old word.\<close>

definition calcSize_limit :: "real \<Rightarrow> real \<Rightarrow> u32 \<Rightarrow> u32 \<Rightarrow> u32 \<Rightarrow> u32" where
  "calcSize_limit muxBw connBw sz rem n =
     (let ra = real (unat rem) / real (unat sz);
          n1 = (if ra > 0.8 then u32_of_float (real (unat n) * 1.5625 * ra * ra) else n);
          n2 = (if n1 < sz div 2 then sz div 2 else n1);
          n3 = (if n2 > 2 * sz then
                  (if sz = of_nat (maximumSegmentSize * 30) then (if n2 > sz * 6 then sz * 6 else n2)
                   else 2 * sz)
                else n2)
      in if connBw > 0 \<and> muxBw > 0 then
           let limit = u32_of_float (real maximumWindowSize * (connBw / (muxBw + connBw)))
           in if n3 > limit then limit else n3
         else n3)"

definition receiveWindow_calcSize :: "real \<Rightarrow> real \<Rightarrow> receiveWindow \<Rightarrow> receiveWindow" where
  "receiveWindow_calcSize muxBw latency r =
     (if rwCount r = 0 then
        let connBw = writeBandwidth_Get (bw r);
            grow = connBw > 0 \<and> muxBw > 0 \<and> connBw > muxBw;
            connBw' = (if grow then muxBw else connBw);
            n = calcSize_estimate muxBw connBw latency;
            (sz, read, wait) = window_unpack (maxSizeDone r);
            n' = calcSize_limit muxBw connBw' sz (receiveWindow_remainingSize sz 0 r) n
        in r\<lparr>bw := (if grow then writeBandwidth_GrowRatio (bw r) else bw r),
             maxSizeDone := window_pack n' read wait, rwCount := - 10 + 1\<rparr>
      else r\<lparr>rwCount := rwCount r + 1\<rparr>)"

text \<open>From the label \<open>start\<close> of \<open>Write\<close> to the successful exchange, with the acknowledgement that is
  sent after the push.\<close>

definition receiveWindow_Write_status :: "u16 \<Rightarrow> receiveWindow \<Rightarrow> receiveWindow \<times> u64 option" where
  "receiveWindow_Write_status l r =
     (let (maxSize, read, wait) = window_unpack (maxSizeDone r);
          remain = receiveWindow_remainingSize maxSize l r
      in if remain = 0 \<and> \<not> wait then (r\<lparr>maxSizeDone := window_pack maxSize read True\<rparr>, None)
         else if \<not> wait then
           (r\<lparr>maxSizeDone := window_pack maxSize 0 wait\<rparr>, Some (window_pack maxSize read False))
         else (r, None))"

definition receiveWindow_Write ::
  "gslice \<Rightarrow> u16 \<Rightarrow> bool \<Rightarrow> real \<Rightarrow> real \<Rightarrow> receiveWindow \<Rightarrow> wpool \<Rightarrow> win_err option \<times> receiveWindow \<times> wpool \<times> u64 option" where
  "receiveWindow_Write b l part muxBw latency r pl =
     (if closeOp r \<or> inputClosed r then (Some WriteOnClosedWindow, r, pl, None)
      else if l = 0 then (Some ZeroLengthFrame, r, pl, None)
      else case newListElement b l part of
        None \<Rightarrow> (Some LengthMismatch, r, pl, None)
      | Some e \<Rightarrow>
          let (r1, ack) = receiveWindow_Write_status l (receiveWindow_calcSize muxBw latency r);
              (q, pl') = receiveWindowQueue_Push (Some e) (bufQueue r1) pl
          in (None, r1\<lparr>bufQueue := q\<rparr>, pl', ack))"

definition receiveWindow_sendStatus :: "u16 \<Rightarrow> receiveWindow \<Rightarrow> receiveWindow \<times> u64 option" where
  "receiveWindow_sendStatus l r =
     (let (maxSize, read, wait) = window_unpack (maxSizeDone r)
      in if read \<le> (read + ucast l) AND mask windowBits then
           let read' = read + ucast l; remain = receiveWindow_remainingSize maxSize 0 r
           in if wait \<and> remain > 0 \<or> read' \<ge> maxSize div 2 \<or> remain = maxSize
              then (r\<lparr>maxSizeDone := window_pack maxSize 0 False\<rparr>, Some (window_pack maxSize read' False))
              else (r\<lparr>maxSizeDone := window_pack maxSize read' wait\<rparr>, None)
         else (r\<lparr>maxSizeDone := window_pack maxSize (ucast l) wait\<rparr>, Some (window_pack maxSize read False)))"

text \<open>The two sections of the loop of \<open>readFromQueue\<close>: fetching the next element, and copying from it.
  The blocking \<open>Pop\<close> is taken at its locked check: an element, the end of a stopped and drained
  queue, or a reader that has to wait.\<close>

datatype next_out = HaveElement | NextEOF | NextBlocks

definition rw_drained :: "receiveWindow \<Rightarrow> bool" where
  "rw_drained r \<longleftrightarrow> (case element r of None \<Rightarrow> True | Some e \<Rightarrow> off r = ucast (eL e))"

definition receiveWindow_next :: "receiveWindow \<Rightarrow> (next_out \<times> receiveWindow) option" where
  "receiveWindow_next r =
     (if rw_drained r then
        let r1 = r\<lparr>element := None\<rparr> in
        if closeOp r1 then Some (NextEOF, r1)
        else case rq_popLocked (bufQueue r1) of
            None \<Rightarrow> None
          | Some (Some e, q) \<Rightarrow> Some (HaveElement, r1\<lparr>bufQueue := q, element := Some e, off := 0\<rparr>)
          | Some (None, q) \<Rightarrow>
              if rqStopped q then Some (NextEOF, r1\<lparr>bufQueue := q, off := 0\<rparr>)
              else Some (NextBlocks, r1\<lparr>bufQueue := q\<rparr>)
      else Some (HaveElement, r))"

definition receiveWindow_copy ::
  "nat \<Rightarrow> listElement \<Rightarrow> receiveWindow \<Rightarrow> wpool \<Rightarrow> byte list \<times> receiveWindow \<times> wpool \<times> u64 option" where
  "receiveWindow_copy room e r pl =
     (let src = drop (unat (off r)) (take (unat (eL e)) (slice_bytes (eBuf e)));
          bs = take room src;
          r1 = r\<lparr>off := off r + of_nat (length bs)\<rparr>
      in if off r1 = ucast (eL e) then
           let r2 = r1\<lparr>element := Some (e\<lparr>eBuf := SNil\<rparr>)\<rparr>;
               (r3, ack) = receiveWindow_sendStatus (eL e) r2
           in (bs, r3, windowBuff_Put (eBuf e) pl, ack)
         else (bs, r1, pl, None))"

text \<open>\<open>readFromQueue\<close> into a buffer with \<open>room\<close> free bytes: the bytes copied, how it ended (\<open>None\<close> when
  the data is returned), and the acknowledgements.\<close>

partial_function (option) receiveWindow_readFromQueue ::
  "nat \<Rightarrow> byte list \<Rightarrow> u64 list \<Rightarrow> receiveWindow \<Rightarrow> wpool \<Rightarrow>
     (byte list \<times> next_out option \<times> receiveWindow \<times> wpool \<times> u64 list) option" where
  "receiveWindow_readFromQueue room got acks r pl =
     (case receiveWindow_next r of
        None \<Rightarrow> None
      | Some (HaveElement, r1) \<Rightarrow>
          (case element r1 of
             None \<Rightarrow> None
           | Some e \<Rightarrow>
               (case receiveWindow_copy room e r1 pl of
                  (bs, r2, pl2, ack) \<Rightarrow>
                    if length bs < room \<and> ePart e
                    then receiveWindow_readFromQueue (room - length bs) (got @ bs)
                           (acks @ (case ack of None \<Rightarrow> [] | Some a \<Rightarrow> [a])) r2 pl2
                    else Some (got @ bs, None, r2, pl2, acks @ (case ack of None \<Rightarrow> [] | Some a \<Rightarrow> [a]))))
      | Some (out, r1) \<Rightarrow> Some (if closeOp r1 then [] else got, Some out, r1, pl, acks))"

definition receiveWindow_Stop :: "receiveWindow \<Rightarrow> receiveWindow" where
  "receiveWindow_Stop r = r\<lparr>inputClosed := True, bufQueue := rq_Stop (bufQueue r)\<rparr>"

text \<open>\<open>release\<close> drains the queue; \<open>fuel\<close> bounds the number of elements it may find.\<close>

fun rw_release_queue :: "nat \<Rightarrow> receiveWindowQueue \<Rightarrow> wpool \<Rightarrow> (receiveWindowQueue \<times> wpool) option" where
  "rw_release_queue 0 q pl = None"
| "rw_release_queue (Suc n) q pl =
     (case rq_popLocked q of
        None \<Rightarrow> None
      | Some (None, q') \<Rightarrow> Some (q', pl)
      | Some (Some e, q') \<Rightarrow> rw_release_queue n q' (if eBuf e \<noteq> SNil then windowBuff_Put (eBuf e) pl else pl))"

definition receiveWindow_release :: "nat \<Rightarrow> receiveWindow \<Rightarrow> wpool \<Rightarrow> (receiveWindow \<times> wpool) option" where
  "receiveWindow_release fuel r pl =
     (let pl1 = (case element r of Some e \<Rightarrow> if eBuf e \<noteq> SNil then windowBuff_Put (eBuf e) pl else pl | None \<Rightarrow> pl)
      in map_option (\<lambda>(q, pl2). (r\<lparr>element := None, bufQueue := q\<rparr>, pl2)) (rw_release_queue fuel (bufQueue r) pl1))"

definition receiveWindow_CloseWindow :: "nat \<Rightarrow> receiveWindow \<Rightarrow> wpool \<Rightarrow> (receiveWindow \<times> wpool) option" where
  "receiveWindow_CloseWindow fuel r pl =
     receiveWindow_release fuel (receiveWindow_Stop (fst (window_CloseWindow r))) pl"

text \<open>\<open>Read\<close>: on the end of the stream the window is closed after the read lock is released.\<close>

definition receiveWindow_Read ::
  "nat \<Rightarrow> nat \<Rightarrow> real \<times> real \<times> real \<Rightarrow> receiveWindow \<Rightarrow> wpool \<Rightarrow>
     (byte list \<times> next_out option \<times> receiveWindow \<times> wpool \<times> u64 list) option" where
  "receiveWindow_Read fuel room clock r pl =
     (let (t1, t2, t3) = clock in
      if closeOp r then
        map_option (\<lambda>(r1, pl1). ([], Some NextEOF, r1, pl1, [])) (receiveWindow_CloseWindow fuel r pl)
      else
        case receiveWindow_readFromQueue room [] [] (r\<lparr>bw := writeBandwidth_StartRead t1 t2 (bw r)\<rparr>) pl of
          None \<Rightarrow> None
        | Some (bs, out, r1, pl1, acks) \<Rightarrow>
            let r2 = r1\<lparr>bw := writeBandwidth_SetCopySize t3 (of_nat (length bs)) (bw r1)\<rparr>
            in if out = Some NextEOF then
                 map_option (\<lambda>(r3, pl3). (bs, out, r3, pl3, acks)) (receiveWindow_CloseWindow fuel r2 pl1)
               else Some (bs, out, r2, pl1, acks))"


subsection \<open>The send window\<close>

text \<open>\<open>setSizeCh\<close> has one slot: whether it holds a token.\<close>

record sendWindow = window +
  sbuf :: "byte list"
  setSizeCh :: bool

definition sendWindow_New :: sendWindow where
  "sendWindow_New = \<lparr>maxSizeDone = window_pack (of_nat (maximumSegmentSize * 30)) 0 False, off = 0,
     closeOp = False, sbuf = [], setSizeCh = False\<rparr>"

definition sendWindow_SetSendBuf :: "byte list \<Rightarrow> sendWindow \<Rightarrow> sendWindow" where
  "sendWindow_SetSendBuf b s = s\<lparr>sbuf := b, off := 0\<rparr>"

definition sendWindow_remainingSize :: "u32 \<Rightarrow> u32 \<Rightarrow> u32" where
  "sendWindow_remainingSize maxSize send =
     (let l = uint (maxSize AND mask windowBits) - uint (send AND mask windowBits)
      in if l > 0 then word_of_int l else 0)"

text \<open>The stale token is dropped and a new one published. After \<open>CloseWindow\<close> the \<open>select\<close> may also
  take the closed channel; a writer then reports the closed window whether or not there is a token.\<close>

definition sendWindow_allow :: "sendWindow \<Rightarrow> sendWindow" where
  "sendWindow_allow s = s\<lparr>setSizeCh := True\<rparr>"

definition sendWindow_SetSize :: "u64 \<Rightarrow> sendWindow \<Rightarrow> bool \<times> sendWindow" where
  "sendWindow_SetSize currentMaxSizeDone s =
     (if closeOp s then (True, s)
      else
        let (currentMaxSize, read, _) = window_unpack currentMaxSizeDone;
            (maxsize, send, wait) = window_unpack (maxSizeDone s)
        in if read > send then (False, s)
           else if read = 0 \<and> currentMaxSize = maxsize then (False, s)
           else
             let send' = send - read;
                 remain = sendWindow_remainingSize currentMaxSize send';
                 newWait = (remain = 0 \<and> wait);
                 s' = s\<lparr>maxSizeDone := window_pack currentMaxSize send' newWait\<rparr>
             in (False, if wait \<and> \<not> newWait then sendWindow_allow s' else s'))"

text \<open>\<open>None\<close> is the spinning overflow branch.\<close>

definition sendWindow_sent :: "u32 \<Rightarrow> sendWindow \<Rightarrow> sendWindow option" where
  "sendWindow_sent sentSize s =
     (let (maxSize, send, wait) = window_unpack (maxSizeDone s)
      in if (send + sentSize) AND mask windowBits < send then None
         else Some (s\<lparr>maxSizeDone := window_pack maxSize (send + sentSize) wait\<rparr>))"

text \<open>One pass of \<open>WriteTo\<close>: a segment with its size and part flag, an error, or the wait for the
  receive window.\<close>

datatype write_pass = Segment "byte list" u32 bool | WriteErr win_err | WaitsForWindow

definition sendWindow_WriteTo :: "sendWindow \<Rightarrow> (write_pass \<times> sendWindow) option" where
  "sendWindow_WriteTo s =
     (if closeOp s then Some (WriteErr WindowClosed, s)
      else if off s \<ge> of_nat (length (sbuf s)) then Some (WriteErr WinEOF, s)
      else
        let (maxSize, send, _) = window_unpack (maxSizeDone s);
            remain = sendWindow_remainingSize maxSize send
        in if remain = 0 then Some (WaitsForWindow, s\<lparr>maxSizeDone := window_pack maxSize send True\<rparr>)
           else if off s > of_nat (length (sbuf s)) then Some (WriteErr WinEOF, s)
           else
             let rest = drop (unat (off s)) (sbuf s);
                 size1 = (if length rest > maximumSegmentSize then of_nat maximumSegmentSize
                          else of_nat (length rest));
                 sendSize = (if remain < size1 then remain else size1);
                 part = (sendSize < of_nat (length rest));
                 p = take (unat sendSize) rest
             in map_option (Pair (Segment p sendSize part))
                  (sendWindow_sent sendSize (s\<lparr>off := off s + sendSize\<rparr>)))"

text \<open>The ready cases of the \<open>select\<close> of \<open>waitReceiveWindow\<close>; an empty list is a writer that stays
  blocked. \<open>deadline\<close> is \<open>None\<close> for the zero time.\<close>

definition sendWindow_waitReceiveWindow ::
  "real option \<Rightarrow> real \<Rightarrow> sendWindow \<Rightarrow> (win_err option \<times> sendWindow) list" where
  "sendWindow_waitReceiveWindow deadline now s =
     (let ready = (if setSizeCh s then [(None, s\<lparr>setSizeCh := False\<rparr>)] else []) @
                  (if closeOp s then [(Some WindowClosed, s)] else [])
      in case deadline of
           None \<Rightarrow> ready
         | Some d \<Rightarrow> if d - now \<le> 0 then [(Some DeadlineExceeded, s)]
                     else ready @ [(Some DeadlineExceeded, s)])"

text \<open>A writer waiting without a deadline while the acknowledgements \<open>acks\<close> arrive: it goes on when
  there is a token; \<open>Inl\<close> is a writer still waiting when they are used up.\<close>

fun wait_for_acks :: "u64 list \<Rightarrow> sendWindow \<Rightarrow> sendWindow + (u64 list \<times> sendWindow)" where
  "wait_for_acks [] s = (if setSizeCh s then Inr ([], s\<lparr>setSizeCh := False\<rparr>) else Inl s)"
| "wait_for_acks (a # acks) s =
     (if setSizeCh s then Inr (a # acks, s\<lparr>setSizeCh := False\<rparr>)
      else wait_for_acks acks (snd (sendWindow_SetSize a s)))"

text \<open>\<open>WriteFull\<close>, run against the acknowledgements that arrive while it waits. The result is the
  number of bytes written, the error (\<open>None\<close> for success), the frames handed to \<open>sendInfo\<close> as pairs of
  payload and part flag, and the acknowledgements left; \<open>muxOpen\<close> is whether \<open>sendInfo\<close> accepts.\<close>

type_synonym mux_segment = "byte list \<times> bool"

partial_function (option) sendWindow_WriteFull_loop ::
  "bool \<Rightarrow> nat \<Rightarrow> mux_segment list \<Rightarrow> u64 list \<Rightarrow> sendWindow \<Rightarrow>
     (mux_segment list \<times> (sendWindow + (nat \<times> win_err option \<times> u64 list \<times> sendWindow))) option" where
  "sendWindow_WriteFull_loop muxOpen n out acks s =
     (case sendWindow_WriteTo s of
        None \<Rightarrow> None
      | Some (WriteErr e, s1) \<Rightarrow> Some (out, Inr (n, if e = WinEOF then None else Some e, acks, s1))
      | Some (Segment p l part, s1) \<Rightarrow>
          if muxOpen then sendWindow_WriteFull_loop muxOpen (n + unat l) (out @ [(p, part)]) acks s1
          else Some (out, Inr (n, Some MuxClosed, acks, s1))
      | Some (WaitsForWindow, s1) \<Rightarrow>
          (case wait_for_acks acks s1 of
             Inl s2 \<Rightarrow> Some (out, Inl s2)
           | Inr (acks', s2) \<Rightarrow> sendWindow_WriteFull_loop muxOpen n out acks' s2))"

definition sendWindow_WriteFull ::
  "bool \<Rightarrow> byte list \<Rightarrow> u64 list \<Rightarrow> sendWindow \<Rightarrow>
     (mux_segment list \<times> (sendWindow + (nat \<times> win_err option \<times> u64 list \<times> sendWindow))) option" where
  "sendWindow_WriteFull muxOpen b acks s =
     map_option (\<lambda>(out, res). (out, case res of Inl s1 \<Rightarrow> Inl s1
        | Inr (n, e, acks', s1) \<Rightarrow> Inr (n, e, acks', s1\<lparr>sbuf := [], off := 0\<rparr>)))
       (sendWindow_WriteFull_loop muxOpen 0 [] acks (sendWindow_SetSendBuf b s))"


subsection \<open>The operations on numbers\<close>

lemma fits31_le: "fits31 y \<Longrightarrow> unat x \<le> unat y \<Longrightarrow> fits31 x"
  by (simp add: fits31_def)

lemma fits31_0 [simp]: "fits31 0"
  by (simp add: fits31_def)

lemma fits31_lt: "fits31 x \<Longrightarrow> unat x < 2 ^ 31"
  by (simp add: fits31_def)

lemma word_of_pos_diff:
  "(if 0 < int a - int b then word_of_int (int a - int b) else 0 :: u32) = of_nat (a - b)"
proof (cases "b < a")
  case True
  then have "int a - int b = int (a - b)" by simp
  then show ?thesis using True by (simp only: of_int_of_nat_eq) simp
qed simp

lemma unat_receive_remaining [simp]:
  "unat (receiveWindow_remainingSize m d r) = unat m - (unat (rqLength (bufQueue r)) + unat d)"
proof -
  have "receiveWindow_remainingSize m d r = of_nat (unat m - (unat (rqLength (bufQueue r)) + unat d))"
  proof -
    have "uint m - uint (rqLength (bufQueue r)) - uint d = int (unat m) - int (unat (rqLength (bufQueue r)) + unat d)"
      by (simp only: uint_nat of_nat_add diff_diff_eq)
    then show ?thesis
      unfolding receiveWindow_remainingSize_def Let_def by (simp only: word_of_pos_diff)
  qed
  moreover have "unat m - (unat (rqLength (bufQueue r)) + unat d) < 2 ^ 32" using unat_lt [of m] by simp
  ultimately show ?thesis by (simp add: unat_of_nat)
qed

lemma unat_send_remaining:
  assumes "fits31 m" "fits31 d"
  shows "unat (sendWindow_remainingSize m d) = unat m - unat d"
proof -
  have "sendWindow_remainingSize m d = of_nat (unat m - unat d)"
    unfolding sendWindow_remainingSize_def Let_def u32_mask31 [OF assms(1)] u32_mask31 [OF assms(2)]
    by (simp only: uint_nat word_of_pos_diff)
  moreover have "unat m - unat d < 2 ^ 32" using unat_lt [of m] by simp
  ultimately show ?thesis by (simp add: unat_of_nat)
qed

abbreviation win_max :: "'a window_scheme \<Rightarrow> nat" where "win_max w \<equiv> unat (w_max (maxSizeDone w))"
abbreviation win_done :: "'a window_scheme \<Rightarrow> nat" where "win_done w \<equiv> unat (w_done (maxSizeDone w))"
abbreviation win_wait :: "'a window_scheme \<Rightarrow> bool" where "win_wait w \<equiv> w_wait (maxSizeDone w)"

lemma win_bounds: "win_max w < 2 ^ 31" "win_done w < 2 ^ 31"
  using fits31_lt w_fits by blast+

lemma unpack_split: "window_unpack p = (w_max p, w_done p, w_wait p)"
  by simp

lemma u32_diff: "y \<le> x \<Longrightarrow> unat (x - y :: u32) = unat x - unat y"
  by (simp add: unat_sub)

lemma SetSize_spec:
  assumes "\<not> closeOp s" "unat (w_done a) \<le> win_done s"
  shows "fst (sendWindow_SetSize a s) = False"
    and "win_done (snd (sendWindow_SetSize a s)) = win_done s - unat (w_done a)"
    and "w_max (maxSizeDone (snd (sendWindow_SetSize a s))) = w_max a"
    and "closeOp (snd (sendWindow_SetSize a s)) = closeOp s"
    and "sbuf (snd (sendWindow_SetSize a s)) = sbuf s" "off (snd (sendWindow_SetSize a s)) = off s"
    and "win_wait s \<Longrightarrow> setSizeCh (snd (sendWindow_SetSize a s)) \<or>
       win_wait (snd (sendWindow_SetSize a s)) \<and>
       (win_max (snd (sendWindow_SetSize a s)) \<le> win_done (snd (sendWindow_SetSize a s)) \<or>
        snd (sendWindow_SetSize a s) = s)"
    and "setSizeCh s \<Longrightarrow> setSizeCh (snd (sendWindow_SetSize a s))"
proof -
  obtain m d w where s: "window_unpack (maxSizeDone s) = (m, d, w)" by (metis prod_cases3)
  obtain m' r w' where a: "window_unpack a = (m', r, w')" by (metis prod_cases3)
  have f: "fits31 m" "fits31 d" "fits31 m'" "fits31 r"
    using window_unpack_fits [OF s] window_unpack_fits [OF a] by simp_all
  have le: "r \<le> d" using assms(2) s a by (simp add: word_le_nat_alt)
  then have dr: "unat (d - r) = unat d - unat r" by (simp add: unat_sub)
  then have fd: "fits31 (d - r)" using f(2) by (simp add: fits31_def)
  have rem: "unat (sendWindow_remainingSize m' (d - r)) = unat m' - unat (d - r)"
    using unat_send_remaining [OF f(3) fd] .
  show "fst (sendWindow_SetSize a s) = False"
    using assms(1) by (simp add: sendWindow_SetSize_def Let_def split: prod.split)
  show "win_done (snd (sendWindow_SetSize a s)) = win_done s - unat (w_done a)"
    using assms(1) s a le f fd dr
    by (auto simp: sendWindow_SetSize_def Let_def not_less sendWindow_allow_def)
  show "w_max (maxSizeDone (snd (sendWindow_SetSize a s))) = w_max a"
    using assms(1) s a le f fd dr
    by (auto simp: sendWindow_SetSize_def Let_def not_less sendWindow_allow_def)
  show "closeOp (snd (sendWindow_SetSize a s)) = closeOp s" "sbuf (snd (sendWindow_SetSize a s)) = sbuf s"
    "off (snd (sendWindow_SetSize a s)) = off s" "setSizeCh s \<Longrightarrow> setSizeCh (snd (sendWindow_SetSize a s))"
    by (auto simp: sendWindow_SetSize_def Let_def sendWindow_allow_def split: prod.split)
  show "win_wait s \<Longrightarrow> setSizeCh (snd (sendWindow_SetSize a s)) \<or>
       win_wait (snd (sendWindow_SetSize a s)) \<and>
       (win_max (snd (sendWindow_SetSize a s)) \<le> win_done (snd (sendWindow_SetSize a s)) \<or>
        snd (sendWindow_SetSize a s) = s)"
    using assms(1) s a le f fd rem
    by (auto simp: sendWindow_SetSize_def Let_def not_less sendWindow_allow_def word_unat_eq_iff)
qed

lemma unat_add_fits:
  assumes "unat x + unat y < 2 ^ 31"
  shows "unat (x + y :: u32) = unat x + unat y" "fits31 (x + y)"
  using assms by (simp_all add: fits31_def unat_word_ariths)

lemma sent_spec:
  assumes "win_done s + unat l < 2 ^ 31"
  shows "\<exists>s'. sendWindow_sent l s = Some s' \<and> win_done s' = win_done s + unat l \<and>
     w_max (maxSizeDone s') = w_max (maxSizeDone s) \<and> win_wait s' = win_wait s \<and>
     s' = s\<lparr>maxSizeDone := maxSizeDone s'\<rparr>"
proof -
  obtain m d w where s: "window_unpack (maxSizeDone s) = (m, d, w)" by (metis prod_cases3)
  have f: "fits31 m" "fits31 d" using window_unpack_fits [OF s] by simp_all
  have a: "unat (d + l) = unat d + unat l" "fits31 (d + l)"
    using unat_add_fits [of d l] assms s by simp_all
  then have "\<not> (d + l) AND mask windowBits < d" by (simp add: u32_mask31 word_less_nat_alt)
  then show ?thesis using s f a by (simp add: sendWindow_sent_def)
qed

lemma WriteTo_pass:
  assumes "\<not> closeOp s" "length (sbuf s) < 2 ^ 32" "unat (off s) < length (sbuf s)"
  shows "if win_max s \<le> win_done s
     then sendWindow_WriteTo s = Some (WaitsForWindow,
            s\<lparr>maxSizeDone := window_pack (w_max (maxSizeDone s)) (w_done (maxSizeDone s)) True\<rparr>)
     else \<exists>l s'. sendWindow_WriteTo s = Some (Segment (take (unat l) (drop (unat (off s)) (sbuf s))) l
                   (unat (off s) + unat l < length (sbuf s)), s') \<and>
        unat l = min (min maximumSegmentSize (length (sbuf s) - unat (off s))) (win_max s - win_done s) \<and>
        win_done s' = win_done s + unat l \<and> w_max (maxSizeDone s') = w_max (maxSizeDone s) \<and>
        win_wait s' = win_wait s \<and> s' = s\<lparr>off := off s', maxSizeDone := maxSizeDone s'\<rparr> \<and>
        unat (off s') = unat (off s) + unat l"
proof -
  obtain m d w where s: "window_unpack (maxSizeDone s) = (m, d, w)" by (metis prod_cases3)
  have f: "fits31 m" "fits31 d" using window_unpack_fits [OF s] by simp_all
  let ?n = "length (sbuf s) - unat (off s)"
  let ?sz = "if maximumSegmentSize < ?n then of_nat maximumSegmentSize else of_nat ?n :: u32"
  let ?rem = "sendWindow_remainingSize m d"
  let ?l = "if ?rem < ?sz then ?rem else ?sz"
  have rem: "unat ?rem = unat m - unat d" using unat_send_remaining [OF f] .
  have n: "unat (of_nat ?n :: u32) = ?n" "unat (of_nat (length (sbuf s)) :: u32) = length (sbuf s)"
    using assms(2) by (simp_all add: unat_of_nat)
  then have "unat ?sz = min maximumSegmentSize ?n"
    by (simp add: mux_size_defs)
  then have l: "unat ?l = min (min maximumSegmentSize ?n) (unat m - unat d)"
    using rem by (auto simp: word_less_nat_alt min_def)
  have o: "\<not> (of_nat (length (sbuf s)) \<le> off s)" "\<not> (of_nat (length (sbuf s)) < off s)"
    using assms(3) n by (simp_all add: word_le_nat_alt word_less_nat_alt)
  have z: "?rem = 0 \<longleftrightarrow> unat m \<le> unat d" using rem by (simp add: word_unat_eq_iff)
  have off': "unat (off s + ?l) = unat (off s) + unat ?l"
  proof -
    have "unat ?l \<le> ?n" unfolding l by (simp add: min_def)
    then have "unat (off s) + unat ?l < 2 ^ 32" using assms(2,3) by linarith
    then show ?thesis by (simp only: unat_word_ariths) simp
  qed
  have part: "(?l < of_nat ?n) = (unat (off s) + unat ?l < length (sbuf s))"
    using n assms(3) by (simp only: word_less_nat_alt) linarith
  show ?thesis
  proof (cases "unat m \<le> unat d")
    case True
    then show ?thesis using assms s z o f by (simp add: sendWindow_WriteTo_def)
  next
    case False
    have "win_done (s\<lparr>off := off s + ?l\<rparr>) + unat ?l < 2 ^ 31"
    proof -
      have "unat ?l \<le> unat m - unat d" unfolding l by simp
      then have "unat d + unat ?l < 2 ^ 31" using False fits31_lt [OF f(1)] by linarith
      then show ?thesis using s by simp
    qed
    from sent_spec [OF this] obtain s' where s': "sendWindow_sent ?l (s\<lparr>off := off s + ?l\<rparr>) = Some s'"
      "win_done s' = win_done s + unat ?l" "w_max (maxSizeDone s') = w_max (maxSizeDone s)"
      "win_wait s' = win_wait s" "s' = s\<lparr>off := off s + ?l, maxSizeDone := maxSizeDone s'\<rparr>"
      by auto
    have "sendWindow_WriteTo s = Some (Segment (take (unat ?l) (drop (unat (off s)) (sbuf s))) ?l
                   (unat (off s) + unat ?l < length (sbuf s)), s')"
      unfolding sendWindow_WriteTo_def Let_def length_drop
      using assms(1) s z o False s'(1) part by (simp del: of_nat_diff split del: if_split)
    moreover have offs: "off s' = off s + ?l" by (subst s'(5)) simp
    have "s' = s\<lparr>off := off s', maxSizeDone := maxSizeDone s'\<rparr>" unfolding offs by (rule s'(5))
    moreover have "unat (off s') = unat (off s) + unat ?l" unfolding offs by (rule off')
    moreover have "\<not> win_max s \<le> win_done s" "unat ?l = min (min maximumSegmentSize ?n) (win_max s - win_done s)"
      using False s l by simp_all
    ultimately show ?thesis
      unfolding if_not_P [OF \<open>\<not> win_max s \<le> win_done s\<close>]
      by (intro exI [of _ ?l] exI [of _ s'] conjI) (assumption | rule s')+
  qed
qed


definition ackn :: "u64 option \<Rightarrow> nat" where
  "ackn a = (case a of None \<Rightarrow> 0 | Some w \<Rightarrow> unat (w_done w))"

lemma ackn_simps [simp]: "ackn None = 0" "ackn (Some w) = unat (w_done w)"
  by (simp_all add: ackn_def)

lemma calcSize_keeps [simp]:
  "bufQueue (receiveWindow_calcSize x y r) = bufQueue r" "element (receiveWindow_calcSize x y r) = element r"
  "off (receiveWindow_calcSize x y r) = off r" "closeOp (receiveWindow_calcSize x y r) = closeOp r"
  "inputClosed (receiveWindow_calcSize x y r) = inputClosed r"
  by (simp_all add: receiveWindow_calcSize_def Let_def split: prod.split)

lemma calcSize_done [simp]:
  "w_done (maxSizeDone (receiveWindow_calcSize x y r)) = w_done (maxSizeDone r)"
  "win_wait (receiveWindow_calcSize x y r) = win_wait r"
proof -
  obtain m d w where s: "window_unpack (maxSizeDone r) = (m, d, w)" by (metis prod_cases3)
  then have "fits31 d" using window_unpack_fits by blast
  with s show "w_done (maxSizeDone (receiveWindow_calcSize x y r)) = w_done (maxSizeDone r)"
    "win_wait (receiveWindow_calcSize x y r) = win_wait r"
    by (simp_all add: receiveWindow_calcSize_def Let_def unpack_pack_mask u32_mask31)
qed

lemma Write_status_spec:
  assumes "receiveWindow_Write_status l r = (r', a)"
  shows "r' = r\<lparr>maxSizeDone := maxSizeDone r'\<rparr>" "win_done r' + ackn a = win_done r"
    "w_max (maxSizeDone r') = w_max (maxSizeDone r)"
proof -
  obtain m d w where s: "window_unpack (maxSizeDone r) = (m, d, w)" by (metis prod_cases3)
  have f: "fits31 m" "fits31 d" using window_unpack_fits [OF s] by simp_all
  show "r' = r\<lparr>maxSizeDone := maxSizeDone r'\<rparr>" "win_done r' + ackn a = win_done r"
    "w_max (maxSizeDone r') = w_max (maxSizeDone r)"
    using assms s f by (auto simp: receiveWindow_Write_status_def Let_def split: if_splits)
qed

lemma sendStatus_spec:
  assumes "receiveWindow_sendStatus l r = (r', a)" "win_done r + unat l < 2 ^ 31"
  shows "r' = r\<lparr>maxSizeDone := maxSizeDone r'\<rparr>" "win_done r' + ackn a = win_done r + unat l"
    "w_max (maxSizeDone r') = w_max (maxSizeDone r)"
    "rqLength (bufQueue r) = 0 \<Longrightarrow> win_done r' = 0"
    "2 * (win_done r + unat l) < win_max r \<or> win_done r' = 0"
proof -
  obtain m d w where s: "window_unpack (maxSizeDone r) = (m, d, w)" by (metis prod_cases3)
  have f: "fits31 m" "fits31 d" using window_unpack_fits [OF s] by simp_all
  have a: "unat (d + ucast l) = unat d + unat l" "fits31 (d + ucast l)"
    using unat_add_fits [of d "ucast l"] assms(2) s by simp_all
  then have c: "d \<le> (d + ucast l) AND mask windowBits" by (simp add: u32_mask31 word_le_nat_alt)
  have z: "rqLength (bufQueue r) = 0 \<Longrightarrow> receiveWindow_remainingSize m 0 r = m"
    by (simp add: word_unat_eq_iff)
  have h: "\<not> m div 2 \<le> d + ucast l \<Longrightarrow> 2 * (unat d + unat l) < unat m"
    using a by (simp add: word_le_nat_alt unat_div_distrib)
  show "r' = r\<lparr>maxSizeDone := maxSizeDone r'\<rparr>" "win_done r' + ackn a = win_done r + unat l"
    "w_max (maxSizeDone r') = w_max (maxSizeDone r)" "rqLength (bufQueue r) = 0 \<Longrightarrow> win_done r' = 0"
    "2 * (win_done r + unat l) < win_max r \<or> win_done r' = 0"
    using assms(1) s f a c z h by (auto simp: receiveWindow_sendStatus_def Let_def split: if_splits)
qed


subsection \<open>A stream between two ends\<close>

text \<open>
  One direction of a stream: the writer and its window, data frames on their way, the frame reader of
  the other side between the two halves of \<open>receiveWindow.Write\<close> (\<open>fArriving\<close>), the receive window and
  its consumer, acknowledgements on their way. Data frames keep their order (one class of the priority
  queue, one connection); acknowledgements come from the frame reader and from the consumer and may
  overtake one another. \<open>fSent\<close> and \<open>fRead\<close> record the bytes taken from the writer and given to the
  reader. The stream is open: closing is not part of this relation.
\<close>

record flow =
  fSnd :: sendWindow
  fWaiting :: bool
  fData :: "mux_segment list"
  fArriving :: "(listElement \<times> u64 option) option"
  fRcv :: receiveWindow
  fAcks :: "u64 list"
  fSent :: "byte list"
  fRead :: "byte list"
  fPool :: wpool

definition opt_list :: "'a option \<Rightarrow> 'a list" where
  "opt_list x = (case x of None \<Rightarrow> [] | Some a \<Rightarrow> [a])"

inductive flow_step :: "flow \<Rightarrow> flow \<Rightarrow> bool" where
  begin_write: "\<not> fWaiting s \<Longrightarrow> length (sbuf (fSnd s)) \<le> unat (off (fSnd s)) \<Longrightarrow> length b < 2 ^ 32 \<Longrightarrow>
     flow_step s (s\<lparr>fSnd := sendWindow_SetSendBuf b (fSnd s)\<rparr>)"
| segment: "\<not> fWaiting s \<Longrightarrow> sendWindow_WriteTo (fSnd s) = Some (Segment p l part, w) \<Longrightarrow>
     flow_step s (s\<lparr>fSnd := w, fData := fData s @ [(p, part)], fSent := fSent s @ p\<rparr>)"
| write_waits: "\<not> fWaiting s \<Longrightarrow> sendWindow_WriteTo (fSnd s) = Some (WaitsForWindow, w) \<Longrightarrow>
     flow_step s (s\<lparr>fSnd := w, fWaiting := True\<rparr>)"
| write_wakes: "fWaiting s \<Longrightarrow> setSizeCh (fSnd s) \<Longrightarrow>
     flow_step s (s\<lparr>fSnd := (fSnd s)\<lparr>setSizeCh := False\<rparr>, fWaiting := False\<rparr>)"
| write_times_out: "fWaiting s \<Longrightarrow>
     flow_step s (s\<lparr>fSnd := (fSnd s)\<lparr>sbuf := [], off := 0\<rparr>, fWaiting := False\<rparr>)"
| arrive: "fArriving s = None \<Longrightarrow> fData s = (p, part) # ds \<Longrightarrow> slice_ok b \<Longrightarrow> slice_bytes b = p \<Longrightarrow>
     newListElement b (of_nat (length p)) part = Some e \<Longrightarrow>
     receiveWindow_Write_status (of_nat (length p)) (receiveWindow_calcSize muxBw latency (fRcv s)) = (r, a) \<Longrightarrow>
     flow_step s (s\<lparr>fData := ds, fArriving := Some (e, a), fRcv := r\<rparr>)"
| push: "fArriving s = Some (e, a) \<Longrightarrow>
     receiveWindowQueue_Push (Some e) (bufQueue (fRcv s)) (fPool s) = (q, pl) \<Longrightarrow>
     flow_step s (s\<lparr>fArriving := None, fRcv := (fRcv s)\<lparr>bufQueue := q\<rparr>, fPool := pl,
        fAcks := fAcks s @ opt_list a\<rparr>)"
| fetch: "rw_drained (fRcv s) \<Longrightarrow> receiveWindow_next (fRcv s) = Some (HaveElement, r) \<Longrightarrow>
     flow_step s (s\<lparr>fRcv := r\<rparr>)"
| copy: "\<not> rw_drained (fRcv s) \<Longrightarrow> element (fRcv s) = Some e \<Longrightarrow> 0 < room \<Longrightarrow>
     receiveWindow_copy room e (fRcv s) (fPool s) = (bs, r, pl, a) \<Longrightarrow>
     flow_step s (s\<lparr>fRcv := r, fPool := pl, fRead := fRead s @ bs, fAcks := fAcks s @ opt_list a\<rparr>)"
| ack: "fAcks s = xs @ a # ys \<Longrightarrow> sendWindow_SetSize a (fSnd s) = (c, w) \<Longrightarrow>
     flow_step s (s\<lparr>fSnd := w, fAcks := xs @ ys\<rparr>)"

definition flow_init :: flow where
  "flow_init = \<lparr>fSnd = sendWindow_New, fWaiting = False, fData = [], fArriving = None,
     fRcv = receiveWindow_New, fAcks = [], fSent = [], fRead = [], fPool = []\<rparr>"

definition elem_ok :: "listElement \<Rightarrow> bool" where
  "elem_ok e \<longleftrightarrow> slice_ok (eBuf e) \<and> length (slice_bytes (eBuf e)) = unat (eL e) \<and> 0 < unat (eL e)"

text \<open>The bytes and the size of the element being read that the reader has not finished.\<close>

definition elem_rest :: "receiveWindow \<Rightarrow> byte list" where
  "elem_rest r = (if rw_drained r then [] else
     case element r of None \<Rightarrow> [] | Some e \<Rightarrow> drop (unat (off r)) (slice_bytes (eBuf e)))"

definition elem_size :: "receiveWindow \<Rightarrow> nat" where
  "elem_size r = (if rw_drained r then 0 else case element r of None \<Rightarrow> 0 | Some e \<Rightarrow> unat (eL e))"

definition queued :: "receiveWindow \<Rightarrow> listElement list" where
  "queued r = rq_list (bufQueue r)"

definition elems_bytes :: "listElement list \<Rightarrow> byte list" where
  "elems_bytes es = concat (map (\<lambda>e. slice_bytes (eBuf e)) es)"

definition data_size :: "mux_segment list \<Rightarrow> nat" where
  "data_size ds = length (concat (map fst ds))"

definition acks_size :: "u64 list \<Rightarrow> nat" where
  "acks_size as = sum_list (map (\<lambda>a. unat (w_done a)) as)"

definition arriving_size :: "(listElement \<times> u64 option) option \<Rightarrow> nat" where
  "arriving_size x = (case x of None \<Rightarrow> 0 | Some (e, a) \<Rightarrow> unat (eL e) + ackn a)"

definition arriving_bytes :: "(listElement \<times> u64 option) option \<Rightarrow> byte list" where
  "arriving_bytes x = (case x of None \<Rightarrow> [] | Some (e, a) \<Rightarrow> slice_bytes (eBuf e))"

text \<open>The writer's count of unacknowledged bytes is the sum of everything that still has to come back.\<close>

definition flow_balance :: "flow \<Rightarrow> bool" where
  "flow_balance s \<longleftrightarrow> win_done (fSnd s) = data_size (fData s) + arriving_size (fArriving s) +
     rq_bytes (queued (fRcv s)) + elem_size (fRcv s) + win_done (fRcv s) + acks_size (fAcks s)"

definition flow_order :: "flow \<Rightarrow> bool" where
  "flow_order s \<longleftrightarrow> fSent s = fRead s @ elem_rest (fRcv s) @ elems_bytes (queued (fRcv s)) @
     arriving_bytes (fArriving s) @ concat (map fst (fData s))"

definition flow_snd_ok :: "flow \<Rightarrow> bool" where
  "flow_snd_ok s \<longleftrightarrow> \<not> closeOp (fSnd s) \<and> length (sbuf (fSnd s)) < 2 ^ 32 \<and>
     unat (off (fSnd s)) \<le> length (sbuf (fSnd s)) \<and>
     (fWaiting s \<longrightarrow> setSizeCh (fSnd s) \<or> win_wait (fSnd s) \<and> win_max (fSnd s) \<le> win_done (fSnd s)) \<and>
     list_all (\<lambda>(p, _). 0 < length p \<and> length p \<le> maximumSegmentSize) (fData s)"

definition arriving_ok :: "(listElement \<times> u64 option) option \<Rightarrow> bool" where
  "arriving_ok x \<longleftrightarrow> (case x of None \<Rightarrow> True | Some (e, a) \<Rightarrow> elem_ok e)"

definition element_ok :: "receiveWindow \<Rightarrow> bool" where
  "element_ok r \<longleftrightarrow> (case element r of None \<Rightarrow> True
     | Some e \<Rightarrow> unat (off r) \<le> unat (eL e) \<and> (\<not> rw_drained r \<longrightarrow> elem_ok e))"

definition flow_rcv_ok :: "flow \<Rightarrow> bool" where
  "flow_rcv_ok s \<longleftrightarrow> \<not> closeOp (fRcv s) \<and> \<not> rqStopped (bufQueue (fRcv s)) \<and> rq_inv (bufQueue (fRcv s)) \<and>
     list_all elem_ok (queued (fRcv s)) \<and>
     arriving_ok (fArriving s) \<and> element_ok (fRcv s) \<and>
     (0 < win_done (fRcv s) \<longrightarrow> queued (fRcv s) \<noteq> [] \<or> \<not> rw_drained (fRcv s))"

lemmas flow_ok_defs = flow_snd_ok_def flow_rcv_ok_def
lemmas flow_size_defs = flow_balance_def flow_order_def data_size_def acks_size_def arriving_size_def
  arriving_bytes_def elems_bytes_def opt_list_def

definition flow_inv :: "flow \<Rightarrow> bool" where
  "flow_inv s \<longleftrightarrow> flow_balance s \<and> flow_order s \<and> flow_snd_ok s \<and> flow_rcv_ok s"


lemma read_state_cong:
  assumes "element r' = element r" "off r' = off r"
  shows "rw_drained r' = rw_drained r" "elem_rest r' = elem_rest r" "elem_size r' = elem_size r"
    "element_ok r' = element_ok r"
  using assms by (simp_all add: rw_drained_def elem_rest_def elem_size_def element_ok_def cong: option.case_cong)

lemma data_size_simps [simp]:
  "data_size [] = 0" "data_size ((p, b) # ds) = length p + data_size ds" "data_size (xs @ ys) = data_size xs + data_size ys"
  by (simp_all add: data_size_def)

lemma acks_size_simps [simp]:
  "acks_size [] = 0" "acks_size (a # as) = unat (w_done a) + acks_size as" "acks_size (xs @ ys) = acks_size xs + acks_size ys"
  "acks_size (opt_list x) = ackn x"
  by (simp_all add: acks_size_def opt_list_def split: option.split)

lemma arriving_simps [simp]:
  "arriving_size None = 0" "arriving_size (Some (e, a)) = unat (eL e) + ackn a"
  "arriving_bytes None = []" "arriving_bytes (Some (e, a)) = slice_bytes (eBuf e)"
  "arriving_ok None" "arriving_ok (Some (e, a)) = elem_ok e"
  by (simp_all add: arriving_size_def arriving_bytes_def arriving_ok_def)

lemma newListElement_ok:
  assumes "newListElement b (of_nat (length p)) part = Some e" "slice_ok b" "slice_bytes b = p"
    "0 < length p" "length p \<le> maximumSegmentSize"
  shows "elem_ok e" "slice_bytes (eBuf e) = p" "unat (eL e) = length p" "ePart e = part"
proof -
  have u: "unat (of_nat (length p) :: u16) = length p"
    using assms(5) by (simp add: unat_of_nat mux_size_defs)
  have e: "e = \<lparr>eBuf = b, eL = of_nat (length p), ePart = part\<rparr>"
    using assms(1) by (simp add: newListElement_def split: if_splits)
  then show "slice_bytes (eBuf e) = p" "unat (eL e) = length p" "ePart e = part" using assms u by simp_all
  with e assms show "elem_ok e" by (simp add: elem_ok_def)
qed

lemma inv_begin_write:
  assumes "flow_inv s" "\<not> fWaiting s" "length b < 2 ^ 32"
  shows "flow_inv (s\<lparr>fSnd := sendWindow_SetSendBuf b (fSnd s)\<rparr>)"
  using assms by (simp add: flow_inv_def flow_balance_def flow_order_def flow_ok_defs sendWindow_SetSendBuf_def)

lemma inv_segment:
  assumes I: "flow_inv s" and "\<not> fWaiting s" and W: "sendWindow_WriteTo (fSnd s) = Some (Segment p l part, w)"
  shows "flow_inv (s\<lparr>fSnd := w, fData := fData s @ [(p, part)], fSent := fSent s @ p\<rparr>)"
proof -
  have ok: "\<not> closeOp (fSnd s)" "length (sbuf (fSnd s)) < 2 ^ 32" using I by (simp_all add: flow_inv_def flow_snd_ok_def)
  have "unat (off (fSnd s)) < length (sbuf (fSnd s))"
    using W ok by (auto simp: sendWindow_WriteTo_def word_le_nat_alt unat_of_nat split: if_splits)
  note P = WriteTo_pass [OF ok this]
  then have nw: "\<not> win_max (fSnd s) \<le> win_done (fSnd s)" using W by auto
  with P W have p: "p = take (unat l) (drop (unat (off (fSnd s))) (sbuf (fSnd s)))"
    and l: "unat l = min (min maximumSegmentSize (length (sbuf (fSnd s)) - unat (off (fSnd s))))
        (win_max (fSnd s) - win_done (fSnd s))"
    and d: "win_done w = win_done (fSnd s) + unat l"
    and w: "w = (fSnd s)\<lparr>off := off w, maxSizeDone := maxSizeDone w\<rparr>"
    and o: "unat (off w) = unat (off (fSnd s)) + unat l"
    by auto
  have lp: "length p = unat l" using l p by simp
  have pos: "0 < length p" using lp l nw \<open>unat (off (fSnd s)) < length (sbuf (fSnd s))\<close> by (simp add: mux_size_defs)
  have le1: "unat l \<le> maximumSegmentSize" "unat l \<le> length (sbuf (fSnd s)) - unat (off (fSnd s))"
    unfolding l by simp_all
  have le: "length p \<le> maximumSegmentSize" "unat (off w) \<le> length (sbuf (fSnd s))"
    using lp le1 o \<open>unat (off (fSnd s)) < length (sbuf (fSnd s))\<close> by linarith+
  have ww: "sbuf w = sbuf (fSnd s)" "closeOp w = closeOp (fSnd s)" by (subst w, simp)+
  show ?thesis
    using I assms(2) ww d lp pos le
    by (auto simp: flow_inv_def flow_balance_def flow_order_def flow_ok_defs)
qed

lemma inv_write_waits:
  assumes I: "flow_inv s" and "\<not> fWaiting s" and W: "sendWindow_WriteTo (fSnd s) = Some (WaitsForWindow, w)"
  shows "flow_inv (s\<lparr>fSnd := w, fWaiting := True\<rparr>)"
proof -
  have ok: "\<not> closeOp (fSnd s)" "length (sbuf (fSnd s)) < 2 ^ 32" using I by (simp_all add: flow_inv_def flow_snd_ok_def)
  have "unat (off (fSnd s)) < length (sbuf (fSnd s))"
    using W ok by (auto simp: sendWindow_WriteTo_def word_le_nat_alt unat_of_nat split: if_splits)
  note P = WriteTo_pass [OF ok this]
  then have c: "win_max (fSnd s) \<le> win_done (fSnd s)" using W by (auto split: if_splits)
  with P W have "w = (fSnd s)\<lparr>maxSizeDone :=
      window_pack (w_max (maxSizeDone (fSnd s))) (w_done (maxSizeDone (fSnd s))) True\<rparr>"
    by simp
  with I c show ?thesis by (simp add: flow_inv_def flow_balance_def flow_order_def flow_ok_defs)
qed

lemma inv_write_wakes:
  assumes "flow_inv s"
  shows "flow_inv (s\<lparr>fSnd := (fSnd s)\<lparr>setSizeCh := False\<rparr>, fWaiting := False\<rparr>)"
    and "flow_inv (s\<lparr>fSnd := (fSnd s)\<lparr>sbuf := [], off := 0\<rparr>, fWaiting := False\<rparr>)"
  using assms by (simp_all add: flow_inv_def flow_balance_def flow_order_def flow_ok_defs)

lemma inv_arrive:
  assumes I: "flow_inv s" and A: "fArriving s = None" "fData s = (p, part) # ds" "slice_ok b" "slice_bytes b = p"
    "newListElement b (of_nat (length p)) part = Some e"
    and W: "receiveWindow_Write_status (of_nat (length p)) (receiveWindow_calcSize x y (fRcv s)) = (r, a)"
  shows "flow_inv (s\<lparr>fData := ds, fArriving := Some (e, a), fRcv := r\<rparr>)"
proof -
  note S = Write_status_spec [OF W]
  have r: "bufQueue r = bufQueue (fRcv s)" "element r = element (fRcv s)" "off r = off (fRcv s)"
    "closeOp r = closeOp (fRcv s)"
    by (subst S(1), simp)+
  have e: "elem_ok e" "slice_bytes (eBuf e) = p" "unat (eL e) = length p"
    using newListElement_ok [OF A(5,3,4)] I A by (simp_all add: flow_inv_def flow_snd_ok_def)
  note R = read_state_cong [OF r(2,3)]
  have i: "flow_balance s" "flow_order s" "flow_snd_ok s" "flow_rcv_ok s" using I by (simp_all add: flow_inv_def)
  show ?thesis
    unfolding flow_inv_def
  proof (intro conjI)
    show "flow_balance (s\<lparr>fData := ds, fArriving := Some (e, a), fRcv := r\<rparr>)"
      using i(1) A e r S(2) R by (simp add: flow_balance_def queued_def)
    show "flow_order (s\<lparr>fData := ds, fArriving := Some (e, a), fRcv := r\<rparr>)"
      using i(2) A e r R by (simp add: flow_order_def queued_def)
    show "flow_snd_ok (s\<lparr>fData := ds, fArriving := Some (e, a), fRcv := r\<rparr>)"
      using i(3) A by (simp add: flow_snd_ok_def)
    show "flow_rcv_ok (s\<lparr>fData := ds, fArriving := Some (e, a), fRcv := r\<rparr>)"
      using i(4) A e r S(2) R by (auto simp: flow_rcv_ok_def queued_def)
  qed
qed

lemma inv_push:
  assumes I: "flow_inv s" and A: "fArriving s = Some (e, a)"
    and P: "receiveWindowQueue_Push (Some e) (bufQueue (fRcv s)) (fPool s) = (q, pl)"
  shows "flow_inv (s\<lparr>fArriving := None, fRcv := (fRcv s)\<lparr>bufQueue := q\<rparr>, fPool := pl,
        fAcks := fAcks s @ opt_list a\<rparr>)"
proof -
  let ?q = "bufQueue (fRcv s)"
  have ok: "\<not> rqStopped ?q" "rq_inv ?q" using I by (simp_all add: flow_inv_def flow_rcv_ok_def)
  then have q: "q = rq_allowPop (rq_PushLocked e ?q)" using P by (simp add: receiveWindowQueue_Push_def)
  have "rq_bytes (rq_list ?q) + unat (eL e) \<le> win_done (fSnd s)"
    using I A by (simp add: flow_inv_def flow_balance_def queued_def)
  with win_bounds(2) [of "fSnd s"] have "rq_bytes (rq_list ?q) + unat (eL e) < 2 ^ 32" by simp
  from rq_push [OF ok(2) this] have Q: "rq_inv q" "rq_list q = rq_list ?q @ [e]" using q by simp_all
  have "\<not> rqStopped q" using q ok by (simp add: rq_allowPop_def rq_PushLocked_def)
  then show ?thesis
    using I A Q read_state_cong [of "(fRcv s)\<lparr>bufQueue := q\<rparr>" "fRcv s"]
    by (auto simp: flow_inv_def flow_balance_def flow_order_def flow_ok_defs queued_def rq_bytes_def elems_bytes_def)
qed

lemma inv_fetch:
  assumes I: "flow_inv s" and D: "rw_drained (fRcv s)" and N: "receiveWindow_next (fRcv s) = Some (HaveElement, r)"
  shows "flow_inv (s\<lparr>fRcv := r\<rparr>)"
proof -
  have ok: "\<not> closeOp (fRcv s)" "rq_inv (bufQueue (fRcv s))" using I by (simp_all add: flow_inv_def flow_rcv_ok_def)
  obtain e q where q: "rq_popLocked (bufQueue (fRcv s)) = Some (Some e, q)"
    and r: "r = (fRcv s)\<lparr>element := Some e, bufQueue := q, off := 0\<rparr>"
    using N D ok(1) by (auto simp: receiveWindow_next_def Let_def split: option.splits if_splits)
  note Q = rq_pop_Some [OF ok(2) q]
  have e: "elem_ok e" "0 < unat (eL e)" using I Q by (simp_all add: flow_inv_def flow_rcv_ok_def queued_def elem_ok_def)
  then have nd: "\<not> rw_drained r" using r by (auto simp: rw_drained_def word_unat_eq_iff)
  have "elem_rest r = slice_bytes (eBuf e)" "elem_size r = unat (eL e)" "elem_rest (fRcv s) = []" "elem_size (fRcv s) = 0"
    using nd D by (simp_all add: elem_rest_def elem_size_def) (simp_all add: r)
  moreover have "element_ok r" using r e by (simp add: element_ok_def)
  ultimately show ?thesis using I Q r nd
    by (auto simp: flow_inv_def flow_balance_def flow_order_def flow_ok_defs queued_def rq_bytes_def elems_bytes_def)
qed


lemma copy_progress:
  assumes "elem_ok e" "element r = Some e" "\<not> rw_drained r" "element_ok r" "0 < room"
    and C: "receiveWindow_copy room e r pl = (bs, r', pl', a)"
  shows "bs \<noteq> []" "bs = take (length bs) (drop (unat (off r)) (slice_bytes (eBuf e)))"
    "length bs = min room (unat (eL e) - unat (off r))"
    "unat (off r') = unat (off r) + length bs" "unat (off r) + length bs \<le> unat (eL e)"
    and "if unat (off r) + length bs = unat (eL e)
       then receiveWindow_sendStatus (eL e) (r\<lparr>off := ucast (eL e), element := Some (e\<lparr>eBuf := SNil\<rparr>)\<rparr>) = (r', a)
       else r' = r\<lparr>off := off r'\<rparr> \<and> a = None"
proof -
  have o: "unat (off r) < unat (eL e)"
    using assms(2-4) by (simp add: element_ok_def rw_drained_def word_unat_eq_iff)
  have len: "length (slice_bytes (eBuf e)) = unat (eL e)" using assms(1) by (simp add: elem_ok_def)
  then have b: "bs = take room (drop (unat (off r)) (slice_bytes (eBuf e)))"
    using C by (simp add: receiveWindow_copy_def Let_def split: if_splits prod.splits)
  then show lb: "length bs = min room (unat (eL e) - unat (off r))"
    "bs = take (length bs) (drop (unat (off r)) (slice_bytes (eBuf e)))"
    using len by (simp_all add: min_def)
  then show "bs \<noteq> []" "unat (off r) + length bs \<le> unat (eL e)" using o assms(5) by auto
  have "unat (off r) + length bs < 2 ^ 32" using lb(1) o unat_lt [of "eL e"] by simp
  then have u: "unat (off r + of_nat (length bs)) = unat (off r) + length bs"
    by (simp add: unat_word_ariths unat_of_nat)
  then have c: "off r + of_nat (length bs) = ucast (eL e) \<longleftrightarrow> unat (off r) + length bs = unat (eL e)"
    by (simp add: word_unat_eq_iff)
  have st: "receiveWindow_sendStatus (eL e) (r\<lparr>off := ucast (eL e), element := Some (e\<lparr>eBuf := SNil\<rparr>)\<rparr>) = (r', a)"
    if "unat (off r) + length bs = unat (eL e)"
    using that C b len c by (auto simp: receiveWindow_copy_def Let_def split: prod.splits)
  have ns: "r' = r\<lparr>off := off r + of_nat (length bs)\<rparr> \<and> a = None" if "unat (off r) + length bs \<noteq> unat (eL e)"
    using that C b len c by (auto simp: receiveWindow_copy_def Let_def split: prod.splits)
  show "if unat (off r) + length bs = unat (eL e)
       then receiveWindow_sendStatus (eL e) (r\<lparr>off := ucast (eL e), element := Some (e\<lparr>eBuf := SNil\<rparr>)\<rparr>) = (r', a)
       else r' = r\<lparr>off := off r'\<rparr> \<and> a = None"
    using st ns by auto
  show "unat (off r') = unat (off r) + length bs"
  proof (cases "unat (off r) + length bs = unat (eL e)")
    case True
    from st [OF True] have "off r' = ucast (eL e)"
      by (auto simp: receiveWindow_sendStatus_def Let_def split: prod.splits if_splits)
    with True show ?thesis by simp
  qed (use ns u in simp)
qed

lemma sendStatus_keeps:
  assumes "receiveWindow_sendStatus l r = (r', a)"
  shows "bufQueue r' = bufQueue r" "element r' = element r" "off r' = off r" "closeOp r' = closeOp r"
  using assms by (auto simp: receiveWindow_sendStatus_def Let_def split: prod.splits if_splits)

text \<open>Copying from the element that is being read: bytes, sizes and acknowledgement.\<close>

lemma copy_spec:
  assumes e: "elem_ok e" "element r = Some e" "\<not> rw_drained r" "element_ok r" "0 < room"
    and b: "win_done r + unat (eL e) < 2 ^ 31"
    and C: "receiveWindow_copy room e r pl = (bs, r', pl', a)"
  shows "bufQueue r' = bufQueue r" "closeOp r' = closeOp r" "element_ok r'"
    "elem_rest r = bs @ elem_rest r'" "elem_size r' + win_done r' + ackn a = elem_size r + win_done r"
    "rw_drained r' \<or> element r' = Some e \<and> win_done r' = win_done r"
    "rw_drained r' \<Longrightarrow> rqLength (bufQueue r) = 0 \<Longrightarrow> win_done r' = 0"
    "length bs < room \<Longrightarrow> rw_drained r'"
proof -
  note P = copy_progress [OF e C]
  have len: "length (slice_bytes (eBuf e)) = unat (eL e)" using e by (simp add: elem_ok_def)
  have es: "elem_size r = unat (eL e)" "elem_rest r = drop (unat (off r)) (slice_bytes (eBuf e))"
    using e by (simp_all add: elem_size_def elem_rest_def)
  have "bufQueue r' = bufQueue r \<and> closeOp r' = closeOp r \<and> element_ok r' \<and> elem_rest r = bs @ elem_rest r' \<and>
      elem_size r' + win_done r' + ackn a = elem_size r + win_done r \<and>
      (rw_drained r' \<or> element r' = Some e \<and> win_done r' = win_done r) \<and>
      (rw_drained r' \<and> rqLength (bufQueue r) = 0 \<longrightarrow> win_done r' = 0) \<and> (length bs < room \<longrightarrow> rw_drained r')"
  proof (cases "unat (off r) + length bs = unat (eL e)")
    case True
    let ?r = "r\<lparr>off := ucast (eL e), element := Some (e\<lparr>eBuf := SNil\<rparr>)\<rparr>"
    have st: "receiveWindow_sendStatus (eL e) ?r = (r', a)" using P(6) True by simp
    have "win_done ?r + unat (eL e) < 2 ^ 31" using b by simp
    note S = sendStatus_spec [OF st this] and K = sendStatus_keeps [OF st]
    have d: "rw_drained r'" "elem_rest r' = []" "elem_size r' = 0" "element_ok r'"
      using K by (simp_all add: rw_drained_def elem_rest_def elem_size_def element_ok_def)
    have "bs = drop (unat (off r)) (slice_bytes (eBuf e))" using P(2,3) True len by auto
    then show ?thesis using es d S(2,4) K by simp
  next
    case False
    then have r: "r' = r\<lparr>off := off r'\<rparr>" "a = None" using P(6) by simp_all
    have K: "bufQueue r' = bufQueue r" "element r' = Some e" "closeOp r' = closeOp r" "maxSizeDone r' = maxSizeDone r"
      by (subst r(1), simp add: e)+
    have nd: "\<not> rw_drained r'" using K P(4) False by (auto simp: rw_drained_def word_unat_eq_iff)
    then have d: "elem_size r' = unat (eL e)" "elem_rest r' = drop (unat (off r')) (slice_bytes (eBuf e))" "element_ok r'"
      using K P(4,5) e by (simp_all add: elem_size_def elem_rest_def element_ok_def)
    have "elem_rest r = bs @ elem_rest r'"
      unfolding es d(2) P(4) by (subst P(2)) (simp add: add.commute flip: drop_drop)
    moreover have "\<not> length bs < room" using P(3,5) False by (auto simp: min_def split: if_splits)
    ultimately show ?thesis using es d K nd r(2) by simp
  qed
  then show "bufQueue r' = bufQueue r" "closeOp r' = closeOp r" "element_ok r'"
    "elem_rest r = bs @ elem_rest r'" "elem_size r' + win_done r' + ackn a = elem_size r + win_done r"
    "rw_drained r' \<or> element r' = Some e \<and> win_done r' = win_done r"
    "rw_drained r' \<Longrightarrow> rqLength (bufQueue r) = 0 \<Longrightarrow> win_done r' = 0"
    "length bs < room \<Longrightarrow> rw_drained r'"
    by blast+
qed

lemma inv_copy:
  assumes I: "flow_inv s" and D: "\<not> rw_drained (fRcv s)" "element (fRcv s) = Some e" "0 < room"
    and C: "receiveWindow_copy room e (fRcv s) (fPool s) = (bs, r, pl, a)"
  shows "flow_inv (s\<lparr>fRcv := r, fPool := pl, fRead := fRead s @ bs, fAcks := fAcks s @ opt_list a\<rparr>)"
    (is "flow_inv ?s")
proof -
  have i: "flow_balance s" "flow_order s" "flow_snd_ok s" "flow_rcv_ok s" using I by (simp_all add: flow_inv_def)
  have e: "elem_ok e" "element_ok (fRcv s)" using i(4) D by (simp_all add: flow_rcv_ok_def element_ok_def)
  have "win_done (fRcv s) + unat (eL e) \<le> win_done (fSnd s)"
    using i(1) D by (simp add: flow_balance_def elem_size_def)
  then have "win_done (fRcv s) + unat (eL e) < 2 ^ 31" using win_bounds(2) [of "fSnd s"] by simp
  note P = copy_spec [OF e(1) D(2,1) e(2) D(3) this C]
  have "flow_balance ?s" using i(1) P(1,5) by (simp add: flow_balance_def queued_def)
  moreover have "flow_order ?s" using i(2) P(1,4) by (simp add: flow_order_def queued_def)
  moreover have "flow_rcv_ok ?s"
    using i(4) P by (auto simp: flow_rcv_ok_def queued_def rq_inv_def rq_bytes_def word_unat_eq_iff)
  moreover have "flow_snd_ok ?s" using i(3) by (simp add: flow_snd_ok_def)
  ultimately show ?thesis by (simp add: flow_inv_def)
qed

lemma inv_ack:
  assumes I: "flow_inv s" and A: "fAcks s = xs @ a # ys" "sendWindow_SetSize a (fSnd s) = (c, w)"
  shows "flow_inv (s\<lparr>fSnd := w, fAcks := xs @ ys\<rparr>)" "unat (w_done a) \<le> win_done (fSnd s)"
proof -
  have i: "flow_balance s" "flow_order s" "flow_snd_ok s" "flow_rcv_ok s" using I by (simp_all add: flow_inv_def)
  show le: "unat (w_done a) \<le> win_done (fSnd s)" using i(1) A by (simp add: flow_balance_def)
  have "\<not> closeOp (fSnd s)" using i(3) by (simp add: flow_snd_ok_def)
  note S = SetSize_spec [OF this le, unfolded A(2) snd_conv fst_conv]
  have "flow_balance (s\<lparr>fSnd := w, fAcks := xs @ ys\<rparr>)"
    using i(1) A S(2) by (simp add: flow_balance_def)
  moreover have "flow_snd_ok (s\<lparr>fSnd := w, fAcks := xs @ ys\<rparr>)"
    using i(3) S(3-8) by (auto simp: flow_snd_ok_def)
  ultimately show "flow_inv (s\<lparr>fSnd := w, fAcks := xs @ ys\<rparr>)"
    using i(2,4) by (simp add: flow_inv_def flow_order_def flow_rcv_ok_def)
qed

lemma flow_init_inv: "flow_inv flow_init"
proof -
  have "fits31 (of_nat (maximumSegmentSize * 30))" by (simp add: fits31_def mux_size_defs)
  then show ?thesis
    using rq_new_inv
    by (simp add: flow_inv_def flow_balance_def flow_order_def flow_ok_defs flow_init_def sendWindow_New_def
        receiveWindow_New_def queued_def rq_bytes_def elems_bytes_def rw_drained_def elem_rest_def elem_size_def
        element_ok_def newReceiveWindowQueue_def)
qed

lemma flow_step_inv: "flow_step s s' \<Longrightarrow> flow_inv s \<Longrightarrow> flow_inv s'"
proof (induction rule: flow_step.induct)
  case begin_write then show ?case by (intro inv_begin_write) simp_all
next
  case segment then show ?case by (intro inv_segment)
next
  case write_waits then show ?case by (intro inv_write_waits)
next
  case write_wakes show ?case by (rule inv_write_wakes) fact
next
  case write_times_out show ?case by (rule inv_write_wakes) fact
next
  case arrive then show ?case by (intro inv_arrive)
next
  case push then show ?case by (intro inv_push)
next
  case fetch then show ?case by (intro inv_fetch)
next
  case copy then show ?case by (intro inv_copy)
next
  case ack then show ?case by (intro inv_ack(1))
qed

lemma flow_reachable_inv: "flow_step\<^sup>*\<^sup>* flow_init s \<Longrightarrow> flow_inv s"
  by (induction rule: rtranclp_induct) (simp_all add: flow_init_inv flow_step_inv)


subsection \<open>Whole writes\<close>

text \<open>Splitting a buffer of \<open>WriteFull\<close> into frames: the invariant of its loop.\<close>

definition segs_ok :: "mux_segment list \<Rightarrow> bool" where
  "segs_ok ds \<longleftrightarrow> list_all (\<lambda>(p, _). 0 < length p \<and> length p \<le> maximumSegmentSize) ds"

definition wf_snd :: "sendWindow \<Rightarrow> bool" where
  "wf_snd s \<longleftrightarrow> \<not> closeOp s \<and> length (sbuf s) < 2 ^ 32 \<and> unat (off s) \<le> length (sbuf s)"

text \<open>The part flags: set on every frame but the one that ends the buffer.\<close>

definition parts_ok :: "nat \<Rightarrow> mux_segment list \<Rightarrow> bool" where
  "parts_ok n ds \<longleftrightarrow> (\<forall>i<length ds. snd (ds ! i) = (data_size (take (Suc i) ds) < n))"

text \<open>What a run of the loop on the buffer \<open>b\<close> has to come to: every frame is small enough for the
  packager, and the frames are the buffer (or, when the acknowledgements are used up, a prefix of it).\<close>

definition written ::
  "byte list \<Rightarrow> (mux_segment list \<times> (sendWindow + (nat \<times> win_err option \<times> u64 list \<times> sendWindow))) option \<Rightarrow> bool" where
  "written b x \<longleftrightarrow> (case x of None \<Rightarrow> False | Some (out, res) \<Rightarrow> segs_ok out \<and> parts_ok (length b) out \<and>
     (case res of Inl s \<Rightarrow> sbuf s = b \<and> concat (map fst out) = take (unat (off s)) b
      | Inr (n, e, acks, s) \<Rightarrow> e = None \<and> n = length b \<and> concat (map fst out) = b))"

lemma WriteTo_done: "wf_snd s \<Longrightarrow> length (sbuf s) \<le> unat (off s) \<Longrightarrow> sendWindow_WriteTo s = Some (WriteErr WinEOF, s)"
  by (simp add: wf_snd_def sendWindow_WriteTo_def word_le_nat_alt unat_of_nat)

lemma SetSize_keeps:
  "closeOp (snd (sendWindow_SetSize a s)) = closeOp s" "sbuf (snd (sendWindow_SetSize a s)) = sbuf s"
  "off (snd (sendWindow_SetSize a s)) = off s"
  by (auto simp: sendWindow_SetSize_def Let_def sendWindow_allow_def split: prod.split)

lemma wait_for_acks_keeps:
  "case wait_for_acks acks s of Inl s' \<Rightarrow> closeOp s' = closeOp s \<and> sbuf s' = sbuf s \<and> off s' = off s
   | Inr (acks', s') \<Rightarrow> closeOp s' = closeOp s \<and> sbuf s' = sbuf s \<and> off s' = off s \<and>
       length acks' + (if setSizeCh s then 0 else 1) \<le> length acks \<and> \<not> setSizeCh s'"
proof (induction acks s rule: wait_for_acks.induct)
  case (2 a acks s)
  then show ?case by (auto simp: SetSize_keeps split: sum.splits prod.splits)
qed simp

text \<open>One iteration of the loop, as far as the buffer is concerned.\<close>

lemma WriteFull_segment:
  assumes "wf_snd s" "sendWindow_WriteTo s = Some (Segment p l part, s')"
  shows "wf_snd s'" "sbuf s' = sbuf s" "0 < length p" "length p \<le> maximumSegmentSize" "length p = unat l"
    "unat (off s') = unat (off s) + length p" "take (unat (off s')) (sbuf s) = take (unat (off s)) (sbuf s) @ p"
    "part = (unat (off s') < length (sbuf s))" "setSizeCh s' = setSizeCh s"
    "length p \<le> win_max s - win_done s"
proof -
  have lt: "unat (off s) < length (sbuf s)"
    using assms WriteTo_done [OF assms(1)] by (cases "length (sbuf s) \<le> unat (off s)") auto
  have ok: "\<not> closeOp s" "length (sbuf s) < 2 ^ 32" using assms(1) by (simp_all add: wf_snd_def)
  note P = WriteTo_pass [OF ok lt]
  then have nw: "\<not> win_max s \<le> win_done s" using assms(2) by auto
  with P assms(2) have p: "p = take (unat l) (drop (unat (off s)) (sbuf s))"
    and l: "unat l = min (min maximumSegmentSize (length (sbuf s) - unat (off s))) (win_max s - win_done s)"
    and s': "s' = s\<lparr>off := off s', maxSizeDone := maxSizeDone s'\<rparr>"
    and o: "unat (off s') = unat (off s) + unat l" and pt: "part = (unat (off s) + unat l < length (sbuf s))"
    by auto
  show lp: "length p = unat l" unfolding p using l by simp
  have le: "unat l \<le> maximumSegmentSize" "unat l \<le> length (sbuf s) - unat (off s)" "unat l \<le> win_max s - win_done s"
    unfolding l by simp_all
  show "0 < length p" unfolding lp l using nw lt by (simp add: mux_size_defs)
  show "length p \<le> maximumSegmentSize" "length p \<le> win_max s - win_done s" using le lp by simp_all
  show sb: "sbuf s' = sbuf s" "setSizeCh s' = setSizeCh s" by (subst s', simp)+
  have "closeOp s' = closeOp s" by (subst s') simp
  then show "wf_snd s'" using ok le sb o lt by (simp add: wf_snd_def)
  show "unat (off s') = unat (off s) + length p" using o lp by simp
  show "take (unat (off s')) (sbuf s) = take (unat (off s)) (sbuf s) @ p"
    using o p by (simp add: take_add)
  show "part = (unat (off s') < length (sbuf s))" using pt o by simp
qed

lemma WriteFull_loop_ok:
  assumes "wf_snd s" "concat (map fst out) = take (unat (off s)) (sbuf s)" "segs_ok out" "n = unat (off s)"
    "parts_ok (length (sbuf s)) out"
  shows "written (sbuf s) (sendWindow_WriteFull_loop True n out acks s)"
  using assms
proof (induction "(length acks + (if setSizeCh s then 1 else 0), length (sbuf s) - unat (off s))"
    arbitrary: s out n acks rule: wf_induct_rule [OF wf_lex_prod [OF wf_less_than wf_less_than]])
  case (1 s acks out n)
  note loop = sendWindow_WriteFull_loop.simps [of True n out acks s]
  show ?case
  proof (cases "length (sbuf s) \<le> unat (off s)")
    case True
    then have "unat (off s) = length (sbuf s)" using "1.prems"(1) by (simp add: wf_snd_def)
    with True show ?thesis using WriteTo_done [OF "1.prems"(1)] "1.prems" loop by (simp add: written_def)
  next
    case False
    then have lt: "unat (off s) < length (sbuf s)" by simp
    have ok: "\<not> closeOp s" "length (sbuf s) < 2 ^ 32" using "1.prems"(1) by (simp_all add: wf_snd_def)
    note P = WriteTo_pass [OF ok lt]
    show ?thesis
    proof (cases "win_max s \<le> win_done s")
      case True
      let ?s = "s\<lparr>maxSizeDone := window_pack (w_max (maxSizeDone s)) (w_done (maxSizeDone s)) True\<rparr>"
      have W: "sendWindow_WriteTo s = Some (WaitsForWindow, ?s)" using P True by simp
      have K: "sbuf ?s = sbuf s" "off ?s = off s" "closeOp ?s = closeOp s" "setSizeCh ?s = setSizeCh s" by simp_all
      show ?thesis
      proof (cases "wait_for_acks acks ?s")
        case (Inl s')
        then show ?thesis using W loop "1.prems" wait_for_acks_keeps [where acks = acks and s = ?s] by (auto simp: written_def)
      next
        case (Inr x)
        obtain acks' s' where x: "x = (acks', s')" by (cases x)
        have k: "closeOp s' = closeOp s" "sbuf s' = sbuf s" "off s' = off s" "\<not> setSizeCh s'"
          "length acks' + (if setSizeCh s then 0 else 1) \<le> length acks"
          using wait_for_acks_keeps [where acks = acks and s = ?s] Inr x by auto
        have "written (sbuf s') (sendWindow_WriteFull_loop True n out acks' s')"
        proof (rule "1.hyps")
          show "((length acks' + (if setSizeCh s' then 1 else 0), length (sbuf s') - unat (off s')),
            length acks + (if setSizeCh s then 1 else 0), length (sbuf s) - unat (off s)) \<in> less_than <*lex*> less_than"
            using k by (cases "setSizeCh s") auto
        qed (use k "1.prems" in \<open>simp_all add: wf_snd_def\<close>)
        moreover have "sendWindow_WriteFull_loop True n out acks s = sendWindow_WriteFull_loop True n out acks' s'"
          using loop W Inr x by simp
        ultimately show ?thesis using k by simp
      qed
    next
      case False
      then obtain p l part s' where W: "sendWindow_WriteTo s = Some (Segment p l part, s')" using P by auto
      note S = WriteFull_segment [OF "1.prems"(1) W]
      let ?out = "out @ [(p, part)]"
      have len: "length (concat (map fst out)) = unat (off s)" using "1.prems"(2) lt by simp
      have parts: "parts_ok (length (sbuf s')) ?out"
        using "1.prems"(5) S(2,6,8) len
        by (auto simp: parts_ok_def data_size_def nth_append less_Suc_eq)
      have "written (sbuf s') (sendWindow_WriteFull_loop True (n + unat l) ?out acks s')"
      proof (rule "1.hyps")
        show "((length acks + (if setSizeCh s' then 1 else 0), length (sbuf s') - unat (off s')),
            length acks + (if setSizeCh s then 1 else 0), length (sbuf s) - unat (off s)) \<in> less_than <*lex*> less_than"
          using S lt by auto
      qed (use S parts "1.prems" in \<open>auto simp: segs_ok_def\<close>)
      moreover have "sendWindow_WriteFull_loop True n out acks s = sendWindow_WriteFull_loop True (n + unat l) ?out acks s'"
        using loop W by simp
      ultimately show ?thesis using S(2) by simp
    qed
  qed
qed


subsection \<open>Whole reads\<close>

definition rw_stream :: "receiveWindow \<Rightarrow> byte list" where
  "rw_stream r = elem_rest r @ elems_bytes (queued r)"

definition rw_owed :: "receiveWindow \<Rightarrow> nat" where
  "rw_owed r = elem_size r + rq_bytes (queued r) + win_done r"

definition rw_ok :: "receiveWindow \<Rightarrow> bool" where
  "rw_ok r \<longleftrightarrow> \<not> closeOp r \<and> rq_inv (bufQueue r) \<and> list_all elem_ok (queued r) \<and> element_ok r \<and> rw_owed r < 2 ^ 31"

lemma elems_bytes_empty: "list_all elem_ok es \<Longrightarrow> elems_bytes es = [] \<longleftrightarrow> es = []"
  by (cases es) (auto simp: elems_bytes_def elem_ok_def)

lemma elem_rest_empty: "element_ok r \<Longrightarrow> elem_rest r = [] \<longleftrightarrow> rw_drained r"
  by (auto simp: elem_rest_def element_ok_def elem_ok_def rw_drained_def word_unat_eq_iff split: option.splits)

lemma next_ok:
  assumes "rw_ok r"
  shows "\<exists>out r1. receiveWindow_next r = Some (out, r1) \<and> rw_ok r1 \<and> rw_stream r1 = rw_stream r \<and>
     rw_owed r1 = rw_owed r \<and> rqStopped (bufQueue r1) = rqStopped (bufQueue r) \<and>
     (if rw_stream r = [] then out = (if rqStopped (bufQueue r) then NextEOF else NextBlocks)
      else out = HaveElement \<and> \<not> rw_drained r1 \<and> (\<exists>e. element r1 = Some e \<and> elem_ok e) \<and>
        (rw_drained r \<longrightarrow> length (queued r) = Suc (length (queued r1))) \<and> (\<not> rw_drained r \<longrightarrow> r1 = r))"
proof (cases "rw_drained r")
  case False
  then have "rw_stream r \<noteq> []" using assms by (simp add: rw_ok_def rw_stream_def elem_rest_empty)
  moreover obtain e where "element r = Some e" using False by (auto simp: rw_drained_def split: option.splits)
  moreover have "elem_ok e" using calculation False assms by (simp add: rw_ok_def element_ok_def)
  ultimately show ?thesis using False assms by (simp add: receiveWindow_next_def)
next
  case True
  have ok: "\<not> closeOp r" "rq_inv (bufQueue r)" "list_all elem_ok (rq_list (bufQueue r))"
    using assms by (simp_all add: rw_ok_def queued_def)
  have z: "elem_rest r = []" "elem_size r = 0" using True by (simp_all add: elem_rest_def elem_size_def)
  obtain q where q: "rq_popLocked (bufQueue r) = Some (case rq_list (bufQueue r) of [] \<Rightarrow> None | e # _ \<Rightarrow> Some e, q)"
    "rq_inv q" "rq_list q = tl (rq_list (bufQueue r))" "rqStopped q = rqStopped (bufQueue r)"
    using rq_pop [OF ok(2)] by blast
  show ?thesis
  proof (cases "rq_list (bufQueue r)")
    case Nil
    then have s: "rw_stream r = []" using z by (simp add: rw_stream_def queued_def elems_bytes_def)
    let ?r1 = "r\<lparr>element := None, bufQueue := q\<rparr>"
    have d: "rw_drained ?r1" "rw_drained (?r1\<lparr>off := 0\<rparr>)" by (simp_all add: rw_drained_def)
    then show ?thesis using True ok q Nil assms z s
      by (auto simp: receiveWindow_next_def rw_ok_def rw_stream_def rw_owed_def queued_def elem_rest_def elem_size_def
          element_ok_def elems_bytes_def)
  next
    case (Cons e es)
    let ?r1 = "r\<lparr>element := Some e, bufQueue := q, off := 0\<rparr>"
    have e: "elem_ok e" "0 < unat (eL e)" using ok(3) Cons by (simp_all add: elem_ok_def)
    then have d: "\<not> rw_drained ?r1" by (auto simp: rw_drained_def word_unat_eq_iff)
    then have r1: "elem_rest ?r1 = slice_bytes (eBuf e)" "elem_size ?r1 = unat (eL e)" "element_ok ?r1"
      using e by (simp_all add: elem_rest_def elem_size_def element_ok_def)
    have "rw_stream r \<noteq> []" using e Cons z by (auto simp: rw_stream_def queued_def elems_bytes_def elem_ok_def)
    moreover have "receiveWindow_next r = Some (HaveElement, ?r1)"
      using True ok q Cons by (simp add: receiveWindow_next_def)
    moreover have "rw_stream ?r1 = rw_stream r" "rw_owed ?r1 = rw_owed r" "queued ?r1 = es"
      using r1 z q Cons by (simp_all add: rw_stream_def rw_owed_def queued_def elems_bytes_def rq_bytes_def)
    moreover have "rw_ok ?r1" using assms ok q Cons r1 calculation by (simp add: rw_ok_def queued_def)
    ultimately show ?thesis using d e q Cons True by (simp add: queued_def)
  qed
qed

lemma copy_ok:
  assumes "rw_ok r" "\<not> rw_drained r" "element r = Some e" "0 < room"
    and C: "receiveWindow_copy room e r pl = (bs, r', pl', a)"
  shows "rw_ok r'" "rw_stream r = bs @ rw_stream r'" "rw_owed r' + ackn a = rw_owed r" "queued r' = queued r"
    "rqStopped (bufQueue r') = rqStopped (bufQueue r)" "bs \<noteq> []" "length bs \<le> room" "length bs < room \<Longrightarrow> rw_drained r'"
proof -
  have e: "elem_ok e" "element_ok r" using assms(1-3) by (simp_all add: rw_ok_def element_ok_def)
  have "win_done r + unat (eL e) < 2 ^ 31" using assms(1-3) by (simp add: rw_ok_def rw_owed_def elem_size_def)
  note P = copy_spec [OF e(1) assms(3,2) e(2) assms(4) this C] and Q = copy_progress [OF e(1) assms(3,2) e(2) assms(4) C]
  show "queued r' = queued r" "rw_stream r = bs @ rw_stream r'" "rqStopped (bufQueue r') = rqStopped (bufQueue r)"
    using P by (simp_all add: queued_def rw_stream_def)
  then show o: "rw_owed r' + ackn a = rw_owed r" using P by (simp add: rw_owed_def)
  show "rw_ok r'" using assms(1) P o by (simp add: rw_ok_def queued_def)
  show "bs \<noteq> []" "length bs \<le> room" using Q by simp_all
  show "length bs < room \<Longrightarrow> rw_drained r'" by (rule P)
qed

lemma readFromQueue_returns:
  assumes "rw_ok r" "0 < room"
  shows "\<exists>bs out r' pl' as. receiveWindow_readFromQueue room got acks r pl = Some (got @ bs, out, r', pl', acks @ as) \<and>
     rw_ok r' \<and> rw_stream r = bs @ rw_stream r' \<and> rw_owed r' + acks_size as = rw_owed r \<and>
     length bs \<le> room \<and> (rw_stream r \<noteq> [] \<longrightarrow> bs \<noteq> []) \<and>
     rqStopped (bufQueue r') = rqStopped (bufQueue r) \<and>
     (out \<noteq> None \<longrightarrow> rw_stream r' = [] \<and> out = Some (if rqStopped (bufQueue r) then NextEOF else NextBlocks))"
  using assms
proof (induction "length (queued r) + (if rw_drained r then 0 else 1)" arbitrary: r room got acks pl rule: less_induct)
  case less
  obtain out r1 where N: "receiveWindow_next r = Some (out, r1)" "rw_ok r1" "rw_stream r1 = rw_stream r"
    "rw_owed r1 = rw_owed r" "rqStopped (bufQueue r1) = rqStopped (bufQueue r)"
    "if rw_stream r = [] then out = (if rqStopped (bufQueue r) then NextEOF else NextBlocks)
      else out = HaveElement \<and> \<not> rw_drained r1 \<and> (\<exists>e. element r1 = Some e \<and> elem_ok e) \<and>
        (rw_drained r \<longrightarrow> length (queued r) = Suc (length (queued r1))) \<and> (\<not> rw_drained r \<longrightarrow> r1 = r)"
    using next_ok [OF less.prems(1)] by blast
  note loop = receiveWindow_readFromQueue.simps [of room got acks r pl]
  show ?case
  proof (cases "rw_stream r = []")
    case True
    moreover have "\<not> closeOp r1" using N(2) by (simp add: rw_ok_def)
    ultimately show ?thesis
      using loop N by (intro exI [of _ "[]"] exI [of _ "Some out"] exI [of _ r1] exI [of _ pl]) (auto split: next_out.splits)
  next
    case False
    then obtain e where e: "out = HaveElement" "\<not> rw_drained r1" "element r1 = Some e"
      and sz: "rw_drained r \<longrightarrow> length (queued r) = Suc (length (queued r1))" "\<not> rw_drained r \<longrightarrow> r1 = r"
      using N(6) by auto
    obtain bs r2 pl2 a where C: "receiveWindow_copy room e r1 pl = (bs, r2, pl2, a)" by (metis prod_cases4)
    note P = copy_ok [OF N(2) e(2,3) less.prems(2) C]
    show ?thesis
    proof (cases "length bs < room \<and> ePart e")
      case True
      have "length (queued r2) + (if rw_drained r2 then 0 else 1) < length (queued r) + (if rw_drained r then 0 else 1)"
        using P(4,8) True sz by (auto split: if_splits)
      from less.hyps [OF this P(1), of "room - length bs" "got @ bs" "acks @ opt_list a" pl2] True
      obtain bs' out' r' pl' as where R:
        "receiveWindow_readFromQueue (room - length bs) (got @ bs) (acks @ opt_list a) r2 pl2 =
           Some ((got @ bs) @ bs', out', r', pl', (acks @ opt_list a) @ as)"
        "rw_ok r'" "rw_stream r2 = bs' @ rw_stream r'" "rw_owed r' + acks_size as = rw_owed r2"
        "length bs' \<le> room - length bs" "rqStopped (bufQueue r') = rqStopped (bufQueue r2)"
        "out' \<noteq> None \<longrightarrow> rw_stream r' = [] \<and> out' = Some (if rqStopped (bufQueue r2) then NextEOF else NextBlocks)"
        by auto
      have "receiveWindow_readFromQueue room got acks r pl = Some (got @ (bs @ bs'), out', r', pl', acks @ (opt_list a @ as))"
        using loop N(1) e C True R(1) by (simp add: opt_list_def)
      moreover have "rw_owed r' + acks_size (opt_list a @ as) = rw_owed r" using R(4) P(3) N(4) by simp
      moreover have "rw_stream r = (bs @ bs') @ rw_stream r'" using P(2) R(3) N(3) by simp
      moreover have "length (bs @ bs') \<le> room" "bs @ bs' \<noteq> []" using R(5) P(6,7) by simp_all
      ultimately show ?thesis using R(2,6,7) P(5) N(5)
        by (intro exI [of _ "bs @ bs'"] exI [of _ out'] exI [of _ r'] exI [of _ pl'] exI [of _ "opt_list a @ as"]) simp
    next
      case False
      then have "receiveWindow_readFromQueue room got acks r pl = Some (got @ bs, None, r2, pl2, acks @ opt_list a)"
        using loop N(1) e C by (auto simp: opt_list_def)
      then show ?thesis using P N
        by (intro exI [of _ bs] exI [of _ None] exI [of _ r2] exI [of _ pl2] exI [of _ "opt_list a"]) simp
    qed
  qed
qed


subsection \<open>Releasing a window\<close>

definition buffers :: "listElement list \<Rightarrow> gslice list" where
  "buffers es = map (\<lambda>b. reslice b poolSizeWindow) (filter (\<lambda>b. b \<noteq> SNil) (map eBuf es))"

lemma release_queue_all:
  "rq_inv q \<Longrightarrow> length (rq_list q) < fuel \<Longrightarrow>
   \<exists>q'. rw_release_queue fuel q pl = Some (q', rev (buffers (rq_list q)) @ pl) \<and> rq_list q' = [] \<and> rq_inv q'"
proof (induction fuel q pl rule: rw_release_queue.induct)
  case (2 n q pl)
  obtain q1 where q1: "rq_popLocked q = Some (case rq_list q of [] \<Rightarrow> None | e # _ \<Rightarrow> Some e, q1)" "rq_inv q1"
    "rq_list q1 = tl (rq_list q)"
    using rq_pop [OF "2.prems"(1)] by blast
  show ?case
  proof (cases "rq_list q")
    case Nil
    then show ?thesis using q1 by (simp add: buffers_def)
  next
    case (Cons e es)
    then have "length (rq_list q1) < n" using "2.prems"(2) q1 by simp
    with "2.IH" [of "(Some e, q1)" "Some e" q1 e] q1 Cons show ?thesis
      by (auto simp: buffers_def windowBuff_Put_def)
  qed
qed simp


subsection \<open>A run of the stream\<close>

lemma flow_example:
  "\<exists>s. flow_step\<^sup>*\<^sup>* flow_init s \<and> fData s = [([1, 2, 3], False)] \<and> fSent s = [1, 2, 3] \<and> fRead s = [] \<and>
     fAcks s = [] \<and> win_done (fSnd s) = 3 \<and> fRcv s = receiveWindow_New"
proof -
  let ?w = "sendWindow_SetSendBuf [1, 2, 3] sendWindow_New"
  let ?s = "flow_init\<lparr>fSnd := ?w\<rparr>"
  have 1: "flow_step flow_init ?s"
    using flow_step.begin_write [of flow_init "[1, 2, 3]"] by (simp add: flow_init_def sendWindow_New_def)
  have f: "fits31 (of_nat (maximumSegmentSize * 30))" by (simp add: fits31_def mux_size_defs)
  then have m: "win_max ?w = 122550" "win_done ?w = 0"
    by (simp_all add: sendWindow_SetSendBuf_def sendWindow_New_def mux_size_defs)
  have "\<not> closeOp ?w" "length (sbuf ?w) < 2 ^ 32" "unat (off ?w) < length (sbuf ?w)"
    by (simp_all add: sendWindow_SetSendBuf_def sendWindow_New_def)
  from WriteTo_pass [OF this] m obtain l w where W:
    "sendWindow_WriteTo ?w = Some (Segment (take (unat l) (drop (unat (off ?w)) (sbuf ?w))) l
       (unat (off ?w) + unat l < length (sbuf ?w)), w)"
    "unat l = min (min maximumSegmentSize (length (sbuf ?w) - unat (off ?w))) (win_max ?w - win_done ?w)"
    "win_done w = win_done ?w + unat l"
    by auto
  have l: "unat l = 3" using W(2) m by (simp add: sendWindow_SetSendBuf_def mux_size_defs)
  have "flow_step ?s (?s\<lparr>fSnd := w, fData := [([1, 2, 3], False)], fSent := [1, 2, 3]\<rparr>)"
    using flow_step.segment [of ?s "[1, 2, 3]" l False w] W(1) l
    by (simp add: flow_init_def sendWindow_SetSendBuf_def)
  with 1 have "flow_step\<^sup>*\<^sup>* flow_init (?s\<lparr>fSnd := w, fData := [([1, 2, 3], False)], fSent := [1, 2, 3]\<rparr>)"
    by (meson r_into_rtranclp rtranclp.rtrancl_into_rtrancl)
  then show ?thesis using W(3) l m
    by (intro exI [of _ "?s\<lparr>fSnd := w, fData := [([1, 2, 3], False)], fSent := [1, 2, 3]\<rparr>"]) (simp add: flow_init_def)
qed


subsection \<open>Properties of the flow control\<close>

text \<open>The packed window word: unpacking gives back the size and the count modulo \<open>2 ^ 31\<close> and the wait
  flag, for every argument; and packing what was unpacked gives back the word but for its unused bit 31.\<close>

theorem window_word_roundtrip:
  shows "window_unpack (window_pack m d w) = (m AND mask 31, d AND mask 31, w) \<and>
     (case window_unpack p of (m', d', w') \<Rightarrow> window_pack m' d' w') = p AND NOT (push_bit 31 1)"
proof (intro conjI)
  show "window_unpack (window_pack m d w) = (m AND mask 31, d AND mask 31, w)"
    using unpack_pack_mask by (simp add: windowBits_def)
  have b: "drop_bit 63 p AND 1 = (1 :: u64) \<longleftrightarrow> bit p 63"
    by (simp add: bit_iff_odd_drop_bit and_one_eq odd_iff_mod_2_eq_one)
  show "(case window_unpack p of (m', d', w') \<Rightarrow> window_pack m' d' w') = p AND NOT (push_bit 31 1)"
  proof (rule bit_eqI)
    fix n assume "possible_bit TYPE(u64) n"
    then consider "n < 31" | "n = 31" | "32 \<le> n" "n - 32 < 31" "32 + (n - 32) = n" "n \<noteq> 63" "n < 64" | "n = 63"
      by (simp add: possible_bit_word) linarith
    then show "bit (case window_unpack p of (m', d', w') \<Rightarrow> window_pack m' d' w') n = bit (p AND NOT (push_bit 31 1)) n"
      by cases (auto simp: window_unpack_def window_pack_def dequeueBits_def windowBits_def waitBits_def b
          bit_simps bit_wait bit_wait_int bit31 bit31_int)
  qed
qed

text \<open>C1 Conservation of the window, in every state that any interleaving of the writer, the frame reader,
  the consumer, window resizing and overtaking acknowledgements can reach: the writer's count of
  unacknowledged bytes is the sum of the bytes in flight, arriving, queued and being read, of the bytes
  read but not reported, and of the acknowledgements on their way. So an acknowledgement never exceeds the
  count (the branch of \<open>SetSize\<close> that drops it is not taken), and \<open>WriteTo\<close> never spins on overflow.\<close>

theorem window_conservation:
  assumes "flow_step\<^sup>*\<^sup>* flow_init s"
  shows "win_done (fSnd s) = data_size (fData s) + arriving_size (fArriving s) + rq_bytes (queued (fRcv s)) +
       elem_size (fRcv s) + win_done (fRcv s) + acks_size (fAcks s) \<and>
     (\<forall>a \<in> set (fAcks s). w_done a \<le> w_done (maxSizeDone (fSnd s))) \<and>
     sendWindow_WriteTo (fSnd s) \<noteq> None"
proof (intro conjI)
  note I = flow_reachable_inv [OF assms]
  show "win_done (fSnd s) = data_size (fData s) + arriving_size (fArriving s) + rq_bytes (queued (fRcv s)) +
       elem_size (fRcv s) + win_done (fRcv s) + acks_size (fAcks s)"
    using I by (simp add: flow_inv_def flow_balance_def)
  show "\<forall>a \<in> set (fAcks s). w_done a \<le> w_done (maxSizeDone (fSnd s))"
  proof
    fix a assume "a \<in> set (fAcks s)"
    then obtain xs ys where "fAcks s = xs @ a # ys" by (meson split_list)
    from inv_ack(2) [OF I this] show "w_done a \<le> w_done (maxSizeDone (fSnd s))"
      by (metis prod.exhaust_sel word_le_nat_alt)
  qed
  have w: "wf_snd (fSnd s)" using I by (simp add: flow_inv_def flow_snd_ok_def wf_snd_def)
  show "sendWindow_WriteTo (fSnd s) \<noteq> None"
  proof (cases "length (sbuf (fSnd s)) \<le> unat (off (fSnd s))")
    case True
    then show ?thesis using WriteTo_done [OF w] by simp
  next
    case False
    then show ?thesis using WriteTo_pass [of "fSnd s"] w by (auto simp: wf_snd_def split: if_splits)
  qed
qed

theorem window_conservation_witness:
  "\<exists>s. flow_step\<^sup>*\<^sup>* flow_init s \<and> win_done (fSnd s) = 3 \<and> data_size (fData s) = 3 \<and>
     win_done (fSnd s) = data_size (fData s) + arriving_size (fArriving s) + rq_bytes (queued (fRcv s)) +
       elem_size (fRcv s) + win_done (fRcv s) + acks_size (fAcks s)"
proof -
  obtain s where s: "flow_step\<^sup>*\<^sup>* flow_init s" "win_done (fSnd s) = 3" "fData s = [([1, 2, 3], False)]"
    using flow_example by blast
  then show ?thesis using conjunct1 [OF window_conservation [OF s(1)]] by (intro exI [of _ s]) simp
qed

text \<open>C2 Integrity of the stream: in every reachable state the bytes given to the reader, followed by the
  rest of the element being read, the queued elements, the arriving element and the frames in flight, are
  exactly the bytes taken from the writer, in order; nothing is lost, repeated or reordered. Every frame in
  flight has 1 to \<open>maximumSegmentSize\<close> bytes.\<close>

theorem stream_integrity:
  assumes "flow_step\<^sup>*\<^sup>* flow_init s"
  shows "fSent s = fRead s @ elem_rest (fRcv s) @ elems_bytes (queued (fRcv s)) @
       arriving_bytes (fArriving s) @ concat (map fst (fData s)) \<and>
     list_all (\<lambda>(p, part). 0 < length p \<and> length p \<le> maximumSegmentSize) (fData s)"
  using flow_reachable_inv [OF assms] by (simp_all add: flow_inv_def flow_order_def flow_snd_ok_def)

theorem stream_integrity_witness:
  "\<exists>s. flow_step\<^sup>*\<^sup>* flow_init s \<and> fSent s = [1, 2, 3] \<and>
     fSent s = fRead s @ elem_rest (fRcv s) @ elems_bytes (queued (fRcv s)) @
       arriving_bytes (fArriving s) @ concat (map fst (fData s))"
proof -
  obtain s where s: "flow_step\<^sup>*\<^sup>* flow_init s" "fSent s = [1, 2, 3]" using flow_example by blast
  then show ?thesis using conjunct1 [OF stream_integrity [OF s(1)]] by blast
qed

text \<open>Flow control does not deadlock: when nothing is in flight, arriving, queued or being read and no
  acknowledgement is on its way, everything sent has been read and the writer's count is back at 0; a writer
  that then waits without a wake-up token has been given a window of size 0.\<close>

theorem quiescent_window_open:
  assumes "flow_step\<^sup>*\<^sup>* flow_init s"
    and "fData s = []" "fArriving s = None" "queued (fRcv s) = []" "rw_drained (fRcv s)" "fAcks s = []"
  shows "win_done (fSnd s) = 0 \<and>
     fRead s = fSent s \<and>
     (fWaiting s \<longrightarrow> setSizeCh (fSnd s) \<or> win_max (fSnd s) = 0)"
  using flow_reachable_inv [OF assms(1)] assms(2-)
  by (auto simp: flow_inv_def flow_balance_def flow_order_def flow_ok_defs elem_rest_def elem_size_def
      rq_bytes_def elems_bytes_def)

theorem quiescent_window_open_witness:
  "win_done (fSnd flow_init) = 0 \<and> fRead flow_init = fSent flow_init"
proof -
  have "fData flow_init = []" "fArriving flow_init = None" "queued (fRcv flow_init) = []"
    "rw_drained (fRcv flow_init)" "fAcks flow_init = []"
    using rq_new_inv by (simp_all add: flow_init_def queued_def rw_drained_def receiveWindow_New_def)
  from quiescent_window_open [OF rtranclp.rtrancl_refl this] show ?thesis by blast
qed

text \<open>The cap on the window size has no floor: \<open>calcSize\<close> can shrink an open window to size 0, and a
  window of size 0 is never enlarged again, whatever bandwidth and latency are measured later.\<close>

theorem calcSize_can_close_window:
  shows "(\<exists>muxBw latency r. 0 < win_max r \<and> win_max (receiveWindow_calcSize muxBw latency r) = 0) \<and>
     (w_max (maxSizeDone r) = 0 \<longrightarrow> w_max (maxSizeDone (receiveWindow_calcSize muxBw latency r)) = 0)"
proof (intro conjI)
  let ?r = "receiveWindow_New\<lparr>bw := newWriteBandwidth\<lparr>writeBW := 1\<rparr>\<rparr>"
  have f: "fits31 (of_nat (maximumSegmentSize * 30))" by (simp add: fits31_def mux_size_defs)
  then have u: "window_unpack (maxSizeDone ?r) = (122550, 0, False)"
    by (simp add: receiveWindow_New_def mux_size_defs)
  have bw: "writeBandwidth_Get (bw ?r) = 1" "rwCount ?r = 0"
    by (simp_all add: writeBandwidth_Get_def newWriteBandwidth_def receiveWindow_New_def)
  have "\<lfloor>real maximumWindowSize * (1 / (268435456 + 1))\<rfloor> = 0"
    by (simp add: floor_eq_iff maximumWindowSize_def)
  then have "calcSize_limit 268435456 1 sz rem n = 0" for sz rem n
    by (simp add: calcSize_limit_def Let_def u32_of_float_def word_gt_0)
  then have "win_max (receiveWindow_calcSize 268435456 0 ?r) = 0"
    using u bw by (simp add: receiveWindow_calcSize_def Let_def unpack_pack_mask)
  moreover have "0 < win_max ?r" using u by simp
  ultimately show "\<exists>muxBw latency r. 0 < win_max r \<and> win_max (receiveWindow_calcSize muxBw latency r) = 0" by blast
  have "calcSize_limit x y 0 rem n = 0" for x y rem n
    by (simp add: calcSize_limit_def Let_def mux_size_defs word_gt_0)
  then show "w_max (maxSizeDone r) = 0 \<longrightarrow> w_max (maxSizeDone (receiveWindow_calcSize muxBw latency r)) = 0"
    by (simp add: receiveWindow_calcSize_def Let_def unpack_pack_mask split: prod.split)
qed

theorem calcSize_can_close_window_witness:
  "w_max (maxSizeDone (receiveWindow_calcSize 1 1 (receiveWindow_New\<lparr>maxSizeDone := window_pack 0 0 False\<rparr>))) = 0"
  by (rule conjunct2 [OF calcSize_can_close_window, rule_format]) simp

text \<open>\<open>WriteFull\<close> on an open stream: whatever acknowledgements arrive while it waits, it never spins and
  hands the packager only frames of 1 to \<open>maximumSegmentSize\<close> bytes, with the part flag on every frame but
  the one that ends the buffer. When it returns it reports success and the length of the buffer, and the
  frames are the buffer; otherwise it is still waiting and the frames are a prefix of the buffer.\<close>

theorem WriteFull_segments:
  assumes "\<not> closeOp s" "length b < 2 ^ 32"
  shows "\<exists>out res. sendWindow_WriteFull True b acks s = Some (out, res) \<and>
     list_all (\<lambda>(p, part). 0 < length p \<and> length p \<le> maximumSegmentSize) out \<and>
     (\<forall>i<length out. snd (out ! i) = (data_size (take (Suc i) out) < length b)) \<and>
     (case res of Inr (n, e, acks', s') \<Rightarrow> n = length b \<and> e = None \<and> concat (map fst out) = b
      | Inl s' \<Rightarrow> concat (map fst out) = take (unat (off s')) b)"
proof -
  let ?s = "sendWindow_SetSendBuf b s"
  have "written (sbuf ?s) (sendWindow_WriteFull_loop True 0 [] acks ?s)"
    by (rule WriteFull_loop_ok)
       (use assms in \<open>simp_all add: wf_snd_def sendWindow_SetSendBuf_def segs_ok_def parts_ok_def\<close>)
  then obtain out res where L: "sendWindow_WriteFull_loop True 0 [] acks ?s = Some (out, res)"
    and R: "segs_ok out" "parts_ok (length b) out"
      "case res of Inl s \<Rightarrow> sbuf s = b \<and> concat (map fst out) = take (unat (off s)) b
       | Inr (n, e, acks, s) \<Rightarrow> e = None \<and> n = length b \<and> concat (map fst out) = b"
    by (auto simp: written_def sendWindow_SetSendBuf_def split: option.splits prod.splits)
  show ?thesis
  proof (cases res)
    case (Inl s')
    then show ?thesis using L R
      by (intro exI [of _ out] exI [of _ "Inl s'"]) (simp add: sendWindow_WriteFull_def segs_ok_def parts_ok_def)
  next
    case (Inr x)
    obtain n e acks' s' where x: "x = (n, e, acks', s')" by (metis prod_cases4)
    then show ?thesis using L R Inr
      by (intro exI [of _ out] exI [of _ "Inr (n, e, acks', s'\<lparr>sbuf := [], off := 0\<rparr>)"])
         (simp add: sendWindow_WriteFull_def segs_ok_def parts_ok_def)
  qed
qed

theorem WriteFull_segments_witness:
  "\<exists>out res. sendWindow_WriteFull True [1, 2, 3] [] sendWindow_New = Some (out, res) \<and>
     list_all (\<lambda>(p, part). 0 < length p \<and> length p \<le> maximumSegmentSize) out \<and>
     (case res of Inr (n, e, acks', s') \<Rightarrow> n = length [1, 2, 3 :: byte] \<and> e = None \<and> concat (map fst out) = [1, 2, 3]
      | Inl s' \<Rightarrow> concat (map fst out) = take (unat (off s')) [1, 2, 3])"
proof -
  have "\<not> closeOp sendWindow_New" by (simp add: sendWindow_New_def)
  moreover have "length [1, 2, 3 :: byte] < 2 ^ 32" by simp
  ultimately show ?thesis using WriteFull_segments [of sendWindow_New "[1, 2, 3]" "[]"] by blast
qed


definition one_element :: receiveWindow where
  "one_element = receiveWindow_New\<lparr>element := Some \<lparr>eBuf = Slc [7, 8] 2, eL = 2, ePart = False\<rparr>\<rparr>"

lemma one_element_ok: "rw_ok one_element" "rw_stream one_element = [7, 8]"
proof -
  have "fits31 (of_nat (maximumSegmentSize * 30))" by (simp add: fits31_def mux_size_defs)
  then show "rw_ok one_element" "rw_stream one_element = [7, 8]"
    using rq_new_inv
    by (simp_all add: one_element_def rw_ok_def rw_stream_def rw_owed_def receiveWindow_New_def queued_def element_ok_def
        elem_size_def elem_rest_def rw_drained_def elem_ok_def rq_bytes_def elems_bytes_def)
qed


text \<open>A half-close keeps what was accepted: after \<open>Stop\<close> every byte already queued can still be read, the
  accounting is unchanged, and a later frame is refused without changing the window or taking its buffer.\<close>

theorem Stop_keeps_accepted_data:
  shows "rw_stream (receiveWindow_Stop r) = rw_stream r \<and>
     rw_owed (receiveWindow_Stop r) = rw_owed r \<and>
     rw_ok (receiveWindow_Stop r) = rw_ok r \<and>
     rqStopped (bufQueue (receiveWindow_Stop r)) \<and>
     receiveWindow_Write b l part muxBw latency (receiveWindow_Stop r) pl =
       (Some WriteOnClosedWindow, receiveWindow_Stop r, pl, None)"
proof (intro conjI)
  have e: "element (receiveWindow_Stop r) = element r" "off (receiveWindow_Stop r) = off r"
    by (simp_all add: receiveWindow_Stop_def)
  note R = read_state_cong [OF e]
  have "queued (receiveWindow_Stop r) = queued r" "maxSizeDone (receiveWindow_Stop r) = maxSizeDone r"
    "rq_inv (bufQueue (receiveWindow_Stop r)) = rq_inv (bufQueue r)" "closeOp (receiveWindow_Stop r) = closeOp r"
    by (simp_all add: receiveWindow_Stop_def queued_def)
  then show "rw_stream (receiveWindow_Stop r) = rw_stream r" "rw_owed (receiveWindow_Stop r) = rw_owed r"
    "rw_ok (receiveWindow_Stop r) = rw_ok r"
    using R by (simp_all add: rw_stream_def rw_owed_def rw_ok_def)
  show "rqStopped (bufQueue (receiveWindow_Stop r))"
    "receiveWindow_Write b l part muxBw latency (receiveWindow_Stop r) pl =
       (Some WriteOnClosedWindow, receiveWindow_Stop r, pl, None)"
    by (simp_all add: receiveWindow_Stop_def receiveWindow_Write_def)
qed

text \<open>Closing a receive window leaks no buffer: \<open>CloseWindow\<close> returns, leaves the queue and the current
  element empty and the window closed, and has put every payload buffer it held back into the pool,
  each of them once.\<close>

theorem CloseWindow_returns_buffers:
  assumes "rq_inv (bufQueue r)" "length (queued r) < fuel"
  shows "\<exists>r'. receiveWindow_CloseWindow fuel r pl =
       Some (r', rev (buffers ((case element r of None \<Rightarrow> [] | Some e \<Rightarrow> [e]) @ queued r)) @ pl) \<and>
     closeOp r' \<and> inputClosed r' \<and> element r' = None \<and> queued r' = []"
proof -
  let ?r = "receiveWindow_Stop (fst (window_CloseWindow r))"
  have k: "bufQueue ?r = rq_Stop (bufQueue r)" "element ?r = element r" "closeOp ?r" "inputClosed ?r"
    by (simp_all add: receiveWindow_Stop_def window_CloseWindow_def)
  have q: "rq_inv (rq_Stop (bufQueue r))" "length (rq_list (rq_Stop (bufQueue r))) < fuel"
    using assms by (simp_all add: queued_def)
  show ?thesis
    using release_queue_all [OF q] k
    by (fastforce simp: receiveWindow_CloseWindow_def receiveWindow_release_def Let_def queued_def buffers_def
        windowBuff_Put_def split: option.splits)
qed

theorem CloseWindow_returns_buffers_witness:
  "\<exists>r'. receiveWindow_CloseWindow 1 one_element [] = Some (r', [Slc [7, 8] poolSizeWindow]) \<and> closeOp r'"
proof -
  have "rq_inv (bufQueue one_element)" "length (queued one_element) < 1" "queued one_element = []"
    using rq_new_inv by (simp_all add: one_element_def receiveWindow_New_def queued_def)
  from CloseWindow_returns_buffers [OF this(1,2), of "[]"] this(3) show ?thesis
    by (auto simp: one_element_def buffers_def)
qed

end
