(* ===== verification/Mux_Core.thy ===== *)
theory Mux_Core
  imports Mux_Window "HOL-Library.AList"
begin

text \<open>
  The multiplexer itself, \<open>lib/nps_mux/mux.go\<close>, with the streams of \<open>conn.go\<close> and the stream table of
  \<open>map.go\<close>: stream ids, sending and dispatching frames, opening, accepting, half-closing and closing
  streams, closing the multiplexer, and the latency and bandwidth measurements.

  \<^item> Streams are shared by the table, the accept queue and their users, so they live in a heap
    (\<open>heap\<close>, a list of \<open>conn\<close>) and are named by their index. The table is an association list; the
    order in which Go ranges over the map is arbitrary, and nothing proved depends on it.
  \<^item> A channel with one slot is a flag; a closed channel is the flag that says so (\<open>closeChan\<close> is
    closed exactly when \<open>mClosed\<close> holds). Blocking receives and timers are not operations here.
  \<^item> The packet pool \<open>muxPack\<close> hands out zeroed packets; the buffer pool \<open>windowBuff\<close> is \<open>mPool\<close>.
\<close>

subsection \<open>Streams and the multiplexer\<close>

type_synonym cref = nat

record conn =
  connId :: i32
  connStatusOk :: bool
  connStatusFail :: bool
  isClose :: bool
  closingFlag :: bool
  receiveWin :: receiveWindow
  sendWin :: sendWindow
  onceDone :: bool
  drainTimer :: bool

definition NewConn :: "i32 \<Rightarrow> conn" where
  "NewConn i = \<lparr>connId = i, connStatusOk = False, connStatusFail = False, isClose = False, closingFlag = False,
     receiveWin = receiveWindow_New, sendWin = sendWindow_New, onceDone = False, drainTimer = False\<rparr>"

record mux =
  cMap :: "(i32 \<times> cref) list"
  heap :: "conn list"
  muxId :: i32
  mClosed :: bool
  writeQueue :: priorityQueue
  newConnQueue :: "cref connQueue"
  pingData :: "gslice list"
  pingCheckTime :: u32
  pingCheckThreshold :: u32
  mPool :: wpool

text \<open>\<open>pingCheckThreshold\<close> of \<open>NewMux\<close> is an \<open>int\<close>; the buffer pool is the process-wide one.\<close>

definition NewMux :: "string \<Rightarrow> int \<Rightarrow> wpool \<Rightarrow> mux" where
  "NewMux connType threshold pl = \<lparr>cMap = [], heap = [], muxId = 0, mClosed = False, writeQueue = priorityQueue_New,
     newConnQueue = connQueue_New, pingData = [], pingCheckTime = 0,
     pingCheckThreshold = (if threshold \<le> 0 then (if connType = ''kcp'' then 20 else 60) else word_of_int threshold),
     mPool = pl\<rparr>"

definition zero_pack :: muxPackager where
  "zero_pack = \<lparr>flag = 0, pid = 0, window = 0, buf = SNil, plength = 0, content = SNil\<rparr>"

definition connMap_Size :: "mux \<Rightarrow> nat" where "connMap_Size m = length (cMap m)"
definition connMap_Get :: "i32 \<Rightarrow> mux \<Rightarrow> cref option" where "connMap_Get i m = map_of (cMap m) i"
definition connMap_Set :: "i32 \<Rightarrow> cref \<Rightarrow> mux \<Rightarrow> mux" where
  "connMap_Set i r m = m\<lparr>cMap := AList.update i r (cMap m)\<rparr>"
definition connMap_Delete :: "i32 \<Rightarrow> mux \<Rightarrow> mux" where
  "connMap_Delete i m = m\<lparr>cMap := AList.delete i (cMap m)\<rparr>"

abbreviation conn_of :: "mux \<Rightarrow> cref \<Rightarrow> conn" where "conn_of m r \<equiv> heap m ! r"

definition set_conn :: "cref \<Rightarrow> conn \<Rightarrow> mux \<Rightarrow> mux" where
  "set_conn r c m = m\<lparr>heap := (heap m)[r := c]\<rparr>"

definition alloc_conn :: "i32 \<Rightarrow> mux \<Rightarrow> cref \<times> mux" where
  "alloc_conn i m = (length (heap m), m\<lparr>heap := heap m @ [NewConn i]\<rparr>)"

text \<open>The second half of \<open>sendInfo\<close>: publish a packet, unless the multiplexer is closed.\<close>

definition mux_publish :: "muxPackager \<Rightarrow> mux \<Rightarrow> bool \<times> mux" where
  "mux_publish p m =
     (if mClosed m then (False, m\<lparr>mPool := snd (releaseMuxPack p (mPool m))\<rparr>)
      else let (q, pl) = priorityQueue_Push p (writeQueue m, mPool m)
           in (True, m\<lparr>writeQueue := q, mPool := pl\<rparr>))"

text \<open>\<open>sendInfo\<close> of a frame without payload, whose \<open>Set\<close> has no error (\<open>Set_ctl\<close> below).\<close>

definition mux_sendCtl :: "u8 \<Rightarrow> i32 \<Rightarrow> mux \<Rightarrow> bool \<times> mux" where
  "mux_sendCtl f i m =
     (case muxPackager_Set f i INil (mPool m) zero_pack of
        (p, pl, None) \<Rightarrow> mux_publish p (m\<lparr>mPool := pl\<rparr>)
      | (p, pl, Some e) \<Rightarrow> (False, m\<lparr>mPool := snd (releaseMuxPack p pl)\<rparr>))"

definition conn_closeProcess :: "cref \<Rightarrow> mux \<Rightarrow> mux" where
  "conn_closeProcess r m =
     (let c0 = conn_of m r;
          m1 = set_conn r (c0\<lparr>isClose := True, drainTimer := False\<rparr>) m;
          m2 = connMap_Delete (connId c0) m1;
          m3 = (if \<not> mClosed m2 then snd (mux_sendCtl muxConnClose (connId c0) m2) else m2);
          c1 = (conn_of m3 r)\<lparr>sendWin := fst (window_CloseWindow (sendWin (conn_of m3 r)))\<rparr>
      in case receiveWindow_CloseWindow (Suc (length (queued (receiveWin c1)))) (receiveWin c1) (mPool m3) of
           None \<Rightarrow> set_conn r c1 m3
         | Some (w, pl) \<Rightarrow> (set_conn r (c1\<lparr>receiveWin := w\<rparr>) m3)\<lparr>mPool := pl\<rparr>)"

definition conn_Close :: "cref \<Rightarrow> mux \<Rightarrow> mux" where
  "conn_Close r m =
     (if onceDone (conn_of m r) then m
      else conn_closeProcess r (set_conn r ((conn_of m r)\<lparr>onceDone := True\<rparr>) m))"

definition connMap_Close :: "mux \<Rightarrow> mux" where
  "connMap_Close m = fold conn_Close (map snd (cMap m)) (m\<lparr>cMap := []\<rparr>)"

definition Mux_Close :: "mux \<Rightarrow> bool \<times> mux" where
  "Mux_Close m =
     (if mClosed m then (False, m)
      else (True, connMap_Close (m\<lparr>mClosed := True, writeQueue := priorityQueue_Stop (writeQueue m),
                                   newConnQueue := connQueue_Stop (newConnQueue m)\<rparr>)))"

definition sendInfo :: "u8 \<Rightarrow> i32 \<Rightarrow> iface \<Rightarrow> mux \<Rightarrow> bool \<times> mux" where
  "sendInfo f i data m =
     (case muxPackager_Set f i data (mPool m) zero_pack of
        (p, pl, None) \<Rightarrow> mux_publish p (m\<lparr>mPool := pl\<rparr>)
      | (p, pl, Some e) \<Rightarrow> (False, snd (Mux_Close (m\<lparr>mPool := snd (releaseMuxPack p pl)\<rparr>))))"

text \<open>\<open>getId\<close> without interference; \<open>None\<close> when \<open>fuel\<close> ids in a row are in use.\<close>

definition next_id :: "i32 \<Rightarrow> i32" where
  "next_id current = (if 2 ^ 31 - 1 - sint current < 10000 then 0 + 1 else current + 1)"

fun getId :: "nat \<Rightarrow> mux \<Rightarrow> (i32 \<times> mux) option" where
  "getId 0 m = None"
| "getId (Suc fuel) m =
     (let i = next_id (muxId m); m' = m\<lparr>muxId := i\<rparr>
      in case connMap_Get i m' of None \<Rightarrow> Some (i, m') | Some _ \<Rightarrow> getId fuel m')"

text \<open>\<open>Mux.NewConn\<close> up to the wait for the answer of the other side, and that wait's outcomes.\<close>

datatype open_err = MuxHasClosed | RejectedByRemote | OpenTimeout

definition Mux_NewConn :: "mux \<Rightarrow> (open_err + cref) \<times> mux" where
  "Mux_NewConn m =
     (if mClosed m then (Inl MuxHasClosed, m)
      else case getId (Suc (length (cMap m))) m of
          None \<Rightarrow> (Inl OpenTimeout, m)
        | Some (i, m1) \<Rightarrow>
            let (r, m2) = alloc_conn i m1; m3 = connMap_Set i r m2;
                (ok, m4) = sendInfo muxNewConn i INil m3
            in if ok then (Inr r, m4) else (Inl MuxHasClosed, conn_Close r m4))"

datatype answer = AnsOk | AnsFail | AnsClosed | AnsTimeout

definition Mux_NewConn_answer :: "answer \<Rightarrow> cref \<Rightarrow> mux \<Rightarrow> (open_err + cref) \<times> mux" where
  "Mux_NewConn_answer a r m =
     (case a of
        AnsOk \<Rightarrow> if mClosed m then (Inl MuxHasClosed, conn_Close r m) else (Inr r, m)
      | AnsFail \<Rightarrow> (Inl RejectedByRemote, conn_Close r m)
      | AnsClosed \<Rightarrow> (Inl MuxHasClosed, conn_Close r m)
      | AnsTimeout \<Rightarrow> (Inl OpenTimeout, conn_Close r m))"

text \<open>One iteration of the goroutine that hands incoming streams to \<open>Accept\<close>: it may find that the
  multiplexer closes before somebody accepts (\<open>taken = False\<close>).\<close>

definition accept_next :: "bool \<Rightarrow> mux \<Rightarrow> (cref option \<times> mux) option" where
  "accept_next taken m =
     (case connQueue_Pop_pass (newConnQueue m) of
        None \<Rightarrow> None
      | Some (Returned (Some r), q) \<Rightarrow>
          let m1 = m\<lparr>newConnQueue := q\<rparr> in
          if mClosed m1 then Some (None, conn_Close r m1)
          else let m2 = connMap_Set (connId (conn_of m1 r)) r m1
               in if taken then Some (Some r, snd (sendInfo muxNewConnOk (connId (conn_of m2 r)) INil m2))
                  else Some (None, conn_Close r m2)
      | Some (_, q) \<Rightarrow> Some (None, m\<lparr>newConnQueue := q\<rparr>))"

subsection \<open>Reading, writing and half-closing a stream\<close>

definition conn_closeRemoteInput :: "cref \<Rightarrow> mux \<Rightarrow> mux" where
  "conn_closeRemoteInput r m =
     (let c = conn_of m r in
      if isClose c then m
      else set_conn r (c\<lparr>closingFlag := True, receiveWin := receiveWindow_Stop (receiveWin c), drainTimer := True\<rparr>) m)"

datatype conn_err = ConnClosed | WriteOnClosedConn | WinErr win_err | ConnEOF | WouldBlock

text \<open>The acknowledgements of a read go to \<open>sendInfo\<close> in the order in which they are produced.\<close>

definition send_acks :: "i32 \<Rightarrow> u64 list \<Rightarrow> mux \<Rightarrow> mux" where
  "send_acks i as m = fold (\<lambda>a m. snd (sendInfo muxMsgSendOk i (IUint64 a) m)) as m"

definition conn_Read :: "cref \<Rightarrow> nat \<Rightarrow> real \<times> real \<times> real \<Rightarrow> mux \<Rightarrow> ((byte list \<times> conn_err option) \<times> mux) option" where
  "conn_Read r room clock m =
     (let c = conn_of m r in
      if isClose c then Some (([], Some ConnClosed), m)
      else if room = 0 then Some (([], None), m)
      else case receiveWindow_Read (Suc (length (queued (receiveWin c)))) room clock (receiveWin c) (mPool m) of
          None \<Rightarrow> None
        | Some (bs, out, w, pl, as) \<Rightarrow>
            let m1 = send_acks (connId c) as ((set_conn r (c\<lparr>receiveWin := w\<rparr>) m)\<lparr>mPool := pl\<rparr>)
            in case out of
                 Some NextEOF \<Rightarrow> Some ((bs, Some ConnEOF), conn_Close r m1)
               | Some NextBlocks \<Rightarrow> Some ((bs, Some WouldBlock), m1)
               | _ \<Rightarrow> Some ((bs, None), m1))"

text \<open>\<open>conn.Write\<close>: the frames of \<open>WriteFull\<close> go to \<open>sendInfo\<close> with the part or the whole-message flag.\<close>

definition send_segments :: "i32 \<Rightarrow> mux_segment list \<Rightarrow> mux \<Rightarrow> mux" where
  "send_segments i segs m =
     fold (\<lambda>(p, part) m. snd (sendInfo (if part then muxNewMsgPart else muxNewMsg) i (IBytes (Slc p (length p))) m)) segs m"

definition conn_Write :: "cref \<Rightarrow> byte list \<Rightarrow> u64 list \<Rightarrow> mux \<Rightarrow> ((nat \<times> conn_err option) \<times> mux) option" where
  "conn_Write r b acks m =
     (let c = conn_of m r in
      if isClose c then Some ((0, Some ConnClosed), m)
      else if closingFlag c then Some ((0, Some WriteOnClosedConn), m)
      else if b = [] then Some ((0, None), m)
      else case sendWindow_WriteFull (\<not> mClosed m) b acks (sendWin c) of
          None \<Rightarrow> None
        | Some (segs, Inl w) \<Rightarrow>
            Some ((data_size segs, Some WouldBlock), send_segments (connId c) segs (set_conn r (c\<lparr>sendWin := w\<rparr>) m))
        | Some (segs, Inr (n, e, acks', w)) \<Rightarrow>
            Some ((n, map_option WinErr e), send_segments (connId c) segs (set_conn r (c\<lparr>sendWin := w\<rparr>) m)))"

subsection \<open>Dispatching a frame\<close>

definition mux_release :: "muxPackager \<Rightarrow> mux \<Rightarrow> mux" where
  "mux_release p m = m\<lparr>mPool := snd (releaseMuxPack p (mPool m))\<rparr>"

text \<open>\<open>newMsg\<close> with the acknowledgement that \<open>receiveWindow.Write\<close> sends.\<close>

definition Mux_newMsg :: "real \<Rightarrow> real \<Rightarrow> cref \<Rightarrow> muxPackager \<Rightarrow> mux \<Rightarrow> conn_err option \<times> mux" where
  "Mux_newMsg muxBw latency r p m =
     (let c = conn_of m r in
      if isClose c then (Some ConnClosed, m)
      else if flag p = muxNewMsgPart \<or> flag p = muxNewMsg then
        case receiveWindow_Write (content p) (plength p) (flag p = muxNewMsgPart) muxBw latency (receiveWin c) (mPool m) of
          (e, w, pl, ack) \<Rightarrow>
            let m1 = (set_conn r (c\<lparr>receiveWin := w\<rparr>) m)\<lparr>mPool := pl\<rparr>
            in (map_option WinErr e, send_acks (pid p) (opt_list ack) m1)
      else (None, m))"

text \<open>The body of the reading loop for a decoded packet. \<open>pingTaken\<close> is whether the ping consumer takes
  the answer (otherwise the multiplexer was closed meanwhile).\<close>

definition mux_dispatch :: "real \<Rightarrow> real \<Rightarrow> bool \<Rightarrow> muxPackager \<Rightarrow> mux \<Rightarrow> mux" where
  "mux_dispatch muxBw latency pingTaken p m =
     (if flag p = muxNewConn then
        let (r, m1) = alloc_conn (pid p) m in
        if mClosed m1 then mux_release p (conn_Close r m1)
        else (case connQueue_Push r (newConnQueue m1) of
                (q, None) \<Rightarrow> mux_release p (m1\<lparr>newConnQueue := q\<rparr>)
              | (q, Some r') \<Rightarrow> mux_release p (conn_Close r' (m1\<lparr>newConnQueue := q\<rparr>)))
      else if flag p = muxPingFlag then
        mux_release p (snd (sendInfo muxPingReturn (- 1) (IBytes (content p)) m))
      else if flag p = muxPingReturn then
        (if pingTaken then m\<lparr>pingData := pingData m @ [content p]\<rparr>
         else m\<lparr>mPool := windowBuff_Put (content p) (mPool m)\<rparr>)
      else case connMap_Get (pid p) m of
          None \<Rightarrow> mux_release p m
        | Some r \<Rightarrow>
            if isClose (conn_of m r) then mux_release p m
            else if flag p = muxNewMsg \<or> flag p = muxNewMsgPart then
              (case Mux_newMsg muxBw latency r p m of
                 (None, m1) \<Rightarrow> mux_release (p\<lparr>content := SNil\<rparr>) m1
               | (Some e, m1) \<Rightarrow> conn_Close r (mux_release p m1))
            else if flag p = muxNewConnOk then
              mux_release p (set_conn r ((conn_of m r)\<lparr>connStatusOk := True\<rparr>) m)
            else if flag p = muxNewConnFail then
              mux_release p (set_conn r ((conn_of m r)\<lparr>connStatusFail := True\<rparr>) m)
            else if flag p = muxMsgSendOk then
              mux_release p (set_conn r ((conn_of m r)\<lparr>sendWin := snd (sendWindow_SetSize (window p) (sendWin (conn_of m r)))\<rparr>) m)
            else if flag p = muxConnClose then mux_release p (conn_closeRemoteInput r m)
            else mux_release p m)"

text \<open>One iteration of the reading loop on the bytes \<open>bs\<close> that the transport delivers.\<close>

definition mux_read_frame :: "real \<Rightarrow> real \<Rightarrow> bool \<Rightarrow> byte list \<Rightarrow> mux \<Rightarrow> byte list \<times> mux" where
  "mux_read_frame muxBw latency pingTaken bs m =
     (case muxPackager_UnPack bs (mPool m) zero_pack of
        (l, p, bs', pl, None) \<Rightarrow> (bs', mux_dispatch muxBw latency pingTaken p (m\<lparr>mPool := pl\<rparr>))
      | (l, p, bs', pl, Some e) \<Rightarrow> (bs', snd (Mux_Close (mux_release p (m\<lparr>mPool := pl\<rparr>)))))"


subsection \<open>Pings\<close>

text \<open>One tick of the ping loop with the marshalled time \<open>now\<close>, and the consumer of the answers.\<close>

definition ping_tick :: "gslice \<Rightarrow> mux \<Rightarrow> mux" where
  "ping_tick now m =
     (if mClosed m then m
      else if pingCheckTime m > pingCheckThreshold m then snd (Mux_Close m)
      else let m1 = snd (sendInfo muxPingFlag (- 1) (IBytes now) m)
           in m1\<lparr>pingCheckTime := pingCheckTime m1 + 1\<rparr>)"

definition ping_answer :: "mux \<Rightarrow> mux" where
  "ping_answer m =
     (case pingData m of [] \<Rightarrow> m
      | d # ds \<Rightarrow> m\<lparr>pingData := ds, pingCheckTime := 0,
          mPool := (if slice_cap d > 0 then windowBuff_Put d (mPool m) else mPool m)\<rparr>)"


subsection \<open>Measurements\<close>

record latencyCounter =
  lcBuf :: "real list"
  headMin :: u8

definition counterBits :: nat where "counterBits = 4"
definition lossRatio :: real where "lossRatio = 3"

definition newLatencyCounter :: latencyCounter where
  "newLatencyCounter = \<lparr>lcBuf = replicate (2 ^ counterBits) 0, headMin = 0\<rparr>"

definition latencyCounter_unpack :: "u8 \<Rightarrow> u8 \<times> u8" where
  "latencyCounter_unpack idxs = (drop_bit counterBits idxs AND mask counterBits, idxs AND mask counterBits)"

definition latencyCounter_pack :: "u8 \<Rightarrow> u8 \<Rightarrow> u8" where
  "latencyCounter_pack head mi = push_bit counterBits head OR (mi AND mask counterBits)"

text \<open>The loop of \<open>minimal\<close>: the least positive value so far and its index.\<close>

fun minimal_from :: "nat \<Rightarrow> real list \<Rightarrow> (real \<times> nat) option \<Rightarrow> (real \<times> nat) option" where
  "minimal_from i [] best = best"
| "minimal_from i (x # xs) best =
     minimal_from (Suc i) xs
       (if 0 < x \<and> (case best of None \<Rightarrow> True | Some (v, _) \<Rightarrow> x < v) then Some (x, i) else best)"

definition latencyCounter_minimal :: "latencyCounter \<Rightarrow> u8" where
  "latencyCounter_minimal c = (case minimal_from 0 (lcBuf c) None of None \<Rightarrow> 0 | Some (_, i) \<Rightarrow> of_nat i)"

definition latencyCounter_add :: "real \<Rightarrow> latencyCounter \<Rightarrow> latencyCounter" where
  "latencyCounter_add value c =
     (let (head, mi) = latencyCounter_unpack (headMin c);
          c1 = c\<lparr>lcBuf := (lcBuf c)[unat head := value]\<rparr>;
          mi1 = (if head = mi then latencyCounter_minimal c1 else mi);
          mi2 = (if lcBuf c1 ! unat mi1 > value then head else mi1)
      in c1\<lparr>headMin := latencyCounter_pack (head + 1) mi2\<rparr>)"

definition latencyCounter_countSuccess :: "latencyCounter \<Rightarrow> real" where
  "latencyCounter_countSuccess c =
     (let (_, mi) = latencyCounter_unpack (headMin c);
          good = filter (\<lambda>x. x \<le> lossRatio * (lcBuf c ! unat mi) \<and> x > 0) (lcBuf c)
      in if good = [] then 0 else sum_list good / real (length good))"

definition latencyCounter_Latency :: "real \<Rightarrow> latencyCounter \<Rightarrow> real \<times> latencyCounter" where
  "latencyCounter_Latency value c =
     (if value \<le> 0 then (0, c)
      else let c1 = latencyCounter_add value c in (latencyCounter_countSuccess c1, c1))"

record bandwidth =
  readBandwidth :: real
  readStart :: "real option"
  lastReadStart :: "real option"
  bandBufLength :: u32
  calcThreshold :: u32

definition NewBandwidth :: bandwidth where
  "NewBandwidth = \<lparr>readBandwidth = 0, readStart = None, lastReadStart = None, bandBufLength = 0, calcThreshold = 0\<rparr>"

text \<open>\<open>rcvbuf\<close> is the result of the socket query: \<open>None\<close> when it fails, 0 when there is no query.\<close>

definition bandwidth_calcBandWidth :: "int option \<Rightarrow> bandwidth \<Rightarrow> bandwidth" where
  "bandwidth_calcBandWidth rcvbuf b =
     (case rcvbuf of
        None \<Rightarrow> b\<lparr>bandBufLength := 0\<rparr>
      | Some bufferSize \<Rightarrow>
          (if bandBufLength b \<ge> word_of_int bufferSize
           then b\<lparr>readBandwidth := real (unat (bandBufLength b)) / (the (readStart b) - the (lastReadStart b)),
                  bandBufLength := 0\<rparr>
           else b\<lparr>calcThreshold := word_of_int bufferSize, bandBufLength := 0\<rparr>))"

definition bandwidth_StartRead :: "real \<Rightarrow> real \<Rightarrow> int option \<Rightarrow> bandwidth \<Rightarrow> bandwidth" where
  "bandwidth_StartRead t1 t2 rcvbuf b =
     (let b1 = (if readStart b = None then b\<lparr>readStart := Some t1\<rparr> else b)
      in if bandBufLength b1 \<ge> calcThreshold b1
         then bandwidth_calcBandWidth rcvbuf (b1\<lparr>lastReadStart := readStart b1, readStart := Some t2\<rparr>)
         else b1)"

definition bandwidth_SetCopySize :: "u16 \<Rightarrow> bandwidth \<Rightarrow> bandwidth" where
  "bandwidth_SetCopySize n b = b\<lparr>bandBufLength := bandBufLength b + ucast n\<rparr>"

definition bandwidth_Get :: "bandwidth \<Rightarrow> real" where
  "bandwidth_Get b = (if readBandwidth b \<le> 0 then 0 else readBandwidth b)"


subsection \<open>Frames without payload are always accepted by Set\<close>

lemma Set_ctl:
  "\<not> data_flag f \<Longrightarrow> f \<noteq> muxMsgSendOk \<Longrightarrow> \<exists>p pl'. muxPackager_Set f i INil pl q = (p, pl', None) \<and> flag p = f \<and> pid p = i"
  by (auto simp: muxPackager_Set_def Let_def split: prod.splits)

lemma Set_ack: "\<exists>p pl'. muxPackager_Set muxMsgSendOk i (IUint64 w) pl q = (p, pl', None) \<and> window p = w \<and> pid p = i"
  by (auto simp: muxPackager_Set_def Let_def data_flag_def mux_flag_defs split: prod.splits)


lemma ctl_flags [simp]:
  "\<not> data_flag muxConnClose" "\<not> data_flag muxNewConn" "\<not> data_flag muxNewConnOk" "\<not> data_flag muxNewConnFail"
  "muxConnClose \<noteq> muxMsgSendOk" "muxNewConn \<noteq> muxMsgSendOk" "muxNewConnOk \<noteq> muxMsgSendOk" "muxNewConnFail \<noteq> muxMsgSendOk"
  by (simp_all add: data_flag_def mux_flag_defs)

lemma sendCtl_sendInfo: "\<not> data_flag f \<Longrightarrow> f \<noteq> muxMsgSendOk \<Longrightarrow> sendInfo f i INil m = mux_sendCtl f i m"
  using Set_ctl [of f i "mPool m" zero_pack] by (auto simp: sendInfo_def mux_sendCtl_def)

lemma publish_keeps [simp]:
  "heap (snd (mux_publish p m)) = heap m" "cMap (snd (mux_publish p m)) = cMap m"
  "mClosed (snd (mux_publish p m)) = mClosed m" "muxId (snd (mux_publish p m)) = muxId m"
  "newConnQueue (snd (mux_publish p m)) = newConnQueue m" "fst (mux_publish p m) = (\<not> mClosed m)"
  "pingCheckTime (snd (mux_publish p m)) = pingCheckTime m"
  "pingCheckThreshold (snd (mux_publish p m)) = pingCheckThreshold m"
  by (simp_all add: mux_publish_def split: prod.split)

lemma sendCtl_keeps [simp]:
  "heap (snd (mux_sendCtl f i m)) = heap m" "cMap (snd (mux_sendCtl f i m)) = cMap m"
  "mClosed (snd (mux_sendCtl f i m)) = mClosed m" "muxId (snd (mux_sendCtl f i m)) = muxId m"
  "newConnQueue (snd (mux_sendCtl f i m)) = newConnQueue m"
  by (simp_all add: mux_sendCtl_def split: prod.split option.split)

lemma sendCtl_ok: "\<not> data_flag f \<Longrightarrow> f \<noteq> muxMsgSendOk \<Longrightarrow> fst (mux_sendCtl f i m) = (\<not> mClosed m)"
  using Set_ctl [of f i "mPool m" zero_pack] by (auto simp: mux_sendCtl_def)

lemma send_acks_keeps [simp]:
  "heap (send_acks i as m) = heap m" "cMap (send_acks i as m) = cMap m"
  "mClosed (send_acks i as m) = mClosed m" "newConnQueue (send_acks i as m) = newConnQueue m"
proof -
  have one: "heap (snd (sendInfo muxMsgSendOk i (IUint64 a) m)) = heap m \<and>
      cMap (snd (sendInfo muxMsgSendOk i (IUint64 a) m)) = cMap m \<and>
      mClosed (snd (sendInfo muxMsgSendOk i (IUint64 a) m)) = mClosed m \<and>
      newConnQueue (snd (sendInfo muxMsgSendOk i (IUint64 a) m)) = newConnQueue m" for a m
    using Set_ack [of i a "mPool m" zero_pack] by (auto simp: sendInfo_def)
  have "heap (send_acks i as m) = heap m \<and> cMap (send_acks i as m) = cMap m \<and>
      mClosed (send_acks i as m) = mClosed m \<and> newConnQueue (send_acks i as m) = newConnQueue m"
    by (induction as arbitrary: m) (simp_all add: send_acks_def one)
  then show "heap (send_acks i as m) = heap m" "cMap (send_acks i as m) = cMap m"
    "mClosed (send_acks i as m) = mClosed m" "newConnQueue (send_acks i as m) = newConnQueue m" by simp_all
qed

lemma release_keeps [simp]:
  "heap (mux_release p m) = heap m" "cMap (mux_release p m) = cMap m" "mClosed (mux_release p m) = mClosed m"
  "newConnQueue (mux_release p m) = newConnQueue m" "writeQueue (mux_release p m) = writeQueue m"
  by (simp_all add: mux_release_def)

lemma set_conn_keeps [simp]:
  "heap (set_conn r c m) = (heap m)[r := c]" "cMap (set_conn r c m) = cMap m" "mClosed (set_conn r c m) = mClosed m"
  "newConnQueue (set_conn r c m) = newConnQueue m" "writeQueue (set_conn r c m) = writeQueue m"
  "mPool (set_conn r c m) = mPool m"
  by (simp_all add: set_conn_def)

lemma Delete_keeps [simp]:
  "heap (connMap_Delete i m) = heap m" "cMap (connMap_Delete i m) = AList.delete i (cMap m)"
  "mClosed (connMap_Delete i m) = mClosed m" "newConnQueue (connMap_Delete i m) = newConnQueue m"
  "mPool (connMap_Delete i m) = mPool m" "writeQueue (connMap_Delete i m) = writeQueue m"
  by (simp_all add: connMap_Delete_def)

text \<open>\<open>closeProcess\<close> changes the stream it closes, its entry of the table, the writer queue and the pool.\<close>

lemma closeProcess_frame:
  "length (heap (conn_closeProcess r m)) = length (heap m)"
  "r' \<noteq> r \<Longrightarrow> conn_of (conn_closeProcess r m) r' = conn_of m r'"
  "cMap (conn_closeProcess r m) = AList.delete (connId (conn_of m r)) (cMap m)"
  "mClosed (conn_closeProcess r m) = mClosed m" "newConnQueue (conn_closeProcess r m) = newConnQueue m"
  by (simp_all add: conn_closeProcess_def Let_def split: option.split prod.split)

lemma closeProcess_conn:
  assumes "r < length (heap m)"
  shows "isClose (conn_of (conn_closeProcess r m) r)"
    "connId (conn_of (conn_closeProcess r m) r) = connId (conn_of m r)"
    "onceDone (conn_of (conn_closeProcess r m) r) = onceDone (conn_of m r)"
    "closeOp (sendWin (conn_of (conn_closeProcess r m) r))" "\<not> drainTimer (conn_of (conn_closeProcess r m) r)"
  using assms
  by (simp_all add: conn_closeProcess_def Let_def window_CloseWindow_def split: option.split prod.split)

lemma Close_frame:
  "length (heap (conn_Close r m)) = length (heap m)"
  "r' \<noteq> r \<Longrightarrow> conn_of (conn_Close r m) r' = conn_of m r'"
  "mClosed (conn_Close r m) = mClosed m" "newConnQueue (conn_Close r m) = newConnQueue m"
  by (simp_all add: conn_Close_def closeProcess_frame)

lemma Close_conn:
  assumes "r < length (heap m)" "onceDone (conn_of m r) \<longrightarrow> isClose (conn_of m r)"
  shows "isClose (conn_of (conn_Close r m) r)" "onceDone (conn_of (conn_Close r m) r)"
    "connId (conn_of (conn_Close r m) r) = connId (conn_of m r)"
  using assms by (simp_all add: conn_Close_def closeProcess_conn)

lemma Close_cMap:
  assumes "r < length (heap m)"
  shows "cMap (conn_Close r m) = (if onceDone (conn_of m r) then cMap m else AList.delete (connId (conn_of m r)) (cMap m))"
  using assms by (simp add: conn_Close_def closeProcess_frame)


subsection \<open>The invariant of the stream table\<close>

text \<open>The registered streams exist, are registered once, under their own id, and are open; a stream is
  closed exactly when its \<open>once\<close> has run; the streams waiting to be accepted exist, are open and are not
  registered yet; a closed multiplexer has no registered stream.\<close>

definition conn_ok :: "mux \<Rightarrow> bool" where
  "conn_ok m \<longleftrightarrow> (\<forall>r<length (heap m). onceDone (conn_of m r) = isClose (conn_of m r))"

definition table_ok :: "mux \<Rightarrow> bool" where
  "table_ok m \<longleftrightarrow> distinct (map fst (cMap m)) \<and>
     (\<forall>(i, r) \<in> set (cMap m). r < length (heap m) \<and> connId (conn_of m r) = i \<and> \<not> isClose (conn_of m r))"

definition queue_refs_ok :: "mux \<Rightarrow> bool" where
  "queue_refs_ok m \<longleftrightarrow> cq_inv (newConnQueue m) \<and> distinct (cq_list (newConnQueue m)) \<and>
     (\<forall>r \<in> set (cq_list (newConnQueue m)). r < length (heap m) \<and> \<not> isClose (conn_of m r) \<and> r \<notin> snd ` set (cMap m))"

definition mux_inv :: "mux \<Rightarrow> bool" where
  "mux_inv m \<longleftrightarrow> conn_ok m \<and> table_ok m \<and> queue_refs_ok m \<and> (mClosed m \<longrightarrow> cMap m = [])"

lemma table_okD:
  assumes "table_ok m" "connMap_Get i m = Some r"
  shows "r < length (heap m)" "connId (conn_of m r) = i" "\<not> isClose (conn_of m r)"
  using assms by (auto simp: table_ok_def connMap_Get_def dest: map_of_SomeD)

lemma inv_Close:
  assumes "mux_inv m" "r < length (heap m)" "r \<notin> set (cq_list (newConnQueue m))"
  shows "mux_inv (conn_Close r m)"
proof -
  have once: "\<forall>r<length (heap m). onceDone (conn_of m r) = isClose (conn_of m r)"
    using assms by (simp add: mux_inv_def conn_ok_def)
  have C: "isClose (conn_of (conn_Close r m) r)" "onceDone (conn_of (conn_Close r m) r)"
    "connId (conn_of (conn_Close r m) r) = connId (conn_of m r)"
    using Close_conn [OF assms(2)] once assms(2) by simp_all
  have "conn_ok (conn_Close r m)"
    unfolding conn_ok_def
  proof (intro allI impI)
    fix r' assume "r' < length (heap (conn_Close r m))"
    then show "onceDone (conn_of (conn_Close r m) r') = isClose (conn_of (conn_Close r m) r')"
      using C once by (cases "r' = r") (simp_all add: Close_frame)
  qed
  moreover have "table_ok (conn_Close r m)"
    unfolding table_ok_def
  proof (intro conjI ballI, safe)
    show "distinct (map fst (cMap (conn_Close r m)))"
      using assms by (simp add: Close_cMap mux_inv_def table_ok_def distinct_delete)
    fix i r' assume "(i, r') \<in> set (cMap (conn_Close r m))"
    then have e: "(i, r') \<in> set (cMap m)" "\<not> onceDone (conn_of m r) \<longrightarrow> i \<noteq> connId (conn_of m r)"
      using assms(2) by (auto simp: Close_cMap AList.delete_eq split: if_splits)
    then have t: "r' < length (heap m)" "connId (conn_of m r') = i" "\<not> isClose (conn_of m r')"
      using assms(1) by (auto simp: mux_inv_def table_ok_def)
    then have "r' \<noteq> r" using e once assms(2) by auto
    then show "r' < length (heap (conn_Close r m))" "connId (conn_of (conn_Close r m) r') = i"
      "isClose (conn_of (conn_Close r m) r') \<Longrightarrow> False"
      using t by (simp_all add: Close_frame)
  qed
  moreover have "queue_refs_ok (conn_Close r m)"
    unfolding queue_refs_ok_def
  proof (intro conjI ballI)
    fix q assume "q \<in> set (cq_list (newConnQueue (conn_Close r m)))"
    then have q: "q \<in> set (cq_list (newConnQueue m))" "q \<noteq> r" using assms(3) by (auto simp: Close_frame)
    then show "q < length (heap (conn_Close r m))" "\<not> isClose (conn_of (conn_Close r m) q)"
      using assms(1) by (simp_all add: mux_inv_def queue_refs_ok_def Close_frame)
    show "q \<notin> snd ` set (cMap (conn_Close r m))"
      using assms(1,2) q by (auto simp: mux_inv_def queue_refs_ok_def Close_cMap AList.delete_eq)
  qed (use assms(1) in \<open>simp_all add: mux_inv_def queue_refs_ok_def Close_frame\<close>)
  moreover have "mClosed (conn_Close r m) \<longrightarrow> cMap (conn_Close r m) = []"
    using assms by (simp add: mux_inv_def Close_cMap Close_frame)
  ultimately show ?thesis by (simp add: mux_inv_def)
qed

lemma inv_Close_all:
  "mux_inv m \<Longrightarrow> \<forall>r \<in> set rs. r < length (heap m) \<and> r \<notin> set (cq_list (newConnQueue m)) \<Longrightarrow>
     mux_inv (fold conn_Close rs m) \<and> length (heap (fold conn_Close rs m)) = length (heap m) \<and>
     mClosed (fold conn_Close rs m) = mClosed m \<and>
     (\<forall>r<length (heap m). (r \<in> set rs \<or> isClose (conn_of m r)) \<longrightarrow> isClose (conn_of (fold conn_Close rs m) r))"
proof (induction rs arbitrary: m)
  case (Cons r rs)
  have r: "r < length (heap m)" using Cons.prems by simp
  let ?m = "conn_Close r m"
  have IH: "mux_inv (fold conn_Close rs ?m) \<and> length (heap (fold conn_Close rs ?m)) = length (heap ?m) \<and>
     mClosed (fold conn_Close rs ?m) = mClosed ?m \<and>
     (\<forall>r<length (heap ?m). (r \<in> set rs \<or> isClose (conn_of ?m r)) \<longrightarrow> isClose (conn_of (fold conn_Close rs ?m) r))"
    using Cons.prems by (intro Cons.IH) (simp_all add: inv_Close Close_frame)
  have c: "isClose (conn_of ?m r)"
    using Close_conn [OF r] Cons.prems(1) r by (simp add: mux_inv_def conn_ok_def)
  have "isClose (conn_of ?m r')" if "isClose (conn_of m r')" for r'
    using that c by (cases "r' = r") (simp_all add: Close_frame)
  then show ?case using IH c by (auto simp: Close_frame)
qed simp

lemma inv_Mux_Close:
  assumes "mux_inv m"
  shows "mux_inv (snd (Mux_Close m))" "mClosed (snd (Mux_Close m))" "cMap (snd (Mux_Close m)) = []"
    "length (heap (snd (Mux_Close m))) = length (heap m)"
    "\<And>i r. connMap_Get i m = Some r \<Longrightarrow> isClose (conn_of (snd (Mux_Close m)) r)"
proof -
  let ?m = "m\<lparr>mClosed := True, writeQueue := priorityQueue_Stop (writeQueue m),
      newConnQueue := connQueue_Stop (newConnQueue m), cMap := []\<rparr>"
  have i: "mux_inv ?m"
    using assms by (simp add: mux_inv_def conn_ok_def table_ok_def queue_refs_ok_def connQueue_Stop_def cq_inv_def cq_list_def)
  have refs: "\<forall>r \<in> set (map snd (cMap m)). r < length (heap ?m) \<and> r \<notin> set (cq_list (newConnQueue ?m))"
    using assms by (auto simp: mux_inv_def table_ok_def queue_refs_ok_def connQueue_Stop_def cq_list_def)
  note F = inv_Close_all [OF i refs]
  have all: "mux_inv (snd (Mux_Close m)) \<and> mClosed (snd (Mux_Close m)) \<and> cMap (snd (Mux_Close m)) = [] \<and>
    length (heap (snd (Mux_Close m))) = length (heap m) \<and>
    (\<forall>i r. connMap_Get i m = Some r \<longrightarrow> isClose (conn_of (snd (Mux_Close m)) r))"
  proof (cases "mClosed m")
    case True
    then show ?thesis using assms by (simp add: Mux_Close_def mux_inv_def connMap_Get_def)
  next
    case False
    then have e: "snd (Mux_Close m) = fold conn_Close (map snd (cMap m)) ?m"
      by (simp add: Mux_Close_def connMap_Close_def)
    have "isClose (conn_of (snd (Mux_Close m)) r)" if "connMap_Get i m = Some r" for i r
      using F that refs unfolding e by (force simp: connMap_Get_def dest: map_of_SomeD)
    then show ?thesis using F unfolding e by (auto simp: mux_inv_def)
  qed
  show "mux_inv (snd (Mux_Close m))" "mClosed (snd (Mux_Close m))" "cMap (snd (Mux_Close m)) = []"
    "length (heap (snd (Mux_Close m))) = length (heap m)" using all by blast+
  show "\<And>i r. connMap_Get i m = Some r \<Longrightarrow> isClose (conn_of (snd (Mux_Close m)) r)" using all by blast
qed


lemma inv_cong:
  "heap m' = heap m \<Longrightarrow> cMap m' = cMap m \<Longrightarrow> mClosed m' = mClosed m \<Longrightarrow> newConnQueue m' = newConnQueue m \<Longrightarrow>
   mux_inv m' = mux_inv m"
  by (simp add: mux_inv_def conn_ok_def table_ok_def queue_refs_ok_def)

lemma inv_set_conn:
  assumes "mux_inv m" "connId c = connId (conn_of m r)" "isClose c = isClose (conn_of m r)"
    "onceDone c = onceDone (conn_of m r)"
  shows "mux_inv (set_conn r c m)"
proof -
  have n: "connId ((heap m)[r := c] ! k) = connId (conn_of m k)" "isClose ((heap m)[r := c] ! k) = isClose (conn_of m k)"
    "onceDone ((heap m)[r := c] ! k) = onceDone (conn_of m k)" if "k < length (heap m)" for k
    using assms(2-4) that by (cases "k = r"; simp)+
  show ?thesis
    using assms(1) n by (fastforce simp: mux_inv_def conn_ok_def table_ok_def queue_refs_ok_def)
qed

lemma inv_sendInfo:
  assumes "mux_inv m"
  shows "mux_inv (snd (sendInfo f i d m))" "length (heap (snd (sendInfo f i d m))) = length (heap m)"
    "mClosed m \<Longrightarrow> mClosed (snd (sendInfo f i d m))"
proof -
  obtain p pl e where S: "muxPackager_Set f i d (mPool m) zero_pack = (p, pl, e)" by (metis prod_cases3)
  have k: "mux_inv (m\<lparr>mPool := x\<rparr>)" for x using assms inv_cong [of "m\<lparr>mPool := x\<rparr>" m] by simp
  have pub: "mux_inv (snd (mux_publish p (m\<lparr>mPool := pl\<rparr>)))"
    using assms inv_cong [of "snd (mux_publish p (m\<lparr>mPool := pl\<rparr>))" m] by simp
  note C = inv_Mux_Close [OF k [of "snd (releaseMuxPack p pl)"]]
  show "mux_inv (snd (sendInfo f i d m))" "length (heap (snd (sendInfo f i d m))) = length (heap m)"
    "mClosed m \<Longrightarrow> mClosed (snd (sendInfo f i d m))"
    using S pub C(1,2,4) by (cases e; simp add: sendInfo_def)+
qed

lemma inv_alloc:
  assumes "mux_inv m" "alloc_conn i m = (r, m')"
  shows "mux_inv m'" "r = length (heap m)" "r < length (heap m')" "conn_of m' r = NewConn i"
    "cMap m' = cMap m" "mClosed m' = mClosed m" "newConnQueue m' = newConnQueue m"
    "r \<notin> set (cq_list (newConnQueue m'))" "r \<notin> snd ` set (cMap m')"
proof -
  have m': "m' = m\<lparr>heap := heap m @ [NewConn i]\<rparr>" "r = length (heap m)" using assms(2) by (simp_all add: alloc_conn_def)
  have n: "(heap m @ [NewConn i]) ! k = conn_of m k" if "k < length (heap m)" for k using that by (simp add: nth_append)
  show "mux_inv m'"
    using assms(1) n unfolding m' mux_inv_def conn_ok_def table_ok_def queue_refs_ok_def
    by (auto simp: nth_append NewConn_def less_Suc_eq)
  show "r = length (heap m)" "r < length (heap m')" "conn_of m' r = NewConn i"
    "cMap m' = cMap m" "mClosed m' = mClosed m" "newConnQueue m' = newConnQueue m" using m' by simp_all
  show "r \<notin> set (cq_list (newConnQueue m'))" "r \<notin> snd ` set (cMap m')"
    using assms(1) m' by (auto simp: mux_inv_def queue_refs_ok_def table_ok_def)
qed

lemma set_update_subset: "set (AList.update k v xs) \<subseteq> insert (k, v) (set xs)"
  by (induction xs) auto

lemma inv_Set:
  assumes "mux_inv m" "\<not> mClosed m" "r < length (heap m)" "connId (conn_of m r) = i" "\<not> isClose (conn_of m r)"
    "r \<notin> set (cq_list (newConnQueue m))"
  shows "mux_inv (connMap_Set i r m)"
proof -
  note e = set_update_subset [of i r "cMap m"]
  have "table_ok (connMap_Set i r m)"
    using assms e by (auto simp: mux_inv_def table_ok_def connMap_Set_def distinct_update)
  moreover have "queue_refs_ok (connMap_Set i r m)"
  proof -
    have "snd ` set (AList.update i r (cMap m)) \<subseteq> insert r (snd ` set (cMap m))" using image_mono [OF e, of snd] by simp
    then show ?thesis using assms(1,6) by (auto simp: mux_inv_def queue_refs_ok_def connMap_Set_def)
  qed
  ultimately show ?thesis using assms by (simp add: mux_inv_def conn_ok_def connMap_Set_def)
qed


lemma newMsg_frame:
  "length (heap (snd (Mux_newMsg x y r p m))) = length (heap m)"
  "r' \<noteq> r \<Longrightarrow> conn_of (snd (Mux_newMsg x y r p m)) r' = conn_of m r'"
  "cMap (snd (Mux_newMsg x y r p m)) = cMap m" "mClosed (snd (Mux_newMsg x y r p m)) = mClosed m"
  "newConnQueue (snd (Mux_newMsg x y r p m)) = newConnQueue m"
  by (simp_all add: Mux_newMsg_def Let_def split: prod.split)

lemma inv_newMsg:
  assumes "mux_inv m"
  shows "mux_inv (snd (Mux_newMsg x y r p m))"
proof -
  obtain e w pl ack where W:
    "receiveWindow_Write (content p) (plength p) (flag p = muxNewMsgPart) x y (receiveWin (conn_of m r)) (mPool m) = (e, w, pl, ack)"
    by (metis prod_cases4)
  have "mux_inv (set_conn r ((conn_of m r)\<lparr>receiveWin := w\<rparr>) m)" using assms by (intro inv_set_conn) simp_all
  then have "mux_inv (send_acks (pid p) (opt_list ack) ((set_conn r ((conn_of m r)\<lparr>receiveWin := w\<rparr>) m)\<lparr>mPool := pl\<rparr>))"
    by (subst inv_cong [of _ "set_conn r ((conn_of m r)\<lparr>receiveWin := w\<rparr>) m"]) simp_all
  then show ?thesis using assms W by (simp add: Mux_newMsg_def Let_def)
qed

lemma inv_release: "mux_inv (mux_release p m) = mux_inv m"
  by (rule inv_cong) simp_all

lemma closeRemoteInput_frame [simp]:
  "length (heap (conn_closeRemoteInput r m)) = length (heap m)" "cMap (conn_closeRemoteInput r m) = cMap m"
  "mClosed (conn_closeRemoteInput r m) = mClosed m" "newConnQueue (conn_closeRemoteInput r m) = newConnQueue m"
  "r' \<noteq> r \<Longrightarrow> conn_of (conn_closeRemoteInput r m) r' = conn_of m r'"
  by (simp_all add: conn_closeRemoteInput_def Let_def)

lemma inv_closeRemoteInput: "mux_inv m \<Longrightarrow> mux_inv (conn_closeRemoteInput r m)"
  by (simp add: conn_closeRemoteInput_def Let_def inv_set_conn)

lemma cq_push:
  assumes "cq_inv q" "connQueue_Push x q = (q', None)"
  shows "cq_inv q'" "cq_list q' = cq_list q @ [x]"
  using assms connq.push_inv [of q x] connq.push_contents [of q x]
  by (auto simp: connQueue_Push_def split: if_splits)

text \<open>Only frames for a registered stream reach one, and they reach only that one.\<close>

definition stream_frame :: "u8 \<Rightarrow> bool" where
  "stream_frame f \<longleftrightarrow> f \<noteq> muxNewConn \<and> f \<noteq> muxPingFlag \<and> f \<noteq> muxPingReturn"

lemma dispatch_stream:
  assumes "mux_inv m" "stream_frame (flag p)"
  shows "case connMap_Get (pid p) m of
      None \<Rightarrow> heap (mux_dispatch x y t p m) = heap m \<and> cMap (mux_dispatch x y t p m) = cMap m
    | Some r \<Rightarrow> (\<forall>r'. r' \<noteq> r \<longrightarrow> conn_of (mux_dispatch x y t p m) r' = conn_of m r') \<and>
        length (heap (mux_dispatch x y t p m)) = length (heap m) \<and>
        (\<forall>i. i \<noteq> pid p \<longrightarrow> connMap_Get i (mux_dispatch x y t p m) = connMap_Get i m)"
    and "mClosed (mux_dispatch x y t p m) = mClosed m"
    and "newConnQueue (mux_dispatch x y t p m) = newConnQueue m"
    and "mux_inv (mux_dispatch x y t p m)"
proof -
  have sf: "flag p \<noteq> muxNewConn" "flag p \<noteq> muxPingFlag" "flag p \<noteq> muxPingReturn"
    using assms(2) by (simp_all add: stream_frame_def)
  have "(case connMap_Get (pid p) m of
      None \<Rightarrow> heap (mux_dispatch x y t p m) = heap m \<and> cMap (mux_dispatch x y t p m) = cMap m
    | Some r \<Rightarrow> (\<forall>r'. r' \<noteq> r \<longrightarrow> conn_of (mux_dispatch x y t p m) r' = conn_of m r') \<and>
        length (heap (mux_dispatch x y t p m)) = length (heap m) \<and>
        (\<forall>i. i \<noteq> pid p \<longrightarrow> connMap_Get i (mux_dispatch x y t p m) = connMap_Get i m)) \<and>
     mClosed (mux_dispatch x y t p m) = mClosed m \<and> newConnQueue (mux_dispatch x y t p m) = newConnQueue m \<and>
     mux_inv (mux_dispatch x y t p m)"
  proof (cases "connMap_Get (pid p) m")
    case None
    then show ?thesis using sf assms by (simp add: mux_dispatch_def inv_release)
  next
    case (Some r)
    have T: "r < length (heap m)" "connId (conn_of m r) = pid p" "\<not> isClose (conn_of m r)"
      using table_okD [OF _ Some] assms(1) by (auto simp: mux_inv_def)
    have nq: "r \<notin> set (cq_list (newConnQueue m))"
      using assms(1) Some by (force simp: mux_inv_def queue_refs_ok_def connMap_Get_def dest: map_of_SomeD)
    obtain e m1 where N: "Mux_newMsg x y r p m = (e, m1)" by (cases "Mux_newMsg x y r p m")
    have F: "length (heap m1) = length (heap m)" "\<And>r'. r' \<noteq> r \<Longrightarrow> conn_of m1 r' = conn_of m r'" "cMap m1 = cMap m"
      "mClosed m1 = mClosed m" "newConnQueue m1 = newConnQueue m" "mux_inv m1"
      using newMsg_frame [where x = x and y = y and r = r and p = p and m = m] inv_newMsg [OF assms(1), of x y r p] N by simp_all
    have id1: "connId (conn_of m1 r) = pid p"
      using F(6) Some F(3) by (auto simp: mux_inv_def table_ok_def connMap_Get_def dest: map_of_SomeD)
    have C: "mux_inv (conn_Close r (mux_release p m1))"
      using F nq T by (intro inv_Close) (simp_all add: inv_release)
    have cm: "connMap_Get i (conn_Close r (mux_release p m1)) = connMap_Get i m" if "i \<noteq> pid p" for i
      using T F id1 that by (simp add: connMap_Get_def Close_cMap map_of_delete)
    show ?thesis
    proof (cases "flag p = muxNewMsg \<or> flag p = muxNewMsgPart")
      case True
      then show ?thesis using sf Some T N F C cm
        by (cases e) (auto simp: mux_dispatch_def inv_release Close_frame connMap_Get_def)
    next
      case False
      then show ?thesis
        using sf Some T assms(1)
        by (auto simp: mux_dispatch_def inv_release inv_set_conn inv_closeRemoteInput connMap_Get_def
            closeRemoteInput_frame)
    qed
  qed
  then show "case connMap_Get (pid p) m of
      None \<Rightarrow> heap (mux_dispatch x y t p m) = heap m \<and> cMap (mux_dispatch x y t p m) = cMap m
    | Some r \<Rightarrow> (\<forall>r'. r' \<noteq> r \<longrightarrow> conn_of (mux_dispatch x y t p m) r' = conn_of m r') \<and>
        length (heap (mux_dispatch x y t p m)) = length (heap m) \<and>
        (\<forall>i. i \<noteq> pid p \<longrightarrow> connMap_Get i (mux_dispatch x y t p m) = connMap_Get i m)"
    "mClosed (mux_dispatch x y t p m) = mClosed m" "newConnQueue (mux_dispatch x y t p m) = newConnQueue m"
    "mux_inv (mux_dispatch x y t p m)" by blast+
qed

lemma inv_dispatch:
  assumes "mux_inv m"
  shows "mux_inv (mux_dispatch x y t p m)"
proof (cases "stream_frame (flag p)")
  case True
  then show ?thesis using dispatch_stream(4) [OF assms] by blast
next
  case False
  then consider "flag p = muxNewConn" | "flag p = muxPingFlag" | "flag p = muxPingReturn" by (auto simp: stream_frame_def)
  then show ?thesis
  proof cases
    case 1
    obtain r m1 where A: "alloc_conn (pid p) m = (r, m1)" by (cases "alloc_conn (pid p) m")
    note a = inv_alloc [OF assms A]
    show ?thesis
    proof (cases "mClosed m1")
      case True
      then show ?thesis using 1 A a by (simp add: mux_dispatch_def inv_release inv_Close)
    next
      case False
      obtain q x' where P: "connQueue_Push r (newConnQueue m1) = (q, x')" by (cases "connQueue_Push r (newConnQueue m1)")
      show ?thesis
      proof (cases x')
        case None
        have "cq_inv (newConnQueue m1)" using a(1) by (simp add: mux_inv_def queue_refs_ok_def)
        note Q = cq_push [OF this P [unfolded None]]
        have "mux_inv (m1\<lparr>newConnQueue := q\<rparr>)"
          using a Q by (auto simp: mux_inv_def conn_ok_def table_ok_def queue_refs_ok_def NewConn_def)
        then show ?thesis using 1 A False P None by (simp add: mux_dispatch_def inv_release)
      next
        case (Some r')
        then have "q = newConnQueue m1" "r' = r" using P by (auto simp: connQueue_Push_def split: if_splits)
        moreover have "mux_inv (conn_Close r m1)" using a by (simp add: inv_Close)
        ultimately show ?thesis using 1 A False P Some by (simp add: mux_dispatch_def inv_release)
      qed
    qed
  next
    case 2
    then show ?thesis using inv_sendInfo(1) [OF assms]
      by (simp add: mux_dispatch_def inv_release mux_flag_defs)
  next
    case 3
    have "mux_inv (m\<lparr>pingData := a\<rparr>)" "mux_inv (m\<lparr>mPool := b\<rparr>)" for a b
      using assms inv_cong [of "m\<lparr>pingData := a\<rparr>" m] inv_cong [of "m\<lparr>mPool := b\<rparr>" m] by simp_all
    then show ?thesis using 3 by (simp add: mux_dispatch_def mux_flag_defs)
  qed
qed


subsection \<open>Stream ids\<close>

definition id_period :: nat where "id_period = 2 ^ 31 - 10000"

lemma unat_next_id:
  assumes "unat c \<le> id_period"
  shows "unat (next_id c) = unat c mod id_period + 1"
proof -
  have c: "unat c < 2 ^ 31" using assms by (simp add: id_period_def)
  then have "int (unat c) < 2 ^ 31" by (metis of_nat_less_iff of_nat_numeral of_nat_power)
  then have "uint c < 2 ^ 31" by (simp only: uint_nat)
  moreover have "- (2 ^ 31) \<le> uint c" by (rule order_trans [of _ 0]) simp_all
  ultimately have "signed_take_bit 31 (uint c) = uint c" by (intro signed_take_bit_int_eq_self)
  then have "sint c = uint c" by (simp add: sint_uint)
  then have s: "sint c = int (unat c)" by (simp only: uint_nat)
  show ?thesis
  proof (cases "unat c = id_period")
    case True
    then show ?thesis using s by (simp add: next_id_def id_period_def)
  next
    case False
    then have lt: "unat c < id_period" using assms by simp
    then have "unat (c + 1) = unat c + 1" using c by (simp add: unat_word_ariths)
    moreover have "sint c < 2147473648" unfolding s using lt [unfolded id_period_def] by (simp only: of_nat_less_numeral_iff) simp
    ultimately show ?thesis using lt by (simp add: next_id_def id_period_def)
  qed
qed

lemma iterate_next_id:
  assumes "unat c \<le> id_period"
  shows "unat ((next_id ^^ Suc k) c) = (unat c + k) mod id_period + 1"
proof (induction k)
  case 0
  then show ?case using unat_next_id [OF assms] by simp
next
  case (Suc k)
  have "(unat c + k) mod id_period < id_period" by (simp add: id_period_def)
  then have "unat ((next_id ^^ Suc k) c) \<le> id_period" using Suc by simp
  from unat_next_id [OF this] show ?case
    using Suc by (simp add: mod_simps add.commute)
qed

lemma getId_tries:
  assumes "getId fuel m = None" "k < fuel"
  shows "connMap_Get ((next_id ^^ Suc k) (muxId m)) m \<noteq> None"
  using assms
proof (induction fuel arbitrary: m k)
  case (Suc fuel)
  let ?m = "m\<lparr>muxId := next_id (muxId m)\<rparr>"
  have taken: "connMap_Get (next_id (muxId m)) m \<noteq> None" and g: "getId fuel ?m = None"
    using Suc.prems(1) by (auto simp: Let_def connMap_Get_def split: option.splits)
  show ?case
  proof (cases k)
    case 0
    then show ?thesis using taken by simp
  next
    case (Suc k')
    then have "k' < fuel" using Suc.prems(2) by simp
    from Suc.IH [OF g this] show ?thesis by (simp add: Suc funpow_swap1 connMap_Get_def)
  qed
qed simp

lemma getId_result:
  assumes "getId fuel m = Some (i, m')"
  shows "connMap_Get i m = None \<and> m' = m\<lparr>muxId := i\<rparr> \<and> (\<exists>k<fuel. i = (next_id ^^ Suc k) (muxId m))"
  using assms
proof (induction fuel arbitrary: m)
  case (Suc fuel)
  let ?m = "m\<lparr>muxId := next_id (muxId m)\<rparr>"
  show ?case
  proof (cases "connMap_Get (next_id (muxId m)) ?m")
    case None
    then show ?thesis using Suc.prems by (auto simp: Let_def connMap_Get_def intro: exI [of _ 0])
  next
    case (Some r)
    then have "getId fuel ?m = Some (i, m')" using Suc.prems by (simp add: Let_def)
    from Suc.IH [OF this] obtain k where "k < fuel" "i = (next_id ^^ Suc k) (next_id (muxId m))"
      "connMap_Get i m = None" "m' = m\<lparr>muxId := i\<rparr>" by (auto simp: connMap_Get_def)
    then show ?thesis by (auto simp: funpow_swap1 intro!: exI [of _ "Suc k"])
  qed
qed simp

lemma getId_returns:
  assumes "unat (muxId m) \<le> id_period" "length (cMap m) < fuel" "fuel \<le> id_period"
  shows "getId fuel m \<noteq> None"
proof
  assume None: "getId fuel m = None"
  let ?f = "\<lambda>k. (next_id ^^ Suc k) (muxId m)"
  have "inj_on ?f {..<fuel}"
  proof (rule inj_onI)
    fix j k assume jk: "j \<in> {..<fuel}" "k \<in> {..<fuel}" "?f j = ?f k"
    then have "(unat (muxId m) + j) mod id_period = (unat (muxId m) + k) mod id_period"
      using iterate_next_id [OF assms(1), of j] iterate_next_id [OF assms(1), of k] by simp
    with jk assms(3) show "j = k" by (intro mod_ring_inj [of j id_period k "unat (muxId m)"]) simp_all
  qed
  then have "card (?f ` {..<fuel}) = fuel" by (simp add: card_image)
  moreover have "?f ` {..<fuel} \<subseteq> fst ` set (cMap m)"
    using getId_tries [OF None] by (auto simp: connMap_Get_def map_of_eq_None_iff simp del: funpow.simps)
  then have "card (?f ` {..<fuel}) \<le> card (fst ` set (cMap m))" by (intro card_mono) simp_all
  moreover have "card (fst ` set (cMap m)) \<le> length (cMap m)"
    by (rule order_trans [OF card_image_le card_length]) simp
  ultimately show False using assms(2) by simp
qed


subsection \<open>The latency estimate\<close>

definition lc_pos :: "latencyCounter \<Rightarrow> real set" where
  "lc_pos c = {x \<in> set (lcBuf c). 0 < x}"

definition lc_head :: "latencyCounter \<Rightarrow> nat" where "lc_head c = unat (fst (latencyCounter_unpack (headMin c)))"
definition lc_min :: "latencyCounter \<Rightarrow> nat" where "lc_min c = unat (snd (latencyCounter_unpack (headMin c)))"

text \<open>The ring has 16 slots of non-negative samples; \<open>min\<close> is the slot of the least positive one, or 0
  while there is none.\<close>

definition lc_inv :: "latencyCounter \<Rightarrow> bool" where
  "lc_inv c \<longleftrightarrow> length (lcBuf c) = 16 \<and> (\<forall>x \<in> set (lcBuf c). 0 \<le> x) \<and>
     (if lc_pos c = {} then lc_min c = lc_head c
      else 0 < lcBuf c ! lc_min c \<and> (\<forall>x \<in> lc_pos c. lcBuf c ! lc_min c \<le> x))"

lemma unat_mask4: "unat (w AND mask 4 :: u8) = unat w mod 16"
  by (simp add: unsigned_take_bit_eq take_bit_eq_mod unat_mod_distrib flip: take_bit_eq_mask)

lemma lc_index_bounds: "lc_head c < 16" "lc_min c < 16"
  by (simp_all add: lc_head_def lc_min_def latencyCounter_unpack_def counterBits_def unat_mask4)

lemma lc_unpack_pack:
  "latencyCounter_unpack (latencyCounter_pack h k) = (h AND mask 4, k AND mask 4)"
proof -
  have "drop_bit 4 (push_bit 4 h OR (k AND mask 4)) AND mask 4 = h AND (mask 4 :: u8)"
    by (rule bit_eqI) (auto simp: bit_simps)
  moreover have "(push_bit 4 h OR (k AND mask 4)) AND mask 4 = k AND (mask 4 :: u8)"
    by (rule bit_eqI) (auto simp: bit_simps)
  ultimately show ?thesis by (simp add: latencyCounter_unpack_def latencyCounter_pack_def counterBits_def)
qed

lemma minimal_from_spec:
  assumes "\<forall>v k. best = Some (v, k) \<longrightarrow> 0 < v \<and> k < length pre \<and> pre ! k = v \<and> (\<forall>x \<in> set pre. 0 < x \<longrightarrow> v \<le> x)"
    and "best = None \<longrightarrow> (\<forall>x \<in> set pre. \<not> 0 < x)"
  shows "case minimal_from (length pre) xs best of
      None \<Rightarrow> \<forall>x \<in> set (pre @ xs). \<not> 0 < x
    | Some (v, k) \<Rightarrow> 0 < v \<and> k < length (pre @ xs) \<and> (pre @ xs) ! k = v \<and> (\<forall>x \<in> set (pre @ xs). 0 < x \<longrightarrow> v \<le> x)"
  using assms
proof (induction xs arbitrary: pre best)
  case Nil
  then show ?case by (cases best) auto
next
  case (Cons x xs)
  let ?b = "if 0 < x \<and> (case best of None \<Rightarrow> True | Some (v, _) \<Rightarrow> x < v) then Some (x, length pre) else best"
  have "\<forall>v k. ?b = Some (v, k) \<longrightarrow> 0 < v \<and> k < length (pre @ [x]) \<and> (pre @ [x]) ! k = v \<and> (\<forall>y \<in> set (pre @ [x]). 0 < y \<longrightarrow> v \<le> y)"
    using Cons.prems by (cases best) (auto simp: nth_append split: if_splits, meson less_imp_le less_le_trans)
  moreover have "?b = None \<longrightarrow> (\<forall>y \<in> set (pre @ [x]). \<not> 0 < y)"
    using Cons.prems(2) by (auto split: if_splits)
  ultimately have "case minimal_from (length (pre @ [x])) xs ?b of
      None \<Rightarrow> \<forall>x \<in> set ((pre @ [x]) @ xs). \<not> 0 < x
    | Some (v, k) \<Rightarrow> 0 < v \<and> k < length ((pre @ [x]) @ xs) \<and> ((pre @ [x]) @ xs) ! k = v \<and>
        (\<forall>y \<in> set ((pre @ [x]) @ xs). 0 < y \<longrightarrow> v \<le> y)"
    by (rule Cons.IH)
  moreover have "minimal_from (length pre) (x # xs) best = minimal_from (length (pre @ [x])) xs ?b" by simp
  moreover have "(pre @ [x]) @ xs = pre @ x # xs" by simp
  ultimately show ?case by (simp only: )
qed

lemma minimal_spec:
  assumes "length (lcBuf c) = 16" "lc_pos c \<noteq> {}"
  shows "unat (latencyCounter_minimal c) < 16" "0 < lcBuf c ! unat (latencyCounter_minimal c)"
    "\<forall>x \<in> lc_pos c. lcBuf c ! unat (latencyCounter_minimal c) \<le> x"
proof -
  have S: "case minimal_from 0 (lcBuf c) None of None \<Rightarrow> \<forall>x \<in> set (lcBuf c). \<not> 0 < x
    | Some (v, k) \<Rightarrow> 0 < v \<and> k < length (lcBuf c) \<and> lcBuf c ! k = v \<and> (\<forall>x \<in> set (lcBuf c). 0 < x \<longrightarrow> v \<le> x)"
    using minimal_from_spec [of None "[]" "lcBuf c"] by (auto split: option.splits prod.splits)
  then obtain v k where k: "minimal_from 0 (lcBuf c) None = Some (v, k)"
    using assms(2) by (auto simp: lc_pos_def split: option.splits)
  with S have K: "0 < v" "k < 16" "lcBuf c ! k = v" "\<forall>x \<in> set (lcBuf c). 0 < x \<longrightarrow> v \<le> x"
    using assms(1) by auto
  have "unat (latencyCounter_minimal c) = k" using k K(2) by (simp add: latencyCounter_minimal_def unat_of_nat)
  then show "unat (latencyCounter_minimal c) < 16" "0 < lcBuf c ! unat (latencyCounter_minimal c)"
    "\<forall>x \<in> lc_pos c. lcBuf c ! unat (latencyCounter_minimal c) \<le> x"
    using K by (simp_all add: lc_pos_def)
qed

lemma lc_add:
  assumes "lc_inv c" "0 < v"
  shows "lc_inv (latencyCounter_add v c)" "lcBuf (latencyCounter_add v c) = (lcBuf c)[lc_head c := v]"
    "lc_head (latencyCounter_add v c) = (lc_head c + 1) mod 16" "v \<in> lc_pos (latencyCounter_add v c)"
proof -
  obtain h k where hk: "latencyCounter_unpack (headMin c) = (h, k)" by (cases "latencyCounter_unpack (headMin c)")
  have b: "unat h < 16" "unat k < 16" "lc_head c = unat h" "lc_min c = unat k"
    using lc_index_bounds [of c] hk by (simp_all add: lc_head_def lc_min_def)
  have len: "length (lcBuf c) = 16" and nn: "\<forall>x \<in> set (lcBuf c). 0 \<le> x" using assms(1) by (simp_all add: lc_inv_def)
  let ?c1 = "c\<lparr>lcBuf := (lcBuf c)[unat h := v]\<rparr>"
  let ?m1 = "if h = k then latencyCounter_minimal ?c1 else k"
  let ?m2 = "if lcBuf ?c1 ! unat ?m1 > v then h else ?m1"
  have add: "latencyCounter_add v c = ?c1\<lparr>headMin := latencyCounter_pack (h + 1) ?m2\<rparr>"
    using hk by (simp add: latencyCounter_add_def Let_def)
  then show buf: "lcBuf (latencyCounter_add v c) = (lcBuf c)[lc_head c := v]" using b by simp
  have pos: "v \<in> lc_pos ?c1" "lc_pos ?c1 \<noteq> {}"
    using len b assms(2) set_update_memI [of "unat h" "lcBuf c" v] by (auto simp: lc_pos_def)
  then show "v \<in> lc_pos (latencyCounter_add v c)" using buf b by (simp add: lc_pos_def)
  have sub: "set (lcBuf ?c1) \<subseteq> insert v (set (lcBuf c))" by (simp add: set_update_subset_insert)
  have m1: "unat ?m1 < 16 \<and> 0 < lcBuf ?c1 ! unat ?m1 \<and> (\<forall>x \<in> lc_pos ?c1. min v (lcBuf ?c1 ! unat ?m1) \<le> x)"
  proof (cases "h = k")
    case True
    then show ?thesis using minimal_spec [of ?c1] pos len by (auto simp: min_le_iff_disj)
  next
    case False
    then have ne: "unat h \<noteq> unat k" by (simp add: word_unat_eq_iff)
    then have p: "lc_pos c \<noteq> {}" using assms(1) b by (auto simp: lc_inv_def split: if_splits)
    then have K: "0 < lcBuf c ! unat k" "\<forall>x \<in> lc_pos c. lcBuf c ! unat k \<le> x" using assms(1) b by (auto simp: lc_inv_def)
    then show ?thesis using False ne b sub by (auto simp: lc_pos_def min_le_iff_disj)
  qed
  have m2: "unat ?m2 < 16" "0 < lcBuf ?c1 ! unat ?m2" "\<forall>x \<in> lc_pos ?c1. lcBuf ?c1 ! unat ?m2 \<le> x"
    using m1 b len assms(2) by (auto simp: min_def split: if_splits)
  have "lc_min (latencyCounter_add v c) = unat ?m2"
    using m2(1) by (simp add: lc_min_def add lc_unpack_pack unat_mask4)
  then show "lc_inv (latencyCounter_add v c)"
    using m2 len nn sub pos assms(2) buf b unfolding lc_inv_def
    by (auto simp: lc_pos_def)
  show "lc_head (latencyCounter_add v c) = (lc_head c + 1) mod 16"
    using b by (simp add: lc_head_def add lc_unpack_pack unat_mask4 unat_word_ariths mod_mod_cancel)
qed

lemma lc_countSuccess:
  assumes "lc_inv c" "lc_pos c \<noteq> {}"
  shows "lcBuf c ! lc_min c \<le> latencyCounter_countSuccess c" "latencyCounter_countSuccess c \<le> 3 * (lcBuf c ! lc_min c)"
proof -
  let ?m = "lcBuf c ! lc_min c"
  let ?g = "filter (\<lambda>x. x \<le> 3 * ?m \<and> x > 0) (lcBuf c)"
  have m: "0 < ?m" "\<forall>x \<in> lc_pos c. ?m \<le> x" "length (lcBuf c) = 16" using assms by (simp_all add: lc_inv_def)
  have "?m \<in> set ?g" using m lc_index_bounds(2) [of c] by simp
  then have ne: "?g \<noteq> []" by (metis empty_iff list.set(1))
  have S: "latencyCounter_countSuccess c = sum_list ?g / real (length ?g)"
    using ne by (simp add: latencyCounter_countSuccess_def lossRatio_def lc_min_def Let_def split: prod.split)
  have lo: "real (length xs) * ?m \<le> sum_list xs" if "\<forall>x \<in> set xs. ?m \<le> x" for xs
    using that by (induction xs) (auto simp: algebra_simps)
  have hi: "sum_list xs \<le> real (length xs) * (3 * ?m)" if "\<forall>x \<in> set xs. x \<le> 3 * ?m" for xs
    using that by (induction xs) (auto simp: algebra_simps)
  have l: "0 < real (length ?g)" using ne by simp
  have "real (length ?g) * ?m \<le> sum_list ?g" "sum_list ?g \<le> real (length ?g) * (3 * ?m)"
    using m(2) by (intro lo hi; auto simp: lc_pos_def)+
  with l show "?m \<le> latencyCounter_countSuccess c" "latencyCounter_countSuccess c \<le> 3 * ?m"
    unfolding S by (simp_all add: pos_le_divide_eq pos_divide_le_eq mult.commute)
qed


subsection \<open>All operations\<close>

lemma inv_send_all:
  assumes "mux_inv m"
  shows "mux_inv (send_acks i as m)" "mux_inv (send_segments i segs m)"
proof -
  show "mux_inv (send_acks i as m)" using assms inv_cong [of "send_acks i as m" m] by simp
  show "mux_inv (send_segments i segs m)"
    using assms by (induction segs arbitrary: m) (auto simp: send_segments_def inv_sendInfo)
qed

lemma getId_cases:
  assumes "mux_inv m" "getId fuel m = Some (i, m1)"
  shows "mux_inv m1" "cMap m1 = cMap m" "heap m1 = heap m" "mClosed m1 = mClosed m"
  using getId_result [OF assms(2)] assms(1) inv_cong [of m1 m] by auto

lemma sendInfo_newConn_keeps:
  "heap (snd (sendInfo muxNewConn i INil m)) = heap m" "newConnQueue (snd (sendInfo muxNewConn i INil m)) = newConnQueue m"
  "cMap (snd (sendInfo muxNewConn i INil m)) = cMap m" "mClosed (snd (sendInfo muxNewConn i INil m)) = mClosed m"
  by (simp_all add: sendCtl_sendInfo)

lemma inv_NewConn:
  assumes "mux_inv m"
  shows "mux_inv (snd (Mux_NewConn m))"
proof (cases "mClosed m \<or> getId (Suc (length (cMap m))) m = None")
  case True
  then show ?thesis using assms by (auto simp: Mux_NewConn_def simp del: getId.simps)
next
  case False
  then obtain i m1 where G: "getId (Suc (length (cMap m))) m = Some (i, m1)" by auto
  note g = getId_cases [OF assms G]
  obtain r m2 where A: "alloc_conn i m1 = (r, m2)" by (cases "alloc_conn i m1")
  note a = inv_alloc [OF g(1) A]
  let ?m3 = "connMap_Set i r m2"
  have i3: "mux_inv ?m3" using a g False by (intro inv_Set) (simp_all add: NewConn_def)
  have k3: "heap ?m3 = heap m2" "newConnQueue ?m3 = newConnQueue m2" by (simp_all add: connMap_Set_def)
  obtain ok m4 where S: "sendInfo muxNewConn i INil ?m3 = (ok, m4)" by (cases "sendInfo muxNewConn i INil ?m3")
  have m4: "mux_inv m4" "heap m4 = heap ?m3" "newConnQueue m4 = newConnQueue ?m3"
    using inv_sendInfo(1) [OF i3, of muxNewConn i INil] sendInfo_newConn_keeps [of i ?m3] S by simp_all
  have "mux_inv (conn_Close r m4)" using m4 k3 a by (intro inv_Close) simp_all
  then show ?thesis using False G A S m4 by (simp add: Mux_NewConn_def Let_def del: getId.simps)
qed

lemma accept_queue_pop:
  assumes "mux_inv m" "connQueue_Pop_pass (newConnQueue m) = Some (x, q)"
  shows "mux_inv (m\<lparr>newConnQueue := q\<rparr>)"
    "x = Returned (Some r) \<Longrightarrow> r < length (heap m) \<and> \<not> isClose (conn_of m r) \<and> r \<notin> set (cq_list q)"
proof -
  have Q: "cq_inv (newConnQueue m)" using assms(1) by (simp add: mux_inv_def queue_refs_ok_def)
  obtain y q' where P: "connQueue_tryPopLocked (newConnQueue m) = Some (y, q')"
    using connq.pop_not_stuck [OF Q] by auto
  have q: "q' = q" "y = Some r \<Longrightarrow> True" "x = Returned (Some r) \<Longrightarrow> y = Some r" for r
    using assms(2) P by (auto simp: connQueue_Pop_pass_def split: option.splits if_splits)
  note C = connq.pop_Some [OF Q P]
  have sub: "cq_inv q" "set (cq_list q) \<subseteq> set (cq_list (newConnQueue m))" "distinct (cq_list q)"
    using C q(1) assms(1) by (auto simp: mux_inv_def queue_refs_ok_def split: option.splits)
  then show "mux_inv (m\<lparr>newConnQueue := q\<rparr>)"
    using assms(1) by (auto simp: mux_inv_def conn_ok_def table_ok_def queue_refs_ok_def)
  assume "x = Returned (Some r)"
  then have "cq_list (newConnQueue m) = r # cq_list q" using C q by (auto split: option.splits)
  then show "r < length (heap m) \<and> \<not> isClose (conn_of m r) \<and> r \<notin> set (cq_list q)"
    using assms(1) by (simp add: mux_inv_def queue_refs_ok_def)
qed


lemma inv_accept:
  assumes "mux_inv m" "accept_next taken m = Some (x, m')"
  shows "mux_inv m'"
proof -
  obtain y q where P: "connQueue_Pop_pass (newConnQueue m) = Some (y, q)"
    using assms(2) by (cases "connQueue_Pop_pass (newConnQueue m)") (auto simp: accept_next_def)
  note Q = accept_queue_pop [OF assms(1) P]
  show ?thesis
  proof (cases "\<exists>r. y = Returned (Some r)")
    case False
    then have "m' = m\<lparr>newConnQueue := q\<rparr>"
      using assms(2) P by (auto simp: accept_next_def split: pop_pass.splits option.splits)
    then show ?thesis using Q(1) by simp
  next
    case True
    then obtain r where r: "y = Returned (Some r)" by blast
    let ?m1 = "m\<lparr>newConnQueue := q\<rparr>"
    have R: "r < length (heap ?m1)" "\<not> isClose (conn_of ?m1 r)" "r \<notin> set (cq_list (newConnQueue ?m1))"
      using Q(2) [OF r] by simp_all
    let ?m2 = "connMap_Set (connId (conn_of ?m1 r)) r ?m1"
    have i2: "mux_inv ?m2" if "\<not> mClosed m" using Q(1) R that by (intro inv_Set) simp_all
    have k2: "heap ?m2 = heap ?m1" "newConnQueue ?m2 = newConnQueue ?m1" by (simp_all add: connMap_Set_def)
    have "mux_inv (conn_Close r ?m1)" using Q(1) R by (intro inv_Close)
    moreover have "mux_inv (conn_Close r ?m2)" if "\<not> mClosed m" using i2 [OF that] R k2 by (intro inv_Close) simp_all
    moreover have "mux_inv (snd (sendInfo muxNewConnOk j INil ?m2))" if "\<not> mClosed m" for j
      using inv_sendInfo(1) [OF i2 [OF that]] .
    ultimately show ?thesis using assms(2) P r by (auto simp: accept_next_def Let_def split: if_splits)
  qed
qed

lemma inv_pool: "mux_inv m \<Longrightarrow> mux_inv (m\<lparr>mPool := pl\<rparr>)"
  using inv_cong [of "m\<lparr>mPool := pl\<rparr>" m] by simp

lemma inv_Read:
  assumes "mux_inv m" "r < length (heap m)" "r \<notin> set (cq_list (newConnQueue m))" "conn_Read r room clock m = Some (x, m')"
  shows "mux_inv m'"
proof -
  have i: "mux_inv (send_acks j as ((set_conn r ((conn_of m r)\<lparr>receiveWin := w\<rparr>) m)\<lparr>mPool := pl\<rparr>))" for j as w pl
    using assms(1) by (intro inv_send_all inv_pool inv_set_conn) simp_all
  then have c: "mux_inv (conn_Close r (send_acks j as ((set_conn r ((conn_of m r)\<lparr>receiveWin := w\<rparr>) m)\<lparr>mPool := pl\<rparr>)))" for j as w pl
    using assms(2,3) by (intro inv_Close) simp_all
  show ?thesis using assms(1,4) i c
    by (auto simp: conn_Read_def Let_def split: if_splits option.splits next_out.splits)
qed

lemma inv_Write:
  assumes "mux_inv m" "conn_Write r b acks m = Some (x, m')"
  shows "mux_inv m'"
proof -
  have "mux_inv (send_segments j segs (set_conn r ((conn_of m r)\<lparr>sendWin := w\<rparr>) m))" for j segs w
    using assms(1) by (intro inv_send_all inv_set_conn) simp_all
  then show ?thesis using assms
    by (auto simp: conn_Write_def Let_def split: if_splits option.splits sum.splits)
qed

lemma inv_ping:
  assumes "mux_inv m"
  shows "mux_inv (ping_tick now m)" "mux_inv (ping_answer m)"
proof -
  have k: "mux_inv (m1\<lparr>pingCheckTime := t\<rparr>) = mux_inv m1" for m1 t by (rule inv_cong) simp_all
  show "mux_inv (ping_tick now m)"
    using assms inv_Mux_Close(1) inv_sendInfo(1) by (simp add: ping_tick_def Let_def k)
  have "mux_inv (m\<lparr>pingData := a, pingCheckTime := t, mPool := b\<rparr>) = mux_inv m" for a t b by (rule inv_cong) simp_all
  then show "mux_inv (ping_answer m)" using assms by (simp add: ping_answer_def split: list.split)
qed

text \<open>The multiplexer under every operation of its users, of the other side and of its goroutines. A user
  holds a stream once it was opened or accepted, so never one that still waits to be accepted.\<close>

inductive mux_step :: "mux \<Rightarrow> mux \<Rightarrow> bool" where
  open_stream: "Mux_NewConn m = (res, m') \<Longrightarrow> mux_step m m'"
| answered: "r < length (heap m) \<Longrightarrow> r \<notin> set (cq_list (newConnQueue m)) \<Longrightarrow>
     Mux_NewConn_answer a r m = (res, m') \<Longrightarrow> mux_step m m'"
| accept_stream: "accept_next taken m = Some (res, m') \<Longrightarrow> mux_step m m'"
| receive_frame: "mux_step m (mux_dispatch muxBw latency pingTaken p m)"
| read_error: "mux_step m (snd (Mux_Close (mux_release p m)))"
| user_read: "r < length (heap m) \<Longrightarrow> r \<notin> set (cq_list (newConnQueue m)) \<Longrightarrow>
     conn_Read r room clock m = Some (x, m') \<Longrightarrow> mux_step m m'"
| user_write: "r < length (heap m) \<Longrightarrow> conn_Write r b acks m = Some (y, m') \<Longrightarrow> mux_step m m'"
| user_close: "r < length (heap m) \<Longrightarrow> r \<notin> set (cq_list (newConnQueue m)) \<Longrightarrow> mux_step m (conn_Close r m)"
| close_mux: "mux_step m (snd (Mux_Close m))"
| tick: "mux_step m (ping_tick now m)"
| ping_reply: "mux_step m (ping_answer m)"

lemma mux_step_inv: "mux_step m m' \<Longrightarrow> mux_inv m \<Longrightarrow> mux_inv m'"
proof (induction rule: mux_step.induct)
  case (open_stream m res m') then show ?case using inv_NewConn [of m] by simp
next
  case (answered r m a res m')
  then show ?case using inv_Close [of m r]
    by (auto simp: Mux_NewConn_answer_def split: answer.splits if_splits)
next
  case accept_stream then show ?case by (blast intro: inv_accept)
next
  case receive_frame then show ?case by (rule inv_dispatch)
next
  case read_error then show ?case by (simp add: inv_Mux_Close inv_release)
next
  case user_read then show ?case by (blast intro: inv_Read)
next
  case user_write then show ?case by (blast intro: inv_Write)
next
  case user_close then show ?case by (blast intro: inv_Close)
next
  case close_mux then show ?case by (rule inv_Mux_Close)
next
  case tick then show ?case by (rule inv_ping)
next
  case ping_reply then show ?case by (rule inv_ping)
qed

lemma NewMux_inv: "mux_inv (NewMux t k pl)"
proof -
  have "chain_inv (bufChain_new (2 ^ 5) :: nat bufChain)" "chain_list (bufChain_new (2 ^ 5) :: nat bufChain) = []"
    using chain_new_inv [of 5, where 'a = nat] by simp_all
  then show ?thesis
    by (simp add: mux_inv_def conn_ok_def table_ok_def queue_refs_ok_def NewMux_def connQueue_New_def cq_inv_def cq_list_def)
qed

lemma mux_reachable_inv: "mux_step\<^sup>*\<^sup>* (NewMux t k pl) m \<Longrightarrow> mux_inv m"
  by (induction rule: rtranclp_induct) (simp_all add: NewMux_inv mux_step_inv)

lemma Set_data:
  assumes "data_flag f" "d \<noteq> SNil" "0 < slice_len d" "slice_len d \<le> maximumSegmentSize"
  shows "\<exists>p pl'. muxPackager_Set f i (IBytes d) pl q = (p, pl', None)"
  using assms by (simp add: muxPackager_Set_def basePackager_Set_def Let_def split: prod.split)


subsection \<open>Properties of the multiplexer\<close>


lemma first_stream: "\<exists>m. mux_step\<^sup>*\<^sup>* (NewMux ''tcp'' 0 []) m \<and> connMap_Get 1 m = Some 0"
proof -
  let ?m = "NewMux ''tcp'' 0 []"
  have g: "getId (Suc (length (cMap ?m))) ?m = Some (1, ?m\<lparr>muxId := 1\<rparr>)"
    by (simp add: NewMux_def next_id_def connMap_Get_def)
  have "cMap (snd (Mux_NewConn ?m)) = [(1, 0)]"
    unfolding Mux_NewConn_def g
    by (simp add: alloc_conn_def Let_def sendCtl_sendInfo sendCtl_ok split_beta)
       (simp add: NewMux_def connMap_Set_def)
  moreover have "mux_step ?m (snd (Mux_NewConn ?m))" by (metis mux_step.open_stream prod.collapse)
  ultimately show ?thesis by (intro exI [of _ "snd (Mux_NewConn ?m)"]) (auto simp: connMap_Get_def)
qed


text \<open>C34 Streams are isolated: a data, acknowledgement, answer or close frame changes at most the stream
  registered under its id. Every other stream and table entry stays as it was, a frame for an unknown id
  changes no stream at all, and no such frame closes the multiplexer.\<close>

theorem frames_reach_one_stream:
  assumes "mux_inv m" "stream_frame (flag p)" "connMap_Get (pid p) m \<noteq> Some r" "i \<noteq> pid p"
  shows "conn_of (mux_dispatch muxBw latency t p m) r = conn_of m r \<and>
     connMap_Get i (mux_dispatch muxBw latency t p m) = connMap_Get i m \<and>
     mClosed (mux_dispatch muxBw latency t p m) = mClosed m"
  using dispatch_stream(1,2) [OF assms(1,2), of muxBw latency t] assms(3,4)
  by (auto simp: connMap_Get_def split: option.splits)

theorem frames_reach_one_stream_witness:
  "\<exists>m. connMap_Get 1 m = Some 0 \<and>
     conn_of (mux_dispatch 0 0 False (zero_pack\<lparr>flag := muxConnClose, pid := 2\<rparr>) m) 0 = conn_of m 0 \<and>
     connMap_Get 1 (mux_dispatch 0 0 False (zero_pack\<lparr>flag := muxConnClose, pid := 2\<rparr>) m) = Some 0"
proof -
  obtain m where m: "mux_step\<^sup>*\<^sup>* (NewMux ''tcp'' 0 []) m" "connMap_Get 1 m = Some 0" using first_stream by blast
  have I: "mux_inv m" using mux_reachable_inv [OF m(1)] .
  let ?p = "zero_pack\<lparr>flag := muxConnClose, pid := 2\<rparr>"
  have s: "stream_frame (flag ?p)" by (simp add: stream_frame_def mux_flag_defs)
  have n: "connMap_Get (pid ?p) m \<noteq> Some 0" "1 \<noteq> pid ?p"
    using table_okD(2) [of m 1 0] table_okD(2) [of m 2 0] I m(2) by (auto simp: mux_inv_def)
  show ?thesis using frames_reach_one_stream [OF I s n, of 0 0 False] m(2) by auto
qed

text \<open>Delivery: a data frame for an open stream is appended to the stream's receive queue with its payload
  and part flag, behind everything queued before, and its buffer is handed over: it is not returned to the
  pool.\<close>

theorem data_frame_is_queued:
  assumes "mux_inv m" "connMap_Get (pid p) m = Some r" "flag p = muxNewMsg \<or> flag p = muxNewMsgPart"
    and "of_nat (slice_len (content p)) = plength p" "0 < plength p"
    and "\<not> closeOp (receiveWin (conn_of m r))" "\<not> inputClosed (receiveWin (conn_of m r))"
      "\<not> rqStopped (bufQueue (receiveWin (conn_of m r)))" "rq_inv (bufQueue (receiveWin (conn_of m r)))"
      "rq_bytes (queued (receiveWin (conn_of m r))) + unat (plength p) < 2 ^ 32"
  shows "queued (receiveWin (conn_of (mux_dispatch muxBw latency t p m) r)) =
     queued (receiveWin (conn_of m r)) @
       [\<lparr>eBuf = content p, eL = plength p, ePart = (flag p = muxNewMsgPart)\<rparr>]"
proof -
  let ?c = "conn_of m r"
  let ?e = "\<lparr>eBuf = content p, eL = plength p, ePart = (flag p = muxNewMsgPart)\<rparr>"
  have T: "r < length (heap m)" "\<not> isClose ?c" using table_okD [OF _ assms(2)] assms(1) by (auto simp: mux_inv_def)
  obtain r1 ack where S: "receiveWindow_Write_status (plength p) (receiveWindow_calcSize muxBw latency (receiveWin ?c)) = (r1, ack)"
    by (metis prod.exhaust)
  have q1: "bufQueue r1 = bufQueue (receiveWin ?c)" by (subst Write_status_spec(1) [OF S]) simp
  have N: "newListElement (content p) (plength p) (flag p = muxNewMsgPart) = Some ?e"
    using assms(4) by (simp add: newListElement_def)
  have W: "receiveWindow_Write (content p) (plength p) (flag p = muxNewMsgPart) muxBw latency (receiveWin ?c) (mPool m) =
     (None, r1\<lparr>bufQueue := rq_allowPop (rq_PushLocked ?e (bufQueue (receiveWin ?c)))\<rparr>, mPool m, ack)"
    using assms(5-8) N S q1 by (simp add: receiveWindow_Write_def receiveWindowQueue_Push_def)
  have "rq_list (rq_PushLocked ?e (bufQueue (receiveWin ?c))) = rq_list (bufQueue (receiveWin ?c)) @ [?e]"
    using rq_push [OF assms(9), of ?e] assms(10) by (simp add: queued_def)
  moreover have "flag p \<noteq> muxNewConn" "flag p \<noteq> muxPingFlag" "flag p \<noteq> muxPingReturn"
    using assms(3) by (auto simp: mux_flag_defs)
  ultimately show ?thesis
    using assms(2,3) T W by (auto simp: mux_dispatch_def Mux_newMsg_def Let_def queued_def)
qed

theorem data_frame_is_queued_witness:
  "\<exists>m. connMap_Get 1 m = Some 0 \<and>
     queued (receiveWin (conn_of (mux_dispatch 0 0 False
       \<lparr>flag = muxNewMsg, pid = 1, window = 0, buf = SNil, plength = 2, content = Slc [7, 8] 2\<rparr> m) 0)) =
     [\<lparr>eBuf = Slc [7, 8] 2, eL = 2, ePart = False\<rparr>]"
proof -
  let ?m = "(NewMux ''tcp'' 0 [])\<lparr>heap := [NewConn 1], cMap := [(1, 0)]\<rparr>"
  let ?p = "\<lparr>flag = muxNewMsg, pid = 1, window = 0, buf = SNil, plength = 2, content = Slc [7, 8] 2\<rparr>"
  have "cq_inv (newConnQueue ?m)" "cq_list (newConnQueue ?m) = []"
    using NewMux_inv [of "''tcp''" 0 "[]"] by (auto simp: mux_inv_def queue_refs_ok_def NewMux_def)
  then have I: "mux_inv ?m"
    by (simp add: mux_inv_def conn_ok_def table_ok_def queue_refs_ok_def NewConn_def NewMux_def)
  have G: "connMap_Get (pid ?p) ?m = Some 0" by (simp add: connMap_Get_def)
  have q: "receiveWin (conn_of ?m 0) = receiveWindow_New" "queued receiveWindow_New = []"
    "rq_inv (bufQueue receiveWindow_New)"
    using rq_new_inv by (simp_all add: NewConn_def receiveWindow_New_def queued_def)
  have "queued (receiveWin (conn_of (mux_dispatch 0 0 False ?p ?m) 0)) =
     queued (receiveWin (conn_of ?m 0)) @ [\<lparr>eBuf = content ?p, eL = plength ?p, ePart = (flag ?p = muxNewMsgPart)\<rparr>]"
    by (rule data_frame_is_queued [OF I G])
       (use q in \<open>simp_all add: receiveWindow_New_def newReceiveWindowQueue_def rq_bytes_def\<close>)
  then show ?thesis using G q by (intro exI [of _ ?m]) (simp add: mux_flag_defs)
qed

text \<open>C40 Fresh stream ids: with fewer registered streams than there are ids, \<open>getId\<close> returns after at most as
  many attempts as there are registered streams, plus one, and its id is positive, below \<open>2 ^ 31 - 9999\<close> and
  not in use, also when the counter wraps.\<close>

theorem getId_returns_fresh_id:
  assumes "unat (muxId m) \<le> 2 ^ 31 - 10000" "length (cMap m) < 2 ^ 31 - 10000"
  shows "\<exists>i. getId (Suc (length (cMap m))) m = Some (i, m\<lparr>muxId := i\<rparr>) \<and> connMap_Get i m = None \<and>
     0 < unat i \<and> unat i \<le> 2 ^ 31 - 10000"
proof -
  have b: "unat (muxId m) \<le> id_period" "Suc (length (cMap m)) \<le> id_period" using assms by (simp_all add: id_period_def)
  obtain i m' where G: "getId (Suc (length (cMap m))) m = Some (i, m')"
    using getId_returns [OF b(1) _ b(2)] by auto
  note R = getId_result [OF G]
  then obtain k where "i = (next_id ^^ Suc k) (muxId m)" by blast
  then have "unat i = (unat (muxId m) + k) mod id_period + 1" using iterate_next_id [OF b(1)] by simp
  moreover have "(unat (muxId m) + k) mod id_period < id_period" by (simp add: id_period_def)
  ultimately have "0 < unat i" "unat i \<le> id_period" by simp_all
  then show ?thesis using G R by (auto simp: id_period_def)
qed

theorem getId_returns_fresh_id_witness:
  "\<exists>i. getId 2 ((NewMux ''tcp'' 0 [])\<lparr>muxId := 2 ^ 31 - 10000, cMap := [(1, 0)]\<rparr>) =
       Some (i, (NewMux ''tcp'' 0 [])\<lparr>muxId := i, cMap := [(1, 0)]\<rparr>) \<and> 0 < unat i"
proof -
  let ?m = "(NewMux ''tcp'' 0 [])\<lparr>muxId := 2 ^ 31 - 10000, cMap := [(1, 0)]\<rparr>"
  have "unat (muxId ?m) \<le> 2 ^ 31 - 10000" "length (cMap ?m) < 2 ^ 31 - 10000" by simp_all
  from getId_returns_fresh_id [OF this] obtain i where
    "getId (Suc (length (cMap ?m))) ?m = Some (i, ?m\<lparr>muxId := i\<rparr>)" "0 < unat i" by blast
  moreover have "Suc (length (cMap ?m)) = 2" by simp
  moreover have "?m\<lparr>muxId := i\<rparr> = (NewMux ''tcp'' 0 [])\<lparr>muxId := i, cMap := [(1, 0)]\<rparr>" by simp
  ultimately show ?thesis by metis
qed

lemma sendInfo_closed:
  "mClosed m \<Longrightarrow> \<not> fst (sendInfo f j d m)" "mClosed m \<Longrightarrow> writeQueue (snd (sendInfo f j d m)) = writeQueue m"
  by (auto simp: sendInfo_def mux_publish_def Mux_Close_def split: prod.splits option.splits)

text \<open>Closing the multiplexer closes every registered stream, empties the table and stops both queues;
  afterwards every \<open>sendInfo\<close> is refused and publishes nothing, and no stream can be opened.\<close>

theorem Mux_Close_closes_everything:
  assumes "mux_inv m" "\<not> mClosed m"
  shows "(connMap_Get i m = Some r \<longrightarrow> isClose (conn_of (snd (Mux_Close m)) r)) \<and>
     mClosed (snd (Mux_Close m)) \<and>
     cMap (snd (Mux_Close m)) = [] \<and>
     fst (Mux_NewConn (snd (Mux_Close m))) = Inl MuxHasClosed \<and>
     \<not> fst (sendInfo f j d (snd (Mux_Close m))) \<and>
     writeQueue (snd (sendInfo f j d (snd (Mux_Close m)))) = writeQueue (snd (Mux_Close m))"
proof (intro conjI)
  note C = inv_Mux_Close [OF assms(1)]
  show "connMap_Get i m = Some r \<longrightarrow> isClose (conn_of (snd (Mux_Close m)) r)"
    "mClosed (snd (Mux_Close m))" "cMap (snd (Mux_Close m)) = []" using C by blast+
  show "fst (Mux_NewConn (snd (Mux_Close m))) = Inl MuxHasClosed" using C(2) by (simp add: Mux_NewConn_def)
  show "\<not> fst (sendInfo f j d (snd (Mux_Close m)))"
    "writeQueue (snd (sendInfo f j d (snd (Mux_Close m)))) = writeQueue (snd (Mux_Close m))"
    using sendInfo_closed [OF C(2)] by simp_all
qed

theorem Mux_Close_closes_everything_witness:
  "\<exists>m. connMap_Get 1 m = Some 0 \<and> \<not> mClosed m \<and> isClose (conn_of (snd (Mux_Close m)) 0) \<and> cMap (snd (Mux_Close m)) = []"
proof -
  obtain m where m: "mux_step\<^sup>*\<^sup>* (NewMux ''tcp'' 0 []) m" "connMap_Get 1 m = Some 0" using first_stream by blast
  have I: "mux_inv m" using mux_reachable_inv [OF m(1)] .
  then have o: "\<not> mClosed m" using m(2) by (auto simp: mux_inv_def connMap_Get_def)
  show ?thesis using Mux_Close_closes_everything [OF I o, of 1 0] m(2) o by blast
qed

text \<open>Closing a stream tells the other side exactly once: the first \<open>Close\<close> on an open multiplexer queues
  one close frame with the stream's id, unregisters the id and marks the stream closed; every later
  \<open>Close\<close> changes nothing.\<close>

theorem conn_Close_notifies_once:
  assumes "r < length (heap m)" "\<not> onceDone (conn_of m r)" "\<not> mClosed m" "\<not> pqStop (writeQueue m)"
  shows "(\<exists>p. flag p = muxConnClose \<and> pid p = connId (conn_of m r) \<and>
       writeQueue (conn_Close r m) = priorityQueue_push p (writeQueue m)) \<and>
     isClose (conn_of (conn_Close r m) r) \<and>
     connMap_Get (connId (conn_of m r)) (conn_Close r m) = None \<and>
     conn_Close r (conn_Close r m) = conn_Close r m"
proof (intro conjI)
  have c: "isClose (conn_of (conn_Close r m) r)" "onceDone (conn_of (conn_Close r m) r)"
    using Close_conn [OF assms(1)] assms(2) by simp_all
  then show "isClose (conn_of (conn_Close r m) r)" "conn_Close r (conn_Close r m) = conn_Close r m"
    by (simp_all add: conn_Close_def)
  show "connMap_Get (connId (conn_of m r)) (conn_Close r m) = None"
    using assms(1,2) by (simp add: connMap_Get_def Close_cMap AList.delete_conv)
  have s: "\<exists>p. flag p = muxConnClose \<and> pid p = j \<and>
      writeQueue (snd (mux_sendCtl muxConnClose j m1)) = priorityQueue_push p (writeQueue m)"
    if "\<not> mClosed m1" "writeQueue m1 = writeQueue m" for j m1
    using Set_ctl [of muxConnClose j "mPool m1" zero_pack] that assms(4)
    by (auto simp: mux_sendCtl_def mux_publish_def priorityQueue_Push_def)
  show "\<exists>p. flag p = muxConnClose \<and> pid p = connId (conn_of m r) \<and>
       writeQueue (conn_Close r m) = priorityQueue_push p (writeQueue m)"
    using assms s by (auto simp: conn_Close_def conn_closeProcess_def Let_def split: option.split prod.split)
qed

theorem conn_Close_notifies_once_witness:
  "\<exists>p. flag p = muxConnClose \<and> pid p = 5 \<and>
     writeQueue (conn_Close 0 ((NewMux ''tcp'' 0 [])\<lparr>heap := [NewConn 5], cMap := [(5, 0)]\<rparr>)) =
     priorityQueue_push p priorityQueue_New"
  using conn_Close_notifies_once [of 0 "(NewMux ''tcp'' 0 [])\<lparr>heap := [NewConn 5], cMap := [(5, 0)]\<rparr>"]
  by (simp add: NewMux_def NewConn_def priorityQueue_New_def)

text \<open>The round-trip estimate: recording a positive sample overwrites the oldest of the 16 samples kept and
  returns an estimate between the least positive sample kept and three times it, so outliers never
  dominate it.\<close>

theorem latency_estimate_bounds:
  assumes "lc_inv c" "0 < v"
  shows "case latencyCounter_Latency v c of (est, c') \<Rightarrow>
     lc_inv c' \<and> lcBuf c' = (lcBuf c)[lc_head c := v] \<and> lc_head c' = (lc_head c + 1) mod 16 \<and>
     Min {x \<in> set (lcBuf c'). 0 < x} \<le> est \<and> est \<le> 3 * Min {x \<in> set (lcBuf c'). 0 < x}"
proof -
  let ?c = "latencyCounter_add v c"
  note A = lc_add [OF assms]
  have p: "lc_pos ?c \<noteq> {}" using A(4) by auto
  have l: "length (lcBuf ?c) = 16" "0 < lcBuf ?c ! lc_min ?c" "\<forall>x \<in> lc_pos ?c. lcBuf ?c ! lc_min ?c \<le> x"
    using A(1) p by (simp_all add: lc_inv_def)
  have "Min {x \<in> set (lcBuf ?c). 0 < x} = lcBuf ?c ! lc_min ?c"
    using l lc_index_bounds(2) [of ?c] by (intro Min_eqI) (auto simp: lc_pos_def)
  then show ?thesis using lc_countSuccess [OF A(1) p] A assms(2) by (simp add: latencyCounter_Latency_def Let_def)
qed

theorem latency_estimate_bounds_witness:
  "case latencyCounter_Latency 5 newLatencyCounter of (est, c') \<Rightarrow>
     lcBuf c' = [5] @ replicate 15 0 \<and> Min {x \<in> set (lcBuf c'). 0 < x} \<le> est \<and> est \<le> 3 * Min {x \<in> set (lcBuf c'). 0 < x}"
proof -
  have "lc_pos newLatencyCounter = {}" by (simp add: lc_pos_def newLatencyCounter_def)
  then have i: "lc_inv newLatencyCounter"
    by (simp add: lc_inv_def newLatencyCounter_def counterBits_def lc_min_def lc_head_def latencyCounter_unpack_def)
  have "lcBuf newLatencyCounter = replicate 16 0" "lc_head newLatencyCounter = 0"
    by (simp_all add: newLatencyCounter_def counterBits_def lc_head_def latencyCounter_unpack_def)
  then have "(lcBuf newLatencyCounter)[lc_head newLatencyCounter := 5] = [5] @ replicate 15 0"
    by (simp add: numeral_eq_Suc)
  then show ?thesis using latency_estimate_bounds [OF i, of 5] by (auto split: prod.splits)
qed

end
