(* ===== verification/Go_Std.thy ===== *)
theory Go_Std
  imports Prelude "HOL-Library.Char_ord" "HOL-Library.List_Lexorder" "HOL-Library.Product_Lexorder"
begin

text \<open>
  The parts of Go's standard library that the access lists, the visitor registrations and the host
  routing call: \<open>strings\<close>, \<open>net.SplitHostPort\<close> and \<open>net/netip\<close>.

  \<^item> A Go string is its list of bytes, a HOL \<open>string\<close>. White space and case are those of ASCII: rules,
    host names and addresses are ASCII texts.
  \<^item> A \<open>netip.Addr\<close> is the zero value, an IPv4 address or an IPv6 address with a zone.
\<close>

subsection \<open>Package strings\<close>

definition is_space :: "char \<Rightarrow> bool" where
  "is_space c \<longleftrightarrow> c \<in> {CHR '' '', CHR 0x09, CHR 0x0A, CHR 0x0B, CHR 0x0C, CHR 0x0D}"

definition trim_while :: "(char \<Rightarrow> bool) \<Rightarrow> string \<Rightarrow> string" where
  "trim_while p s = rev (dropWhile p (rev (dropWhile p s)))"

definition TrimSpace :: "string \<Rightarrow> string" where "TrimSpace = trim_while is_space"
definition Trim :: "string \<Rightarrow> string \<Rightarrow> string" where "Trim s cutset = trim_while (\<lambda>c. c \<in> set cutset) s"

definition HasPrefix :: "string \<Rightarrow> string \<Rightarrow> bool" where
  "HasPrefix s p \<longleftrightarrow> take (length p) s = p"
definition HasSuffix :: "string \<Rightarrow> string \<Rightarrow> bool" where
  "HasSuffix s p \<longleftrightarrow> length p \<le> length s \<and> drop (length s - length p) s = p"
definition TrimPrefix :: "string \<Rightarrow> string \<Rightarrow> string" where
  "TrimPrefix s p = (if HasPrefix s p then drop (length p) s else s)"
definition TrimSuffix :: "string \<Rightarrow> string \<Rightarrow> string" where
  "TrimSuffix s p = (if HasSuffix s p then take (length s - length p) s else s)"

definition lower_char :: "char \<Rightarrow> char" where
  "lower_char c = (if CHR ''A'' \<le> c \<and> c \<le> CHR ''Z'' then char_of (of_char c + 32 :: int) else c)"
definition ToLower :: "string \<Rightarrow> string" where "ToLower = map lower_char"

text \<open>\<open>strings.Contains\<close>, \<open>ContainsAny\<close> and the byte searches.\<close>

fun Contains_str :: "string \<Rightarrow> string \<Rightarrow> bool" where
  "Contains_str [] p = (p = [])"
| "Contains_str (c # s) p = (HasPrefix (c # s) p \<or> Contains_str s p)"

definition ContainsAny :: "string \<Rightarrow> string \<Rightarrow> bool" where
  "ContainsAny s chars \<longleftrightarrow> list_ex (\<lambda>c. c \<in> set chars) s"

fun IndexByte :: "string \<Rightarrow> char \<Rightarrow> nat option" where
  "IndexByte [] c = None"
| "IndexByte (d # s) c = (if d = c then Some 0 else map_option Suc (IndexByte s c))"

definition LastIndexByte :: "string \<Rightarrow> char \<Rightarrow> nat option" where
  "LastIndexByte s c = map_option (\<lambda>i. length s - 1 - i) (IndexByte (rev s) c)"

text \<open>\<open>FieldsFunc\<close>: the maximal runs of characters that are not separators. \<open>Split\<close>: all pieces
  between occurrences of a one-character separator.\<close>

fun fields_acc :: "(char \<Rightarrow> bool) \<Rightarrow> string \<Rightarrow> string \<Rightarrow> string list" where
  "fields_acc f acc [] = (if acc = [] then [] else [rev acc])"
| "fields_acc f acc (c # s) =
     (if f c then (if acc = [] then fields_acc f [] s else rev acc # fields_acc f [] s) else fields_acc f (c # acc) s)"

definition FieldsFunc :: "(char \<Rightarrow> bool) \<Rightarrow> string \<Rightarrow> string list" where "FieldsFunc f s = fields_acc f [] s"

fun split_acc :: "char \<Rightarrow> string \<Rightarrow> string \<Rightarrow> string list" where
  "split_acc sep acc [] = [rev acc]"
| "split_acc sep acc (c # s) = (if c = sep then rev acc # split_acc sep [] s else split_acc sep (c # acc) s)"

definition Split :: "string \<Rightarrow> char \<Rightarrow> string list" where "Split s sep = split_acc sep [] s"

fun Join :: "string list \<Rightarrow> string \<Rightarrow> string" where
  "Join [] sep = []"
| "Join [s] sep = s"
| "Join (s # t # ss) sep = s @ sep @ Join (t # ss) sep"

subsection \<open>Decimal numbers\<close>

definition is_digit :: "char \<Rightarrow> bool" where "is_digit c \<longleftrightarrow> CHR ''0'' \<le> c \<and> c \<le> CHR ''9''"
definition digit_val :: "char \<Rightarrow> int" where "digit_val c = of_char c - 48"

definition dec_val :: "string \<Rightarrow> int" where "dec_val s = foldl (\<lambda>n c. n * 10 + digit_val c) 0 s"

fun dec_string_aux :: "nat \<Rightarrow> int \<Rightarrow> string" where
  "dec_string_aux 0 n = []"
| "dec_string_aux (Suc k) n =
     (if n < 10 then [char_of (48 + n)] else dec_string_aux k (n div 10) @ [char_of (48 + n mod 10)])"

text \<open>At most 20 digits, enough for 64 bits.\<close>

definition dec_string :: "int \<Rightarrow> string" where "dec_string n = dec_string_aux 20 n"

text \<open>\<open>strconv.Itoa\<close>.\<close>

definition Itoa :: "int \<Rightarrow> string" where "Itoa n = (if n < 0 then ''-'' @ dec_string (- n) else dec_string n)"

subsection \<open>net.SplitHostPort\<close>

definition SplitHostPort :: "string \<Rightarrow> (string \<times> string) option" where
  "SplitHostPort hp =
     (case LastIndexByte hp (CHR '':'') of
        None \<Rightarrow> None
      | Some i \<Rightarrow>
          if hd hp = CHR ''['' then
            (case IndexByte hp (CHR '']'') of
               None \<Rightarrow> None
             | Some e \<Rightarrow>
                 if e + 1 \<noteq> i then None
                 else if CHR ''['' \<in> set (drop 1 hp) \<or> CHR '']'' \<in> set (drop (e + 1) hp) then None
                 else Some (take (e - 1) (drop 1 hp), drop (i + 1) hp))
          else if CHR '':'' \<in> set (take i hp) \<or> CHR ''['' \<in> set hp \<or> CHR '']'' \<in> set hp then None
          else Some (take i hp, drop (i + 1) hp))"

subsection \<open>Package net/netip\<close>

datatype addr = NoAddr | IP4 u32 | IP6 "128 word" string

fun IsValid :: "addr \<Rightarrow> bool" where
  "IsValid NoAddr = False" | "IsValid (IP4 w) = True" | "IsValid (IP6 w z) = True"

fun BitLen :: "addr \<Rightarrow> nat" where
  "BitLen NoAddr = 0" | "BitLen (IP4 w) = 32" | "BitLen (IP6 w z) = 128"

fun Is4 :: "addr \<Rightarrow> bool" where
  "Is4 (IP4 w) = True" | "Is4 NoAddr = False" | "Is4 (IP6 w z) = False"

fun Unmap :: "addr \<Rightarrow> addr" where
  "Unmap (IP6 w z) = (if drop_bit 32 w = 0xFFFF then IP4 (ucast w) else IP6 w z)"
| "Unmap a = a"

fun withoutZone :: "addr \<Rightarrow> addr" where
  "withoutZone (IP6 w z) = IP6 w []"
| "withoutZone a = a"

fun hasZone :: "addr \<Rightarrow> bool" where
  "hasZone (IP6 w z) = (z \<noteq> [])"
| "hasZone a = False"

text \<open>Big-endian bytes.\<close>

definition from_bytes :: "int list \<Rightarrow> int" where "from_bytes bs = foldl (\<lambda>n b. n * 256 + b) 0 bs"

definition AddrFromSlice :: "byte list \<Rightarrow> addr" where
  "AddrFromSlice b =
     (if length b = 4 then IP4 (word_of_int (from_bytes (map uint b)))
      else if length b = 16 then IP6 (word_of_int (from_bytes (map uint b))) [] else NoAddr)"

text \<open>A prefix that is not valid has no length.\<close>

record pfx =
  paddr :: addr
  pbits :: "nat option"

definition noPfx :: pfx where "noPfx = \<lparr>paddr = NoAddr, pbits = None\<rparr>"

definition PrefixFrom :: "addr \<Rightarrow> nat \<Rightarrow> pfx" where
  "PrefixFrom a bits = \<lparr>paddr = withoutZone a, pbits = (if IsValid a \<and> bits \<le> BitLen a then Some bits else None)\<rparr>"

fun mask_addr :: "addr \<Rightarrow> nat \<Rightarrow> addr" where
  "mask_addr (IP4 w) b = IP4 (push_bit (32 - b) (drop_bit (32 - b) w))"
| "mask_addr (IP6 w z) b = IP6 (push_bit (128 - b) (drop_bit (128 - b) w)) []"
| "mask_addr NoAddr b = NoAddr"

definition Masked :: "pfx \<Rightarrow> pfx" where
  "Masked p = (case pbits p of None \<Rightarrow> noPfx | Some b \<Rightarrow> p\<lparr>paddr := mask_addr (paddr p) b\<rparr>)"

fun same_net :: "nat \<Rightarrow> addr \<Rightarrow> addr \<Rightarrow> bool" where
  "same_net b (IP4 v) (IP4 w) = (drop_bit (32 - b) v = drop_bit (32 - b) w)"
| "same_net b (IP6 v z) (IP6 w y) = (y = [] \<and> drop_bit (128 - b) v = drop_bit (128 - b) w)"
| "same_net b _ _ = False"

definition Contains :: "pfx \<Rightarrow> addr \<Rightarrow> bool" where
  "Contains p a = (case pbits p of None \<Rightarrow> False | Some b \<Rightarrow> same_net b (paddr p) a)"

paragraph \<open>Texts of addresses\<close>

definition ipv4_field :: "string \<Rightarrow> int option" where
  "ipv4_field s =
     (if s \<noteq> [] \<and> list_all is_digit s \<and> (length s = 1 \<or> hd s \<noteq> CHR ''0'') \<and> dec_val s \<le> 255 then Some (dec_val s) else None)"

definition parseIPv4Fields :: "string \<Rightarrow> int list option" where
  "parseIPv4Fields s =
     (let fs = map ipv4_field (Split s (CHR ''.'')) in if length fs = 4 \<and> None \<notin> set fs then Some (map the fs) else None)"

definition parseIPv4 :: "string \<Rightarrow> addr option" where
  "parseIPv4 s = map_option (\<lambda>bs. IP4 (word_of_int (from_bytes bs))) (parseIPv4Fields s)"

definition hex_val :: "char \<Rightarrow> int option" where
  "hex_val c =
     (let n = of_char c :: int in
      if 48 \<le> n \<and> n \<le> 57 then Some (n - 48)
      else if 97 \<le> n \<and> n \<le> 102 then Some (n - 87)
      else if 65 \<le> n \<and> n \<le> 70 then Some (n - 55) else None)"

definition hex_group :: "string \<Rightarrow> string" where "hex_group s = takeWhile (\<lambda>c. hex_val c \<noteq> None) s"
definition hex_num :: "string \<Rightarrow> int" where "hex_num s = foldl (\<lambda>n c. n * 16 + the (hex_val c)) 0 s"

text \<open>The loop of \<open>parseIPv6\<close>: the bytes so far, the position of the ellipsis, the rest of the text.\<close>

function ipv6_groups :: "int list \<Rightarrow> nat option \<Rightarrow> string \<Rightarrow> (int list \<times> nat option) option" where
  "ipv6_groups bs ell s =
     (if length bs \<ge> 16 then (if s = [] then Some (bs, ell) else None)
      else
        let g = hex_group s; r = drop (length g) s in
        if g = [] \<or> length g > 4 then None
        else if r \<noteq> [] \<and> hd r = CHR ''.'' then
          (if (ell = None \<and> length bs \<noteq> 12) \<or> length bs + 4 > 16 then None
           else map_option (\<lambda>v4. (bs @ v4, ell)) (parseIPv4Fields s))
        else
          let bs1 = bs @ [hex_num g div 256, hex_num g mod 256] in
          if r = [] then Some (bs1, ell)
          else if hd r \<noteq> CHR '':'' \<or> length r = 1 then None
          else if r ! 1 = CHR '':'' then
            (if ell \<noteq> None then None
             else if drop 2 r = [] then Some (bs1, Some (length bs1))
             else ipv6_groups bs1 (Some (length bs1)) (drop 2 r))
          else ipv6_groups bs1 ell (drop 1 r))"
  by pat_completeness auto
termination
  by (relation "measure (\<lambda>(bs, ell, s). length s)") auto

declare ipv6_groups.simps [simp del]

definition ipv6_expand :: "int list \<times> nat option \<Rightarrow> int list option" where
  "ipv6_expand = (\<lambda>(bs, ell).
     (case ell of
        None \<Rightarrow> if length bs < 16 then None else Some bs
      | Some e \<Rightarrow> if length bs < 16 then Some (take e bs @ replicate (16 - length bs) 0 @ drop e bs) else None))"

definition parseIPv6 :: "string \<Rightarrow> addr option" where
  "parseIPv6 text =
     (let (s, zone, bad) = (case IndexByte text (CHR ''%'') of
            None \<Rightarrow> (text, [], False)
          | Some i \<Rightarrow> (take i text, drop (i + 1) text, drop (i + 1) text = []))
      in if bad then None
         else if s = ''::'' then Some (IP6 0 zone)
         else map_option (\<lambda>bs. IP6 (word_of_int (from_bytes bs)) zone)
           (Option.bind (if HasPrefix s ''::'' then ipv6_groups [] (Some 0) (drop 2 s) else ipv6_groups [] None s) ipv6_expand))"

fun ParseAddr_scan :: "string \<Rightarrow> string \<Rightarrow> addr option" where
  "ParseAddr_scan s [] = None"
| "ParseAddr_scan s (c # cs) =
     (if c = CHR ''.'' then parseIPv4 s else if c = CHR '':'' then parseIPv6 s
      else if c = CHR ''%'' then None else ParseAddr_scan s cs)"

definition ParseAddr :: "string \<Rightarrow> addr option" where "ParseAddr s = ParseAddr_scan s s"

definition ParsePrefix :: "string \<Rightarrow> pfx option" where
  "ParsePrefix s =
     (case LastIndexByte s (CHR ''/'') of
        None \<Rightarrow> None
      | Some i \<Rightarrow>
          (case ParseAddr (take i s) of
             None \<Rightarrow> None
           | Some a \<Rightarrow>
               let b = drop (i + 1) s in
               if hasZone a \<or> b = [] \<or> (length b > 1 \<and> hd b = CHR ''0'') \<or> \<not> list_all is_digit b \<or> dec_val b > int (BitLen a)
               then None else Some (PrefixFrom a (nat (dec_val b)))))"

paragraph \<open>The text of an address\<close>

definition v4_string :: "u32 \<Rightarrow> string" where
  "v4_string w = Join (map (\<lambda>i. dec_string (uint (drop_bit (24 - 8 * i) w) mod 256)) [0..<4]) ''.''"

definition hex_digit :: "int \<Rightarrow> char" where "hex_digit n = char_of (if n < 10 then 48 + n else 87 + n)"

definition hex_string :: "int \<Rightarrow> string" where
  "hex_string n =
     (let ds = [n div 4096 mod 16, n div 256 mod 16, n div 16 mod 16]
      in map hex_digit (dropWhile (\<lambda>d. d = 0) ds @ [n mod 16]))"

definition v6_group :: "128 word \<Rightarrow> nat \<Rightarrow> int" where "v6_group w i = uint (drop_bit (112 - 16 * i) w) mod 65536"

definition zero_run :: "128 word \<Rightarrow> nat \<Rightarrow> nat" where
  "zero_run w i = length (takeWhile (\<lambda>j. v6_group w j = 0) [i..<8])"

text \<open>The longest run of at least two zero groups, the first of equal ones: its start and length.\<close>

definition v6_ellipsis :: "128 word \<Rightarrow> nat \<times> nat" where
  "v6_ellipsis w = foldl (\<lambda>(s, l) i. if zero_run w i \<ge> 2 \<and> zero_run w i > l then (i, zero_run w i) else (s, l)) (9, 0) [0..<8]"

definition v6_string :: "128 word \<Rightarrow> string" where
  "v6_string w =
     (let g = (\<lambda>i. hex_string (v6_group w i)); (s, l) = v6_ellipsis w in
      if drop_bit 32 w = 0xFFFF then ''::ffff:'' @ v4_string (ucast w)
      else if l = 0 then Join (map g [0..<8]) '':''
      else Join (map g [0..<s]) '':'' @ ''::'' @ Join (map g [s + l..<8]) '':'')"

fun addr_String :: "addr \<Rightarrow> string" where
  "addr_String NoAddr = ''invalid IP''"
| "addr_String (IP4 w) = v4_string w"
| "addr_String (IP6 w z) = v6_string w @ (if z = [] then [] else ''%'' @ z)"

definition pfx_String :: "pfx \<Rightarrow> string" where
  "pfx_String p = (case pbits p of None \<Rightarrow> ''invalid Prefix'' | Some b \<Rightarrow> addr_String (paddr p) @ ''/'' @ dec_string (int b))"

subsection \<open>Lemmas\<close>

lemma Unmap_idem [simp]: "Unmap (Unmap a) = Unmap a"
  by (cases a) auto

lemma Unmap_valid [simp]: "IsValid (Unmap a) = IsValid a"
  by (cases a) auto

lemma withoutZone_simps [simp]: "withoutZone (withoutZone a) = withoutZone a" "IsValid (withoutZone a) = IsValid a"
  "BitLen (withoutZone a) = BitLen a" "\<not> hasZone (withoutZone a)"
  by (cases a; simp)+

lemma same_net_mask:
  assumes "b \<le> BitLen p"
  shows "same_net b (mask_addr p b) a = same_net b p a"
proof -
  have d: "drop_bit n (push_bit n (drop_bit n w)) = drop_bit n w" for n and w :: "'a::len word"
    by (rule bit_word_eqI) (auto simp: bit_simps dest: bit_imp_le_length)
  show ?thesis by (cases p; cases a) (simp_all add: d)
qed

lemma Contains_Masked [simp]:
  "(\<And>b. pbits p = Some b \<Longrightarrow> b \<le> BitLen (paddr p)) \<Longrightarrow> Contains (Masked p) a = Contains p a"
  by (auto simp: Contains_def Masked_def noPfx_def same_net_mask split: option.split)

paragraph \<open>White space and case\<close>

lemma of_char_range: "(of_char c :: int) < 256" "0 \<le> (of_char c :: int)"
  by (cases c; simp add: of_char_def)+

lemma is_space_code: "is_space c \<longleftrightarrow> (of_char c :: int) \<in> {9, 10, 11, 12, 13, 32}"
proof -
  have e: "c = d \<longleftrightarrow> (of_char c :: int) = of_char d" for d by simp
  show ?thesis unfolding is_space_def insert_iff e by (simp del: of_char_eq_iff) blast
qed

lemma lower_code: "(of_char (lower_char c) :: int) = (if 65 \<le> (of_char c :: int) \<and> (of_char c :: int) \<le> 90 then of_char c + 32 else of_char c)"
proof -
  have "(CHR ''A'' \<le> c \<and> c \<le> CHR ''Z'') = (65 \<le> (of_char c :: int) \<and> (of_char c :: int) \<le> 90)"
    by (simp add: less_eq_char_def of_char_def)
  moreover have "(of_char c + 32 :: int) mod 256 = of_char c + 32" if "(of_char c :: int) \<le> 90" using that of_char_range [of c] by simp
  ultimately show ?thesis by (simp add: lower_char_def)
qed

lemma lower_space [simp]: "is_space (lower_char c) = is_space c"
  by (auto simp: is_space_code lower_code)

lemma lower_idem [simp]: "lower_char (lower_char c) = lower_char c"
proof -
  have "(of_char (lower_char (lower_char c)) :: int) = of_char (lower_char c)" by (auto simp: lower_code)
  then show ?thesis by simp
qed

lemma TrimSpace_ToLower: "TrimSpace (ToLower s) = ToLower (TrimSpace s)"
  by (simp add: TrimSpace_def trim_while_def ToLower_def dropWhile_map rev_map comp_def)

lemma ToLower_idem [simp]: "ToLower (ToLower s) = ToLower s"
  by (simp add: ToLower_def)

lemma dropWhile_stable: "dropWhile p (rev (dropWhile p (rev (dropWhile p s)))) = rev (dropWhile p (rev (dropWhile p s)))"
proof (cases "dropWhile p s")
  case (Cons c r)
  then have c: "\<not> p c" by (metis hd_dropWhile list.distinct(1) list.sel(1))
  then have "rev (dropWhile p (rev (c # r))) = c # rev (dropWhile p (rev r))" by (simp add: dropWhile_append3)
  then show ?thesis using Cons c by simp
next
  case Nil
  then show ?thesis by (simp only: Nil dropWhile.simps rev.simps)
qed

lemma TrimSpace_idem [simp]: "TrimSpace (TrimSpace s) = TrimSpace s"
  by (simp only: TrimSpace_def trim_while_def dropWhile_stable rev_rev_ident dropWhile_idem)

lemma split_acc_join:
  "sep \<notin> set f \<Longrightarrow> split_acc sep acc (f @ sep # r) = (rev acc @ f) # split_acc sep [] r"
  "sep \<notin> set f \<Longrightarrow> split_acc sep acc f = [rev acc @ f]"
  by (induction f arbitrary: acc) auto

lemma Split_Join: "fs \<noteq> [] \<Longrightarrow> list_all (\<lambda>f. sep \<notin> set f) fs \<Longrightarrow> Split (Join fs [sep]) sep = fs"
  unfolding Split_def by (induction fs "[sep]" rule: Join.induct) (simp_all add: split_acc_join)

end
