(* ===== verification/Access_Lists.thy ===== *)
theory Access_Lists
  imports Go_Std
begin

text \<open>
  Access lists: the evaluator of \<open>lib/acl/acl.go\<close> with the matching half of \<open>lib/acl/geodata.go\<close>, and the
  lists of a client, tunnel, host or the server in \<open>lib/file/acl.go\<close>.

  \<^item> The loaded geodata is a record: prefixes per country and domains per site category. The regular
    expressions of site data are a parameter \<open>rx\<close>: the pattern and the host give whether the pattern
    compiles and matches.
  \<^item> \<open>maxRules\<close> is an argument. Messages of errors are not modelled; which rule is at fault is.
  \<^item> Compilation removes duplicates by the text of a prefix, which identifies it; the model compares
    the prefixes themselves.
  \<^item> A \<open>net.Addr\<close> is its text, \<open>None\<close> for nil.
\<close>

subsection \<open>Geodata\<close>

record geoDomain =
  gkind :: u64
  gvalue :: string

record geodata =
  gip :: "string \<Rightarrow> pfx list"
  gsite :: "string \<Rightarrow> geoDomain list"

definition private_prefixes :: "pfx list" where
  "private_prefixes = map (the \<circ> ParsePrefix) [''10.0.0.0/8'', ''172.16.0.0/12'', ''192.168.0.0/16'', ''127.0.0.0/8'',
     ''::1/128'', ''fc00::/7'']"

definition geoPrefixes :: "geodata \<Rightarrow> string \<Rightarrow> pfx list" where
  "geoPrefixes geo category =
     (let c = ToLower (TrimSpace category) in if c = ''private'' then private_prefixes else gip geo c)"

definition geoCategoryExists :: "geodata \<Rightarrow> string \<Rightarrow> string \<Rightarrow> bool" where
  "geoCategoryExists geo kind category =
     (let k = ToLower (TrimSpace kind); c = ToLower (TrimSpace category) in
      if c = [] then False
      else if k = ''geoip'' \<and> c = ''private'' then True
      else if k = ''geoip'' then gip geo c \<noteq> []
      else if k = ''geosite'' then gsite geo c \<noteq> []
      else False)"

definition geoIPRuleMatches :: "geodata \<Rightarrow> string \<Rightarrow> addr \<Rightarrow> bool" where
  "geoIPRuleMatches geo rule a =
     (let negative = HasPrefix rule ''!'';
          r = (if negative then TrimPrefix rule ''!'' else rule);
          matched = list_ex (\<lambda>p. Contains p (Unmap a)) (geoPrefixes geo r)
      in matched \<noteq> negative)"

definition domain_suffix :: "string \<Rightarrow> string \<Rightarrow> bool" where
  "domain_suffix host d \<longleftrightarrow> host = d \<or> HasSuffix host (''.'' @ TrimPrefix d ''.'')"

definition geoDomainMatches :: "(string \<Rightarrow> string \<Rightarrow> bool) \<Rightarrow> string \<Rightarrow> geoDomain \<Rightarrow> bool" where
  "geoDomainMatches rx host d =
     (let v = TrimSuffix (ToLower (TrimSpace (gvalue d))) ''.'';
          matched = (if gkind d = 0 then Contains_str host v
                     else if gkind d = 1 then rx v host
                     else if gkind d = 2 then domain_suffix host v
                     else if gkind d = 3 then host = v
                     else domain_suffix host v)
      in v \<noteq> [] \<and> matched)"

definition geoSiteMatches :: "geodata \<Rightarrow> (string \<Rightarrow> string \<Rightarrow> bool) \<Rightarrow> string \<Rightarrow> string \<Rightarrow> bool" where
  "geoSiteMatches geo rx category host =
     (let c = ToLower (TrimSpace category); h = TrimSuffix (ToLower (TrimSpace host)) ''.''
      in list_ex (geoDomainMatches rx h) (gsite geo c))"

subsection \<open>Texts of rules\<close>

datatype scope = ScopeGlobal | ScopeUser

abbreviation (input) "DenyFirst \<equiv> 0 :: int"
abbreviation (input) "AllowFirst \<equiv> 1 :: int"

definition SetMaxRules :: "int \<Rightarrow> int" where "SetMaxRules n = (if n < 0 then 0 else n)"

definition NormalizePriority :: "int \<Rightarrow> int" where
  "NormalizePriority priority = (if priority = AllowFirst then AllowFirst else DenyFirst)"

definition is_rule_sep :: "char \<Rightarrow> bool" where
  "is_rule_sep c \<longleftrightarrow> c = CHR 0x0D \<or> c = CHR 0x0A \<or> c = CHR '',''"

definition splitLines :: "string list \<Rightarrow> string list" where
  "splitLines rules = concat (map (FieldsFunc is_rule_sep) rules)"

definition is_active :: "string \<Rightarrow> bool" where
  "is_active rule \<longleftrightarrow> rule \<noteq> [] \<and> \<not> HasPrefix rule ''#'' \<and> \<not> HasPrefix rule '';''"

definition hasActiveRule :: "string list \<Rightarrow> bool" where
  "hasActiveRule lines = list_ex (\<lambda>raw. is_active (TrimSpace raw)) lines"

definition activeRuleCount :: "string list \<Rightarrow> nat" where
  "activeRuleCount lines = length (filter (\<lambda>raw. is_active (TrimSpace raw)) lines)"

definition isDecimalOctet :: "string \<Rightarrow> bool" where
  "isDecimalOctet v \<longleftrightarrow> v \<noteq> [] \<and> length v \<le> 3 \<and> list_all is_digit v \<and> dec_val v \<le> 255"

text \<open>The octets before the first \<open>*\<close>; \<open>None\<close> when there is no \<open>*\<close> or an octet before it is malformed.\<close>

fun wild_octets :: "string list \<Rightarrow> string list option" where
  "wild_octets [] = None"
| "wild_octets (part # parts) =
     (let p = TrimSpace part in
      if p = ''*'' then Some [] else if \<not> isDecimalOctet p then None else map_option ((#) p) (wild_octets parts))"

text \<open>\<open>None\<close>: not a wildcard form; \<open>Some None\<close>: a wildcard form that is refused.\<close>

definition parseIPv4Wildcard :: "string \<Rightarrow> pfx option option" where
  "parseIPv4Wildcard raw =
     (if \<not> Contains_str raw ''*'' then None
      else if Contains_str raw '':'' then Some None
      else
        let parts = Split raw (CHR ''.'') in
        if length parts < 1 \<or> length parts > 4 then Some None
        else case wild_octets parts of
               None \<Rightarrow> Some None
             | Some octs \<Rightarrow>
                 (case ParseAddr (Join (octs @ replicate (4 - length octs) ''0'') ''.'') of
                    None \<Rightarrow> Some None
                  | Some a \<Rightarrow> if \<not> Is4 a then Some None else Some (Some (Masked (PrefixFrom a (8 * length octs))))))"

definition parseIPPrefix :: "string \<Rightarrow> pfx option" where
  "parseIPPrefix text =
     (let t = TrimSpace text in
      if t = [] then None
      else
        let raw = (case SplitHostPort t of
              Some (host, _) \<Rightarrow> host
            | None \<Rightarrow> if HasPrefix t ''['' \<and> HasSuffix t '']'' then TrimSuffix (TrimPrefix t ''['') '']'' else t)
        in case parseIPv4Wildcard raw of
             Some r \<Rightarrow> r
           | None \<Rightarrow>
               if Contains_str raw ''/'' then map_option Masked (ParsePrefix raw)
               else map_option (\<lambda>a. PrefixFrom a (if Is4 a then 32 else 128)) (ParseAddr (Trim raw ''[]'')))"

definition addressOf :: "string option \<Rightarrow> addr option" where
  "addressOf a =
     (case a of
        None \<Rightarrow> None
      | Some s \<Rightarrow>
          let t = TrimSpace s;
              h = (case SplitHostPort t of Some (host, _) \<Rightarrow> host | None \<Rightarrow> Trim t ''[]'')
          in map_option Unmap (ParseAddr h))"

subsection \<open>Compilation of source lists\<close>

datatype rule_error = TooManyRules string nat | NeedsGeoData string nat | OnlyDestination string nat | BadRule string nat

record source =
  priority :: int
  black :: "pfx list"
  white :: "pfx list"
  blackNegGeo :: "string list"
  whiteNegGeo :: "string list"
  hasBlack :: bool
  hasWhite :: bool
  invalid :: bool

text \<open>The state of the loop of \<open>compileIPRules\<close>: the prefixes and negated categories found so far, which are
  also the keys of \<open>seen\<close>, and the errors.\<close>

record compiling =
  outp :: "pfx list"
  negGeo :: "string list"
  errs :: "rule_error list"

definition add_pfx :: "pfx \<Rightarrow> compiling \<Rightarrow> compiling" where
  "add_pfx p st = (if p \<in> set (outp st) then st else st\<lparr>outp := outp st @ [p]\<rparr>)"

definition add_neg :: "string \<Rightarrow> compiling \<Rightarrow> compiling" where
  "add_neg c st = (if c \<in> set (negGeo st) then st else st\<lparr>negGeo := negGeo st @ [c]\<rparr>)"

definition add_err :: "rule_error \<Rightarrow> compiling \<Rightarrow> compiling" where
  "add_err e st = st\<lparr>errs := errs st @ [e]\<rparr>"

definition compile_rule :: "geodata \<Rightarrow> string \<Rightarrow> nat \<times> string \<Rightarrow> compiling \<Rightarrow> compiling" where
  "compile_rule geo name = (\<lambda>(index, raw) st.
     let rule = TrimSpace raw in
     if \<not> is_active rule then st
     else if HasPrefix (ToLower rule) ''geoip:'' then
       let category = TrimSpace (drop 6 rule) in
       if HasPrefix category ''!'' then
         let base = TrimSpace (TrimPrefix category ''!'') in
         if \<not> geoCategoryExists geo ''geoip'' base then add_err (NeedsGeoData name (index + 1)) st
         else add_neg (''!'' @ ToLower base) st
       else
         let prefixes = geoPrefixes geo category in
         if prefixes = [] then add_err (NeedsGeoData name (index + 1)) st
         else fold add_pfx prefixes st
     else if HasPrefix (ToLower rule) ''geosite:'' then add_err (OnlyDestination name (index + 1)) st
     else case parseIPPrefix rule of
            None \<Rightarrow> add_err (BadRule name (index + 1)) st
          | Some p \<Rightarrow> add_pfx p st)"

definition pfx_key :: "pfx \<Rightarrow> int \<times> string" where
  "pfx_key p = (case pbits p of None \<Rightarrow> -1 | Some b \<Rightarrow> int b, pfx_String p)"

definition compileIPRules ::
  "int \<Rightarrow> geodata \<Rightarrow> scope \<Rightarrow> string \<Rightarrow> string list \<Rightarrow> rule_error list \<Rightarrow> pfx list \<times> string list \<times> rule_error list" where
  "compileIPRules maxRules geo sc name rules es =
     (let lines = splitLines rules; count = activeRuleCount lines in
      if sc = ScopeUser \<and> maxRules > 0 \<and> int count > maxRules then ([], [], es @ [TooManyRules name count])
      else
        let st = fold (compile_rule geo name) (enumerate 0 lines) \<lparr>outp = [], negGeo = [], errs = es\<rparr>
        in (sort_key pfx_key (outp st), sort (negGeo st), errs st))"

definition CompileSource ::
  "int \<Rightarrow> geodata \<Rightarrow> scope \<Rightarrow> int \<Rightarrow> string list \<Rightarrow> string list \<Rightarrow> source option \<times> rule_error list" where
  "CompileSource maxRules geo sc prio bl wl =
     (let blackLines = splitLines bl; whiteLines = splitLines wl in
      if \<not> hasActiveRule blackLines \<and> \<not> hasActiveRule whiteLines then (None, [])
      else
        let (b, bn, e1) = compileIPRules maxRules geo sc ''black'' blackLines [];
            (w, wn, e2) = compileIPRules maxRules geo sc ''white'' whiteLines e1;
            s = \<lparr>priority = NormalizePriority prio, black = b, white = w, blackNegGeo = bn, whiteNegGeo = wn,
                 hasBlack = hasActiveRule blackLines, hasWhite = hasActiveRule whiteLines, invalid = False\<rparr>
        in if e2 = [] then (Some s, []) else (Some (s\<lparr>invalid := True\<rparr>), e2))"

subsection \<open>Evaluation of source lists\<close>

definition Source_matches :: "geodata \<Rightarrow> source \<Rightarrow> addr \<Rightarrow> bool \<times> bool" where
  "Source_matches geo s a =
     (list_ex (\<lambda>p. Contains p a) (black s) \<or> list_ex (\<lambda>r. geoIPRuleMatches geo r a) (blackNegGeo s),
      list_ex (\<lambda>p. Contains p a) (white s) \<or> list_ex (\<lambda>r. geoIPRuleMatches geo r a) (whiteNegGeo s))"

definition allowsAddr :: "geodata \<Rightarrow> source option \<Rightarrow> addr \<Rightarrow> bool" where
  "allowsAddr geo src a =
     (case src of
        None \<Rightarrow> True
      | Some s \<Rightarrow>
          if invalid s then False
          else
            let (b, w) = Source_matches geo s a in
            if \<not> hasBlack s \<and> \<not> hasWhite s then True
            else if \<not> hasBlack s then w
            else if \<not> hasWhite s then \<not> b
            else if priority s = AllowFirst then w \<or> \<not> b
            else \<not> b \<and> w)"

definition Source_Allows :: "geodata \<Rightarrow> source option \<Rightarrow> string option \<Rightarrow> bool" where
  "Source_Allows geo src a = (case addressOf a of None \<Rightarrow> False | Some p \<Rightarrow> allowsAddr geo src p)"

definition Allows :: "geodata \<Rightarrow> string option \<Rightarrow> source option \<Rightarrow> source option \<Rightarrow> source option \<Rightarrow> bool" where
  "Allows geo a global client entry =
     (if global \<noteq> None \<and> \<not> Source_Allows geo global a then False
      else if client \<noteq> None \<and> \<not> Source_Allows geo client a then False
      else entry = None \<or> Source_Allows geo entry a)"

record decision =
  Allowed :: bool
  Level :: int
  Name :: string

fun decide_from :: "geodata \<Rightarrow> string option \<Rightarrow> string list \<Rightarrow> nat \<Rightarrow> source option list \<Rightarrow> decision" where
  "decide_from geo a names i [] = \<lparr>Allowed = True, Level = -1, Name = []\<rparr>"
| "decide_from geo a names i (s # levels) =
     (if s = None \<or> Source_Allows geo s a then decide_from geo a names (i + 1) levels
      else \<lparr>Allowed = False, Level = int i, Name = (if i < length names then names ! i else [])\<rparr>)"

definition Decide :: "geodata \<Rightarrow> string option \<Rightarrow> string list \<Rightarrow> source option \<Rightarrow> source option \<Rightarrow> source option \<Rightarrow> decision" where
  "Decide geo a names global client entry = decide_from geo a names 0 [global, client, entry]"

definition NormalizeSource :: "int \<Rightarrow> geodata \<Rightarrow> scope \<Rightarrow> string list \<Rightarrow> string list \<times> rule_error list" where
  "NormalizeSource maxRules geo sc rules =
     (case CompileSource maxRules geo sc DenyFirst rules [] of
        (None, e) \<Rightarrow> ([], e)
      | (Some s, e) \<Rightarrow> (sort (map pfx_String (black s) @ map pfx_String (white s)), e))"

subsection \<open>Destination lists\<close>

record geoRequirement =
  rkind :: string
  rcategory :: string

record dest =
  mode :: int
  drules :: "string list"
  geoRequirements :: "geoRequirement list"
  dinvalid :: bool

definition destinationGeoRequirement :: "string \<Rightarrow> geoRequirement option" where
  "destinationGeoRequirement rule =
     (case IndexByte rule (CHR '':'') of
        None \<Rightarrow> None
      | Some index \<Rightarrow>
          if index = 0 then None
          else
            let kind = ToLower (TrimSpace (take index rule));
                category = ToLower (TrimSpace (drop (index + 1) rule))
            in if kind \<noteq> ''geoip'' \<and> kind \<noteq> ''geosite'' then None
               else
                 let cat = (if kind = ''geoip'' \<and> HasPrefix category ''!'' then TrimSpace (TrimPrefix category ''!'') else category)
                 in if cat = [] \<or> ContainsAny cat ([CHR '' '', CHR 0x09, CHR 0x0D, CHR 0x0A] @ '',;|'') \<or> HasPrefix cat ''!''
                    then None else Some \<lparr>rkind = kind, rcategory = cat\<rparr>)"

abbreviation blank_or_slash :: string where "blank_or_slash \<equiv> [CHR '' '', CHR 0x09, CHR ''/'', CHR 0x5C]"

definition bare_rule :: "string \<Rightarrow> bool" where
  "bare_rule rule \<longleftrightarrow> parseIPPrefix rule \<noteq> None \<or> (ContainsAny rule ''.*_-'' \<and> \<not> ContainsAny rule blank_or_slash)"

definition validDestinationRule :: "geodata \<Rightarrow> string \<Rightarrow> bool" where
  "validDestinationRule geo rule =
     (if HasPrefix rule ''geoip:'' \<or> HasPrefix rule ''geosite:'' then
        (case destinationGeoRequirement rule of None \<Rightarrow> False | Some r \<Rightarrow> geoCategoryExists geo (rkind r) (rcategory r))
      else if \<not> ContainsAny rule (''.:'' @ blank_or_slash) then rule \<noteq> []
      else
        let kinded = (case IndexByte rule (CHR '':'') of Some index \<Rightarrow> if index > 0 then Some index else None | None \<Rightarrow> None)
        in case kinded of
             Some index \<Rightarrow>
               if take index rule \<in> {''full'', ''domain'', ''keyword''} then
                 (let value = TrimSpace (drop (index + 1) rule) in value \<noteq> [] \<and> \<not> ContainsAny value blank_or_slash)
               else if parseIPPrefix rule = None then False
               else bare_rule rule
           | None \<Rightarrow> bare_rule rule)"

definition active_dest_rules :: "string \<Rightarrow> string list" where
  "active_dest_rules rules = filter is_active (map (\<lambda>raw. ToLower (TrimSpace raw)) (splitLines [rules]))"

text \<open>\<open>None\<close>: no list is configured.\<close>

definition CompileDest :: "int \<Rightarrow> geodata \<Rightarrow> int \<Rightarrow> string \<Rightarrow> dest option" where
  "CompileDest maxRules geo m rules =
     (if m \<noteq> 1 \<and> m \<noteq> 2 then None
      else
        let count = activeRuleCount (splitLines [rules]); d = \<lparr>mode = m, drules = [], geoRequirements = [], dinvalid = False\<rparr> in
        if maxRules > 0 \<and> int count > maxRules then Some (d\<lparr>dinvalid := True\<rparr>)
        else
          let valid = filter (validDestinationRule geo) (active_dest_rules rules) in
          Some (d\<lparr>drules := valid, geoRequirements := List.map_filter destinationGeoRequirement valid,
                  dinvalid := list_ex (\<lambda>r. \<not> validDestinationRule geo r) (active_dest_rules rules)\<rparr>))"

definition hostPart :: "string \<Rightarrow> string" where
  "hostPart text =
     (let t = TrimSpace (ToLower text);
          t' = (case SplitHostPort t of Some (host, _) \<Rightarrow> host | None \<Rightarrow> t)
      in TrimSuffix (Trim t' ''[]'') ''.'')"

definition prefixMatches :: "string \<Rightarrow> addr \<Rightarrow> bool" where
  "prefixMatches rule a = (case ParsePrefix rule of None \<Rightarrow> False | Some p \<Rightarrow> Contains p a)"

definition dest_rule_matches :: "geodata \<Rightarrow> (string \<Rightarrow> string \<Rightarrow> bool) \<Rightarrow> string \<Rightarrow> string \<Rightarrow> bool" where
  "dest_rule_matches geo rx host raw =
     (let (kind, rule) = (case IndexByte raw (CHR '':'') of
            Some index \<Rightarrow> if index > 0 then (take index raw, drop (index + 1) raw) else ([], raw)
          | None \<Rightarrow> ([], raw))
      in if HasPrefix raw ''geosite:'' then geoSiteMatches geo rx (TrimPrefix raw ''geosite:'') host
         else if kind = ''geoip'' then (case addressOf (Some host) of None \<Rightarrow> False | Some a \<Rightarrow> geoIPRuleMatches geo rule a)
         else case parseIPPrefix host of
           Some p \<Rightarrow> addr_String (paddr p) = rule \<or> (Contains_str rule ''/'' \<and> prefixMatches rule (paddr p))
         | None \<Rightarrow>
             if kind = ''full'' then host = rule
             else if kind = ''domain'' then host = rule \<or> HasSuffix host (''.'' @ TrimPrefix rule ''.'')
             else if kind = ''keyword'' then Contains_str host rule
             else if HasPrefix rule ''*.'' then
               (let suffix = TrimPrefix rule ''*.'' in host \<noteq> suffix \<and> HasSuffix host (''.'' @ suffix))
             else if HasPrefix rule ''*'' then
               (let domain = TrimPrefix (TrimPrefix rule ''*'') ''.'' in host = domain \<or> HasSuffix host (''.'' @ domain))
             else Contains_str host rule)"

definition Dest_Allows :: "geodata \<Rightarrow> (string \<Rightarrow> string \<Rightarrow> bool) \<Rightarrow> dest option \<Rightarrow> string \<Rightarrow> bool" where
  "Dest_Allows geo rx dst a =
     (case dst of
        None \<Rightarrow> True
      | Some d \<Rightarrow>
          if mode d = 0 then True
          else if dinvalid d then False
          else if list_ex (\<lambda>r. \<not> geoCategoryExists geo (rkind r) (rcategory r)) (geoRequirements d) then False
          else
            let matched = list_ex (dest_rule_matches geo rx (hostPart a)) (drules d)
            in if mode d = 1 then matched else \<not> matched)"

definition NormalizeDest :: "int \<Rightarrow> geodata \<Rightarrow> string \<Rightarrow> string" where
  "NormalizeDest maxRules geo raw = (case CompileDest maxRules geo 1 raw of None \<Rightarrow> [] | Some d \<Rightarrow> Join (drules d) [CHR 0x0A])"

subsection \<open>Lemmas on the texts of rules\<close>

lemma fields_acc_sound:
  "list_all (\<lambda>c. \<not> f c) acc \<Longrightarrow> l \<in> set (fields_acc f acc s) \<Longrightarrow> l \<noteq> [] \<and> list_all (\<lambda>c. \<not> f c) l"
proof (induction f acc s rule: fields_acc.induct)
  case (2 f acc c s)
  then show ?case by (cases "f c"; cases "acc = []") (auto simp: list_all_iff)
qed (auto simp: list_all_iff split: if_splits)

lemma fields_acc_single:
  "list_all (\<lambda>c. \<not> f c) s \<Longrightarrow> fields_acc f acc s = (if rev acc @ s = [] then [] else [rev acc @ s])"
  by (induction f acc s rule: fields_acc.induct) auto

lemma splitLines_idem [simp]: "splitLines (splitLines rules) = splitLines rules"
proof -
  have *: "FieldsFunc is_rule_sep l = [l]" if "l \<in> set (splitLines rules)" for l
  proof -
    have "l \<noteq> [] \<and> list_all (\<lambda>c. \<not> is_rule_sep c) l"
      using that fields_acc_sound [of is_rule_sep "[]" l] by (auto simp: splitLines_def FieldsFunc_def)
    then show ?thesis by (simp add: FieldsFunc_def fields_acc_single)
  qed
  have "splitLines ls = ls" if "\<And>l. l \<in> set ls \<Longrightarrow> FieldsFunc is_rule_sep l = [l]" for ls
    using that by (induction ls) (simp_all add: splitLines_def)
  with * show ?thesis by blast
qed

definition active_rules :: "string list \<Rightarrow> string list" where
  "active_rules rules = filter is_active (map TrimSpace (splitLines rules))"

lemma hasActiveRule_iff: "hasActiveRule (splitLines rules) = (active_rules rules \<noteq> [])"
  by (auto simp: hasActiveRule_def active_rules_def filter_empty_conv list_ex_iff)

lemma activeRuleCount_length: "activeRuleCount (splitLines rules) = length (active_rules rules)"
  by (simp add: activeRuleCount_def active_rules_def filter_map comp_def)

subsection \<open>The meaning of a source list\<close>

definition rule_admissible :: "geodata \<Rightarrow> string \<Rightarrow> bool" where
  "rule_admissible geo rule =
     (if HasPrefix (ToLower rule) ''geoip:'' then
        let category = TrimSpace (drop 6 rule) in
        if HasPrefix category ''!'' then geoCategoryExists geo ''geoip'' (TrimPrefix category ''!'')
        else geoPrefixes geo category \<noteq> []
      else \<not> HasPrefix (ToLower rule) ''geosite:'' \<and> parseIPPrefix rule \<noteq> None)"

definition rule_covers :: "geodata \<Rightarrow> string \<Rightarrow> addr \<Rightarrow> bool" where
  "rule_covers geo rule a =
     (if HasPrefix (ToLower rule) ''geoip:'' then
        let category = TrimSpace (drop 6 rule) in
        if HasPrefix category ''!'' then \<not> list_ex (\<lambda>p. Contains p (Unmap a)) (geoPrefixes geo (TrimPrefix category ''!''))
        else list_ex (\<lambda>p. Contains p a) (geoPrefixes geo category)
      else case parseIPPrefix rule of None \<Rightarrow> False | Some p \<Rightarrow> Contains p a)"

definition compiled_covers :: "geodata \<Rightarrow> addr \<Rightarrow> compiling \<Rightarrow> bool" where
  "compiled_covers geo a st \<longleftrightarrow>
     (\<exists>p \<in> set (outp st). Contains p a) \<or> (\<exists>r \<in> set (negGeo st). geoIPRuleMatches geo r a)"

lemma add_simps [simp]:
  "set (outp (add_pfx p st)) = insert p (set (outp st))" "negGeo (add_pfx p st) = negGeo st" "errs (add_pfx p st) = errs st"
  "set (negGeo (add_neg c st)) = insert c (set (negGeo st))" "outp (add_neg c st) = outp st" "errs (add_neg c st) = errs st"
  "outp (add_err e st) = outp st" "negGeo (add_err e st) = negGeo st" "errs (add_err e st) = errs st @ [e]"
  by (auto simp: add_pfx_def add_neg_def add_err_def)

lemma add_pfx_fold [simp]:
  "set (outp (fold add_pfx ps st)) = set ps \<union> set (outp st)" "negGeo (fold add_pfx ps st) = negGeo st"
  "errs (fold add_pfx ps st) = errs st"
  by (induction ps arbitrary: st) auto

lemma geo_base [simp]:
  "geoPrefixes geo (ToLower (TrimSpace c)) = geoPrefixes geo c"
  "geoPrefixes geo (TrimSpace c) = geoPrefixes geo c" "geoCategoryExists geo k (TrimSpace c) = geoCategoryExists geo k c"
  by (simp_all add: geoPrefixes_def geoCategoryExists_def TrimSpace_ToLower)

lemma neg_rule_matches:
  "geoIPRuleMatches geo (''!'' @ ToLower (TrimSpace base)) a = (\<not> list_ex (\<lambda>p. Contains p (Unmap a)) (geoPrefixes geo base))"
  by (simp add: geoIPRuleMatches_def HasPrefix_def TrimPrefix_def Let_def)

lemma compile_rule_spec:
  fixes geo name i raw st
  defines "st' \<equiv> compile_rule geo name (i, raw) st" and "rule \<equiv> TrimSpace raw"
  shows "\<not> is_active rule \<Longrightarrow> st' = st"
    and "is_active rule \<Longrightarrow> \<not> rule_admissible geo rule \<Longrightarrow> errs st' \<noteq> []"
    and "is_active rule \<Longrightarrow> rule_admissible geo rule \<Longrightarrow> errs st' = errs st"
    and "is_active rule \<Longrightarrow> rule_admissible geo rule \<Longrightarrow>
      compiled_covers geo a st' = (compiled_covers geo a st \<or> rule_covers geo rule a)"
proof -
  show "\<not> is_active rule \<Longrightarrow> st' = st" by (simp add: st'_def rule_def compile_rule_def)
  note defs = st'_def rule_def [symmetric] compile_rule_def rule_admissible_def Let_def
  consider (neg) "HasPrefix (ToLower rule) ''geoip:''" "HasPrefix (TrimSpace (drop 6 rule)) ''!''"
    | (geo) "HasPrefix (ToLower rule) ''geoip:''" "\<not> HasPrefix (TrimSpace (drop 6 rule)) ''!''"
    | (site) "\<not> HasPrefix (ToLower rule) ''geoip:''" "HasPrefix (ToLower rule) ''geosite:''"
    | (ip) "\<not> HasPrefix (ToLower rule) ''geoip:''" "\<not> HasPrefix (ToLower rule) ''geosite:''" by blast
  note kinds = this
  show "is_active rule \<Longrightarrow> \<not> rule_admissible geo rule \<Longrightarrow> errs st' \<noteq> []"
    using kinds by cases (auto simp: defs)
  show "is_active rule \<Longrightarrow> rule_admissible geo rule \<Longrightarrow> errs st' = errs st"
    using kinds by cases (auto simp: defs)
  show "is_active rule \<Longrightarrow> rule_admissible geo rule \<Longrightarrow>
      compiled_covers geo a st' = (compiled_covers geo a st \<or> rule_covers geo rule a)"
    using kinds
  proof cases
    case neg
    then show "is_active rule \<Longrightarrow> rule_admissible geo rule \<Longrightarrow> ?thesis"
      using neg_rule_matches [of geo "TrimPrefix (TrimSpace (drop 6 rule)) ''!''" a]
      by (auto simp: defs rule_covers_def compiled_covers_def)
  qed (auto simp: defs rule_covers_def compiled_covers_def list_ex_iff)
qed

lemma compile_errs_grow: "errs st \<noteq> [] \<Longrightarrow> errs (compile_rule geo name ir st) \<noteq> []"
proof (cases ir)
  case (Pair i raw)
  assume "errs st \<noteq> []"
  then show ?thesis using compile_rule_spec(1-3) [of raw geo name i st] Pair by metis
qed

lemma compile_fold_errs_grow: "errs st \<noteq> [] \<Longrightarrow> errs (fold (compile_rule geo name) irs st) \<noteq> []"
  by (induction irs arbitrary: st) (simp_all add: compile_errs_grow)

lemma compile_fold_spec:
  fixes irs :: "(nat \<times> string) list"
  defines "rules \<equiv> \<lambda>irs :: (nat \<times> string) list. filter is_active (map (TrimSpace \<circ> snd) irs)"
  shows "errs (fold (compile_rule geo name) irs st) = [] \<longleftrightarrow> errs st = [] \<and> list_all (rule_admissible geo) (rules irs)"
    and "list_all (rule_admissible geo) (rules irs) \<Longrightarrow>
      compiled_covers geo a (fold (compile_rule geo name) irs st) =
        (compiled_covers geo a st \<or> list_ex (\<lambda>r. rule_covers geo r a) (rules irs))"
proof -
  show "errs (fold (compile_rule geo name) irs st) = [] \<longleftrightarrow> errs st = [] \<and> list_all (rule_admissible geo) (rules irs)"
  proof (induction irs arbitrary: st)
    case (Cons ir irs)
    obtain i raw where ir: "ir = (i, raw)" by (cases ir)
    note c = compile_rule_spec(1-3) [of raw geo name i st]
    show ?case
    proof (cases "is_active (TrimSpace raw) \<and> \<not> rule_admissible geo (TrimSpace raw)")
      case True
      then show ?thesis using c(2) compile_fold_errs_grow [of "compile_rule geo name ir st" geo name irs]
        by (simp add: rules_def ir)
    next
      case False
      then show ?thesis using c(1,3) Cons.IH [of "compile_rule geo name ir st"]
        by (cases "is_active (TrimSpace raw)") (simp_all add: rules_def ir)
    qed
  qed (simp add: rules_def)
  show "list_all (rule_admissible geo) (rules irs) \<Longrightarrow>
      compiled_covers geo a (fold (compile_rule geo name) irs st) =
        (compiled_covers geo a st \<or> list_ex (\<lambda>r. rule_covers geo r a) (rules irs))"
  proof (induction irs arbitrary: st)
    case (Cons ir irs)
    obtain i raw where ir: "ir = (i, raw)" by (cases ir)
    note c = compile_rule_spec(1) [of raw geo name i st] compile_rule_spec(4) [of raw geo a name i st]
    show ?case using Cons.prems c Cons.IH [of "compile_rule geo name ir st"]
      by (cases "is_active (TrimSpace raw)") (auto simp: rules_def ir)
  qed (simp add: rules_def)
qed


definition list_ok :: "int \<Rightarrow> geodata \<Rightarrow> scope \<Rightarrow> string list \<Rightarrow> bool" where
  "list_ok maxRules geo sc R \<longleftrightarrow>
     \<not> (sc = ScopeUser \<and> maxRules > 0 \<and> int (length R) > maxRules) \<and> list_all (rule_admissible geo) R"

lemma compileIPRules_spec:
  fixes maxRules geo sc name rules es
  defines "R \<equiv> active_rules rules" and "ok \<equiv> list_ok maxRules geo sc"
  assumes "compileIPRules maxRules geo sc name (splitLines rules) es = (ps, ns, es')"
  shows "es' = [] \<longleftrightarrow> es = [] \<and> ok R"
    and "ok R \<Longrightarrow> (list_ex (\<lambda>p. Contains p a) ps \<or> list_ex (\<lambda>r. geoIPRuleMatches geo r a) ns) = list_ex (\<lambda>r. rule_covers geo r a) R"
proof -
  have act: "filter is_active (map (TrimSpace \<circ> snd) (enumerate 0 (splitLines rules))) = R"
    by (simp add: R_def active_rules_def flip: map_map)
  define st where "st = fold (compile_rule geo name) (enumerate 0 (splitLines rules)) \<lparr>outp = [], negGeo = [], errs = es\<rparr>"
  note f = compile_fold_spec [where irs = "enumerate 0 (splitLines rules)" and geo = geo and name = name and
      st = "\<lparr>outp = [], negGeo = [], errs = es\<rparr>", unfolded act, folded st_def]
  have big: "(sc = ScopeUser \<and> maxRules > 0 \<and> int (activeRuleCount (splitLines rules)) > maxRules) =
      (sc = ScopeUser \<and> maxRules > 0 \<and> int (length R) > maxRules)"
    by (simp add: activeRuleCount_length R_def)
  show "es' = [] \<longleftrightarrow> es = [] \<and> ok R"
    using assms(3) f(1) big by (auto simp: compileIPRules_def Let_def st_def [symmetric] ok_def list_ok_def split: if_splits)
  assume "ok R"
  then have "ps = sort_key pfx_key (outp st)" "ns = sort (negGeo st)" "list_all (rule_admissible geo) R"
    using assms(3) big by (auto simp: compileIPRules_def Let_def st_def [symmetric] ok_def list_ok_def split: if_splits)
  then show "(list_ex (\<lambda>p. Contains p a) ps \<or> list_ex (\<lambda>r. geoIPRuleMatches geo r a) ns) = list_ex (\<lambda>r. rule_covers geo r a) R"
    using f(2) [of a] by (simp add: compiled_covers_def list_ex_iff)
qed

lemma CompileSource_decides:
  "allowsAddr geo (fst (CompileSource maxRules geo sc prio bl wl)) a =
     (let B = active_rules bl; W = active_rules wl;
          b = list_ex (\<lambda>r. rule_covers geo r a) B; w = list_ex (\<lambda>r. rule_covers geo r a) W;
          too_long = (\<lambda>R. sc = ScopeUser \<and> maxRules > 0 \<and> int (length R) > maxRules)
      in if B = [] \<and> W = [] then True
         else if too_long B \<or> too_long W \<or> \<not> list_all (rule_admissible geo) (B @ W) then False
         else if B = [] then w
         else if W = [] then \<not> b
         else if prio = AllowFirst then w \<or> \<not> b
         else \<not> b \<and> w)"
proof -
  define B W where "B = active_rules bl" and "W = active_rules wl"
  define ok where "ok = list_ok maxRules geo sc"
  obtain ps ns e1 where b: "compileIPRules maxRules geo sc ''black'' (splitLines bl) [] = (ps, ns, e1)" by (metis prod_cases3)
  obtain qs ms e2 where w: "compileIPRules maxRules geo sc ''white'' (splitLines wl) e1 = (qs, ms, e2)" by (metis prod_cases3)
  note b1 = compileIPRules_spec [OF b, folded B_def, folded ok_def] and w1 = compileIPRules_spec [OF w, folded W_def, folded ok_def]
  have e2: "e2 = [] \<longleftrightarrow> ok B \<and> ok W" using b1(1) w1(1) by auto
  have oks: "(sc = ScopeUser \<and> maxRules > 0 \<and> int (length B) > maxRules) \<or> (sc = ScopeUser \<and> maxRules > 0 \<and> int (length W) > maxRules)
      \<or> \<not> list_all (rule_admissible geo) (B @ W) \<longleftrightarrow> \<not> (ok B \<and> ok W)"
    by (auto simp: ok_def list_ok_def)
  let ?s = "\<lparr>priority = NormalizePriority prio, black = ps, white = qs, blackNegGeo = ns, whiteNegGeo = ms,
      hasBlack = B \<noteq> [], hasWhite = W \<noteq> [], invalid = e2 \<noteq> []\<rparr>"
  have c: "fst (CompileSource maxRules geo sc prio bl wl) = (if B = [] \<and> W = [] then None else Some ?s)"
    by (cases "B = [] \<and> W = []"; cases "e2 = []") (simp_all add: CompileSource_def b w hasActiveRule_iff Let_def flip: B_def W_def)
  show ?thesis
  proof (cases "ok B \<and> ok W \<and> \<not> (B = [] \<and> W = [])")
    case True
    have m: "Source_matches geo ?s a = (list_ex (\<lambda>r. rule_covers geo r a) B, list_ex (\<lambda>r. rule_covers geo r a) W)"
      using True b1(2) [of a] w1(2) [of a] by (simp add: Source_matches_def)
    have n: "(NormalizePriority prio = AllowFirst) = (prio = AllowFirst)" by (simp add: NormalizePriority_def)
    show ?thesis unfolding Let_def B_def [symmetric] W_def [symmetric] oks c
      using True e2 m n by (auto simp: allowsAddr_def)
  next
    case False
    then show ?thesis unfolding Let_def B_def [symmetric] W_def [symmetric] oks c
      using e2 by (auto simp: allowsAddr_def)
  qed
qed

text \<open>C32 The decision of a source list is that of its configured rules. With no active rule everybody is
  admitted. When a rule of either list is malformed, lacks its geodata or a user list is too long, nobody is
  (the list fails closed). Otherwise an address is admitted when it matches the allow list, or misses the
  deny list, or by both with the configured priority; and an address matches a list exactly when one of its
  rules covers it, whatever order and duplicates the list has.\<close>

theorem source_policy_exact:
  "allowsAddr geo (fst (CompileSource maxRules geo sc prio bl wl)) a =
     (let B = active_rules bl; W = active_rules wl;
          b = list_ex (\<lambda>r. rule_covers geo r a) B; w = list_ex (\<lambda>r. rule_covers geo r a) W;
          too_long = (\<lambda>R. sc = ScopeUser \<and> maxRules > 0 \<and> int (length R) > maxRules)
      in if B = [] \<and> W = [] then True
         else if too_long B \<or> too_long W \<or> \<not> list_all (rule_admissible geo) (B @ W) then False
         else if B = [] then w
         else if W = [] then \<not> b
         else if prio = AllowFirst then w \<or> \<not> b
         else \<not> b \<and> w)"
  by (rule CompileSource_decides)

lemma source_policy_exact_witness:
  defines "geo \<equiv> \<lparr>gip = (\<lambda>_. []), gsite = (\<lambda>_. [])\<rparr>"
  shows "\<not> allowsAddr geo (fst (CompileSource 1000 geo ScopeUser DenyFirst [''1.2.3.4''] [])) (IP4 0x01020304) \<and>
    allowsAddr geo (fst (CompileSource 1000 geo ScopeUser DenyFirst [''1.2.3.4''] [])) (IP4 0x01020305)"
proof -
  have a: "active_rules [''1.2.3.4''] = [''1.2.3.4'']" "active_rules [] = []" by code_simp+
  have p: "parseIPPrefix ''1.2.3.4'' = Some \<lparr>paddr = IP4 0x01020304, pbits = Some 32\<rparr>" by code_simp
  have l: "HasPrefix (ToLower ''1.2.3.4'') ''geoip:'' = False" "HasPrefix (ToLower ''1.2.3.4'') ''geosite:'' = False" by code_simp+
  show ?thesis
    unfolding source_policy_exact a Let_def by (simp add: p l rule_admissible_def rule_covers_def Contains_def)
qed

text \<open>The three levels: the server's, the client's and the entry's list must all admit the address, and
  \<open>Decide\<close> names the first that does not.\<close>

lemma Decide_agrees: "Allowed (Decide geo a names g c e) = Allows geo a g c e"
  by (auto simp: Decide_def Allows_def)

lemma Decide_level:
  "\<not> Allowed (decide_from geo a names i levels) \<Longrightarrow>
     \<exists>pre s post. levels = pre @ s # post \<and> Level (decide_from geo a names i levels) = int (i + length pre) \<and>
       s \<noteq> None \<and> \<not> Source_Allows geo s a \<and> list_all (\<lambda>s. s = None \<or> Source_Allows geo s a) pre"
proof (induction levels arbitrary: i)
  case (Cons s levels)
  show ?case
  proof (cases "s = None \<or> Source_Allows geo s a")
    case True
    then obtain pre t post where "levels = pre @ t # post" "Level (decide_from geo a names (i + 1) levels) = int (i + 1 + length pre)"
      "t \<noteq> None" "\<not> Source_Allows geo t a" "list_all (\<lambda>s. s = None \<or> Source_Allows geo s a) pre"
      using Cons.IH [of "i + 1"] Cons.prems by auto
    then show ?thesis using True by - (rule exI [of _ "s # pre"], rule exI [of _ t], rule exI [of _ post], auto)
  next
    case False
    then show ?thesis by - (rule exI [of _ "[]"], rule exI [of _ s], rule exI [of _ levels], auto)
  qed
qed simp

lemma malformed_address_denied: "addressOf a = None \<Longrightarrow> g \<noteq> None \<or> c \<noteq> None \<or> e \<noteq> None \<Longrightarrow> \<not> Allows geo a g c e"
  by (auto simp: Allows_def Source_Allows_def)

subsection \<open>The lists of a client, tunnel, host or the server\<close>

record sourceLists =
  IpListPriority :: int
  BlackIpList :: "string list"
  WhiteIpList :: "string list"
  sourceACL :: "source option"
  compiled :: bool

definition CompileSourceLists :: "int \<Rightarrow> geodata \<Rightarrow> scope \<Rightarrow> sourceLists \<Rightarrow> sourceLists" where
  "CompileSourceLists maxRules geo sc l =
     l\<lparr>sourceACL := fst (CompileSource maxRules geo sc (IpListPriority l) (BlackIpList l) (WhiteIpList l)), compiled := True\<rparr>"

definition SetSourceLists :: "int \<Rightarrow> geodata \<Rightarrow> int \<Rightarrow> string list \<Rightarrow> string list \<Rightarrow> scope \<Rightarrow> sourceLists \<Rightarrow> sourceLists" where
  "SetSourceLists maxRules geo prio bl wl sc l =
     CompileSourceLists maxRules geo sc
       (l\<lparr>IpListPriority := NormalizePriority prio, BlackIpList := bl, WhiteIpList := wl\<rparr>)"

definition CopySourceLists :: "sourceLists \<Rightarrow> sourceLists \<Rightarrow> sourceLists" where
  "CopySourceLists other l =
     l\<lparr>IpListPriority := IpListPriority other, BlackIpList := BlackIpList other, WhiteIpList := WhiteIpList other,
       sourceACL := sourceACL other, compiled := compiled other\<rparr>"

definition SourceACL :: "int \<Rightarrow> geodata \<Rightarrow> sourceLists \<Rightarrow> source option \<times> sourceLists" where
  "SourceACL maxRules geo l =
     (let l1 = (if \<not> compiled l then CompileSourceLists maxRules geo ScopeUser l else l) in (sourceACL l1, l1))"

definition AccessListSnapshot :: "sourceLists \<Rightarrow> int \<times> string list \<times> string list" where
  "AccessListSnapshot l = (IpListPriority l, BlackIpList l, WhiteIpList l)"

definition RefreshSourceLists :: "int \<Rightarrow> geodata \<Rightarrow> sourceLists \<Rightarrow> sourceLists" where
  "RefreshSourceLists maxRules geo l = CompileSourceLists maxRules geo ScopeUser l"

text \<open>Clients and the server keep the lists in fields of their own too.\<close>

record listOwner =
  fPriority :: int
  fBlack :: "string list"
  fWhite :: "string list"
  lists :: sourceLists

definition syncSourceListsFromFields :: "listOwner \<Rightarrow> listOwner" where
  "syncSourceListsFromFields c =
     c\<lparr>lists := (lists c)\<lparr>IpListPriority := fPriority c, BlackIpList := fBlack c, WhiteIpList := fWhite c\<rparr>\<rparr>"

definition syncSourceListsToFields :: "listOwner \<Rightarrow> listOwner" where
  "syncSourceListsToFields c =
     c\<lparr>fPriority := IpListPriority (lists c), fBlack := BlackIpList (lists c), fWhite := WhiteIpList (lists c)\<rparr>"

definition owner_SetSourceLists :: "int \<Rightarrow> geodata \<Rightarrow> int \<Rightarrow> string list \<Rightarrow> string list \<Rightarrow> scope \<Rightarrow> listOwner \<Rightarrow> listOwner" where
  "owner_SetSourceLists maxRules geo prio bl wl sc c =
     syncSourceListsToFields (c\<lparr>lists := SetSourceLists maxRules geo prio bl wl sc (lists c)\<rparr>)"

definition owner_SourceACL :: "int \<Rightarrow> geodata \<Rightarrow> listOwner \<Rightarrow> source option \<times> listOwner" where
  "owner_SourceACL maxRules geo c =
     (let c1 = syncSourceListsFromFields c; (s, l) = SourceACL maxRules geo (lists c1) in (s, c1\<lparr>lists := l\<rparr>))"

definition owner_RefreshSourceLists :: "int \<Rightarrow> geodata \<Rightarrow> listOwner \<Rightarrow> listOwner" where
  "owner_RefreshSourceLists maxRules geo c =
     (let c1 = syncSourceListsFromFields c in c1\<lparr>lists := RefreshSourceLists maxRules geo (lists c1)\<rparr>)"

definition owner_CompileSourceLists :: "int \<Rightarrow> geodata \<Rightarrow> scope \<Rightarrow> listOwner \<Rightarrow> listOwner" where
  "owner_CompileSourceLists maxRules geo sc c =
     (let c1 = syncSourceListsFromFields c in c1\<lparr>lists := CompileSourceLists maxRules geo sc (lists c1)\<rparr>)"

record policies =
  pglobal :: "listOwner option"
  pclients :: "listOwner list"
  ptunnels :: "sourceLists list"
  phosts :: "sourceLists list"

definition GlobalDenied :: "int \<Rightarrow> geodata \<Rightarrow> string option \<Rightarrow> policies \<Rightarrow> bool \<times> policies" where
  "GlobalDenied maxRules geo a db =
     (case pglobal db of
        None \<Rightarrow> (False, db)
      | Some g \<Rightarrow>
          (case owner_SourceACL maxRules geo g of
             (None, g1) \<Rightarrow> (False, db\<lparr>pglobal := Some g1\<rparr>)
           | (Some s, g1) \<Rightarrow> (\<not> Source_Allows geo (Some s) a, db\<lparr>pglobal := Some g1\<rparr>)))"

definition RefreshAccessLists :: "int \<Rightarrow> geodata \<Rightarrow> policies \<Rightarrow> policies" where
  "RefreshAccessLists maxRules geo db =
     db\<lparr>pglobal := map_option (owner_RefreshSourceLists maxRules geo) (pglobal db),
        pclients := map (owner_RefreshSourceLists maxRules geo) (pclients db),
        ptunnels := map (RefreshSourceLists maxRules geo) (ptunnels db),
        phosts := map (RefreshSourceLists maxRules geo) (phosts db)\<rparr>"

definition SplitSourceListText :: "string \<Rightarrow> string list" where
  "SplitSourceListText value = filter (\<lambda>l. l \<noteq> []) (map TrimSpace (FieldsFunc is_rule_sep value))"

lemma owner_SetSourceLists_fields:
  "fPriority (owner_SetSourceLists mr geo prio bl wl sc c) = NormalizePriority prio"
  "fBlack (owner_SetSourceLists mr geo prio bl wl sc c) = bl" "fWhite (owner_SetSourceLists mr geo prio bl wl sc c) = wl"
  "fst (owner_SourceACL mr geo (owner_SetSourceLists mr geo prio bl wl sc c)) = fst (CompileSource mr geo sc (NormalizePriority prio) bl wl)"
  "fst (owner_SourceACL mr geo (owner_RefreshSourceLists mr geo (owner_SetSourceLists mr geo prio bl wl sc c))) =
     fst (CompileSource mr geo ScopeUser (NormalizePriority prio) bl wl)"
  by (simp_all add: owner_SetSourceLists_def owner_SourceACL_def owner_RefreshSourceLists_def SetSourceLists_def
      syncSourceListsToFields_def syncSourceListsFromFields_def CompileSourceLists_def RefreshSourceLists_def SourceACL_def Let_def)

lemma GlobalDenied_iff:
  "pglobal db = Some g \<Longrightarrow> addressOf a = Some p \<Longrightarrow>
     fst (GlobalDenied mr geo a db) = (\<not> allowsAddr geo (fst (owner_SourceACL mr geo g)) p)"
  by (auto simp: GlobalDenied_def Source_Allows_def allowsAddr_def split: option.split prod.split)

text \<open>A server-wide deny list that is longer than the limit for user lists is in force when the
  administrator saves it, exactly for the addresses its rules cover. The periodic refresh compiles it again
  with the limit of user lists: from then on every visitor is denied.\<close>

theorem global_refresh_denies_everyone:
  assumes "0 < maxRules" "maxRules < int (length (active_rules bl))" "list_all (rule_admissible geo) (active_rules bl)"
    and "pglobal db = Some (owner_SetSourceLists maxRules geo DenyFirst bl [] ScopeGlobal g)" "addressOf a = Some p"
  shows "fst (GlobalDenied maxRules geo a db) = list_ex (\<lambda>r. rule_covers geo r p) (active_rules bl) \<and>
    fst (GlobalDenied maxRules geo a (RefreshAccessLists maxRules geo db))"
proof -
  have ne: "active_rules bl \<noteq> []" "active_rules [] = []" using assms(1,2) by auto (simp add: active_rules_def splitLines_def)
  have r: "pglobal (RefreshAccessLists maxRules geo db) =
      Some (owner_RefreshSourceLists maxRules geo (owner_SetSourceLists maxRules geo DenyFirst bl [] ScopeGlobal g))"
    using assms(4) by (simp add: RefreshAccessLists_def)
  show ?thesis
    using assms(1-3) ne unfolding GlobalDenied_iff [OF assms(4,5)] GlobalDenied_iff [OF r assms(5)] owner_SetSourceLists_fields
    by (simp add: CompileSource_decides Let_def)
qed

lemma global_refresh_denies_everyone_witness:
  defines "geo \<equiv> \<lparr>gip = (\<lambda>_. []), gsite = (\<lambda>_. [])\<rparr>"
    and "g \<equiv> \<lparr>fPriority = 0, fBlack = [], fWhite = [],
      lists = \<lparr>IpListPriority = 0, BlackIpList = [], WhiteIpList = [], sourceACL = None, compiled = False\<rparr>\<rparr>"
  defines "db \<equiv> \<lparr>pglobal = Some (owner_SetSourceLists 1 geo DenyFirst [''1.2.3.4,5.6.7.8''] [] ScopeGlobal g),
      pclients = [], ptunnels = [], phosts = []\<rparr>"
  shows "\<not> fst (GlobalDenied 1 geo (Some ''9.9.9.9:80'') db) \<and>
    fst (GlobalDenied 1 geo (Some ''9.9.9.9:80'') (RefreshAccessLists 1 geo db))"
proof -
  have a: "active_rules [''1.2.3.4,5.6.7.8''] = [''1.2.3.4'', ''5.6.7.8'']" by code_simp
  have p: "addressOf (Some ''9.9.9.9:80'') = Some (IP4 0x09090909)" by code_simp
  have p1: "parseIPPrefix ''1.2.3.4'' = Some \<lparr>paddr = IP4 0x01020304, pbits = Some 32\<rparr>" by code_simp
  have p2: "parseIPPrefix ''5.6.7.8'' = Some \<lparr>paddr = IP4 0x05060708, pbits = Some 32\<rparr>" by code_simp
  have l: "HasPrefix (ToLower ''1.2.3.4'') ''geoip:'' = False" "HasPrefix (ToLower ''5.6.7.8'') ''geoip:'' = False"
    "HasPrefix (ToLower ''1.2.3.4'') ''geosite:'' = False" "HasPrefix (ToLower ''5.6.7.8'') ''geosite:'' = False"
    by code_simp+
  show ?thesis
    using global_refresh_denies_everyone [of 1 "[''1.2.3.4,5.6.7.8'']" geo db g "Some ''9.9.9.9:80''" "IP4 0x09090909"]
    by (simp add: a p p1 p2 l rule_admissible_def rule_covers_def db_def Contains_def)
qed

text \<open>Destination lists that name an IPv6 network or an IPv4 wildcard are accepted, and are without
  effect: the text before the first colon is taken for a rule kind, and a wildcard is compared as a text. An
  address inside the denied network is let through.\<close>

theorem dest_list_ignores_ipv6_and_wildcards:
  defines "geo \<equiv> \<lparr>gip = (\<lambda>_. []), gsite = (\<lambda>_. [])\<rparr>"
  shows "\<not> dinvalid (the (CompileDest 1000 geo 2 ''2001:db8::/32,10.*'')) \<and>
    Contains (the (parseIPPrefix ''2001:db8::/32'')) (the (addressOf (Some ''[2001:db8::1]:443''))) \<and>
    Contains (the (parseIPPrefix ''10.*'')) (the (addressOf (Some ''10.1.2.3:443''))) \<and>
    Dest_Allows geo rx (CompileDest 1000 geo 2 ''2001:db8::/32,10.*'') ''[2001:db8::1]:443'' \<and>
    Dest_Allows geo rx (CompileDest 1000 geo 2 ''2001:db8::/32,10.*'') ''10.1.2.3:443''"
proof -
  define rules where "rules = [''2001:db8::/32'', ''10.*'']"
  have act: "active_dest_rules ''2001:db8::/32,10.*'' = rules" unfolding rules_def by code_simp
  have cnt: "activeRuleCount (splitLines [''2001:db8::/32,10.*'']) = 2" by code_simp
  have p6: "parseIPPrefix ''2001:db8::/32'' = Some \<lparr>paddr = IP6 0x20010db8000000000000000000000000 [], pbits = Some 32\<rparr>" by code_simp
  have p4: "parseIPPrefix ''10.*'' = Some \<lparr>paddr = IP4 0x0A000000, pbits = Some 8\<rparr>" by code_simp
  have a6: "addressOf (Some ''[2001:db8::1]:443'') = Some (IP6 0x20010db8000000000000000000000001 [])" by code_simp
  have a4: "addressOf (Some ''10.1.2.3:443'') = Some (IP4 0x0A010203)" by code_simp
  have h: "hostPart ''[2001:db8::1]:443'' = ''2001:db8::1''" "hostPart ''10.1.2.3:443'' = ''10.1.2.3''" by code_simp+
  have q6: "parseIPPrefix ''2001:db8::1'' = Some \<lparr>paddr = IP6 0x20010db8000000000000000000000001 [], pbits = Some 128\<rparr>" by code_simp
  have q4: "parseIPPrefix ''10.1.2.3'' = Some \<lparr>paddr = IP4 0x0A010203, pbits = Some 32\<rparr>" by code_simp
  have s: "addr_String (IP6 0x20010db8000000000000000000000001 []) = ''2001:db8::1''" "addr_String (IP4 0x0A010203) = ''10.1.2.3''" by code_simp+
  have r: "ParsePrefix ''db8::/32'' = Some \<lparr>paddr = IP6 0x0db80000000000000000000000000000 [], pbits = Some 32\<rparr>" by code_simp
  have v: "validDestinationRule geo ''2001:db8::/32''" "validDestinationRule geo ''10.*''"
    unfolding geo_def by code_simp+
  have g: "destinationGeoRequirement ''2001:db8::/32'' = None" "destinationGeoRequirement ''10.*'' = None" by code_simp+
  have c: "CompileDest 1000 geo 2 ''2001:db8::/32,10.*'' =
      Some \<lparr>mode = 2, drules = rules, geoRequirements = [], dinvalid = False\<rparr>"
    using v g by (simp add: CompileDest_def act cnt Let_def) (simp add: rules_def List.map_filter_simps)
  have i: "IndexByte ''2001:db8::/32'' (CHR '':'') = Some 4" "IndexByte ''10.*'' (CHR '':'') = None"
    "HasPrefix ''2001:db8::/32'' ''geosite:'' = False" "HasPrefix ''10.*'' ''geosite:'' = False"
    "Contains_str ''10.*'' ''/'' = False" by code_simp+
  have m6: "\<not> dest_rule_matches geo rx ''2001:db8::1'' ''2001:db8::/32''" "\<not> dest_rule_matches geo rx ''10.1.2.3'' ''2001:db8::/32''"
    by (simp_all add: dest_rule_matches_def i q6 q4 s prefixMatches_def r Contains_def del: IndexByte.simps Contains_str.simps addr_String.simps)
  have m4: "\<not> dest_rule_matches geo rx ''2001:db8::1'' ''10.*''" "\<not> dest_rule_matches geo rx ''10.1.2.3'' ''10.*''"
    by (simp_all add: dest_rule_matches_def i q6 q4 s del: IndexByte.simps Contains_str.simps addr_String.simps)
  show ?thesis using m6 m4 by (simp add: c p6 p4 a6 a4 Contains_def Dest_Allows_def h rules_def)
qed

end
