(* ===== verification/Ip_Registry.thy ===== *)
theory Ip_Registry
  imports Go_Std "HOL-Library.AList"
begin

text \<open>
  Short-lived visitor registrations: \<open>lib/ipreg/ipreg.go\<close>.

  \<^item> The store is a map from client buckets to a map from addresses to expiry times: nested association
    lists, with the order of a Go map, which is arbitrary. Times are \<open>int\<close>; \<open>None\<close> is the zero time.
  \<^item> Every operation holds the package lock from end to end and reads the clock once; it is a
    function of the store with the time it reads as an argument.
\<close>

type_synonym time = int
type_synonym bucket = "(addr \<times> time) list"
type_synonym reg = "(int \<times> bucket) list"

definition AnyClient :: int where "AnyClient = 0"

record registration =
  ClientID :: int
  IP :: addr
  Until :: time

definition normalize :: "addr \<Rightarrow> addr" where "normalize ip = withoutZone (Unmap ip)"

definition bucket_of :: "reg \<Rightarrow> int \<Rightarrow> bucket" where
  "bucket_of r c = (case map_of r c of None \<Rightarrow> [] | Some b \<Rightarrow> b)"

definition Register :: "time \<Rightarrow> int \<Rightarrow> addr \<Rightarrow> int \<Rightarrow> reg \<Rightarrow> time option \<times> reg" where
  "Register now clientID ip0 ttl r =
     (let ip = normalize ip0 in
      if \<not> IsValid ip \<or> ttl \<le> 0 then (None, r)
      else
        let until = now + ttl; byIP = bucket_of r clientID; r1 = AList.update clientID byIP r in
        case map_of byIP ip of
          Some current \<Rightarrow> if current > until then (Some current, r1)
            else (Some until, AList.update clientID (AList.update ip until byIP) r1)
        | None \<Rightarrow> (Some until, AList.update clientID (AList.update ip until byIP) r1))"

text \<open>\<open>validLocked\<close> drops an expired entry from its bucket.\<close>

definition validLocked :: "time \<Rightarrow> int \<Rightarrow> addr \<Rightarrow> reg \<Rightarrow> bool \<times> reg" where
  "validLocked now c ip r =
     (case map_of (bucket_of r c) ip of
        None \<Rightarrow> (False, r)
      | Some until \<Rightarrow>
          if \<not> until > now then (False, AList.update c (AList.delete ip (bucket_of r c)) r) else (True, r))"

definition Registered :: "time \<Rightarrow> int \<Rightarrow> addr \<Rightarrow> reg \<Rightarrow> bool \<times> reg" where
  "Registered now clientID ip0 r =
     (let ip = normalize ip0 in
      if \<not> IsValid ip then (False, r)
      else case validLocked now clientID ip r of
             (True, r1) \<Rightarrow> (True, r1)
           | (False, r1) \<Rightarrow> validLocked now AnyClient ip r1)"

definition ParseAddrPort :: "string \<Rightarrow> addr option" where
  "ParseAddrPort s =
     (case LastIndexByte s (CHR '':'') of
        None \<Rightarrow> None
      | Some i \<Rightarrow>
          let host = take i s; port = drop (i + 1) s; v6 = (host \<noteq> [] \<and> hd host = CHR ''['') in
          if host = [] \<or> port = [] \<or> \<not> list_all is_digit port \<or> dec_val port > 65535 then None
          else if v6 \<and> (length host < 2 \<or> last host \<noteq> CHR '']'') then None
          else case ParseAddr (if v6 then butlast (tl host) else host) of
                 None \<Rightarrow> None
               | Some a \<Rightarrow> if v6 = Is4 a then None else Some a)"

definition ParseIP :: "string \<Rightarrow> addr option" where
  "ParseIP s = (case ParseAddrPort s of Some a \<Rightarrow> Some (normalize a) | None \<Rightarrow> map_option normalize (ParseAddr s))"

definition RegisteredString :: "time \<Rightarrow> int \<Rightarrow> string \<Rightarrow> reg \<Rightarrow> bool \<times> reg" where
  "RegisteredString now c s r = (case ParseIP s of None \<Rightarrow> (False, r) | Some ip \<Rightarrow> Registered now c ip r)"

datatype net_addr = NilAddr | SocketAddr "byte list" | OtherAddr string

fun addrIP :: "net_addr \<Rightarrow> addr option" where
  "addrIP NilAddr = None"
| "addrIP (SocketAddr bs) = (if IsValid (AddrFromSlice bs) then Some (normalize (AddrFromSlice bs)) else None)"
| "addrIP (OtherAddr s) = ParseIP s"

definition RegisteredAddr :: "time \<Rightarrow> int \<Rightarrow> net_addr \<Rightarrow> reg \<Rightarrow> bool \<times> reg" where
  "RegisteredAddr now c a r = (case addrIP a of None \<Rightarrow> (False, r) | Some ip \<Rightarrow> Registered now c ip r)"

text \<open>A nil set of clients means all buckets.\<close>

definition allowed :: "int set option \<Rightarrow> int \<Rightarrow> bool" where
  "allowed ids c = (case ids of None \<Rightarrow> True | Some s \<Rightarrow> c \<in> s)"

definition active :: "time \<Rightarrow> bucket \<Rightarrow> bucket" where "active now b = filter (\<lambda>(ip, until). until > now) b"

definition prune :: "time \<Rightarrow> int set option \<Rightarrow> reg \<Rightarrow> reg" where
  "prune now ids r = concat (map (\<lambda>(c, b). if \<not> allowed ids c then [(c, b)]
     else if active now b = [] then [] else [(c, active now b)]) r)"

definition listLocked :: "time \<Rightarrow> int set option \<Rightarrow> reg \<Rightarrow> registration list \<times> reg" where
  "listLocked now ids r =
     (let rows = concat (map (\<lambda>(c, b). if allowed ids c
            then map (\<lambda>(ip, until). \<lparr>ClientID = c, IP = ip, Until = until\<rparr>) (active now b) else []) r)
      in (sort_key (\<lambda>row. (ClientID row, addr_String (IP row))) rows, prune now ids r))"

definition List_all :: "time \<Rightarrow> reg \<Rightarrow> registration list \<times> reg" where "List_all now r = listLocked now None r"
definition ListForClients :: "time \<Rightarrow> int set \<Rightarrow> reg \<Rightarrow> registration list \<times> reg" where
  "ListForClients now ids r = listLocked now (Some ids) r"
definition Count :: "time \<Rightarrow> reg \<Rightarrow> nat" where "Count now r = length (fst (List_all now r))"
definition CountForClients :: "time \<Rightarrow> int set \<Rightarrow> reg \<Rightarrow> nat" where
  "CountForClients now ids r = length (fst (ListForClients now ids r))"

definition Revoke :: "int \<Rightarrow> addr \<Rightarrow> reg \<Rightarrow> bool \<times> reg" where
  "Revoke clientID ip0 r =
     (let ip = normalize ip0 in
      if \<not> IsValid ip then (False, r)
      else case map_of r clientID of
             None \<Rightarrow> (False, r)
           | Some byIP \<Rightarrow>
               if map_of byIP ip = None then (False, r)
               else
                 let byIP1 = AList.delete ip byIP in
                 (True, if byIP1 = [] then AList.delete clientID r else AList.update clientID byIP1 r))"

definition RevokeString :: "int \<Rightarrow> string \<Rightarrow> reg \<Rightarrow> bool \<times> reg" where
  "RevokeString c s r = (case ParseIP s of None \<Rightarrow> (False, r) | Some ip \<Rightarrow> Revoke c ip r)"

definition clearExpiredLocked :: "time \<Rightarrow> int set option \<Rightarrow> reg \<Rightarrow> nat \<times> reg" where
  "clearExpiredLocked now ids r =
     (sum_list (map (\<lambda>(c, b). if allowed ids c then length b - length (active now b) else 0) r), prune now ids r)"

definition Reset :: "reg \<Rightarrow> reg" where "Reset r = []"

definition ResetClients :: "int set \<Rightarrow> reg \<Rightarrow> nat \<times> reg" where
  "ResetClients ids r =
     (sum_list (map (\<lambda>(c, b). if c \<in> ids then length b else 0) r), filter (\<lambda>(c, b). c \<notin> ids) r)"

subsection \<open>The store as a map\<close>

definition until_of :: "reg \<Rightarrow> int \<Rightarrow> addr \<Rightarrow> time option" where
  "until_of r c ip = map_of (bucket_of r c) ip"

definition wf_reg :: "reg \<Rightarrow> bool" where
  "wf_reg r \<longleftrightarrow> distinct (map fst r) \<and> list_all (\<lambda>(c, b). distinct (map fst b)) r"

lemma wf_Nil [simp]: "wf_reg []"
  by (simp add: wf_reg_def)

lemma bucket_update [simp]: "bucket_of (AList.update c b r) c' = (if c' = c then b else bucket_of r c')"
  by (simp add: bucket_of_def update_conv')

lemma wf_bucket: "wf_reg r \<Longrightarrow> distinct (map fst (bucket_of r c))"
  by (auto simp: wf_reg_def bucket_of_def list_all_iff split: option.split dest: map_of_SomeD)

lemma set_alist_update: "set (AList.update k v al) \<subseteq> insert (k, v) (set al)"
  by (induction al) auto

lemma wf_update: "wf_reg r \<Longrightarrow> distinct (map fst b) \<Longrightarrow> wf_reg (AList.update c b r)"
  using set_alist_update [of c b r] by (auto simp: wf_reg_def list_all_iff distinct_update)

lemma distinct_map_fst_filter: "distinct (map fst xs) \<Longrightarrow> distinct (map fst (filter P xs))"
  by (induction xs) auto

lemma map_of_active:
  "distinct (map fst b) \<Longrightarrow> map_of (active now b) ip = (case map_of b ip of None \<Rightarrow> None | Some u \<Rightarrow> if u > now then Some u else None)"
proof (induction b)
  case (Cons e b)
  then have "map_of b (fst e) = None" by (simp add: map_of_eq_None_iff)
  then show ?case using Cons by (cases e) (auto simp: active_def split: option.splits)
qed (simp add: active_def)

lemma until_Register:
  assumes "IsValid (normalize ip)" "0 < ttl"
  shows "until_of (snd (Register now c ip ttl r)) c' ip' =
    (if c' = c \<and> ip' = normalize ip
     then Some (case until_of r c (normalize ip) of None \<Rightarrow> now + ttl | Some u \<Rightarrow> max u (now + ttl)) else until_of r c' ip')"
  using assms by (auto simp: Register_def until_of_def Let_def update_conv' split: option.split)

lemma until_validLocked:
  "until_of (snd (validLocked now c ip r)) c' ip' =
    (if c' = c \<and> ip' = ip \<and> (\<exists>u. until_of r c ip = Some u \<and> u \<le> now) then None else until_of r c' ip')"
  "fst (validLocked now c ip r) = (case until_of r c ip of None \<Rightarrow> False | Some u \<Rightarrow> u > now)"
  by (auto simp: validLocked_def until_of_def delete_conv' split: option.split)

lemma bucket_prune:
  "distinct (map fst r) \<Longrightarrow> bucket_of (prune now ids r) c = (if allowed ids c then active now (bucket_of r c) else bucket_of r c)"
proof (induction r)
  case (Cons e r)
  obtain k b where e: "e = (k, b)" by (cases e)
  have k: "bucket_of r k = []" "map_of (prune now ids r) k = None"
  proof -
    have "k \<notin> fst ` set r" using Cons.prems e by simp
    moreover then have "k \<notin> fst ` set (prune now ids r)" by (force simp: prune_def split: if_splits)
    ultimately show "bucket_of r k = []" "map_of (prune now ids r) k = None"
      by (auto simp: bucket_of_def map_of_eq_None_iff split: option.split) (metis map_of_eq_None_iff option.distinct(1))
  qed
  have s: "prune now ids (e # r) = (if \<not> allowed ids k then [(k, b)] else if active now b = [] then [] else [(k, active now b)]) @ prune now ids r"
    by (simp add: prune_def e)
  show ?case
  proof (cases "c = k")
    case True
    then show ?thesis unfolding s using k by (auto simp: e bucket_of_def active_def)
  next
    case False
    then have "bucket_of (prune now ids (e # r)) c = bucket_of (prune now ids r) c" "bucket_of (e # r) c = bucket_of r c"
      unfolding s by (auto simp: e bucket_of_def)
    then show ?thesis using Cons e by simp
  qed
qed (simp add: prune_def bucket_of_def active_def)

lemma until_prune:
  assumes "wf_reg r"
  shows "until_of (prune now ids r) c ip =
    (case until_of r c ip of None \<Rightarrow> None | Some u \<Rightarrow> if allowed ids c \<and> u \<le> now then None else Some u)"
  using assms wf_bucket [OF assms, of c]
  by (auto simp: until_of_def bucket_prune wf_reg_def map_of_active split: option.split)

lemma until_Revoke:
  "until_of (snd (Revoke c ip r)) c' ip' = (if IsValid (normalize ip) \<and> c' = c \<and> ip' = normalize ip then None else until_of r c' ip')"
proof (cases "map_of r c")
  case (Some b)
  have "AList.delete (normalize ip) b = [] \<Longrightarrow> ip' \<noteq> normalize ip \<Longrightarrow> map_of b ip' = None"
    by (metis map_of_delete map_of.simps(1))
  then show ?thesis using Some
    by (auto simp: Revoke_def until_of_def Let_def bucket_of_def delete_conv' update_conv' split: option.split)
qed (auto simp: Revoke_def until_of_def Let_def bucket_of_def)

lemma until_ResetClients: "until_of (snd (ResetClients ids r)) c ip = (if c \<in> ids then None else until_of r c ip)"
proof -
  have "map_of (filter (\<lambda>(c, b). c \<notin> ids) r) c = (if c \<in> ids then None else map_of r c)" by (induction r) auto
  then show ?thesis by (simp add: ResetClients_def until_of_def bucket_of_def)
qed

lemma distinct_rows:
  "wf_reg r \<Longrightarrow> distinct (concat (map (\<lambda>(c, b). if allowed ids c
     then map (\<lambda>(ip, until). \<lparr>ClientID = c, IP = ip, Until = until\<rparr>) (active now b) else []) r))"
proof (induction r)
  case (Cons e r)
  obtain c b where e: "e = (c, b)" by (cases e)
  have "distinct (active now b)"
    using Cons.prems e by (simp add: wf_reg_def active_def distinct_map)
  then have "distinct (map (\<lambda>(ip, until). \<lparr>ClientID = c, IP = ip, Until = until\<rparr>) (active now b))"
    by (auto simp: distinct_map inj_on_def)
  then show ?case using Cons e by (force simp: wf_reg_def)
qed simp

subsection \<open>Histories\<close>

datatype reg_op = OpRegister int addr int | OpRegistered int addr | OpRevoke int addr | OpList "int set option"
  | OpClearExpired "int set option" | OpResetClients "int set" | OpReset

fun reg_step :: "reg \<Rightarrow> time \<times> reg_op \<Rightarrow> reg" where
  "reg_step r (now, OpRegister c ip ttl) = snd (Register now c ip ttl r)"
| "reg_step r (now, OpRegistered c ip) = snd (Registered now c ip r)"
| "reg_step r (now, OpRevoke c ip) = snd (Revoke c ip r)"
| "reg_step r (now, OpList ids) = snd (listLocked now ids r)"
| "reg_step r (now, OpClearExpired ids) = snd (clearExpiredLocked now ids r)"
| "reg_step r (now, OpResetClients ids) = snd (ResetClients ids r)"
| "reg_step r (now, OpReset) = Reset r"

text \<open>What a history grants, latest operation first: a registration that has not run out and was not
  revoked or reset since.\<close>

fun granted :: "(time \<times> reg_op) list \<Rightarrow> int \<Rightarrow> addr \<Rightarrow> time \<Rightarrow> bool" where
  "granted [] c ip t = False"
| "granted ((now, OpRegister c' ip' ttl) # older) c ip t =
     ((IsValid (normalize ip') \<and> 0 < ttl \<and> c = c' \<and> ip = normalize ip' \<and> t < now + ttl) \<or> granted older c ip t)"
| "granted ((now, OpRevoke c' ip') # older) c ip t =
     (\<not> (IsValid (normalize ip') \<and> c = c' \<and> ip = normalize ip') \<and> granted older c ip t)"
| "granted ((now, OpResetClients ids) # older) c ip t = (c \<notin> ids \<and> granted older c ip t)"
| "granted ((now, OpReset) # older) c ip t = False"
| "granted ((now, OpRegistered c' ip') # older) c ip t = granted older c ip t"
| "granted ((now, OpList ids) # older) c ip t = granted older c ip t"
| "granted ((now, OpClearExpired ids) # older) c ip t = granted older c ip t"

definition live :: "reg \<Rightarrow> int \<Rightarrow> addr \<Rightarrow> time \<Rightarrow> bool" where
  "live r c ip t = (case until_of r c ip of None \<Rightarrow> False | Some u \<Rightarrow> t < u)"

lemma live_Revoke:
  "live (snd (Revoke c ip r)) c' ip' t = (\<not> (IsValid (normalize ip) \<and> c' = c \<and> ip' = normalize ip) \<and> live r c' ip' t)"
  by (simp add: live_def until_Revoke)

lemma live_ResetClients: "live (snd (ResetClients ids r)) c ip t = (c \<notin> ids \<and> live r c ip t)"
  by (simp add: live_def until_ResetClients)

lemma live_prune: "wf_reg r \<Longrightarrow> now \<le> t \<Longrightarrow> live (prune now ids r) c ip t = live r c ip t"
  by (auto simp: live_def until_prune split: option.split)

lemma live_Nil: "\<not> live [] c ip t"
  by (simp add: live_def until_of_def bucket_of_def)

lemma Registered_value:
  "fst (Registered now c ip r) = (IsValid (normalize ip) \<and> (live r c (normalize ip) now \<or> live r AnyClient (normalize ip) now))"
proof -
  obtain ok r1 where v: "validLocked now c (normalize ip) r = (ok, r1)" by (cases "validLocked now c (normalize ip) r")
  note a = until_validLocked [of now c "normalize ip" r, unfolded v, simplified]
  then have "\<not> ok \<Longrightarrow> c \<noteq> AnyClient \<Longrightarrow> until_of r1 AnyClient (normalize ip) = until_of r AnyClient (normalize ip)"
    "\<not> ok \<Longrightarrow> c = AnyClient \<Longrightarrow> until_of r1 c (normalize ip) = None"
    by (auto split: option.splits)
  then show ?thesis using a(2) v
    by (cases ok; cases "c = AnyClient") (auto simp: Registered_def live_def until_validLocked Let_def split: option.splits)
qed

lemma Registered_keeps_live: "t \<ge> now \<Longrightarrow> live (snd (Registered now c ip r)) c' ip' t = live r c' ip' t"
proof -
  assume t: "t \<ge> now"
  have v: "live (snd (validLocked now k a s)) c' ip' t = live s c' ip' t" for k a s
    using t by (auto simp: live_def until_validLocked split: option.split)
  show ?thesis
    using v [of c "normalize ip" r] v [of AnyClient "normalize ip" "snd (validLocked now c (normalize ip) r)"]
    by (auto simp: Registered_def Let_def split: prod.split bool.split)
qed

lemma wf_Registered: "wf_reg r \<Longrightarrow> wf_reg (snd (Registered now c ip r))"
proof -
  have v: "wf_reg s \<Longrightarrow> wf_reg (snd (validLocked now k a s))" for k a s
    by (auto simp: validLocked_def split: option.split intro!: wf_update distinct_delete wf_bucket)
  assume "wf_reg r"
  then show ?thesis using v [of r c "normalize ip"] v [of "snd (validLocked now c (normalize ip) r)" AnyClient "normalize ip"]
    by (auto simp: Registered_def Let_def split: prod.split bool.split)
qed

lemma wf_prune: "wf_reg r \<Longrightarrow> wf_reg (prune now ids r)"
proof (induction r)
  case (Cons e r)
  obtain k b where e: "e = (k, b)" by (cases e)
  have "k \<notin> fst ` set r" using Cons.prems e by (auto simp: wf_reg_def)
  then have "k \<notin> fst ` set (prune now ids r)" by (force simp: prune_def split: if_splits)
  moreover have "wf_reg (prune now ids r)" "distinct (map fst (active now b))"
    using Cons e by (auto simp: wf_reg_def active_def distinct_map_fst_filter)
  moreover have "prune now ids (e # r) = (if \<not> allowed ids k then [(k, b)] else if active now b = [] then [] else [(k, active now b)]) @ prune now ids r"
    by (simp add: prune_def e)
  ultimately show ?case using Cons.prems e by (auto simp: wf_reg_def)
qed (simp add: prune_def wf_reg_def)

lemma wf_step: "wf_reg r \<Longrightarrow> wf_reg (reg_step r e)"
proof (cases e)
  case (Pair now a)
  assume r: "wf_reg r"
  show ?thesis
  proof (cases a)
    case (OpRegister c ip ttl)
    then show ?thesis using r Pair
      by (auto simp: Register_def Let_def split: option.split intro!: wf_update distinct_update wf_bucket)
  next
    case (OpRevoke c ip)
    have "distinct (map fst b)" if "map_of r c = Some b" for b using wf_bucket [OF r, of c] that by (simp add: bucket_of_def)
    moreover have "wf_reg (AList.delete c r)"
      using r by (auto simp: wf_reg_def list_all_iff distinct_delete AList.delete_eq distinct_map_fst_filter)
    ultimately show ?thesis using r Pair OpRevoke
      by (auto simp: Revoke_def Let_def split: option.split intro!: wf_update distinct_delete)
  next
    case (OpResetClients ids)
    then show ?thesis using r Pair by (auto simp: ResetClients_def wf_reg_def distinct_map_fst_filter list_all_iff)
  qed (use r Pair in \<open>simp_all add: wf_Registered listLocked_def clearExpiredLocked_def wf_prune Let_def Reset_def\<close>)
qed

lemma step_granted:
  assumes "wf_reg r" "now \<le> t" "\<And>c ip. live r c ip t = granted older c ip t"
  shows "live (reg_step r (now, a)) c ip t = granted ((now, a) # older) c ip t"
proof (cases a)
  case (OpRegister c' ip' ttl)
  show ?thesis
  proof (cases "IsValid (normalize ip') \<and> 0 < ttl")
    case True
    then have "live (reg_step r (now, a)) c ip t = ((c = c' \<and> ip = normalize ip' \<and> t < now + ttl) \<or> live r c ip t)"
      using OpRegister by (auto simp: live_def until_Register less_max_iff_disj split: option.splits)
    then show ?thesis using True assms(3) OpRegister by auto
  next
    case False
    then have "reg_step r (now, a) = r" using OpRegister by (auto simp: Register_def Let_def)
    then show ?thesis using False assms(3) OpRegister by auto
  qed
qed (use assms in \<open>simp_all add: Registered_keeps_live live_Revoke live_ResetClients listLocked_def clearExpiredLocked_def
      live_prune Let_def Reset_def live_Nil\<close>)

lemma run_granted:
  assumes "sorted (map fst ops)" "list_all (\<lambda>(now, _). now \<le> t) ops"
  shows "wf_reg (foldl reg_step [] ops) \<and> (\<forall>c ip. live (foldl reg_step [] ops) c ip t = granted (rev ops) c ip t)"
  using assms
proof (induction ops rule: rev_induct)
  case Nil
  then show ?case by (simp add: wf_reg_def live_def until_of_def bucket_of_def)
next
  case (snoc e ops)
  obtain now a where e: "e = (now, a)" by (cases e)
  have IH: "wf_reg (foldl reg_step [] ops)" "\<And>c ip. live (foldl reg_step [] ops) c ip t = granted (rev ops) c ip t"
    using snoc by (auto simp: sorted_append)
  show ?case using IH(1) wf_step [OF IH(1)] step_granted [OF IH(1) _ IH(2), of now] snoc.prems e by (auto simp: list_all_iff)
qed

text \<open>C33 A visitor's address passes the registration check exactly when the history of the store says so: an
  earlier registration of that address in the client's bucket or in the public one has not run out, and no
  later revocation or reset covered it. Queries, listings and clean-ups in between, which all delete
  entries, never change an answer, and a shorter registration never shortens a longer one.\<close>

theorem registration_history_decides:
  assumes "sorted (map fst ops)" "list_all (\<lambda>(t, _). t \<le> now) ops"
  shows "fst (Registered now c ip (foldl reg_step [] ops)) =
    (IsValid ip \<and> (granted (rev ops) c (normalize ip) now \<or> granted (rev ops) AnyClient (normalize ip) now))"
proof -
  have "IsValid (normalize ip) = IsValid ip" by (simp add: normalize_def)
  then show ?thesis using run_granted [OF assms] by (simp add: Registered_value)
qed

lemma registration_history_decides_witness:
  "fst (Registered 100 7 (IP4 1) (foldl reg_step [] [(10, OpRegister 0 (IP4 1) 200), (20, OpList None), (30, OpRegister 0 (IP4 1) 5)]))"
  using registration_history_decides [of "[(10, OpRegister 0 (IP4 1) 200), (20, OpList None), (30, OpRegister 0 (IP4 1) 5)]" 100 7 "IP4 1"]
  by (simp add: normalize_def AnyClient_def)

text \<open>A listing for a set of clients shows every registration of their buckets that has not run out, each
  once and in order of client and address text, and none of another bucket; it leaves the other buckets
  as they are.\<close>

theorem listing_is_confined:
  assumes "wf_reg r"
  shows "set (fst (ListForClients now ids r)) = {\<lparr>ClientID = c, IP = ip, Until = u\<rparr> | c ip u. c \<in> ids \<and> until_of r c ip = Some u \<and> now < u} \<and>
    distinct (fst (ListForClients now ids r)) \<and>
    sorted (map (\<lambda>row. (ClientID row, addr_String (IP row))) (fst (ListForClients now ids r))) \<and>
    (\<forall>c ip. until_of (snd (ListForClients now ids r)) c ip =
      (if c \<in> ids \<and> \<not> live r c ip now then None else until_of r c ip))"
proof -
  have entry: "until_of r c ip = Some u \<longleftrightarrow> (\<exists>b. (c, b) \<in> set r \<and> (ip, u) \<in> set b)" for c ip u
  proof -
    have "until_of r c ip = Some u \<longleftrightarrow> (\<exists>b. map_of r c = Some b \<and> map_of b ip = Some u)"
      by (simp add: until_of_def bucket_of_def split: option.split)
    moreover have "map_of b ip = Some u \<longleftrightarrow> (ip, u) \<in> set b" if "(c, b) \<in> set r" for b
      using that assms by (intro map_of_eq_Some_iff) (auto simp: wf_reg_def list_all_iff)
    moreover have "map_of r c = Some b \<longleftrightarrow> (c, b) \<in> set r" for b
      using assms by (intro map_of_eq_Some_iff) (auto simp: wf_reg_def)
    ultimately show ?thesis by blast
  qed
  show ?thesis
  proof (intro conjI)
    show "set (fst (ListForClients now ids r)) = {\<lparr>ClientID = c, IP = ip, Until = u\<rparr> | c ip u. c \<in> ids \<and> until_of r c ip = Some u \<and> now < u}"
      unfolding entry set_eq_iff
    proof
      fix row
      have "row \<in> set (fst (ListForClients now ids r)) \<longleftrightarrow>
          (\<exists>e \<in> set r. fst e \<in> ids \<and> (\<exists>p \<in> set (active now (snd e)). row = \<lparr>ClientID = fst e, IP = fst p, Until = snd p\<rparr>))"
        by (auto simp: ListForClients_def listLocked_def Let_def allowed_def case_prod_beta image_iff)
      also have "\<dots> \<longleftrightarrow> row \<in> {\<lparr>ClientID = c, IP = ip, Until = u\<rparr> | c ip u. c \<in> ids \<and> (\<exists>b. (c, b) \<in> set r \<and> (ip, u) \<in> set b) \<and> now < u}"
        by (simp add: active_def Bex_def split_paired_Ex) blast
      finally show "row \<in> set (fst (ListForClients now ids r)) \<longleftrightarrow>
          row \<in> {\<lparr>ClientID = c, IP = ip, Until = u\<rparr> | c ip u. c \<in> ids \<and> (\<exists>b. (c, b) \<in> set r \<and> (ip, u) \<in> set b) \<and> now < u}" .
    qed
    show "distinct (fst (ListForClients now ids r))"
      using assms by (simp add: ListForClients_def listLocked_def Let_def distinct_rows)
    show "sorted (map (\<lambda>row. (ClientID row, addr_String (IP row))) (fst (ListForClients now ids r)))"
      by (simp add: ListForClients_def listLocked_def Let_def)
    show "\<forall>c ip. until_of (snd (ListForClients now ids r)) c ip = (if c \<in> ids \<and> \<not> live r c ip now then None else until_of r c ip)"
      using until_prune [OF assms, of now "Some ids"]
      by (auto simp: ListForClients_def listLocked_def Let_def allowed_def live_def split: option.split)
  qed
qed

lemma listing_is_confined_witness:
  "set (fst (ListForClients 10 {3} [(3, [(IP4 1, 50)]), (4, [(IP4 2, 60)])])) = {\<lparr>ClientID = 3, IP = IP4 1, Until = 50\<rparr>}"
proof -
  have "\<lparr>ClientID = c, IP = ip, Until = u\<rparr> = \<lparr>ClientID = 3, IP = IP4 1, Until = 50\<rparr> \<longleftrightarrow> c = 3 \<and> ip = IP4 1 \<and> u = 50" for c ip u by auto
  moreover have "until_of [(3, [(IP4 1, 50)]), (4, [(IP4 2, 60)])] 3 ip = Some u \<longleftrightarrow> ip = IP4 1 \<and> u = 50" for ip u
    by (auto simp: until_of_def bucket_of_def)
  ultimately show ?thesis
    using listing_is_confined [of "[(3, [(IP4 1, 50)]), (4, [(IP4 2, 60)])]" 10 "{3}"] by (auto simp: wf_reg_def)
qed

end
