(* ===== verification/Rate_Limit.thy ===== *)
theory Rate_Limit
  imports Prelude Complex_Main
begin

text \<open>
  Bandwidth limits: the token-bucket wrapper \<open>lib/rate/rate.go\<close>, the pair of buckets of
  \<open>lib/rate/directional.go\<close> and the configured limits of \<open>lib/file/rate_limits.go\<close>.

  \<^item> The limiter of \<open>golang.org/x/time/rate\<close> is third-party code: a parameter \<open>waitN\<close> that takes the
    limiter's state and a number of tokens and returns whether the wait succeeded. What the wrapper
    relies on is documented behaviour of \<open>WaitN\<close>: a request above the burst is an error.
  \<^item> \<open>int\<close> and \<open>int64\<close> are \<open>int\<close>; where their range matters it is written out (\<open>max_int64\<close>).
  \<^item> The parent of a \<open>Rate\<close> is the next element of a list, as every parent of the source has no parent.
  \<^item> Times are seconds; \<open>None\<close> is the zero time.
\<close>

definition max_int64 :: int where "max_int64 = 2 ^ 63 - 1"

subsection \<open>Buckets\<close>

record 'l rate =
  limiter :: 'l
  addSize :: int
  burst :: int
  consumed :: int
  NowRate :: int
  lazySample :: bool
  sampleAt :: "real option"
  stopped :: bool

definition clamp_burst :: "int \<Rightarrow> int" where
  "clamp_burst limit = (if limit < max_int64 then limit else max_int64)"

definition newRate :: "(int \<Rightarrow> int \<Rightarrow> 'l) \<Rightarrow> int \<Rightarrow> 'l rate" where
  "newRate newLimiter n =
     (let a = (if n < 0 then 0 else n); b = clamp_burst a
      in \<lparr>limiter = newLimiter a b, addSize = a, burst = b, consumed = 0, NowRate = 0, lazySample = False,
          sampleAt = None, stopped = False\<rparr>)"

definition NewStandaloneRate :: "(int \<Rightarrow> int \<Rightarrow> 'l) \<Rightarrow> real \<Rightarrow> int \<Rightarrow> 'l rate" where
  "NewStandaloneRate newLimiter now n = (newRate newLimiter n)\<lparr>lazySample := True, sampleAt := Some now\<rparr>"

text \<open>\<open>setAt\<close> stands for \<open>SetLimitAt\<close> and \<open>SetBurstAt\<close> of the limiter.\<close>

definition Rate_setLimit :: "('l \<Rightarrow> int \<Rightarrow> int \<Rightarrow> 'l) \<Rightarrow> int \<Rightarrow> 'l rate \<Rightarrow> 'l rate" where
  "Rate_setLimit setAt limit s =
     (let l = (if limit < 0 then 0 else limit); b = clamp_burst l
      in s\<lparr>addSize := l, burst := b, limiter := setAt (limiter s) l b\<rparr>)"

definition Rate_Limit :: "'l rate \<Rightarrow> int" where "Rate_Limit s = addSize s"

definition Rate_Stop :: "'l rate \<Rightarrow> 'l rate" where "Rate_Stop s = s\<lparr>stopped := True\<rparr>"

text \<open>The ticker of \<open>Start\<close>.\<close>

definition Rate_tick :: "'l rate \<Rightarrow> 'l rate" where
  "Rate_tick s = (if stopped s then s else s\<lparr>NowRate := consumed s, consumed := 0\<rparr>)"

definition Rate_sampleLazyRate :: "real \<Rightarrow> 'l rate \<Rightarrow> 'l rate" where
  "Rate_sampleLazyRate now s =
     (case sampleAt s of
        None \<Rightarrow> s\<lparr>sampleAt := Some now\<rparr>
      | Some t \<Rightarrow> if now - t < 1 then s
          else s\<lparr>NowRate := \<lfloor>of_int (consumed s) / (now - t)\<rfloor>, consumed := 0, sampleAt := Some now\<rparr>)"

definition Rate_CurrentRate :: "real \<Rightarrow> 'l rate \<Rightarrow> int \<times> 'l rate" where
  "Rate_CurrentRate now s =
     (if lazySample s then
        let s1 = Rate_sampleLazyRate now s
        in (if now - the (sampleAt s1) > 2 then 0 else NowRate s1, s1)
      else (NowRate s, s))"

text \<open>The loop of \<open>Get\<close>: the requests it makes of the limiter, and the limiter afterwards.\<close>

function wait_chunks :: "('l \<Rightarrow> int \<Rightarrow> bool \<times> 'l) \<Rightarrow> int \<Rightarrow> int \<Rightarrow> 'l \<Rightarrow> int list \<times> 'l" where
  "wait_chunks waitN b remaining l =
     (if remaining > 0 \<and> b > 0 then
        let chunk = (if remaining > b then b else remaining); (ok, l') = waitN l chunk
        in if ok then (case wait_chunks waitN b (remaining - chunk) l' of (cs, l'') \<Rightarrow> (chunk # cs, l''))
           else ([chunk], l')
      else ([], l))"
  by pat_completeness auto
termination
  by (relation "measure (\<lambda>(w, b, r, l). nat r)") (auto split: if_splits)

declare wait_chunks.simps [simp del]

text \<open>\<open>Get\<close> on a bucket and its parents, with the requests made at each level.\<close>

definition Rate_Get_one :: "('l \<Rightarrow> int \<Rightarrow> bool \<times> 'l) \<Rightarrow> real \<Rightarrow> int \<Rightarrow> 'l rate \<Rightarrow> int list \<times> 'l rate" where
  "Rate_Get_one waitN now n s =
     (let s1 = s\<lparr>consumed := consumed s + n\<rparr>;
          s2 = (if lazySample s1 then Rate_sampleLazyRate now s1 else s1)
      in if addSize s2 > 0 \<and> burst s2 > 0 then
           case wait_chunks waitN (burst s2) n (limiter s2) of (cs, l) \<Rightarrow> (cs, s2\<lparr>limiter := l\<rparr>)
         else ([], s2))"

definition Rate_Get :: "('l \<Rightarrow> int \<Rightarrow> bool \<times> 'l) \<Rightarrow> real \<Rightarrow> int \<Rightarrow> 'l rate list \<Rightarrow> (int list \<times> 'l rate) list" where
  "Rate_Get waitN now n chain = (if n \<le> 0 then map (Pair []) chain else map (Rate_Get_one waitN now n) chain)"

subsection \<open>Directional limiters\<close>

record 'l directional =
  upload :: "'l rate"
  download :: "'l rate"

definition normalizeLimit :: "int \<Rightarrow> int" where "normalizeLimit limit = (if limit < 0 then 0 else limit)"

definition NewDirectional :: "(int \<Rightarrow> int \<Rightarrow> 'l) \<Rightarrow> real \<Rightarrow> int \<Rightarrow> int \<Rightarrow> 'l directional" where
  "NewDirectional newLimiter now up down =
     \<lparr>upload = NewStandaloneRate newLimiter now (normalizeLimit up),
      download = NewStandaloneRate newLimiter now (normalizeLimit down)\<rparr>"

definition Directional_SetLimits :: "('l \<Rightarrow> int \<Rightarrow> int \<Rightarrow> 'l) \<Rightarrow> int \<Rightarrow> int \<Rightarrow> 'l directional \<Rightarrow> 'l directional" where
  "Directional_SetLimits setAt up down d =
     d\<lparr>upload := Rate_setLimit setAt (normalizeLimit up) (upload d),
       download := Rate_setLimit setAt (normalizeLimit down) (download d)\<rparr>"

definition Directional_Limits :: "'l directional \<Rightarrow> int \<times> int" where
  "Directional_Limits d = (Rate_Limit (upload d), Rate_Limit (download d))"

definition Directional_Upload :: "('l \<Rightarrow> int \<Rightarrow> bool \<times> 'l) \<Rightarrow> real \<Rightarrow> int \<Rightarrow> 'l directional \<Rightarrow> 'l directional" where
  "Directional_Upload waitN now n d =
     (if n \<le> 0 then d else d\<lparr>upload := snd (Rate_Get_one waitN now n (upload d))\<rparr>)"

definition Directional_Download :: "('l \<Rightarrow> int \<Rightarrow> bool \<times> 'l) \<Rightarrow> real \<Rightarrow> int \<Rightarrow> 'l directional \<Rightarrow> 'l directional" where
  "Directional_Download waitN now n d =
     (if n \<le> 0 then d else d\<lparr>download := snd (Rate_Get_one waitN now n (download d))\<rparr>)"

subsection \<open>Configured limits of a resource\<close>

record 'l rateLimits =
  UploadLimit :: int
  DownloadLimit :: int
  runtimeRate :: "'l directional option"

definition limitBytes :: "int \<Rightarrow> int" where
  "limitBytes k = (if k \<le> 0 then 0 else if k > max_int64 div 1024 then max_int64 else k * 1024)"

definition RateLimiter :: "(int \<Rightarrow> int \<Rightarrow> 'l) \<Rightarrow> real \<Rightarrow> 'l rateLimits \<Rightarrow> 'l directional \<times> 'l rateLimits" where
  "RateLimiter newLimiter now r =
     (case runtimeRate r of
        Some d \<Rightarrow> (d, r)
      | None \<Rightarrow> let d = NewDirectional newLimiter now (limitBytes (UploadLimit r)) (limitBytes (DownloadLimit r))
                in (d, r\<lparr>runtimeRate := Some d\<rparr>))"

definition SetRateLimits :: "('l \<Rightarrow> int \<Rightarrow> int \<Rightarrow> 'l) \<Rightarrow> int \<Rightarrow> int \<Rightarrow> 'l rateLimits \<Rightarrow> 'l rateLimits" where
  "SetRateLimits setAt up down r =
     (let u = (if up < 0 then 0 else up); d = (if down < 0 then 0 else down)
      in r\<lparr>UploadLimit := u, DownloadLimit := d,
           runtimeRate := map_option (Directional_SetLimits setAt (limitBytes u) (limitBytes d)) (runtimeRate r)\<rparr>)"

definition ClearUploadLimit :: "('l \<Rightarrow> int \<Rightarrow> int \<Rightarrow> 'l) \<Rightarrow> 'l rateLimits \<Rightarrow> 'l rateLimits" where
  "ClearUploadLimit setAt r = SetRateLimits setAt 0 (DownloadLimit r) r"

definition ClearDownloadLimit :: "('l \<Rightarrow> int \<Rightarrow> int \<Rightarrow> 'l) \<Rightarrow> 'l rateLimits \<Rightarrow> 'l rateLimits" where
  "ClearDownloadLimit setAt r = SetRateLimits setAt (UploadLimit r) 0 r"

definition rl_copyConfig :: "'l rateLimits \<Rightarrow> 'l rateLimits" where
  "rl_copyConfig r = \<lparr>UploadLimit = UploadLimit r, DownloadLimit = DownloadLimit r, runtimeRate = None\<rparr>"

text \<open>\<open>adopt\<close>: the new resource takes over the old one's buckets; both now share the object, so both
  results are returned.\<close>

definition rl_adopt ::
  "(int \<Rightarrow> int \<Rightarrow> 'l) \<Rightarrow> ('l \<Rightarrow> int \<Rightarrow> int \<Rightarrow> 'l) \<Rightarrow> real \<Rightarrow> 'l rateLimits \<Rightarrow> 'l rateLimits \<Rightarrow> 'l rateLimits \<times> 'l rateLimits" where
  "rl_adopt newLimiter setAt now old r =
     (let (d, old1) = RateLimiter newLimiter now old;
          d' = Directional_SetLimits setAt (limitBytes (UploadLimit r)) (limitBytes (DownloadLimit r)) d
      in (old1\<lparr>runtimeRate := Some d'\<rparr>, r\<lparr>runtimeRate := Some d'\<rparr>))"

subsection \<open>Lemmas\<close>

lemma limitBytes_range: "0 \<le> limitBytes k" "limitBytes k \<le> max_int64" "0 < limitBytes k \<longleftrightarrow> 0 < k"
  by (auto simp: limitBytes_def max_int64_def)

lemma limitBytes_mono: "j \<le> k \<Longrightarrow> limitBytes j \<le> limitBytes k"
  by (auto simp: limitBytes_def max_int64_def)

definition rate_ok :: "'l rate \<Rightarrow> bool" where
  "rate_ok s \<longleftrightarrow> 0 \<le> addSize s \<and> burst s = clamp_burst (addSize s)"

lemma setLimit_ok: "rate_ok (Rate_setLimit setAt l s)" "Rate_Limit (Rate_setLimit setAt l s) = max 0 l"
  by (auto simp: rate_ok_def Rate_setLimit_def Rate_Limit_def Let_def)

lemma newRate_ok: "rate_ok (newRate f l)" "rate_ok (NewStandaloneRate f t l)"
  by (auto simp: rate_ok_def newRate_def NewStandaloneRate_def Let_def)

text \<open>A wait that is asked for at most the burst is one the limiter can grant.\<close>

lemma wait_chunks_spec:
  assumes "0 \<le> n"
  shows "case wait_chunks waitN b n l of (cs, l') \<Rightarrow>
     (\<forall>c \<in> set cs. 0 < c \<and> c \<le> b) \<and> sum_list cs \<le> n \<and>
     ((\<forall>c s. c \<le> b \<longrightarrow> fst (waitN s c)) \<longrightarrow> 0 < b \<longrightarrow> sum_list cs = n)"
  using assms
proof (induction waitN b n l rule: wait_chunks.induct)
  case (1 waitN b remaining l)
  show ?case
  proof (cases "remaining > 0 \<and> b > 0")
    case False
    then show ?thesis using 1(2) by (subst wait_chunks.simps) auto
  next
    case True
    let ?chunk = "if remaining > b then b else remaining"
    obtain ok l1 where W: "waitN l ?chunk = (ok, l1)" by (cases "waitN l ?chunk")
    obtain cs l2 where R: "wait_chunks waitN b (remaining - ?chunk) l1 = (cs, l2)"
      by (cases "wait_chunks waitN b (remaining - ?chunk) l1")
    have E: "wait_chunks waitN b remaining l = (if ok then (?chunk # cs, l2) else ([?chunk], l1))"
      using True W R by (subst wait_chunks.simps) (simp add: Let_def)
    have IH: "ok \<Longrightarrow> (\<forall>c \<in> set cs. 0 < c \<and> c \<le> b) \<and> sum_list cs \<le> remaining - ?chunk \<and>
       ((\<forall>c s. c \<le> b \<longrightarrow> fst (waitN s c)) \<longrightarrow> sum_list cs = remaining - ?chunk)"
      using "1.IH" [OF True refl W [symmetric] refl] True R by auto
    show ?thesis
    proof (cases ok)
      case True
      then show ?thesis using E IH \<open>remaining > 0 \<and> b > 0\<close> by (auto split: if_splits)
    next
      case False
      have "\<not> fst (waitN l ?chunk)" using False W by simp
      then show ?thesis using E False \<open>remaining > 0 \<and> b > 0\<close> by (auto split: if_splits)
    qed
  qed
qed


lemma Directional_SetLimits_Limits:
  "Directional_Limits (Directional_SetLimits setAt u v d) = (max 0 u, max 0 v)"
  by (auto simp: Directional_Limits_def Directional_SetLimits_def setLimit_ok normalizeLimit_def)

lemma NewDirectional_Limits: "Directional_Limits (NewDirectional f t u v) = (max 0 u, max 0 v)"
  by (auto simp: Directional_Limits_def NewDirectional_def NewStandaloneRate_def newRate_def Let_def Rate_Limit_def
      normalizeLimit_def)

subsection \<open>Properties of the limits\<close>

text \<open>A transfer is charged in full at every level and only in requests the limiter can grant: when a wait
  for at most the burst succeeds, each bucket with a limit, up to the server-wide one, is asked for exactly the
  bytes transferred, in positive pieces of at most its burst; a bucket without a limit is not asked.\<close>

theorem Get_charges_every_level:
  assumes "0 < n" "\<forall>s \<in> set chain. rate_ok s"
    and "\<forall>s \<in> set chain. \<forall>l c. c \<le> burst s \<longrightarrow> fst (waitN l c)"
  shows "\<forall>(s, requests, s') \<in> set (zip chain (Rate_Get waitN now n chain)).
     sum_list requests = (if Rate_Limit s > 0 then n else 0) \<and>
     (\<forall>c \<in> set requests. 0 < c \<and> c \<le> burst s)"
proof -
  have "sum_list (fst (Rate_Get_one waitN now n s)) = (if Rate_Limit s > 0 then n else 0) \<and>
      (\<forall>c \<in> set (fst (Rate_Get_one waitN now n s)). 0 < c \<and> c \<le> burst s)"
    if s: "s \<in> set chain" for s
  proof -
    let ?s = "if lazySample s then Rate_sampleLazyRate now (s\<lparr>consumed := consumed s + n\<rparr>)
              else s\<lparr>consumed := consumed s + n\<rparr>"
    have k: "addSize ?s = addSize s" "burst ?s = burst s"
      by (simp_all add: Rate_sampleLazyRate_def split: option.split)
    have b: "0 < addSize s \<Longrightarrow> 0 < burst s"
      using assms(2) s by (auto simp: rate_ok_def clamp_burst_def max_int64_def)
    have g: "\<forall>c l. c \<le> burst s \<longrightarrow> fst (waitN l c)" using assms(3) s by blast
    obtain cs l where W: "wait_chunks waitN (burst s) n (limiter ?s) = (cs, l)"
      by (cases "wait_chunks waitN (burst s) n (limiter ?s)")
    have "(\<forall>c \<in> set cs. 0 < c \<and> c \<le> burst s)" "0 < burst s \<Longrightarrow> sum_list cs = n"
      using wait_chunks_spec [where n = n and waitN = waitN and b = "burst s" and l = "limiter ?s"] W g assms(1) by auto
    moreover have "fst (Rate_Get_one waitN now n s) = (if 0 < addSize s \<and> 0 < burst s then cs else [])"
      using k W by (auto simp: Rate_Get_one_def Let_def)
    ultimately show ?thesis using b by (auto simp: Rate_Limit_def)
  qed
  then show ?thesis using assms(1) by (auto simp: Rate_Get_def set_zip) (metis fst_conv nth_mem)+
qed

text \<open>A limiter that counts the tokens handed out.\<close>

definition counting_waitN :: "int \<Rightarrow> int \<Rightarrow> bool \<times> int" where "counting_waitN l c = (True, l + c)"

theorem Get_charges_every_level_witness:
  "list_all (\<lambda>(s, requests, s'). sum_list requests = (if Rate_Limit s > 0 then 2500 else 0) \<and>
       list_all (\<lambda>c. 0 < c \<and> c \<le> burst s) requests)
     (zip [newRate (\<lambda>_ _. 0 :: int) 1000, newRate (\<lambda>_ _. 0) 0]
        (Rate_Get counting_waitN 0 2500 [newRate (\<lambda>_ _. 0) 1000, newRate (\<lambda>_ _. 0) 0]))"
proof -
  let ?chain = "[newRate (\<lambda>_ _. 0 :: int) 1000, newRate (\<lambda>_ _. 0) 0]"
  have a: "\<forall>s \<in> set ?chain. rate_ok s" by (simp add: newRate_ok)
  have b: "\<forall>s \<in> set ?chain. \<forall>l c. c \<le> burst s \<longrightarrow> fst (counting_waitN l c)" by (simp add: counting_waitN_def)
  have "(0 :: int) < 2500" by simp
  from Get_charges_every_level [OF this a b, of 0] show ?thesis by (simp only: list_all_iff)
qed

text \<open>Editing limits reaches live connections: after \<open>SetRateLimits\<close> the buckets of the resource, whether
  they already exist or are created by the next connection, have exactly the configured limits in bytes per
  second, saturated at the largest \<open>int64\<close>; the bytes already counted by live buckets are kept; and a
  resource object that replaces another adopts its live buckets with its own limits.\<close>

theorem SetRateLimits_reaches_live_buckets:
  shows "Directional_Limits (fst (RateLimiter newL now (SetRateLimits setAt up down r))) =
       (limitBytes (max 0 up), limitBytes (max 0 down)) \<and>
     (case runtimeRate r of None \<Rightarrow> True | Some d \<Rightarrow>
       \<exists>d'. runtimeRate (SetRateLimits setAt up down r) = Some d' \<and>
         consumed (upload d') = consumed (upload d) \<and> consumed (download d') = consumed (download d)) \<and>
     (case rl_adopt newL setAt now old r of (old', r') \<Rightarrow> runtimeRate r' = runtimeRate old' \<and>
       map_option Directional_Limits (runtimeRate r') = Some (limitBytes (UploadLimit r), limitBytes (DownloadLimit r)))"
proof (intro conjI)
  have m: "max 0 (limitBytes k) = limitBytes k" for k using limitBytes_range(1) [of k] by simp
  have u: "(if k < 0 then 0 else k) = max 0 k" for k :: int by (simp add: max_def)
  show "Directional_Limits (fst (RateLimiter newL now (SetRateLimits setAt up down r))) =
       (limitBytes (max 0 up), limitBytes (max 0 down))"
    unfolding SetRateLimits_def Let_def u RateLimiter_def
    by (auto simp: Directional_SetLimits_Limits NewDirectional_Limits m split: option.splits)
  show "(case runtimeRate r of None \<Rightarrow> True | Some d \<Rightarrow>
       \<exists>d'. runtimeRate (SetRateLimits setAt up down r) = Some d' \<and>
         consumed (upload d') = consumed (upload d) \<and> consumed (download d') = consumed (download d))"
    by (simp add: SetRateLimits_def Let_def Directional_SetLimits_def Rate_setLimit_def split: option.split)
  show "(case rl_adopt newL setAt now old r of (old', r') \<Rightarrow> runtimeRate r' = runtimeRate old' \<and>
       map_option Directional_Limits (runtimeRate r') = Some (limitBytes (UploadLimit r), limitBytes (DownloadLimit r)))"
    by (simp add: rl_adopt_def Let_def Directional_SetLimits_Limits m split: prod.split)
qed

end
