(* ===== verification/Admission.thy ===== *)
theory Admission
  imports Rate_Limit
begin

text \<open>
  Connection admission: the server-wide counter of \<open>lib/file/global_connections.go\<close>, the per-user
  counters of \<open>lib/file/user_runtime.go\<close>, and \<open>GetConn\<close>, \<open>AddConn\<close> and the tunnel counter of
  \<open>lib/file/obj.go\<close>.

  \<^item> Every counter changes by one compare-and-swap; an operation on a counter is that exchange. The
    re-check of the limit after the exchange reads the limit again: the model passes the limit that is
    then read (\<open>limit'\<close>), so a concurrent settings change is covered.
  \<^item> \<open>GetConn\<close> takes its three slots one after the other; the model runs it without another
    admission in between.
  \<^item> Counters and limits are \<open>int\<close>: 2^31 simultaneous connections are out of reach.
\<close>

subsection \<open>The contract of a bounded counter\<close>

text \<open>A limit that is not positive means unlimited.\<close>

definition has_room :: "int \<Rightarrow> int \<Rightarrow> bool" where
  "has_room limit now \<longleftrightarrow> limit \<le> 0 \<or> now < limit"

locale bounded_counter =
  fixes lim :: "'s \<Rightarrow> int" and now :: "'s \<Rightarrow> int"
    and acquire :: "'s \<Rightarrow> bool \<times> 's" and release :: "'s \<Rightarrow> 's"
  assumes acquire_grants: "has_room (lim s) (now s) \<Longrightarrow>
      fst (acquire s) \<and> now (snd (acquire s)) = now s + 1 \<and> lim (snd (acquire s)) = lim s"
    and acquire_refuses: "\<not> has_room (lim s) (now s) \<Longrightarrow> acquire s = (False, s)"
    and release_now: "0 < now s \<Longrightarrow> now (release s) = now s - 1"
    and release_floor: "now s = 0 \<Longrightarrow> now (release s) = 0"
    and release_lim: "lim (release s) = lim s"
begin

text \<open>Requests and releases in any order, with the number of slots held; a release without a slot is
  ignored by callers.\<close>

fun run :: "bool list \<Rightarrow> nat \<times> 's \<Rightarrow> nat \<times> 's" where
  "run [] (held, s) = (held, s)"
| "run (True # ops) (held, s) = (case acquire s of (ok, s') \<Rightarrow> run ops (if ok then Suc held else held, s'))"
| "run (False # ops) (held, s) = (if held = 0 then run ops (held, s) else run ops (held - 1, release s))"

lemma run_counts:
  "now s = int held \<Longrightarrow> (lim s \<le> 0 \<or> now s \<le> lim s) \<Longrightarrow>
     (case run ops (held, s) of (held', s') \<Rightarrow> now s' = int held' \<and> lim s' = lim s \<and> (lim s' \<le> 0 \<or> now s' \<le> lim s'))"
proof (induction ops arbitrary: held s)
  case (Cons b ops)
  show ?case
  proof (cases b)
    case True
    obtain ok s' where a: "acquire s = (ok, s')" by (cases "acquire s")
    show ?thesis
    proof (cases "has_room (lim s) (now s)")
      case room: True
      then have "ok" "now s' = now s + 1" "lim s' = lim s" using acquire_grants [OF room] a by simp_all
      then show ?thesis using Cons.IH [of s' "Suc held"] Cons.prems room True a
        by (auto simp: has_room_def)
    next
      case False
      then have "ok = False" "s' = s" using acquire_refuses [OF False] a by simp_all
      then show ?thesis using Cons True a by simp
    qed
  next
    case False
    show ?thesis
    proof (cases "held = 0")
      case True
      then show ?thesis using Cons False by simp
    next
      case pos: False
      have "now (release s) = int (held - 1)" "lim (release s) = lim s"
        using release_now [of s] release_lim [of s] Cons.prems pos by auto
      moreover have "lim s \<le> 0 \<or> now s - 1 \<le> lim s" using Cons.prems by auto
      ultimately show ?thesis using Cons.IH [of "release s" "held - 1"] Cons.prems pos False by auto
    qed
  qed
qed simp

lemma acquire_iff: "fst (acquire s) = has_room (lim s) (now s)"
  using acquire_grants [of s] acquire_refuses [of s] by (cases "has_room (lim s) (now s)") auto

end

subsection \<open>The server-wide counter\<close>

record globalConn =
  globalMaxConn :: int
  globalNowConn :: int

definition SetGlobalMaxConn :: "int \<Rightarrow> globalConn \<Rightarrow> globalConn" where
  "SetGlobalMaxConn limit g = g\<lparr>globalMaxConn := (if limit < 0 then 0 else limit)\<rparr>"

definition GlobalConnections :: "globalConn \<Rightarrow> int \<times> int" where
  "GlobalConnections g = (globalNowConn g, globalMaxConn g)"

text \<open>The body of \<open>acquireGlobalConn\<close> with the limit that the re-check reads.\<close>

definition acquireGlobalConn_at :: "int \<Rightarrow> globalConn \<Rightarrow> bool \<times> globalConn" where
  "acquireGlobalConn_at limit' g =
     (let limit = globalMaxConn g; current = globalNowConn g in
      if limit > 0 \<and> current \<ge> limit then (False, g)
      else let g1 = g\<lparr>globalNowConn := current + 1\<rparr> in
        if limit > 0 \<and> limit' > 0 \<and> current + 1 > limit'
        then (False, g1\<lparr>globalNowConn := globalNowConn g1 - 1\<rparr>)
        else (True, g1))"

definition acquireGlobalConn :: "globalConn \<Rightarrow> bool \<times> globalConn" where
  "acquireGlobalConn g = acquireGlobalConn_at (globalMaxConn g) g"

definition releaseGlobalConn :: "globalConn \<Rightarrow> globalConn" where
  "releaseGlobalConn g = (if globalNowConn g \<le> 0 then g else g\<lparr>globalNowConn := globalNowConn g - 1\<rparr>)"

interpretation global: bounded_counter globalMaxConn globalNowConn acquireGlobalConn releaseGlobalConn
  by unfold_locales (auto simp: acquireGlobalConn_def acquireGlobalConn_at_def releaseGlobalConn_def has_room_def Let_def)

subsection \<open>The tunnel counter\<close>

record tunnelConn =
  tMaxConn :: int
  CurrentConnections :: int

definition TryAcquireConn :: "tunnelConn \<Rightarrow> bool \<times> tunnelConn" where
  "TryAcquireConn t =
     (if tMaxConn t > 0 \<and> CurrentConnections t \<ge> tMaxConn t then (False, t)
      else (True, t\<lparr>CurrentConnections := CurrentConnections t + 1\<rparr>))"

definition ReleaseConn :: "tunnelConn \<Rightarrow> tunnelConn" where
  "ReleaseConn t =
     (let t1 = t\<lparr>CurrentConnections := CurrentConnections t - 1\<rparr>
      in if CurrentConnections t1 < 0 then t1\<lparr>CurrentConnections := 0\<rparr> else t1)"

interpretation tunnel: bounded_counter tMaxConn CurrentConnections TryAcquireConn ReleaseConn
  by unfold_locales (auto simp: TryAcquireConn_def ReleaseConn_def has_room_def Let_def)

subsection \<open>Per-user counters\<close>

record 'l userRuntimeState =
  maxConn :: int
  nowConn :: int
  urate :: "'l directional"

type_synonym 'l registry = "int \<rightharpoonup> 'l userRuntimeState"

text \<open>\<open>fresh\<close> is \<open>rate.NewDirectional(0, 0)\<close>.\<close>

definition userRuntimeFor :: "'l directional \<Rightarrow> int \<Rightarrow> bool \<Rightarrow> 'l registry \<Rightarrow> 'l userRuntimeState option \<times> 'l registry" where
  "userRuntimeFor fresh userID create reg =
     (if userID \<le> 0 then (None, reg)
      else case reg userID of
          Some st \<Rightarrow> (Some st, reg)
        | None \<Rightarrow> if create then
            let st = \<lparr>maxConn = 0, nowConn = 0, urate = fresh\<rparr> in (Some st, reg(userID \<mapsto> st))
          else (None, reg))"

definition SetUserRuntimeLimits ::
  "'l directional \<Rightarrow> ('l \<Rightarrow> int \<Rightarrow> int \<Rightarrow> 'l) \<Rightarrow> int \<Rightarrow> int \<Rightarrow> int \<Rightarrow> int \<Rightarrow> 'l registry \<Rightarrow> 'l registry" where
  "SetUserRuntimeLimits fresh setAt userID mc up down reg =
     (case userRuntimeFor fresh userID True reg of
        (None, reg1) \<Rightarrow> reg1
      | (Some st, reg1) \<Rightarrow> reg1(userID \<mapsto> st\<lparr>maxConn := (if mc < 0 then 0 else mc),
            urate := Directional_SetLimits setAt (limitBytes up) (limitBytes down) (urate st)\<rparr>))"

definition CleanupUserRuntime :: "int \<Rightarrow> 'l registry \<Rightarrow> 'l registry" where
  "CleanupUserRuntime userID reg = (if userID \<le> 0 then reg else reg(userID := None))"

text \<open>The counter of one user, and \<open>acquireUserConnection\<close> and \<open>releaseUserConnection\<close> on the registry.\<close>

definition user_acquire_at :: "int \<Rightarrow> 'l userRuntimeState \<Rightarrow> bool \<times> 'l userRuntimeState" where
  "user_acquire_at limit' st =
     (let limit = maxConn st; current = nowConn st in
      if limit > 0 \<and> current \<ge> limit then (False, st)
      else let st1 = st\<lparr>nowConn := current + 1\<rparr> in
        if limit' > 0 \<and> current + 1 > limit' then (False, st1\<lparr>nowConn := nowConn st1 - 1\<rparr>) else (True, st1))"

definition user_acquire :: "'l userRuntimeState \<Rightarrow> bool \<times> 'l userRuntimeState" where
  "user_acquire st = user_acquire_at (maxConn st) st"

definition user_release :: "'l userRuntimeState \<Rightarrow> 'l userRuntimeState" where
  "user_release st = (if nowConn st \<le> 0 then st else st\<lparr>nowConn := nowConn st - 1\<rparr>)"

interpretation user: bounded_counter maxConn nowConn user_acquire user_release
  by unfold_locales (auto simp: user_acquire_def user_acquire_at_def user_release_def has_room_def Let_def)

definition acquireUserConnection :: "'l directional \<Rightarrow> int \<Rightarrow> 'l registry \<Rightarrow> (int \<times> bool \<times> bool) \<times> 'l registry" where
  "acquireUserConnection fresh userID reg =
     (case userRuntimeFor fresh userID True reg of
        (None, reg1) \<Rightarrow> ((0, False, True), reg1)
      | (Some st, reg1) \<Rightarrow>
          (case user_acquire st of
             (False, st1) \<Rightarrow> ((0, False, False), reg1(userID \<mapsto> st1))
           | (True, st1) \<Rightarrow> ((userID, True, True), reg1(userID \<mapsto> st1))))"

definition releaseUserConnection :: "int \<Rightarrow> 'l registry \<Rightarrow> 'l registry" where
  "releaseUserConnection userID reg =
     (if userID \<le> 0 then reg else case reg userID of None \<Rightarrow> reg | Some st \<Rightarrow> reg(userID \<mapsto> user_release st))"

definition userConnections :: "int \<Rightarrow> 'l registry \<Rightarrow> int \<times> int" where
  "userConnections userID reg =
     (if userID \<le> 0 then (0, 0) else case reg userID of None \<Rightarrow> (0, 0) | Some st \<Rightarrow> (nowConn st, maxConn st))"

definition UserRateLimiter :: "'l directional \<Rightarrow> int \<Rightarrow> 'l registry \<Rightarrow> 'l directional option \<times> 'l registry" where
  "UserRateLimiter fresh userID reg =
     (case userRuntimeFor fresh userID True reg of (None, reg1) \<Rightarrow> (None, reg1) | (Some st, reg1) \<Rightarrow> (Some (urate st), reg1))"

subsection \<open>Admission of a connection of a client\<close>

record clientConn =
  cUserId :: int
  cMaxConn :: int
  NowConn :: int
  userConnOwners :: "int list"

record 'l admission =
  glob :: globalConn
  users :: "'l registry"
  clients :: "clientConn list"

definition Client_CutConn :: "clientConn \<Rightarrow> clientConn" where
  "Client_CutConn c = c\<lparr>NowConn := NowConn c + 1\<rparr>"

definition Client_rememberUserConn :: "int \<Rightarrow> bool \<Rightarrow> clientConn \<Rightarrow> clientConn" where
  "Client_rememberUserConn userID accounted c =
     (if \<not> accounted then c else c\<lparr>userConnOwners := userConnOwners c @ [userID]\<rparr>)"

definition rollback_user :: "int \<Rightarrow> bool \<Rightarrow> 'l admission \<Rightarrow> 'l admission" where
  "rollback_user u accounted s = (if accounted then s\<lparr>users := releaseUserConnection u (users s)\<rparr> else s)"

definition put_client :: "nat \<Rightarrow> clientConn \<Rightarrow> 'l admission \<Rightarrow> 'l admission" where
  "put_client i c s = s\<lparr>clients := (clients s)[i := c]\<rparr>"

definition Client_GetConn :: "'l directional \<Rightarrow> nat \<Rightarrow> 'l admission \<Rightarrow> bool \<times> 'l admission" where
  "Client_GetConn fresh i s =
     (let c = clients s ! i;
          ((u, accounted, allowed), reg) = acquireUserConnection fresh (cUserId c) (users s);
          s1 = s\<lparr>users := reg\<rparr>
      in if \<not> allowed then (False, s1)
         else if cMaxConn c > 0 \<and> NowConn c \<ge> cMaxConn c then (False, rollback_user u accounted s1)
         else
           let c1 = Client_CutConn c; s2 = put_client i c1 s1
           in case acquireGlobalConn (glob s2) of
                (True, g) \<Rightarrow> (True, put_client i (Client_rememberUserConn u accounted c1) (s2\<lparr>glob := g\<rparr>))
              | (False, g) \<Rightarrow>
                  (False, rollback_user u accounted (put_client i (c1\<lparr>NowConn := NowConn c1 - 1\<rparr>) (s2\<lparr>glob := g\<rparr>))))"

definition Client_AddConn :: "nat \<Rightarrow> 'l admission \<Rightarrow> 'l admission" where
  "Client_AddConn i s =
     (let c = clients s ! i;
          s1 = (if NowConn c \<le> 0 then s
                else (put_client i (c\<lparr>NowConn := NowConn c - 1\<rparr>) s)\<lparr>glob := releaseGlobalConn (glob s)\<rparr>);
          c1 = clients s1 ! i
      in if userConnOwners c1 \<noteq> [] then
           let s2 = put_client i (c1\<lparr>userConnOwners := butlast (userConnOwners c1)\<rparr>) s1
           in s2\<lparr>users := releaseUserConnection (last (userConnOwners c1)) (users s2)\<rparr>
         else s1)"


subsection \<open>What a request takes, and what a refusal gives back\<close>

definition user_now :: "int \<Rightarrow> 'l registry \<Rightarrow> int" where "user_now u reg = fst (userConnections u reg)"
definition user_lim :: "int \<Rightarrow> 'l registry \<Rightarrow> int" where "user_lim u reg = snd (userConnections u reg)"

lemma user_now_upd:
  "0 < u \<Longrightarrow> user_now v (reg(u \<mapsto> st)) = (if v = u then nowConn st else user_now v reg)"
  "0 < u \<Longrightarrow> user_lim v (reg(u \<mapsto> st)) = (if v = u then maxConn st else user_lim v reg)"
  by (auto simp: user_now_def user_lim_def userConnections_def)

lemma user_now_absent: "u \<le> 0 \<or> reg u = None \<Longrightarrow> user_now u reg = 0 \<and> user_lim u reg = 0"
  by (auto simp: user_now_def user_lim_def userConnections_def)

lemma user_now_present: "0 < u \<Longrightarrow> reg u = Some st \<Longrightarrow> user_now u reg = nowConn st \<and> user_lim u reg = maxConn st"
  by (simp add: user_now_def user_lim_def userConnections_def)

lemma userRuntimeFor_create:
  assumes "0 < u"
  shows "\<exists>st. userRuntimeFor fresh u True reg = (Some st, reg(u \<mapsto> st)) \<and> nowConn st = user_now u reg \<and> maxConn st = user_lim u reg"
  using assms by (cases "reg u")
    (auto simp: userRuntimeFor_def user_now_def user_lim_def userConnections_def fun_upd_idem Let_def)

lemma acquireUser_spec:
  assumes "acquireUserConnection fresh u reg = ((w, accounted, allowed), reg')"
  shows "allowed = (u \<le> 0 \<or> has_room (user_lim u reg) (user_now u reg))"
    "accounted = (allowed \<and> 0 < u)" "accounted \<Longrightarrow> w = u" "user_lim v reg' = user_lim v reg"
    "user_now v reg' = user_now v reg + (if accounted \<and> v = u then 1 else 0)"
    "accounted \<Longrightarrow> reg' u \<noteq> None"
proof -
  have "allowed = (u \<le> 0 \<or> has_room (user_lim u reg) (user_now u reg)) \<and> accounted = (allowed \<and> 0 < u) \<and>
    (accounted \<longrightarrow> w = u) \<and> user_lim v reg' = user_lim v reg \<and>
    user_now v reg' = user_now v reg + (if accounted \<and> v = u then 1 else 0) \<and> (accounted \<longrightarrow> reg' u \<noteq> None)"
  proof (cases "0 < u")
    case False
    then show ?thesis using assms by (auto simp: acquireUserConnection_def userRuntimeFor_def)
  next
    case True
    obtain st where st: "userRuntimeFor fresh u True reg = (Some st, reg(u \<mapsto> st))" "nowConn st = user_now u reg"
      "maxConn st = user_lim u reg"
      using userRuntimeFor_create [OF True] by blast
    obtain ok st1 where a: "user_acquire st = (ok, st1)" by (cases "user_acquire st")
    have ok: "ok = has_room (user_lim u reg) (user_now u reg)" using user.acquire_iff [of st] a st by simp
    have st1: "maxConn st1 = maxConn st" "nowConn st1 = nowConn st + (if ok then 1 else 0)"
      using user.acquire_grants [of st] user.acquire_refuses [of st] a ok st by (cases ok; auto)+
    show ?thesis using assms st a ok st1 True
      by (cases ok) (auto simp: acquireUserConnection_def user_now_upd)
  qed
  then show "allowed = (u \<le> 0 \<or> has_room (user_lim u reg) (user_now u reg))"
    "accounted = (allowed \<and> 0 < u)" "accounted \<Longrightarrow> w = u" "user_lim v reg' = user_lim v reg"
    "user_now v reg' = user_now v reg + (if accounted \<and> v = u then 1 else 0)"
    "accounted \<Longrightarrow> reg' u \<noteq> None" by blast+
qed

lemma releaseUser_spec:
  "user_lim v (releaseUserConnection u reg) = user_lim v reg"
  "0 \<le> user_now u reg \<Longrightarrow> user_now v (releaseUserConnection u reg) =
     (if v = u then max 0 (user_now u reg - 1) else user_now v reg)"
proof -
  show "user_lim v (releaseUserConnection u reg) = user_lim v reg"
    by (auto simp: releaseUserConnection_def user_lim_def userConnections_def user_release_def split: option.split)
  show "0 \<le> user_now u reg \<Longrightarrow> user_now v (releaseUserConnection u reg) =
     (if v = u then max 0 (user_now u reg - 1) else user_now v reg)"
    by (auto simp: releaseUserConnection_def user_now_def userConnections_def user_release_def split: option.split)
qed

definition admits :: "nat \<Rightarrow> 'l admission \<Rightarrow> bool" where
  "admits i s \<longleftrightarrow> (let c = clients s ! i in
     (cUserId c \<le> 0 \<or> has_room (user_lim (cUserId c) (users s)) (user_now (cUserId c) (users s))) \<and>
     has_room (cMaxConn c) (NowConn c) \<and> has_room (globalMaxConn (glob s)) (globalNowConn (glob s)))"

lemma GetConn_spec:
  assumes "i < length (clients s)" "0 \<le> user_now (cUserId (clients s ! i)) (users s)"
    and "Client_GetConn fresh i s = (ok, s')"
  defines "c \<equiv> clients s ! i"
  shows "ok = admits i s"
    "clients s' = (if ok then (clients s)[i := c\<lparr>NowConn := NowConn c + 1,
        userConnOwners := userConnOwners c @ (if 0 < cUserId c then [cUserId c] else [])\<rparr>] else clients s)"
    "globalNowConn (glob s') = globalNowConn (glob s) + (if ok then 1 else 0)"
    "globalMaxConn (glob s') = globalMaxConn (glob s)"
    "user_now u (users s') = user_now u (users s) + (if ok \<and> 0 < u \<and> u = cUserId c then 1 else 0)"
    "user_lim u (users s') = user_lim u (users s)"
proof -
  obtain w accounted allowed reg where A: "acquireUserConnection fresh (cUserId c) (users s) = ((w, accounted, allowed), reg)"
    by (metis prod_cases3 prod.exhaust)
  note a = acquireUser_spec [OF A]
  obtain okg g where G: "acquireGlobalConn (glob s) = (okg, g)" by (cases "acquireGlobalConn (glob s)")
  have g: "okg = has_room (globalMaxConn (glob s)) (globalNowConn (glob s))" "globalMaxConn g = globalMaxConn (glob s)"
    "globalNowConn g = globalNowConn (glob s) + (if okg then 1 else 0)"
    using global.acquire_iff [of "glob s"] global.acquire_grants [of "glob s"] global.acquire_refuses [of "glob s"] G
    by (cases okg; auto)+
  have rb: "user_now u (if accounted then releaseUserConnection w reg else reg) = user_now u (users s)"
    "user_lim u (if accounted then releaseUserConnection w reg else reg) = user_lim u (users s)" for u
    using a(3,4,5) releaseUser_spec [where u = w and reg = reg] assms(2) by (auto simp: c_def)
  have same: "(clients s)[i := c] = clients s" by (simp add: c_def)
  have "ok = admits i s \<and> clients s' = (if ok then (clients s)[i := c\<lparr>NowConn := NowConn c + 1,
        userConnOwners := userConnOwners c @ (if 0 < cUserId c then [cUserId c] else [])\<rparr>] else clients s) \<and>
    globalNowConn (glob s') = globalNowConn (glob s) + (if ok then 1 else 0) \<and>
    globalMaxConn (glob s') = globalMaxConn (glob s) \<and>
    user_now u (users s') = user_now u (users s) + (if ok \<and> 0 < u \<and> u = cUserId c then 1 else 0) \<and>
    user_lim u (users s') = user_lim u (users s)"
  proof (cases "allowed \<and> has_room (cMaxConn c) (NowConn c) \<and> okg")
    case True
    then have "\<not> (cMaxConn c > 0 \<and> NowConn c \<ge> cMaxConn c)" by (auto simp: has_room_def)
    then show ?thesis
      using True assms(1,3) A G a g
      by (auto simp: Client_GetConn_def Let_def c_def [symmetric] put_client_def Client_CutConn_def
          Client_rememberUserConn_def admits_def)
  next
    case False
    then have no: "\<not> admits i s" using a(1) g(1) by (auto simp: admits_def Let_def c_def [symmetric])
    have "\<not> ok \<and> clients s' = clients s \<and> globalNowConn (glob s') = globalNowConn (glob s) \<and>
        globalMaxConn (glob s') = globalMaxConn (glob s) \<and>
        users s' = (if \<not> allowed then reg else if accounted then releaseUserConnection w reg else reg)"
      using False assms(1,3) A G g same
      by (auto simp: Client_GetConn_def Let_def c_def [symmetric] put_client_def Client_CutConn_def rollback_user_def
          has_room_def split: if_splits)
    then show ?thesis using no a rb by (auto split: if_splits)
  qed
  then show "ok = admits i s" "clients s' = (if ok then (clients s)[i := c\<lparr>NowConn := NowConn c + 1,
        userConnOwners := userConnOwners c @ (if 0 < cUserId c then [cUserId c] else [])\<rparr>] else clients s)"
    "globalNowConn (glob s') = globalNowConn (glob s) + (if ok then 1 else 0)"
    "globalMaxConn (glob s') = globalMaxConn (glob s)"
    "user_now u (users s') = user_now u (users s) + (if ok \<and> 0 < u \<and> u = cUserId c then 1 else 0)"
    "user_lim u (users s') = user_lim u (users s)" by blast+
qed

lemma AddConn_spec:
  assumes "i < length (clients s)" and "c = clients s ! i"
  shows "clients (Client_AddConn i s) = (clients s)[i := c\<lparr>NowConn := (if NowConn c \<le> 0 then NowConn c else NowConn c - 1),
      userConnOwners := butlast (userConnOwners c)\<rparr>]"
    "glob (Client_AddConn i s) = (if NowConn c \<le> 0 then glob s else releaseGlobalConn (glob s))"
    "users (Client_AddConn i s) = (if userConnOwners c = [] then users s
      else releaseUserConnection (last (userConnOwners c)) (users s))"
proof -
  have same: "d\<lparr>userConnOwners := []\<rparr> = d" if "userConnOwners d = []" for d :: clientConn using that by (cases d) simp
  show "clients (Client_AddConn i s) = (clients s)[i := c\<lparr>NowConn := (if NowConn c \<le> 0 then NowConn c else NowConn c - 1),
      userConnOwners := butlast (userConnOwners c)\<rparr>]"
    using assms by (auto simp: Client_AddConn_def Let_def put_client_def same)
  show "glob (Client_AddConn i s) = (if NowConn c \<le> 0 then glob s else releaseGlobalConn (glob s))"
    "users (Client_AddConn i s) = (if userConnOwners c = [] then users s
      else releaseUserConnection (last (userConnOwners c)) (users s))"
    using assms by (auto simp: Client_AddConn_def Let_def put_client_def)
qed

subsection \<open>Any interleaving of requests, releases and settings changes\<close>

datatype admission_op = OpGetConn nat | OpAddConn nat | OpSetGlobal int | OpSetUser int int int int
  | OpSetClientMax nat int | OpSetOwner nat int

fun admission_step :: "'l directional \<Rightarrow> ('l \<Rightarrow> int \<Rightarrow> int \<Rightarrow> 'l) \<Rightarrow> 'l admission \<Rightarrow> admission_op \<Rightarrow> 'l admission" where
  "admission_step fresh setAt s (OpGetConn i) = (if i < length (clients s) then snd (Client_GetConn fresh i s) else s)"
| "admission_step fresh setAt s (OpAddConn i) = (if i < length (clients s) then Client_AddConn i s else s)"
| "admission_step fresh setAt s (OpSetGlobal l) = s\<lparr>glob := SetGlobalMaxConn l (glob s)\<rparr>"
| "admission_step fresh setAt s (OpSetUser u mc up down) = s\<lparr>users := SetUserRuntimeLimits fresh setAt u mc up down (users s)\<rparr>"
| "admission_step fresh setAt s (OpSetClientMax i mc) =
     (if i < length (clients s) then put_client i ((clients s ! i)\<lparr>cMaxConn := mc\<rparr>) s else s)"
| "admission_step fresh setAt s (OpSetOwner i u) =
     (if i < length (clients s) then put_client i ((clients s ! i)\<lparr>cUserId := u\<rparr>) s else s)"

text \<open>The connections that clients hold for a user, and the accounting invariant.\<close>

definition owned_by :: "int \<Rightarrow> clientConn list \<Rightarrow> int" where
  "owned_by u cs = sum_list (map (\<lambda>c. int (count_list (userConnOwners c) u)) cs)"

definition client_ok :: "clientConn \<Rightarrow> bool" where
  "client_ok c \<longleftrightarrow> int (length (userConnOwners c)) \<le> NowConn c \<and> list_all (\<lambda>u. 0 < u) (userConnOwners c)"

definition accounted_for :: "'l admission \<Rightarrow> bool" where
  "accounted_for s \<longleftrightarrow> globalNowConn (glob s) = sum_list (map NowConn (clients s)) \<and>
     list_all client_ok (clients s) \<and> (\<forall>u. 0 < u \<longrightarrow> user_now u (users s) = owned_by u (clients s))"

lemma sum_list_update_int:
  "i < length xs \<Longrightarrow> sum_list (map f (xs[i := x])) = sum_list (map f xs) + (f x - f (xs ! i) :: int)"
  by (induction xs arbitrary: i) (auto split: nat.split)

lemma owned_by_update:
  "i < length cs \<Longrightarrow> owned_by u (cs[i := c]) = owned_by u cs +
     (int (count_list (userConnOwners c) u) - int (count_list (userConnOwners (cs ! i)) u))"
  unfolding owned_by_def by (rule sum_list_update_int)

lemma owned_by_ge: "c \<in> set cs \<Longrightarrow> int (count_list (userConnOwners c) u) \<le> owned_by u cs"
proof (induction cs)
  case (Cons d cs)
  have "0 \<le> owned_by u cs" unfolding owned_by_def by (rule sum_list_nonneg) auto
  then show ?case using Cons by (auto simp: owned_by_def)
qed simp

lemma NowConn_le_total:
  "list_all client_ok cs \<Longrightarrow> c \<in> set cs \<Longrightarrow> NowConn c \<le> sum_list (map NowConn cs)"
proof (induction cs)
  case (Cons d cs)
  have "0 \<le> NowConn d" using Cons.prems by (simp add: client_ok_def)
  moreover have "0 \<le> sum_list (map NowConn cs)"
    using Cons.prems by (intro sum_list_nonneg) (auto simp: client_ok_def list_all_iff intro: order_trans [OF of_nat_0_le_iff])
  ultimately show ?case using Cons by auto
qed simp

lemma count_butlast:
  "xs \<noteq> [] \<Longrightarrow> int (count_list (butlast xs) u) = int (count_list xs u) - (if u = last xs then 1 else 0)"
  using count_list_append [of "butlast xs" "[last xs]" u] by (simp add: append_butlast_last_id)

lemma list_all_update: "list_all P xs \<Longrightarrow> P x \<Longrightarrow> list_all P (xs[i := x])"
  using set_update_subset_insert [of xs i x] by (auto simp: list_all_iff)

lemma list_all_nth_mem: "list_all P xs \<Longrightarrow> i < length xs \<Longrightarrow> P (xs ! i)"
  by (simp add: list_all_length)

lemma accounted_user_nonneg:
  assumes "accounted_for s"
  shows "0 \<le> user_now u (users s)"
proof (cases "0 < u")
  case True
  then have "user_now u (users s) = owned_by u (clients s)" using assms by (simp add: accounted_for_def)
  moreover have "0 \<le> owned_by u (clients s)" unfolding owned_by_def by (rule sum_list_nonneg) auto
  ultimately show ?thesis by simp
next
  case False
  then show ?thesis by (simp add: user_now_absent)
qed

lemma GetConn_accounted:
  assumes "accounted_for s" "i < length (clients s)" "Client_GetConn fresh i s = (ok, s')"
  shows "accounted_for s'"
proof -
  define c where "c = clients s ! i"
  have mem: "c \<in> set (clients s)" and cok: "client_ok c"
    using assms(1,2) by (auto simp: c_def accounted_for_def list_all_nth_mem)
  note G = GetConn_spec [OF assms(2) accounted_user_nonneg [OF assms(1)] assms(3), folded c_def]
  show ?thesis
  proof (cases ok)
    case True
    have "client_ok (c\<lparr>NowConn := NowConn c + 1,
        userConnOwners := userConnOwners c @ (if 0 < cUserId c then [cUserId c] else [])\<rparr>)"
      using cok by (simp add: client_ok_def)
    then show ?thesis using assms(1,2) G True
      by (auto simp: accounted_for_def list_all_update sum_list_update_int owned_by_update c_def)
  next
    case False
    then show ?thesis using assms(1) G by (simp add: accounted_for_def)
  qed
qed

lemma AddConn_accounted:
  assumes "accounted_for s" "i < length (clients s)"
  shows "accounted_for (Client_AddConn i s)"
proof -
  define c where "c = clients s ! i"
  have mem: "c \<in> set (clients s)" and cok: "client_ok c"
    using assms by (auto simp: c_def accounted_for_def list_all_nth_mem)
  note A = AddConn_spec [OF assms(2) c_def]
  let ?d = "c\<lparr>NowConn := (if NowConn c \<le> 0 then NowConn c else NowConn c - 1), userConnOwners := butlast (userConnOwners c)\<rparr>"
  have pos: "0 < NowConn c" if "userConnOwners c \<noteq> []" using that cok by (cases "userConnOwners c") (auto simp: client_ok_def)
  have d: "client_ok ?d"
    using cok pos by (auto simp: client_ok_def list_all_iff dest: in_set_butlastD)
  have g: "globalNowConn (glob (Client_AddConn i s)) = sum_list (map NowConn (clients (Client_AddConn i s)))"
    using A assms NowConn_le_total [OF _ mem]
    by (auto simp: accounted_for_def sum_list_update_int releaseGlobalConn_def c_def)
  have u: "user_now u (users (Client_AddConn i s)) = owned_by u (clients (Client_AddConn i s))" if "0 < u" for u
  proof (cases "userConnOwners c = []")
    case True
    then show ?thesis using A assms that by (simp add: accounted_for_def owned_by_update c_def)
  next
    case False
    define w where "w = last (userConnOwners c)"
    have w: "0 < w" using cok False by (auto simp: w_def client_ok_def list_all_iff)
    have now: "user_now v (users s) = owned_by v (clients s)" if "0 < v" for v using assms(1) that by (simp add: accounted_for_def)
    have "0 < int (count_list (userConnOwners c) w)" using False by (simp add: w_def count_list_0_iff zero_less_iff_neq_zero)
    then have "0 < user_now w (users s)" using owned_by_ge [OF mem, of w] now [OF w] by simp
    then have "user_now u (users (Client_AddConn i s)) = user_now u (users s) - (if u = w then 1 else 0)"
      using A(3) False releaseUser_spec(2) [of w "users s" u] by (simp add: w_def)
    then show ?thesis using A(1) assms(2) now [OF that] count_butlast [OF False, of u]
      by (simp add: owned_by_update w_def c_def)
  qed
  show ?thesis using g u A(1) d assms(1) by (simp add: accounted_for_def list_all_update)
qed

lemma SetUserRuntimeLimits_now:
  "user_now v (SetUserRuntimeLimits fresh setAt u mc up down reg) = user_now v reg"
proof (cases "0 < u")
  case True
  then obtain st where "userRuntimeFor fresh u True reg = (Some st, reg(u \<mapsto> st))" "nowConn st = user_now u reg"
    using userRuntimeFor_create by blast
  then show ?thesis using True by (simp add: SetUserRuntimeLimits_def user_now_upd)
next
  case False
  then show ?thesis by (simp add: SetUserRuntimeLimits_def userRuntimeFor_def)
qed

lemma put_client_accounted:
  assumes "accounted_for s" "i < length (clients s)" "NowConn c = NowConn (clients s ! i)"
    and "userConnOwners c = userConnOwners (clients s ! i)"
  shows "accounted_for (put_client i c s)"
proof -
  have "client_ok c" using assms list_all_nth_mem [of client_ok "clients s" i] by (simp add: client_ok_def accounted_for_def)
  then show ?thesis using assms
    by (simp add: accounted_for_def put_client_def list_all_update sum_list_update_int owned_by_update)
qed

lemma admission_step_accounted: "accounted_for s \<Longrightarrow> accounted_for (admission_step fresh setAt s a)"
proof (cases a)
  case (OpGetConn i)
  assume "accounted_for s"
  then show ?thesis using OpGetConn GetConn_accounted [of s i fresh] by (cases "Client_GetConn fresh i s") simp
next
  case (OpSetGlobal l)
  assume "accounted_for s"
  then show ?thesis using OpSetGlobal by (simp add: accounted_for_def SetGlobalMaxConn_def)
next
  case (OpSetUser u mc up down)
  assume "accounted_for s"
  then show ?thesis using OpSetUser by (simp add: accounted_for_def SetUserRuntimeLimits_now)
qed (simp_all add: AddConn_accounted put_client_accounted)

lemma admission_run_accounted: "accounted_for s \<Longrightarrow> accounted_for (foldl (admission_step fresh setAt) s ops)"
  by (induction ops arbitrary: s) (simp_all add: admission_step_accounted)

definition fresh_admission :: "(int \<times> int) list \<Rightarrow> 'l admission" where
  "fresh_admission specs = \<lparr>glob = \<lparr>globalMaxConn = 0, globalNowConn = 0\<rparr>, users = Map.empty,
     clients = map (\<lambda>(u, mc). \<lparr>cUserId = u, cMaxConn = mc, NowConn = 0, userConnOwners = []\<rparr>) specs\<rparr>"

lemma fresh_accounted: "accounted_for (fresh_admission specs)"
proof -
  have "sum_list (map NowConn (clients (fresh_admission specs))) = 0" "owned_by u (clients (fresh_admission specs)) = 0" for u
    by (induction specs) (auto simp: fresh_admission_def owned_by_def)
  moreover have "list_all client_ok (clients (fresh_admission specs))"
    by (auto simp: fresh_admission_def list_all_iff client_ok_def)
  ultimately show ?thesis by (simp add: accounted_for_def user_now_absent) (simp add: fresh_admission_def user_now_absent)
qed

text \<open>C30 Admission is exact. For a client in an accounted state, \<open>GetConn\<close> grants the connection if and
  only if the owner's, the client's and the server's counter each have room. A grant adds one to the three
  counters and to nobody else's; a refusal leaves the clients and every counter as they were, whichever of
  the three levels refused.\<close>

theorem admission_exact:
  assumes "accounted_for s" "i < length (clients s)" "Client_GetConn fresh i s = (ok, s')"
  defines "c \<equiv> clients s ! i"
  shows "ok = (has_room (globalMaxConn (glob s)) (globalNowConn (glob s)) \<and> has_room (cMaxConn c) (NowConn c) \<and>
      (cUserId c \<le> 0 \<or> has_room (snd (userConnections (cUserId c) (users s))) (fst (userConnections (cUserId c) (users s))))) \<and>
    globalNowConn (glob s') = globalNowConn (glob s) + (if ok then 1 else 0) \<and>
    map NowConn (clients s') = (if ok then (map NowConn (clients s))[i := NowConn c + 1] else map NowConn (clients s)) \<and>
    (ok \<or> clients s' = clients s) \<and>
    (\<forall>u. userConnections u (users s') = (fst (userConnections u (users s)) + (if ok \<and> 0 < u \<and> u = cUserId c then 1 else 0),
       snd (userConnections u (users s))))"
proof -
  note G = GetConn_spec [OF assms(2) accounted_user_nonneg [OF assms(1)] assms(3), folded c_def]
  have "userConnections u (users s') = (fst (userConnections u (users s)) + (if ok \<and> 0 < u \<and> u = cUserId c then 1 else 0),
       snd (userConnections u (users s)))" for u
    using G(5,6) [of u] by (cases "userConnections u (users s')") (simp add: user_now_def user_lim_def)
  then show ?thesis using G(1-4)
    by (auto simp: admits_def Let_def c_def user_now_def user_lim_def map_update)
qed

lemma admission_exact_witness:
  defines "s \<equiv> fresh_admission [(7, 2)] :: nat admission"
  shows "fst (Client_GetConn (NewDirectional (\<lambda>a b. 0) 0 0 0) 0 s) \<and>
    globalNowConn (glob (snd (Client_GetConn (NewDirectional (\<lambda>a b. 0) 0 0 0) 0 s))) = 1"
  using admission_exact [of s 0 "(NewDirectional (\<lambda>a b. 0) 0 0 0)", OF _ _ prod.collapse [symmetric]]
  by (simp add: s_def fresh_accounted) (simp add: fresh_admission_def has_room_def userConnections_def)

text \<open>C31 Conservation. Start with no connection and run any sequence of admissions, releases, changes of the
  server, user and client limits and changes of a client's owner. Then the server-wide count is the sum of
  the clients' counts, no count is negative, every client holds at most as many user slots as connections,
  and a user's count is the number of slots that clients hold for that user: no slot leaks and none is
  released twice.\<close>

theorem admission_conservation:
  fixes specs :: "(int \<times> int) list"
  defines "s0 \<equiv> fresh_admission specs :: 'l admission"
  shows "let s = foldl (admission_step fresh setAt) s0 ops in
    globalNowConn (glob s) = sum_list (map NowConn (clients s)) \<and>
    list_all (\<lambda>c. 0 \<le> NowConn c \<and> int (length (userConnOwners c)) \<le> NowConn c) (clients s) \<and>
    (\<forall>u. fst (userConnections u (users s)) = (if u \<le> 0 then 0 else sum_list (map (\<lambda>c. int (count_list (userConnOwners c) u)) (clients s))))"
proof -
  have "accounted_for (foldl (admission_step fresh setAt) s0 ops)"
    unfolding s0_def by (intro admission_run_accounted fresh_accounted)
  then show ?thesis
    by (auto simp: accounted_for_def Let_def owned_by_def user_now_def client_ok_def userConnections_def
        elim!: list.pred_mono_strong)
qed

end
