(* ===== verification/Host_Rules.thy ===== *)
theory Host_Rules
  imports Go_Std "HOL-Library.Sublist"
begin

text \<open>
  The rules of virtual hosts (\<open>lib/file/db.go\<close>): which texts are valid, which requests a rule matches and
  which two rules overlap, and \<open>GetIpByAddr\<close> of \<open>lib/common/util.go\<close>.

  The lemmas at the end are what the isolation of tenants rests on: two rules that match one request
  overlap.
\<close>

subsection \<open>More of the standard library\<close>

definition count_char :: "char \<Rightarrow> string \<Rightarrow> nat" where "count_char c s = length (filter (\<lambda>d. d = c) s)"

text \<open>\<open>net.ParseIP\<close>: no zone.\<close>

definition net_ParseIP :: "string \<Rightarrow> addr option" where
  "net_ParseIP s = (case ParseAddr s of None \<Rightarrow> None | Some a \<Rightarrow> if hasZone a then None else Some a)"

definition Atoi :: "string \<Rightarrow> int option" where
  "Atoi s =
     (let neg = HasPrefix s ''-''; d = (if neg \<or> HasPrefix s ''+'' then drop 1 s else s); v = (if neg then - dec_val d else dec_val d)
      in if d \<noteq> [] \<and> list_all is_digit d \<and> - (2 ^ 63) \<le> v \<and> v < 2 ^ 63 then Some v else None)"

fun crlf_to_lf :: "string \<Rightarrow> string" where
  "crlf_to_lf [] = []"
| "crlf_to_lf [c] = [c]"
| "crlf_to_lf (c # d # s) = (if c = CHR 0x0D \<and> d = CHR 0x0A then CHR 0x0A # crlf_to_lf s else c # crlf_to_lf (d # s))"

subsection \<open>Names, paths and schemes\<close>

definition GetIpByAddr :: "string \<Rightarrow> string" where
  "GetIpByAddr text =
     (let t = TrimSpace text in
      case SplitHostPort t of
        Some (host, _) \<Rightarrow> host
      | None \<Rightarrow>
          let a = (if HasPrefix t ''['' \<and> HasSuffix t '']'' then TrimSuffix (TrimPrefix t ''['') '']'' else t);
              legacy = (case LastIndexByte a (CHR '':'') of
                  Some i \<Rightarrow> if i > 0 \<and> Atoi (drop (i + 1) a) \<noteq> None \<and> net_ParseIP (take i a) \<noteq> None then Some (take i a) else None
                | None \<Rightarrow> None)
          in if net_ParseIP a \<noteq> None then a
             else case legacy of
                    Some h \<Rightarrow> h
                  | None \<Rightarrow> (case IndexByte a (CHR '':'') of Some i \<Rightarrow> take i a | None \<Rightarrow> a))"

definition normalizeHostName :: "string \<Rightarrow> string" where
  "normalizeHostName value = TrimSuffix (TrimSpace (ToLower value)) ''.''"

function strip_slashes :: "string \<Rightarrow> string" where
  "strip_slashes s = (if length s > 1 \<and> HasSuffix s ''/'' then strip_slashes (TrimSuffix s ''/'') else s)"
  by pat_completeness auto
termination
  by (relation "measure length") (auto simp: TrimSuffix_def)

declare strip_slashes.simps [simp del]

definition normalizeHostLocation :: "string \<Rightarrow> string" where
  "normalizeHostLocation location =
     (let l = TrimSpace location in
      if l = [] then ''/'' else strip_slashes (if \<not> HasPrefix l ''/'' then ''/'' @ l else l))"

definition hostLocationsOverlap :: "string \<Rightarrow> string \<Rightarrow> bool" where
  "hostLocationsOverlap l m =
     (let a = normalizeHostLocation l; b = normalizeHostLocation m in
      if a = ''/'' \<or> b = ''/'' \<or> a = b then True
      else if HasPrefix a b then length a > length b \<and> a ! length b = CHR ''/''
      else if HasPrefix b a then length b > length a \<and> b ! length a = CHR ''/''
      else False)"

definition label_char :: "char \<Rightarrow> bool" where
  "label_char c \<longleftrightarrow> (CHR ''a'' \<le> c \<and> c \<le> CHR ''z'') \<or> is_digit c \<or> c = CHR ''-''"

definition validDNSLabel :: "string \<Rightarrow> bool" where
  "validDNSLabel v \<longleftrightarrow> \<not> (v = [] \<or> length v > 63 \<or> hd v = CHR ''-'' \<or> last v = CHR ''-'') \<and> list_all label_char v"

definition validDNSDomainName :: "string \<Rightarrow> bool" where
  "validDNSDomainName v \<longleftrightarrow>
     \<not> (v = [] \<or> length v > 253 \<or> \<not> Contains_str v ''.'') \<and> list_all validDNSLabel (Split v (CHR ''.''))"

definition validHostRule :: "string \<Rightarrow> bool" where
  "validHostRule text =
     (let rule = normalizeHostName text in
      if rule = [] then False
      else if net_ParseIP rule \<noteq> None then True
      else if ContainsAny rule ('':/%?#'' @ [CHR 0x5C, CHR 0x0D, CHR 0x0A, CHR 0x09, CHR '' '']) then False
      else if Contains_str rule ''*'' \<and> (\<not> HasPrefix rule ''*.'' \<or> count_char (CHR ''*'') rule \<noteq> 1) then False
      else
        let name = (if Contains_str rule ''*'' then TrimPrefix rule ''*.'' else rule) in
        if name = [] \<or> length name > 253 then False
        else list_all validDNSLabel (Split name (CHR ''.'')))"

definition normalizeHostScheme :: "string \<Rightarrow> string option" where
  "normalizeHostScheme scheme =
     (let s = ToLower (TrimSpace scheme) in
      if s = [] then Some ''all'' else if s \<in> {''http'', ''https'', ''all''} then Some s else None)"

definition hostSchemesOverlap :: "string \<Rightarrow> string \<Rightarrow> bool" where
  "hostSchemesOverlap s t =
     (let a = ToLower (TrimSpace s); b = ToLower (TrimSpace t);
          a' = (if a = [] then ''all'' else a); b' = (if b = [] then ''all'' else b)
      in a' = ''all'' \<or> b' = ''all'' \<or> a' = b')"

definition valid_target :: "string \<Rightarrow> bool" where
  "valid_target target =
     (case SplitHostPort target of
        None \<Rightarrow> False
      | Some (host, port) \<Rightarrow> TrimSpace host \<noteq> [] \<and> (case Atoi port of None \<Rightarrow> False | Some p \<Rightarrow> 1 \<le> p \<and> p \<le> 65535))"

definition validHostTargets :: "string \<Rightarrow> bool" where
  "validHostTargets text =
     (let targets = TrimSpace (crlf_to_lf text) in
      targets \<noteq> [] \<and>
      list_all (\<lambda>line. let target = TrimSpace line in target = [] \<or> valid_target target) (Split targets (CHR 0x0A)))"

subsection \<open>Matching and overlapping\<close>

definition platformHostMatches :: "string \<Rightarrow> string \<Rightarrow> bool" where
  "platformHostMatches h w =
     (let host = normalizeHostName h; wildcard = normalizeHostName w in
      if \<not> HasPrefix wildcard ''*.'' then False
      else
        let suffix = TrimPrefix wildcard ''*.'' in
        if \<not> HasSuffix host (''.'' @ suffix) then False else validDNSLabel (TrimSuffix host (''.'' @ suffix)))"

definition hostRuleMatches :: "string \<Rightarrow> string \<Rightarrow> bool" where
  "hostRuleMatches h r =
     (let host = normalizeHostName h; rule = normalizeHostName r in
      if host = [] \<or> rule = [] then False
      else if \<not> Contains_str rule ''*'' then host = rule
      else if \<not> HasPrefix rule ''*.'' \<or> count_char (CHR ''*'') rule \<noteq> 1 then False
      else
        let suffix = TrimPrefix rule ''*.'' in
        suffix \<noteq> [] \<and> length host > length suffix + 1 \<and> HasSuffix host (''.'' @ suffix))"

definition hostRuleSpecificity :: "string \<Rightarrow> bool \<times> nat" where
  "hostRuleSpecificity r =
     (let rule = normalizeHostName r in
      if rule = [] then (False, 0)
      else if HasPrefix rule ''*.'' \<and> count_char (CHR ''*'') rule = 1 then (False, length (TrimPrefix rule ''*.''))
      else if \<not> Contains_str rule ''*'' then (True, length rule)
      else (False, 0))"

definition hostPathMatches :: "string \<Rightarrow> string \<Rightarrow> bool" where
  "hostPathMatches requestURI location =
     (if location = [] \<or> location = ''/'' then HasPrefix requestURI ''/''
      else if \<not> HasPrefix requestURI location then False
      else if length requestURI = length location then True
      else let next = requestURI ! length location in next = CHR ''/'' \<or> next = CHR ''?'')"

definition hostRulesOverlap :: "string \<Rightarrow> string \<Rightarrow> bool" where
  "hostRulesOverlap r s =
     (let a = normalizeHostName r; b = normalizeHostName s in
      if \<not> validHostRule a \<or> \<not> validHostRule b then False
      else
        let aWildcard = HasPrefix a ''*.''; bWildcard = HasPrefix b ''*.'' in
        if \<not> aWildcard \<and> \<not> bWildcard then a = b
        else if aWildcard \<and> \<not> bWildcard then hostRuleMatches b a
        else if \<not> aWildcard \<and> bWildcard then hostRuleMatches a b
        else
          let aSuffix = TrimPrefix a ''*.''; bSuffix = TrimPrefix b ''*.''
          in aSuffix = bSuffix \<or> HasSuffix aSuffix (''.'' @ bSuffix) \<or> HasSuffix bSuffix (''.'' @ aSuffix))"

definition normalizePlatformWildcard :: "string \<Rightarrow> string option" where
  "normalizePlatformWildcard value =
     (let v = normalizeHostName value in
      if \<not> HasPrefix v ''*.'' \<or> count_char (CHR ''*'') v \<noteq> 1 then None
      else if \<not> validDNSDomainName (TrimPrefix v ''*.'') then None
      else Some (''*.'' @ TrimPrefix v ''*.''))"

definition normalizePlatformPrefix :: "string \<Rightarrow> string option" where
  "normalizePlatformPrefix value = (let v = TrimSpace (ToLower value) in if validDNSLabel v then Some v else None)"

subsection \<open>Texts of valid rules\<close>

lemma HasSuffix_suffix: "HasSuffix s p \<longleftrightarrow> suffix p s"
proof
  assume "HasSuffix s p"
  then have "s = take (length s - length p) s @ p" by (metis HasSuffix_def append_take_drop_id)
  then show "suffix p s" by (auto simp: suffix_def)
qed (auto simp: HasSuffix_def suffix_def)

lemma HasPrefix_prefix: "HasPrefix s p \<longleftrightarrow> prefix p s"
  by (auto simp: HasPrefix_def prefix_def) (metis append_take_drop_id)

lemma Contains_char: "Contains_str s [c] \<longleftrightarrow> c \<in> set s"
  by (induction s) (auto simp: HasPrefix_def)

lemma TrimSpace_id:
  assumes "s = [] \<or> (\<not> is_space (hd s) \<and> \<not> is_space (last s))"
  shows "TrimSpace s = s"
proof (cases "s = []")
  case False
  have "dropWhile is_space s = s" using assms False by (cases s) auto
  moreover have "dropWhile is_space (rev s) = rev s" using assms False by (cases "rev s") (auto simp: last_rev hd_rev [symmetric] dest: arg_cong [of _ _ hd])
  ultimately show ?thesis by (simp add: TrimSpace_def trim_while_def)
qed (simp add: TrimSpace_def trim_while_def)

lemma TrimSuffix_char_id: "s = [] \<or> last s \<noteq> c \<Longrightarrow> TrimSuffix s [c] = s"
  by (auto simp: TrimSuffix_def HasSuffix_suffix suffix_def)

lemma set_TrimSuffix: "set (TrimSuffix s p) \<subseteq> set s"
  by (auto simp: TrimSuffix_def dest: in_set_takeD)

lemma set_TrimSpace: "set (TrimSpace s) \<subseteq> set s"
  by (auto simp: TrimSpace_def trim_while_def dest!: set_dropWhileD)

lemma ToLower_fixed: "list_all (\<lambda>c. lower_char c = c) s \<Longrightarrow> ToLower s = s"
  unfolding ToLower_def by (induction s) auto

lemma normalize_lower: "ToLower (normalizeHostName s) = normalizeHostName s"
proof (rule ToLower_fixed)
  have "set (normalizeHostName s) \<subseteq> lower_char ` set s"
    unfolding normalizeHostName_def using set_TrimSuffix set_TrimSpace by (fastforce simp: ToLower_def)
  then show "list_all (\<lambda>c. lower_char c = c) (normalizeHostName s)" by (auto simp: list_all_iff)
qed

lemma normalize_stable:
  assumes "n = normalizeHostName t" "n \<noteq> []" "\<not> is_space (hd n)" "\<not> is_space (last n)" "last n \<noteq> CHR ''.''"
  shows "normalizeHostName n = n"
  using assms normalize_lower [of t] by (simp add: normalizeHostName_def TrimSpace_id TrimSuffix_char_id)

text \<open>The ends of a text that is split or parsed.\<close>

lemma ne_split: "split_acc sep acc s \<noteq> []"
  by (induction sep acc s rule: split_acc.induct) auto

lemma split_acc_ends:
  "\<exists>pre. rev acc @ s = pre @ last (split_acc sep acc s)" "\<exists>post. rev acc @ s = hd (split_acc sep acc s) @ post"
proof -
  show "\<exists>pre. rev acc @ s = pre @ last (split_acc sep acc s)"
  proof (induction sep acc s rule: split_acc.induct)
    case (2 sep acc c s)
    show ?case
    proof (cases "c = sep")
      case True
      then obtain pre where "s = pre @ last (split_acc sep [] s)" using 2(1) by auto
      then have e: "rev acc @ c # s = (rev acc @ c # pre) @ last (split_acc sep [] s)" by simp
      have l: "last (split_acc sep acc (c # s)) = last (split_acc sep [] s)" using True ne_split by simp
      show ?thesis unfolding l using e by blast
    qed (use 2 in auto)
  qed auto
  show "\<exists>post. rev acc @ s = hd (split_acc sep acc s) @ post"
    by (induction sep acc s rule: split_acc.induct) auto
qed

lemma Split_ends:
  assumes "list_all P (Split s sep)" "\<And>f. P f \<Longrightarrow> f \<noteq> [] \<and> Q (hd f) \<and> Q (last f)"
  shows "s \<noteq> [] \<and> Q (hd s) \<and> Q (last s)"
proof -
  have "P (hd (Split s sep))" "P (last (Split s sep))"
    using assms(1) ne_split [of sep "[]" s] by (auto simp: Split_def list_all_iff)
  then have "hd (Split s sep) \<noteq> []" "Q (hd (hd (Split s sep)))" "last (Split s sep) \<noteq> []" "Q (last (last (Split s sep)))"
    using assms(2) by auto
  moreover obtain pre post where "s = pre @ last (Split s sep)" "s = hd (Split s sep) @ post"
    using split_acc_ends [of "[]" s sep] by (auto simp: Split_def)
  ultimately show ?thesis by (metis append_is_Nil_conv hd_append2 last_appendR)
qed

text \<open>Characters at the ends of host names and addresses.\<close>

definition end_char :: "char \<Rightarrow> bool" where "end_char c \<longleftrightarrow> \<not> is_space c \<and> c \<noteq> CHR ''.''"

lemma end_char_code: "end_char c \<longleftrightarrow> (of_char c :: int) \<notin> {9, 10, 11, 12, 13, 32, 46}"
proof -
  have e: "c = d \<longleftrightarrow> (of_char c :: int) = of_char d" for d by simp
  show ?thesis unfolding end_char_def is_space_def insert_iff e by (simp del: of_char_eq_iff) blast
qed

lemma digit_end_char: "is_digit c \<Longrightarrow> end_char c"
proof -
  have "is_digit c = (48 \<le> (of_char c :: int) \<and> (of_char c :: int) \<le> 57)" by (simp add: is_digit_def less_eq_char_def of_char_def)
  then show "is_digit c \<Longrightarrow> end_char c" by (auto simp: end_char_code)
qed

lemma hex_end_char: "hex_val c \<noteq> None \<Longrightarrow> end_char c"
  by (auto simp: hex_val_def end_char_code Let_def split: if_splits)

lemma label_end_char: "label_char c \<Longrightarrow> end_char c"
proof -
  have "(CHR ''a'' \<le> c \<and> c \<le> CHR ''z'') = (97 \<le> (of_char c :: int) \<and> (of_char c :: int) \<le> 122)" by (simp add: less_eq_char_def of_char_def)
  moreover have "end_char (CHR ''-'')" by (simp add: end_char_def is_space_def)
  ultimately show "label_char c \<Longrightarrow> end_char c" using digit_end_char [of c] by (auto simp: label_char_def end_char_code)
qed

lemma colon_end_char: "end_char (CHR '':'')" "end_char (CHR ''*'')"
  by (simp_all add: end_char_def is_space_def)

lemma parseIPv4Fields_ends:
  assumes "parseIPv4Fields s \<noteq> None"
  shows "s \<noteq> [] \<and> end_char (hd s) \<and> end_char (last s)"
proof (rule Split_ends)
  have "None \<notin> set (map ipv4_field (Split s (CHR ''.'')))" using assms by (auto simp: parseIPv4Fields_def Let_def split: if_splits)
  then show "list_all (\<lambda>f. ipv4_field f \<noteq> None) (Split s (CHR ''.''))" by (force simp: list_all_iff)
  fix f assume "ipv4_field f \<noteq> None"
  then have "f \<noteq> []" "list_all is_digit f" by (auto simp: ipv4_field_def split: if_splits)
  then show "f \<noteq> [] \<and> end_char (hd f) \<and> end_char (last f)" by (simp add: list_all_iff digit_end_char)
qed

lemma hex_group_split: "s = hex_group s @ drop (length (hex_group s)) s"
  by (simp add: hex_group_def dropWhile_eq_drop [symmetric])

lemma hex_group_chars: "c \<in> set (hex_group s) \<Longrightarrow> end_char c"
  by (auto simp: hex_group_def dest!: set_takeWhileD intro: hex_end_char)

lemma ipv6_groups_ends:
  "ipv6_groups bs ell s \<noteq> None \<Longrightarrow> s \<noteq> [] \<Longrightarrow> end_char (hd s) \<and> end_char (last s)"
proof (induction "length s" arbitrary: bs ell s rule: less_induct)
  case less
  define g r where "g = hex_group s" and "r = drop (length g) s"
  have s: "g @ r = s" using hex_group_split [of s] by (simp add: g_def r_def)
  note eq = ipv6_groups.simps [of bs ell s, unfolded Let_def, folded g_def, folded r_def]
  have few: "\<not> length bs \<ge> 16" using less.prems eq by (auto split: if_splits)
  have g: "g \<noteq> []" "\<not> length g > 4" using less.prems(1) few unfolding eq by (auto split: if_splits)
  have gc: "end_char c" if "c \<in> set g" for c using that hex_group_chars by (simp add: g_def)
  have "end_char (last (g @ r))"
  proof (cases "r = []")
    case False
    show ?thesis
    proof (cases "hd r = CHR ''.''")
      case True
      then have "parseIPv4Fields s \<noteq> None" using less.prems(1) few g False unfolding eq by (auto split: if_splits)
      then show ?thesis using parseIPv4Fields_ends s by metis
    next
      case nodot: False
      have colon: "hd r = CHR '':''" "length r \<noteq> 1"
        using less.prems(1) few g False nodot unfolding eq by (auto split: if_splits)
      obtain d r' where r': "r = CHR '':'' # d # r'" using colon False by (cases r; cases "tl r") auto
      have len: "length r' < length s" "length (d # r') < length s" using arg_cong [OF s, of length] r' g by auto
      have "d = CHR '':'' \<Longrightarrow> r' = [] \<or> (\<exists>bs' ell'. ipv6_groups bs' ell' r' \<noteq> None)"
        "d \<noteq> CHR '':'' \<Longrightarrow> \<exists>bs' ell'. ipv6_groups bs' ell' (d # r') \<noteq> None"
        using less.prems(1) few g r' unfolding eq by (auto split: if_splits)
      then have "d = CHR '':'' \<Longrightarrow> r' = [] \<or> end_char (last r')" "d \<noteq> CHR '':'' \<Longrightarrow> end_char (last (d # r'))"
        using less.hyps [OF len(1)] less.hyps [OF len(2)] by blast+
      then show ?thesis using r' colon_end_char by (cases "d = CHR '':''"; cases "r' = []") auto
    qed
  qed (use g gc in simp)
  moreover have "end_char (hd (g @ r))" using g gc by simp
  ultimately show ?case unfolding s by simp
qed

lemma parseIPv6_ends:
  assumes "parseIPv6 s = Some (IP6 w [])"
  shows "s \<noteq> [] \<and> end_char (hd s) \<and> end_char (last s)"
proof -
  have "IndexByte s (CHR ''%'') = None"
    using assms by (auto simp: parseIPv6_def Let_def split: option.splits if_splits)
  then have "s = ''::'' \<or> (HasPrefix s ''::'' \<and> s \<noteq> ''::'' \<and> ipv6_groups [] (Some 0) (drop 2 s) \<noteq> None) \<or> ipv6_groups [] None s \<noteq> None"
    using assms by (auto simp: parseIPv6_def Let_def bind_eq_Some_conv split: if_splits)
  then show ?thesis
  proof (elim disjE)
    assume a: "HasPrefix s ''::'' \<and> s \<noteq> ''::'' \<and> ipv6_groups [] (Some 0) (drop 2 s) \<noteq> None"
    then obtain r where r: "s = ''::'' @ r" by (auto simp: HasPrefix_prefix prefix_def)
    then have "r \<noteq> []" "ipv6_groups [] (Some 0) r \<noteq> None" using a by auto
    then show ?thesis using ipv6_groups_ends [of "[]" "Some 0" r] colon_end_char r by simp
  next
    assume a: "ipv6_groups [] None s \<noteq> None"
    then have "s \<noteq> []" by (auto simp: ipv6_groups.simps hex_group_def)
    then show ?thesis using ipv6_groups_ends [OF a] by simp
  qed (simp add: colon_end_char)
qed

lemma ParseAddr_kind: "ParseAddr s = Some a \<Longrightarrow> parseIPv4 s = Some a \<or> parseIPv6 s = Some a"
proof -
  have "ParseAddr_scan s cs = Some a \<Longrightarrow> parseIPv4 s = Some a \<or> parseIPv6 s = Some a" for cs
    by (induction cs) (auto split: if_splits)
  then show "ParseAddr s = Some a \<Longrightarrow> parseIPv4 s = Some a \<or> parseIPv6 s = Some a" by (simp add: ParseAddr_def)
qed

lemma net_ParseIP_ends:
  assumes "net_ParseIP s \<noteq> None"
  shows "s \<noteq> [] \<and> end_char (hd s) \<and> end_char (last s)"
proof -
  obtain a where a: "ParseAddr s = Some a" "\<not> hasZone a" using assms by (auto simp: net_ParseIP_def split: option.splits if_splits)
  show ?thesis
  proof (cases "parseIPv4 s = Some a")
    case True
    then show ?thesis by (intro parseIPv4Fields_ends) (auto simp: parseIPv4_def)
  next
    case False
    then have p: "parseIPv6 s = Some a" using ParseAddr_kind [OF a(1)] by simp
    then obtain w z where "a = IP6 w z" by (auto simp: parseIPv6_def Let_def split: if_splits prod.splits)
    then show ?thesis using p a(2) parseIPv6_ends by auto
  qed
qed

lemma validDNSLabel_ends: "validDNSLabel f \<Longrightarrow> f \<noteq> [] \<and> end_char (hd f) \<and> end_char (last f)"
  by (auto simp: validDNSLabel_def list_all_iff label_end_char)

text \<open>The normal form of a valid rule is its own normal form.\<close>

lemma validHostRule_stable:
  assumes "validHostRule t"
  shows "normalizeHostName (normalizeHostName t) = normalizeHostName t"
proof -
  define n where "n = normalizeHostName t"
  have "n \<noteq> [] \<and> end_char (hd n) \<and> end_char (last n)"
  proof (cases "net_ParseIP n = None")
    case False
    then show ?thesis by (rule net_ParseIP_ends)
  next
    case True
    define name where "name = (if Contains_str n ''*'' then TrimPrefix n ''*.'' else n)"
    have v: "list_all validDNSLabel (Split name (CHR ''.''))" "Contains_str n ''*'' \<Longrightarrow> HasPrefix n ''*.''"
      using assms True by (auto simp: validHostRule_def Let_def n_def [symmetric] name_def split: if_splits)
    have e: "name \<noteq> [] \<and> end_char (hd name) \<and> end_char (last name)"
      by (rule Split_ends [OF v(1) validDNSLabel_ends])
    show ?thesis
    proof (cases "Contains_str n ''*''")
      case True
      then have "n = ''*.'' @ name" using v(2) by (auto simp: name_def TrimPrefix_def HasPrefix_prefix prefix_def)
      then show ?thesis using e colon_end_char by simp
    next
      case False
      then show ?thesis using e by (simp add: name_def)
    qed
  qed
  then show ?thesis using normalize_stable [of n t] by (simp add: n_def end_char_def)
qed

lemma validHostRule_normal: "validHostRule t \<Longrightarrow> validHostRule (normalizeHostName t)"
  using validHostRule_stable [of t] by (simp add: validHostRule_def)

subsection \<open>Rules that match one request overlap\<close>

lemma rules_overlap:
  assumes "validHostRule r" "validHostRule s" "hostRuleMatches h r" "hostRuleMatches h s"
  shows "hostRulesOverlap r s"
proof -
  define host a b where "host = normalizeHostName h" and "a = normalizeHostName r" and "b = normalizeHostName s"
  have st: "normalizeHostName a = a" "normalizeHostName b = b" "validHostRule a" "validHostRule b"
    using assms(1,2) validHostRule_stable validHostRule_normal by (simp_all add: a_def b_def)
  have m: "if \<not> Contains_str c ''*'' then host = c else HasPrefix c ''*.'' \<and> suffix (''.'' @ TrimPrefix c ''*.'') host"
    if "hostRuleMatches h q" "c = normalizeHostName q" for c q
    using that by (auto simp: hostRuleMatches_def Let_def host_def HasSuffix_suffix split: if_splits)
  note ma = m [OF assms(3) a_def] and mb = m [OF assms(4) b_def]
  have star: "HasPrefix c ''*.'' \<Longrightarrow> Contains_str c ''*''" for c
    by (auto simp: Contains_char HasPrefix_prefix prefix_def)
  have matches: "hostRuleMatches host c" if "hostRuleMatches h q" "c = normalizeHostName q" "normalizeHostName c = c" "normalizeHostName host = host" for c q
    using that by (simp add: hostRuleMatches_def host_def)
  have sfx: "t = u \<or> HasSuffix t (''.'' @ u) \<or> HasSuffix u (''.'' @ t)"
    if "suffix (''.'' @ t) host" "suffix (''.'' @ u) host" for t u
    using suffix_same_cases [OF that] by (auto simp: HasSuffix_suffix suffix_Cons)
  consider (exact) "\<not> Contains_str a ''*''" "\<not> Contains_str b ''*''" | (wild1) "Contains_str a ''*''" "\<not> Contains_str b ''*''"
    | (wild2) "\<not> Contains_str a ''*''" "Contains_str b ''*''" | (both) "Contains_str a ''*''" "Contains_str b ''*''" by blast
  then show ?thesis
  proof cases
    case exact
    then have "\<not> HasPrefix a ''*.''" "\<not> HasPrefix b ''*.''" using star by blast+
    then show ?thesis using exact ma mb st by (simp add: hostRulesOverlap_def a_def [symmetric] b_def [symmetric])
  next
    case wild1
    then have "HasPrefix a ''*.''" "\<not> HasPrefix b ''*.''" "host = b" using star ma mb by auto
    then show ?thesis using matches [OF assms(3) a_def] st by (simp add: hostRulesOverlap_def a_def [symmetric] b_def [symmetric])
  next
    case wild2
    then have "HasPrefix b ''*.''" "\<not> HasPrefix a ''*.''" "host = a" using star ma mb by auto
    then show ?thesis using matches [OF assms(4) b_def] st by (simp add: hostRulesOverlap_def a_def [symmetric] b_def [symmetric])
  next
    case both
    then have "HasPrefix a ''*.''" "HasPrefix b ''*.''" using ma mb by auto
    then show ?thesis using both ma mb st sfx by (simp add: hostRulesOverlap_def a_def [symmetric] b_def [symmetric] Let_def)
  qed
qed

text \<open>Locations as they are stored: absolute, without a closing slash and without a query.\<close>

definition stored_location :: "string \<Rightarrow> bool" where
  "stored_location l \<longleftrightarrow> HasPrefix l ''/'' \<and> (l = ''/'' \<or> \<not> HasSuffix l ''/'') \<and> CHR ''?'' \<notin> set l"

lemma stored_location_stable:
  assumes "stored_location l" "list_all (\<lambda>c. \<not> is_space c) l"
  shows "normalizeHostLocation l = l"
proof -
  have "l \<noteq> []" using assms(1) by (auto simp: stored_location_def HasPrefix_def)
  moreover have "TrimSpace l = l" using assms(2) by (intro TrimSpace_id) (auto simp: list_all_iff)
  ultimately show ?thesis using assms(1)
    by (auto simp: normalizeHostLocation_def Let_def strip_slashes.simps [of l] stored_location_def)
qed

lemma locations_overlap:
  assumes "stored_location l" "stored_location m" "list_all (\<lambda>c. \<not> is_space c) uri"
    and "hostPathMatches uri l" "hostPathMatches uri m"
  shows "hostLocationsOverlap l m"
proof (cases "l = ''/'' \<or> m = ''/''")
  case True
  have "normalizeHostLocation ''/'' = ''/''"
    by (rule stored_location_stable) (auto simp: stored_location_def HasPrefix_def is_space_def)
  then show ?thesis using True by (auto simp: hostLocationsOverlap_def)
next
  case False
  have p: "prefix l uri" "prefix m uri"
    using assms(1,2,4,5) False by (auto simp: hostPathMatches_def HasPrefix_prefix stored_location_def split: if_splits)
  have "list_all (\<lambda>c. \<not> is_space c) l" "list_all (\<lambda>c. \<not> is_space c) m"
    using assms(3) set_mono_prefix [OF p(1)] set_mono_prefix [OF p(2)] unfolding list_all_iff by blast+
  then have "normalizeHostLocation l = l" "normalizeHostLocation m = m"
    using assms(1,2) by (simp_all add: stored_location_stable)
  moreover have next_slash: "y ! length x = CHR ''/''"
    if "stored_location y" "hostPathMatches uri x" "x \<noteq> ''/''" "prefix x uri" "prefix y uri" "length x < length y" "x \<noteq> []" for x y
  proof -
    have y: "y ! length x = uri ! length x" "length x < length uri" using that(5,6) by (auto simp: prefix_def nth_append)
    then have "uri ! length x = CHR ''/'' \<or> uri ! length x = CHR ''?''"
      using that(2,3,7) by (auto simp: hostPathMatches_def Let_def split: if_splits)
    moreover have "y ! length x \<in> set y" using that(6) by simp
    ultimately show ?thesis using y that(1) by (auto simp: stored_location_def)
  qed
  moreover have "l \<noteq> []" "m \<noteq> []" using assms(1,2) by (auto simp: stored_location_def HasPrefix_def)
  moreover have shorter: "\<not> prefix y x" if "length x < length y" for x y :: string using that prefix_length_le by fastforce
  moreover have "l = m \<or> (prefix l m \<and> length l < length m) \<or> (prefix m l \<and> length m < length l)"
    using prefix_same_cases [OF p] by (auto simp: prefix_def)
  ultimately show ?thesis
  proof (elim disjE)
    assume a: "prefix l m \<and> length l < length m"
    then have "m ! length l = CHR ''/''" using next_slash [OF assms(2,4)] False p \<open>l \<noteq> []\<close> by simp
    then show ?thesis using a shorter [of l m] \<open>normalizeHostLocation l = l\<close> \<open>normalizeHostLocation m = m\<close>
      by (simp add: hostLocationsOverlap_def HasPrefix_prefix)
  next
    assume a: "prefix m l \<and> length m < length l"
    then have "l ! length m = CHR ''/''" using next_slash [OF assms(1,5)] False p \<open>m \<noteq> []\<close> by simp
    then show ?thesis using a \<open>normalizeHostLocation l = l\<close> \<open>normalizeHostLocation m = m\<close>
      by (simp add: hostLocationsOverlap_def HasPrefix_prefix)
  qed (simp add: hostLocationsOverlap_def)
qed

lemma schemes_overlap:
  assumes "s \<in> {''http'', ''https'', ''all''}" "t \<in> {''http'', ''https'', ''all''}"
    and "s = ''all'' \<or> s = q" "t = ''all'' \<or> t = q"
  shows "hostSchemesOverlap s t"
proof -
  have "ToLower (TrimSpace u) = u" if "u \<in> {''http'', ''https'', ''all''}" for u
    using that by (elim insertE emptyE; hypsubst; code_simp)
  then show ?thesis using assms by (auto simp: hostSchemesOverlap_def)
qed

end
