(* ===== verification/Host_Store.thy ===== *)
theory Host_Store
  imports Host_Rules "HOL-Library.AList" "HOL-Library.Multiset"
begin

text \<open>
  The store of virtual hosts (\<open>lib/file/db.go\<close>, \<open>lib/file/basic_auth.go\<close>): validation of a record, platform
  domains, \<open>NewHost\<close>, \<open>UpdateHost\<close>, \<open>DelHost\<close>, \<open>SaveGlobal\<close>, the conflict check between tenants and the
  selection of the rule for a request.

  \<^item> The \<open>sync.Map\<close> of hosts is an association list in the arbitrary order of \<open>Range\<close>. All writers hold
    \<open>hostMutationMu\<close>, so each is one step.
  \<^item> A host has the fields that validation, routing and platform domains read or write; the other
    attributes that \<open>UpdateHost\<close> copies (header and path rewriting, remark, limits, lists) are the type
    parameter \<open>'x\<close>. A client is its id and owner, as the host's pointer shows them.
  \<^item> Whether a platform certificate can be loaded and covers its domain (\<open>cert_ok\<close>), the SHA-256 text of a
    name (\<open>sha\<close>) and whether the JSON file could be written (\<open>store_ok\<close>) are arguments.
\<close>

record hclient =
  hcId :: int
  hcUserId :: int

record health =
  HealthCheckTimeout :: int
  HealthMaxFail :: int
  HealthCheckInterval :: int
  HttpHealthUrl :: string
  HealthCheckType :: string
  HealthCheckTarget :: string

record 'x host =
  hId :: int
  hHost :: string
  PlatformDomainID :: string
  hLocation :: string
  hScheme :: string
  hAuth :: string
  hCertFilePath :: string
  hKeyFilePath :: string
  hNoStore :: bool
  hIsClose :: bool
  hAutoHttps :: bool
  hClient :: "hclient option"
  hTarget :: "string option"
  hHealth :: health
  hRest :: 'x

record platformDomain =
  pdID :: string
  Wildcard :: string
  pdCert :: string
  pdKey :: string

record 'x hostdb =
  hosts :: "(int \<times> 'x host) list"
  HostIncreaseId :: int
  temporaryHostID :: int
  PlatformDomains :: "platformDomain list"

datatype host_error = BadRecord | BadHost | BadScheme | BadPath | DotSegment | BadTargets | BadAuth | BadHealth | IdRange | IdExists
  | PlatformReserved | PlatformUnknown | PlatformCert | PlatformHttpOnly | PlatformPrefix | PlatformTaken | HostExists
  | RouteConflict | NotFound | StoreFailed | BadPlatformDomain | PlatformInUse | PlatformConflict

type_synonym 'a checked = "host_error + 'a"

subsection \<open>Validation of a record\<close>

definition basic_auth_line :: "string \<Rightarrow> (string \<times> string) option" where
  "basic_auth_line line =
     (case IndexByte line (CHR '':'') of
        None \<Rightarrow> None
      | Some i \<Rightarrow>
          let username = TrimSpace (take i line); password = TrimSpace (drop (i + 1) line) in
          if username = [] \<or> password = [] then None
          else if ContainsAny username [CHR 0x0D, CHR 0x0A, CHR '':''] \<or> ContainsAny password [CHR 0x0D, CHR 0x0A] then None
          else Some (username, password))"

fun basic_auth_lines :: "(string \<times> string) list \<Rightarrow> string list \<Rightarrow> (string \<times> string) list option" where
  "basic_auth_lines accounts [] = Some accounts"
| "basic_auth_lines accounts (raw # ls) =
     (let line = TrimSpace raw in
      if line = [] then basic_auth_lines accounts ls
      else case basic_auth_line line of
             None \<Rightarrow> None
           | Some (u, p) \<Rightarrow> if map_of accounts u \<noteq> None then None else basic_auth_lines (accounts @ [(u, p)]) ls)"

definition unix_lines :: "string \<Rightarrow> string" where
  "unix_lines s = map (\<lambda>c. if c = CHR 0x0D then CHR 0x0A else c) (crlf_to_lf s)"

definition ParseBasicAuth :: "string \<Rightarrow> (string \<times> string) list option" where
  "ParseBasicAuth value = basic_auth_lines [] (Split (unix_lines value) (CHR 0x0A))"

definition BasicAuthConfigured :: "string \<Rightarrow> bool" where
  "BasicAuthConfigured value =
     (TrimSpace value \<noteq> [] \<and> (case ParseBasicAuth value of None \<Rightarrow> False | Some accounts \<Rightarrow> accounts \<noteq> []))"

definition JoinHostPort :: "string \<Rightarrow> string \<Rightarrow> string" where
  "JoinHostPort host port =
     (if ContainsAny host '':%'' then ''['' @ host @ '']:'' @ port else host @ '':'' @ port)"

definition health_target :: "string \<Rightarrow> string option" where
  "health_target part =
     (case SplitHostPort part of
        None \<Rightarrow> None
      | Some (host, portText) \<Rightarrow>
          if TrimSpace host = [] then None
          else case Atoi portText of
                 None \<Rightarrow> None
               | Some port \<Rightarrow> if port < 1 \<or> port > 65535 then None else Some (JoinHostPort (TrimSpace host) (dec_string port)))"

definition health_targets :: "string \<Rightarrow> string option list" where
  "health_targets text =
     map health_target (filter (\<lambda>p. p \<noteq> []) (map TrimSpace
       (Split (map (\<lambda>c. if c = CHR 0x0A then CHR '','' else c) (crlf_to_lf text)) (CHR '',''))))"

definition NormalizeHealth :: "health \<Rightarrow> health checked" where
  "NormalizeHealth h =
     (let ty = ToLower (TrimSpace (HealthCheckType h)); targets = health_targets (HealthCheckTarget h) in
      if None \<in> set targets then Inl BadHealth
      else if targets = [] then
        Inr \<lparr>HealthCheckTimeout = 0, HealthMaxFail = 0, HealthCheckInterval = 0, HttpHealthUrl = [], HealthCheckType = [],
             HealthCheckTarget = []\<rparr>
      else
        let ty1 = (if ty = [] then ''http'' else ty);
            timeout = (if HealthCheckTimeout h \<le> 0 then 2 else HealthCheckTimeout h);
            maxFail = (if HealthMaxFail h \<le> 0 then 3 else HealthMaxFail h);
            interval = (if HealthCheckInterval h \<le> 0 then 10 else HealthCheckInterval h);
            url = (if ty1 = ''http'' then
                     (let u = TrimSpace (HttpHealthUrl h) in if u = [] then ''/'' else u)
                   else [])
        in if ty1 \<noteq> ''http'' \<and> ty1 \<noteq> ''tcp'' then Inl BadHealth
           else if timeout > 300 \<or> maxFail > 100 \<or> interval > 3600 then Inl BadHealth
           else if ty1 = ''http'' \<and> (\<not> HasPrefix url ''/'' \<or> ContainsAny url [CHR 0x0D, CHR 0x0A]) then Inl BadHealth
           else Inr \<lparr>HealthCheckTimeout = timeout, HealthMaxFail = maxFail, HealthCheckInterval = interval, HttpHealthUrl = url,
                     HealthCheckType = ty1, HealthCheckTarget = Join (map the targets) '',''\<rparr>)"

definition HealthConfigEnabled :: "health \<Rightarrow> bool" where
  "HealthConfigEnabled h \<longleftrightarrow> HealthCheckTarget h \<noteq> [] \<and> HealthCheckTimeout h > 0 \<and> HealthMaxFail h > 0 \<and> HealthCheckInterval h > 0"

definition normalizeHostMutation :: "'x host \<Rightarrow> 'x host checked" where
  "normalizeHostMutation h0 =
     (case hTarget h0 of
        None \<Rightarrow> Inl BadRecord
      | Some target \<Rightarrow>
          if hClient h0 = None then Inl BadRecord
          else
            let h1 = h0\<lparr>hHost := normalizeHostName (hHost h0)\<rparr> in
            if \<not> validHostRule (hHost h1) then Inl BadHost
            else case normalizeHostScheme (hScheme h1) of
              None \<Rightarrow> Inl BadScheme
            | Some scheme \<Rightarrow>
                let loc = normalizeHostLocation (if hLocation h1 = [] then ''/'' else hLocation h1);
                    t = TrimSpace (crlf_to_lf target);
                    h2 = h1\<lparr>hScheme := scheme, hLocation := loc, hTarget := Some t\<rparr>
                in if \<not> HasPrefix loc ''/'' \<or> ContainsAny loc [CHR ''?'', CHR ''#'', CHR 0x5C, CHR 0x0D, CHR 0x0A] then Inl BadPath
                   else if list_ex (\<lambda>seg. seg = ''.'' \<or> seg = ''..'') (Split loc (CHR ''/'')) then Inl DotSegment
                   else if \<not> validHostTargets t then Inl BadTargets
                   else
                     let h3 = (if scheme = ''http'' then h2\<lparr>hAutoHttps := False\<rparr> else h2) in
                     if TrimSpace (hAuth h3) \<noteq> [] \<and> ParseBasicAuth (hAuth h3) = None then Inl BadAuth
                     else
                       let h4 = (if TrimSpace (hAuth h3) \<noteq> [] then h3\<lparr>hAuth := TrimSpace (unix_lines (hAuth h3))\<rparr> else h3) in
                       case NormalizeHealth (hHealth h4) of
                         Inl e \<Rightarrow> Inl e
                       | Inr hc \<Rightarrow> Inr (h4\<lparr>hHealth := hc\<rparr>))"

subsection \<open>Owners and conflicts\<close>

definition sameHostOwner :: "hclient option \<Rightarrow> hclient option \<Rightarrow> bool" where
  "sameHostOwner a b =
     (let (ua, ca) = (case a of None \<Rightarrow> (0, 0) | Some c \<Rightarrow> (hcUserId c, hcId c));
          (ub, cb) = (case b of None \<Rightarrow> (0, 0) | Some c \<Rightarrow> (hcUserId c, hcId c))
      in if ua > 0 \<or> ub > 0 then ua > 0 \<and> ua = ub
         else if ca < 0 \<or> cb < 0 then ca < 0 \<and> ca = cb
         else ca > 0 \<and> ca = cb)"

definition IsHostExist :: "'x hostdb \<Rightarrow> 'x host \<Rightarrow> bool" where
  "IsHostExist db h =
     list_ex (\<lambda>(_, v). hClient v \<noteq> None \<and> hId v \<noteq> hId h \<and> hHost v = hHost h \<and> hLocation h = hLocation v \<and>
       hostSchemesOverlap (hScheme h) (hScheme v)) (hosts db)"

definition routes_overlap :: "'x host \<Rightarrow> 'x host \<Rightarrow> bool" where
  "routes_overlap h v \<longleftrightarrow> hostSchemesOverlap (hScheme h) (hScheme v) \<and> hostRulesOverlap (hHost h) (hHost v) \<and>
     hostLocationsOverlap (hLocation h) (hLocation v)"

definition IsHostRouteConflict :: "'x hostdb \<Rightarrow> 'x host \<Rightarrow> bool" where
  "IsHostRouteConflict db h =
     (case hClient h of
        None \<Rightarrow> False
      | Some c \<Rightarrow>
          if \<not> validHostRule (hHost h) then False
          else if hcUserId c = 0 \<and> hcId c = 0 then True
          else list_ex (\<lambda>(_, v). \<not> (hId v = hId h \<or> hClient v = None \<or> sameHostOwner (Some c) (hClient v)) \<and> routes_overlap h v)
                 (hosts db))"

subsection \<open>Platform domains\<close>

definition FindPlatformDomainByHost :: "'x hostdb \<Rightarrow> string \<Rightarrow> platformDomain option" where
  "FindPlatformDomainByHost db host = List.find (\<lambda>d. hostRuleMatches (normalizeHostName host) (Wildcard d)) (PlatformDomains db)"

definition GetPlatformDomain :: "'x hostdb \<Rightarrow> string \<Rightarrow> platformDomain option" where
  "GetPlatformDomain db ident =
     (let i = TrimSpace ident in if i = [] then None else List.find (\<lambda>d. pdID d = i) (PlatformDomains db))"

definition ResolvePlatformHost :: "'x hostdb \<Rightarrow> string \<Rightarrow> string \<Rightarrow> string option" where
  "ResolvePlatformHost db ident pre =
     (case GetPlatformDomain db ident of
        None \<Rightarrow> None
      | Some d \<Rightarrow> map_option (\<lambda>p. p @ ''.'' @ TrimPrefix (Wildcard d) ''*.'') (normalizePlatformPrefix pre))"

definition isPlatformHostUnique :: "'x hostdb \<Rightarrow> string \<Rightarrow> string \<Rightarrow> string \<Rightarrow> int \<Rightarrow> bool" where
  "isPlatformHostUnique db fullHost location scheme excludeHostID =
     (\<not> list_ex (\<lambda>(_, v). hId v \<noteq> excludeHostID \<and> normalizeHostName (hHost v) = normalizeHostName fullHost \<and>
        normalizeHostLocation location = normalizeHostLocation (hLocation v) \<and> hostSchemesOverlap scheme (hScheme v)) (hosts db))"

definition validatePlatformDomainCertificate :: "(platformDomain \<Rightarrow> bool) \<Rightarrow> platformDomain \<Rightarrow> bool" where
  "validatePlatformDomainCertificate cert_ok d = ((pdCert d = [] \<and> pdKey d = []) \<or> cert_ok d)"

definition preparePlatformHost :: "(platformDomain \<Rightarrow> bool) \<Rightarrow> 'x hostdb \<Rightarrow> 'x host \<Rightarrow> 'x host option \<Rightarrow> 'x host checked" where
  "preparePlatformHost cert_ok db h previous =
     (if TrimSpace (PlatformDomainID h) = [] then
        (case FindPlatformDomainByHost db (hHost h) of
           None \<Rightarrow> Inr h
         | Some d \<Rightarrow>
             (case previous of
                None \<Rightarrow> Inl PlatformReserved
              | Some p \<Rightarrow>
                  if PlatformDomainID p \<noteq> [] \<or> normalizeHostName (hHost p) \<noteq> normalizeHostName (hHost h)
                  then Inl PlatformReserved else Inr h))
      else case GetPlatformDomain db (PlatformDomainID h) of
          None \<Rightarrow> Inl PlatformUnknown
        | Some d \<Rightarrow>
            let hostName = normalizeHostName (hHost h) in
            if \<not> validatePlatformDomainCertificate cert_ok d then Inl PlatformCert
            else if pdCert d = [] \<and> pdKey d = [] \<and> hScheme h \<noteq> ''http'' then Inl PlatformHttpOnly
            else if \<not> platformHostMatches hostName (Wildcard d) then Inl PlatformPrefix
            else if \<not> isPlatformHostUnique db hostName (hLocation h) (hScheme h) (hId h) then Inl PlatformTaken
            else Inr (h\<lparr>PlatformDomainID := pdID d, hHost := hostName, hCertFilePath := pdCert d, hKeyFilePath := pdKey d\<rparr>))"

subsection \<open>Changes of the store\<close>

definition wrap32 :: "int \<Rightarrow> int" where "wrap32 n = (n + 2 ^ 31) mod 2 ^ 32 - 2 ^ 31"

definition assign_id :: "'x host \<Rightarrow> 'x hostdb \<Rightarrow> 'x host \<times> 'x hostdb" where
  "assign_id h db =
     (if hNoStore h then
        (if hId h \<ge> 0 then
           let i = wrap32 (temporaryHostID db - 1) in (h\<lparr>hId := i\<rparr>, db\<lparr>temporaryHostID := i\<rparr>)
         else (h, db))
      else if hId h \<le> 0 then
        let i = wrap32 (HostIncreaseId db + 1) in (h\<lparr>hId := i\<rparr>, db\<lparr>HostIncreaseId := i\<rparr>)
      else (h, db))"

definition NewHost :: "(platformDomain \<Rightarrow> bool) \<Rightarrow> bool \<Rightarrow> 'x host \<Rightarrow> 'x hostdb \<Rightarrow> 'x host checked \<times> 'x hostdb" where
  "NewHost cert_ok store_ok t0 db0 =
     (case normalizeHostMutation t0 of
        Inl e \<Rightarrow> (Inl e, db0)
      | Inr t1 \<Rightarrow>
          let (t2, db1) = assign_id t1 db0 in
          if hId t2 > 2147483647 then (Inl IdRange, db1)
          else if map_of (hosts db1) (hId t2) \<noteq> None then (Inl IdExists, db1)
          else
            let db2 = (if \<not> hNoStore t2 \<and> hId t2 > HostIncreaseId db1 then db1\<lparr>HostIncreaseId := hId t2\<rparr> else db1) in
            case preparePlatformHost cert_ok db2 t2 None of
              Inl e \<Rightarrow> (Inl e, db2)
            | Inr t3 \<Rightarrow>
                if IsHostExist db2 t3 then (Inl HostExists, db2)
                else if IsHostRouteConflict db2 t3 then (Inl RouteConflict, db2)
                else
                  let db3 = db2\<lparr>hosts := AList.update (hId t3) t3 (hosts db2)\<rparr> in
                  if store_ok then (Inr t3, db3) else (Inl StoreFailed, db3\<lparr>hosts := AList.delete (hId t3) (hosts db3)\<rparr>))"

text \<open>The fields that \<open>UpdateHost\<close> copies into the stored host, and copies back when the file cannot be written.\<close>

definition copy_fields :: "'x host \<Rightarrow> 'x host \<Rightarrow> 'x host" where
  "copy_fields t h =
     h\<lparr>hHost := hHost t, PlatformDomainID := PlatformDomainID t, hClient := hClient t, hTarget := hTarget t, hAuth := hAuth t,
       hLocation := hLocation t, hScheme := hScheme t, hCertFilePath := hCertFilePath t, hKeyFilePath := hKeyFilePath t,
       hAutoHttps := hAutoHttps t, hHealth := hHealth t, hRest := hRest t\<rparr>"

definition UpdateHost :: "(platformDomain \<Rightarrow> bool) \<Rightarrow> bool \<Rightarrow> 'x host \<Rightarrow> 'x hostdb \<Rightarrow> unit checked \<times> 'x hostdb" where
  "UpdateHost cert_ok store_ok t0 db =
     (case normalizeHostMutation t0 of
        Inl e \<Rightarrow> (Inl e, db)
      | Inr t1 \<Rightarrow>
          (case map_of (hosts db) (hId t1) of
             None \<Rightarrow> (Inl NotFound, db)
           | Some stored \<Rightarrow>
               (case preparePlatformHost cert_ok db t1 (Some stored) of
                  Inl e \<Rightarrow> (Inl e, db)
                | Inr t2 \<Rightarrow>
                    if IsHostExist db t2 then (Inl HostExists, db)
                    else if IsHostRouteConflict db t2 then (Inl RouteConflict, db)
                    else
                      let edited = copy_fields t2 stored; db1 = db\<lparr>hosts := AList.update (hId t1) edited (hosts db)\<rparr> in
                      if store_ok then (Inr (), db1)
                      else (Inl StoreFailed, db1\<lparr>hosts := AList.update (hId t1) (copy_fields stored edited) (hosts db1)\<rparr>))))"

definition DelHost :: "int \<Rightarrow> 'x hostdb \<Rightarrow> 'x hostdb" where
  "DelHost i db = db\<lparr>hosts := AList.delete i (hosts db)\<rparr>"

text \<open>Opening and closing a host from the console.\<close>

definition set_closed :: "int \<Rightarrow> bool \<Rightarrow> 'x hostdb \<Rightarrow> 'x hostdb" where
  "set_closed i b db = db\<lparr>hosts := map (\<lambda>(k, v). (k, if k = i then v\<lparr>hIsClose := b\<rparr> else v)) (hosts db)\<rparr>"

subsection \<open>Saving the platform domains\<close>

fun platform_id_from :: "string \<Rightarrow> string list \<Rightarrow> nat \<Rightarrow> nat \<Rightarrow> string option" where
  "platform_id_from encoded used len 0 = None"
| "platform_id_from encoded used len (Suc k) =
     (if len > length encoded then None
      else
        let i = ''platform-'' @ take len encoded in
        if i \<notin> set used then Some i else platform_id_from encoded used (len + 8) k)"

definition deterministicPlatformDomainID :: "(string \<Rightarrow> string) \<Rightarrow> string \<Rightarrow> string list \<Rightarrow> string option" where
  "deterministicPlatformDomainID sha wildcard used = platform_id_from (sha wildcard) used 16 (length (sha wildcard))"

fun normalize_platform_from :: "(string \<Rightarrow> string) \<Rightarrow> platformDomain list \<Rightarrow> platformDomain list \<Rightarrow> platformDomain list option" where
  "normalize_platform_from sha domains [] = Some domains"
| "normalize_platform_from sha domains (d # ds) =
     (case normalizePlatformWildcard (Wildcard d) of
        None \<Rightarrow> None
      | Some wildcard \<Rightarrow>
          let ident = (if TrimSpace (pdID d) = [] then deterministicPlatformDomainID sha wildcard (map pdID domains) else Some (TrimSpace (pdID d)));
              cert = TrimSpace (pdCert d); key = TrimSpace (pdKey d)
          in case ident of
               None \<Rightarrow> None
             | Some i \<Rightarrow>
                 if i \<in> set (map pdID domains) then None
                 else if (cert = []) \<noteq> (key = []) then None
                 else if list_ex (\<lambda>e. hostRulesOverlap wildcard (Wildcard e)) domains then None
                 else normalize_platform_from sha (domains @ [\<lparr>pdID = i, Wildcard = wildcard, pdCert = cert, pdKey = key\<rparr>]) ds)"

definition normalizePlatformDomains :: "(string \<Rightarrow> string) \<Rightarrow> platformDomain list \<Rightarrow> platformDomain list option" where
  "normalizePlatformDomains sha ds = normalize_platform_from sha [] ds"

definition PlatformDomainReferenceCount :: "'x hostdb \<Rightarrow> string \<Rightarrow> nat" where
  "PlatformDomainReferenceCount db ident =
     (let i = TrimSpace ident in if i = [] then 0 else length (filter (\<lambda>(_, v). PlatformDomainID v = i) (hosts db)))"

definition find_domain :: "string \<Rightarrow> platformDomain list \<Rightarrow> platformDomain option" where
  "find_domain i ds = map_of (rev (map (\<lambda>d. (pdID d, d)) ds)) i"

definition validatePlatformDomainReferences :: "'x hostdb \<Rightarrow> platformDomain list \<Rightarrow> bool" where
  "validatePlatformDomainReferences db new =
     list_all (\<lambda>old. PlatformDomainReferenceCount db (pdID old) = 0 \<or>
       (case find_domain (pdID old) new of None \<Rightarrow> False | Some d \<Rightarrow> Wildcard d = Wildcard old)) (PlatformDomains db)"

definition validatePlatformWildcardConflicts :: "'x hostdb \<Rightarrow> platformDomain list \<Rightarrow> bool" where
  "validatePlatformWildcardConflicts db ds =
     list_all (\<lambda>(_, v). let hostName = normalizeHostName (hHost v) in
       (HasPrefix hostName ''*.'' \<and> validHostRule hostName) \<longrightarrow>
       list_all (\<lambda>d. PlatformDomainID v = pdID d \<or> \<not> hostRulesOverlap hostName (Wildcard d)) ds) (hosts db)"

definition validatePlatformDomainHostSchemes :: "'x hostdb \<Rightarrow> platformDomain list \<Rightarrow> bool" where
  "validatePlatformDomainHostSchemes db ds =
     list_all (\<lambda>(_, v). case find_domain (PlatformDomainID v) ds of
         None \<Rightarrow> True
       | Some d \<Rightarrow> \<not> (pdCert d = [] \<and> pdKey d = [] \<and> ToLower (TrimSpace (hScheme v)) \<noteq> ''http'')) (hosts db)"

definition SaveGlobal :: "(platformDomain \<Rightarrow> bool) \<Rightarrow> (string \<Rightarrow> string) \<Rightarrow> platformDomain list \<Rightarrow> 'x hostdb \<Rightarrow> unit checked \<times> 'x hostdb" where
  "SaveGlobal cert_ok sha input db =
     (case normalizePlatformDomains sha input of
        None \<Rightarrow> (Inl BadPlatformDomain, db)
      | Some ds \<Rightarrow>
          if \<not> validatePlatformDomainReferences db ds then (Inl PlatformInUse, db)
          else if \<not> validatePlatformWildcardConflicts db ds then (Inl PlatformConflict, db)
          else if \<not> validatePlatformDomainHostSchemes db ds then (Inl PlatformHttpOnly, db)
          else if \<not> list_all (validatePlatformDomainCertificate cert_ok) ds then (Inl PlatformCert, db)
          else
            (Inr (), db\<lparr>PlatformDomains := ds,
               hosts := map (\<lambda>(k, v). (k, case find_domain (PlatformDomainID v) ds of
                   None \<Rightarrow> v
                 | Some d \<Rightarrow> v\<lparr>hCertFilePath := pdCert d, hKeyFilePath := pdKey d\<rparr>)) (hosts db)\<rparr>))"

subsection \<open>Selecting the rule for a request\<close>

record 'x hostMatch =
  mhost :: "'x host"
  mlocation :: string
  mexact :: bool
  msuffixLength :: int

definition candidate_of :: "string \<Rightarrow> string \<Rightarrow> 'x host \<Rightarrow> 'x hostMatch option" where
  "candidate_of host scheme v =
     (if hIsClose v then None
      else if hScheme v \<noteq> ''all'' \<and> hScheme v \<noteq> scheme then None
      else if hostRuleMatches host (hHost v) then
        let l0 = (if hLocation v = [] then ''/'' else hLocation v);
            l = (if \<not> HasPrefix l0 ''/'' then ''/'' @ l0 else l0);
            (exact, n) = hostRuleSpecificity (hHost v)
        in Some \<lparr>mhost = v, mlocation = l, mexact = exact, msuffixLength = int n\<rparr>
      else None)"

record 'x selection =
  chosen :: "'x host option"
  longestLocation :: string
  bestExact :: bool
  bestSuffixLength :: int
  bestID :: int

definition betterHost :: "'x hostMatch \<Rightarrow> 'x selection \<Rightarrow> bool" where
  "betterHost m s \<longleftrightarrow>
     (mexact m \<and> \<not> bestExact s) \<or>
     (mexact m = bestExact s \<and> msuffixLength m > bestSuffixLength s) \<or>
     (mexact m = bestExact s \<and> msuffixLength m = bestSuffixLength s \<and> length (mlocation m) > length (longestLocation s)) \<or>
     (mexact m = bestExact s \<and> msuffixLength m = bestSuffixLength s \<and> length (mlocation m) = length (longestLocation s) \<and>
        hId (mhost m) < bestID s)"

definition consider_match :: "string \<Rightarrow> 'x hostMatch \<Rightarrow> 'x selection \<Rightarrow> 'x selection" where
  "consider_match requestURI m s =
     (if (requestURI = ''*'' \<or> hostPathMatches requestURI (mlocation m)) \<and> (chosen s = None \<or> betterHost m s)
      then \<lparr>chosen = Some (mhost m), longestLocation = mlocation m, bestExact = mexact m, bestSuffixLength = msuffixLength m,
            bestID = hId (mhost m)\<rparr>
      else s)"

definition no_selection :: "'x selection" where
  "no_selection = \<lparr>chosen = None, longestLocation = [], bestExact = False, bestSuffixLength = -1, bestID = 2 ^ 63 - 1\<rparr>"

text \<open>The request is its URI, which is \<open>*\<close> for a lookup by TLS server name, and its scheme.\<close>

definition GetInfoByHost :: "string \<Rightarrow> string \<Rightarrow> string \<Rightarrow> 'x hostdb \<Rightarrow> 'x host option" where
  "GetInfoByHost hostText requestURI scheme db =
     (let uri = (if requestURI = [] then ''/'' else requestURI); host = GetIpByAddr hostText;
          matches = List.map_filter (candidate_of host scheme) (map snd (hosts db))
      in chosen (fold (consider_match uri) matches no_selection))"

subsection \<open>The selected rule is the most specific one\<close>

definition served_location :: "'x host \<Rightarrow> string" where
  "served_location v =
     (let l = (if hLocation v = [] then ''/'' else hLocation v) in if \<not> HasPrefix l ''/'' then ''/'' @ l else l)"

text \<open>The open rules that serve a request, and their order: exact names before wildcards, then the longer name,
  the longer path and the smaller id.\<close>

definition serves :: "string \<Rightarrow> string \<Rightarrow> string \<Rightarrow> 'x host \<Rightarrow> bool" where
  "serves hostText uri scheme v \<longleftrightarrow> \<not> hIsClose v \<and> (hScheme v = ''all'' \<or> hScheme v = scheme) \<and>
     hostRuleMatches (GetIpByAddr hostText) (hHost v) \<and> (uri = ''*'' \<or> hostPathMatches uri (served_location v))"

definition route_key :: "'x host \<Rightarrow> bool \<times> int \<times> int \<times> int" where
  "route_key v = (fst (hostRuleSpecificity (hHost v)), int (snd (hostRuleSpecificity (hHost v))), int (length (served_location v)), - hId v)"

definition match_of :: "'x host \<Rightarrow> 'x hostMatch" where
  "match_of v = \<lparr>mhost = v, mlocation = served_location v, mexact = fst (hostRuleSpecificity (hHost v)),
     msuffixLength = int (snd (hostRuleSpecificity (hHost v)))\<rparr>"

definition selected :: "'x host \<Rightarrow> 'x selection" where
  "selected v = \<lparr>chosen = Some v, longestLocation = served_location v, bestExact = fst (hostRuleSpecificity (hHost v)),
     bestSuffixLength = int (snd (hostRuleSpecificity (hHost v))), bestID = hId v\<rparr>"

lemma better_iff: "betterHost (match_of w) (selected v) \<longleftrightarrow> route_key v < route_key w"
  by (auto simp: betterHost_def match_of_def selected_def route_key_def)

lemma consider_selected:
  "consider_match uri (match_of w) (selected v) =
     (if (uri = ''*'' \<or> hostPathMatches uri (served_location w)) \<and> route_key v < route_key w then selected w else selected v)"
  using better_iff [of w v] by (auto simp: consider_match_def) (auto simp: selected_def match_of_def)

lemma consider_none:
  "consider_match uri (match_of w) no_selection =
     (if uri = ''*'' \<or> hostPathMatches uri (served_location w) then selected w else no_selection)"
  by (simp add: consider_match_def no_selection_def selected_def match_of_def)

definition best_of :: "'x host list \<Rightarrow> 'x host option \<Rightarrow> bool" where
  "best_of vs r = (case r of None \<Rightarrow> vs = [] | Some v \<Rightarrow> v \<in> set vs \<and> list_all (\<lambda>w. route_key w \<le> route_key v) vs)"

lemma fold_selected:
  "\<exists>v \<in> set (u # filter P vs). fold (consider_match uri) (map match_of vs) (selected u) = selected v \<and>
     list_all (\<lambda>w. route_key w \<le> route_key v) (u # filter P vs)"
  if "P = (\<lambda>w. uri = ''*'' \<or> hostPathMatches uri (served_location w))"
proof (induction vs arbitrary: u)
  case (Cons w vs)
  show ?case
  proof (cases "P w \<and> route_key u < route_key w")
    case True
    obtain v where v: "v \<in> set (w # filter P vs)" "fold (consider_match uri) (map match_of vs) (selected w) = selected v"
      "list_all (\<lambda>w. route_key w \<le> route_key v) (w # filter P vs)" using Cons.IH [of w] by blast
    then have "route_key u \<le> route_key v" using True by (auto intro: order.trans [OF less_imp_le])
    then show ?thesis using True v that by (auto simp: consider_selected)
  next
    case False
    obtain v where v: "v \<in> set (u # filter P vs)" "fold (consider_match uri) (map match_of vs) (selected u) = selected v"
      "list_all (\<lambda>w. route_key w \<le> route_key v) (u # filter P vs)" using Cons.IH [of u] by blast
    have "P w \<Longrightarrow> route_key w \<le> route_key v" using False v(3) by (auto simp: not_less)
    then show ?thesis using False v that by (auto simp: consider_selected)
  qed
qed simp

lemma fold_best:
  assumes "P = (\<lambda>w. uri = ''*'' \<or> hostPathMatches uri (served_location w))"
  shows "best_of (filter P vs) (chosen (fold (consider_match uri) (map match_of vs) no_selection))"
proof (induction vs)
  case (Cons w vs)
  show ?case
  proof (cases "P w")
    case True
    obtain v where "v \<in> set (w # filter P vs)" "fold (consider_match uri) (map match_of vs) (selected w) = selected v"
      "list_all (\<lambda>w. route_key w \<le> route_key v) (w # filter P vs)" using fold_selected [OF assms, of w vs] by blast
    moreover have "consider_match uri (match_of w) no_selection = selected w" using True assms by (simp add: consider_none)
    ultimately show ?thesis using True by (simp add: best_of_def selected_def)
  next
    case False
    then have "consider_match uri (match_of w) no_selection = no_selection" using assms by (simp add: consider_none)
    then show ?thesis using Cons False by simp
  qed
qed (simp add: best_of_def no_selection_def)

lemma candidates:
  "List.map_filter (candidate_of host scheme) vs =
     map match_of (filter (\<lambda>v. \<not> hIsClose v \<and> (hScheme v = ''all'' \<or> hScheme v = scheme) \<and> hostRuleMatches host (hHost v)) vs)"
  by (induction vs)
    (auto simp: List.map_filter_simps candidate_of_def match_of_def served_location_def Let_def case_prod_beta)

lemma GetInfoByHost_best:
  "best_of (filter (serves hostText (if uri = [] then ''/'' else uri) scheme) (map snd (hosts db))) (GetInfoByHost hostText uri scheme db)"
proof -
  define u where "u = (if uri = [] then ''/'' else uri)"
  define open_rules where "open_rules = filter (\<lambda>v. \<not> hIsClose v \<and> (hScheme v = ''all'' \<or> hScheme v = scheme) \<and>
    hostRuleMatches (GetIpByAddr hostText) (hHost v)) (map snd (hosts db))"
  have f: "filter (serves hostText u scheme) (map snd (hosts db)) = filter (\<lambda>w. u = ''*'' \<or> hostPathMatches u (served_location w)) open_rules"
    unfolding open_rules_def filter_filter by (rule filter_cong) (auto simp: serves_def)
  have g: "GetInfoByHost hostText uri scheme db = chosen (fold (consider_match u) (map match_of open_rules) no_selection)"
    by (simp only: GetInfoByHost_def Let_def candidates u_def [symmetric] open_rules_def)
  show ?thesis unfolding u_def [symmetric] f g by (rule fold_best [OF refl])
qed

lemma best_unique:
  assumes "best_of vs r" "best_of ws r'" "set vs = set ws" "inj_on hId (set vs)"
  shows "r = r'"
proof (cases r)
  case None
  then show ?thesis using assms by (cases r') (auto simp: best_of_def)
next
  case (Some v)
  then obtain w where w: "r' = Some w" using assms by (cases r') (auto simp: best_of_def)
  have "route_key v = route_key w" using assms Some w by (auto simp: best_of_def list_all_iff intro: antisym)
  then have "hId v = hId w" by (simp add: route_key_def)
  then show ?thesis using assms Some w by (auto simp: best_of_def dest: inj_onD)
qed

text \<open>C5 Routing is deterministic. Among the open rules that serve a request, \<open>GetInfoByHost\<close> returns the most
  specific one (an exact name before a wildcard, then the longer name, the longer path, the smaller id), it
  fails only when there is none, and the order in which the map is visited does not matter.\<close>

theorem route_selection_deterministic:
  assumes "inj_on hId (snd ` set (hosts db))" "set (hosts db') = set (hosts db)" "uri \<noteq> []"
  shows "(case GetInfoByHost hostText uri scheme db of
       None \<Rightarrow> list_all (\<lambda>(_, w). \<not> serves hostText uri scheme w) (hosts db)
     | Some v \<Rightarrow> v \<in> snd ` set (hosts db) \<and> serves hostText uri scheme v \<and>
         list_all (\<lambda>(_, w). serves hostText uri scheme w \<longrightarrow> route_key w \<le> route_key v) (hosts db)) \<and>
    GetInfoByHost hostText uri scheme db' = GetInfoByHost hostText uri scheme db"
proof -
  note b = GetInfoByHost_best [of hostText uri scheme db] and b' = GetInfoByHost_best [of hostText uri scheme db']
  have "GetInfoByHost hostText uri scheme db' = GetInfoByHost hostText uri scheme db"
    using assms(1,2) by (intro best_unique [OF b' b]) (auto intro: inj_on_subset)
  then show ?thesis using b assms(3)
    by (auto simp: best_of_def list_all_iff filter_empty_conv split: option.splits)
qed

subsection \<open>What the store guarantees\<close>

definition stored_ok :: "'x host \<Rightarrow> bool" where
  "stored_ok v \<longleftrightarrow> hClient v \<noteq> None \<and> validHostRule (hHost v) \<and> hScheme v \<in> {''http'', ''https'', ''all''} \<and> stored_location (hLocation v)"

definition disjoint_tenants :: "'x host \<Rightarrow> 'x host \<Rightarrow> bool" where
  "disjoint_tenants v w \<longleftrightarrow> sameHostOwner (hClient v) (hClient w) \<or> \<not> (routes_overlap v w \<and> routes_overlap w v)"

definition hosts_inv :: "'x hostdb \<Rightarrow> bool" where
  "hosts_inv db \<longleftrightarrow> distinct (map fst (hosts db)) \<and>
     (\<forall>k v. map_of (hosts db) k = Some v \<longrightarrow> hId v = k \<and> stored_ok v) \<and>
     (\<forall>k v l w. map_of (hosts db) k = Some v \<longrightarrow> map_of (hosts db) l = Some w \<longrightarrow> k \<noteq> l \<longrightarrow> disjoint_tenants v w)"

lemma sameHostOwner_sym: "sameHostOwner a b = sameHostOwner b a"
  by (cases a; cases b; simp add: sameHostOwner_def; metis)

lemma disjoint_tenants_sym: "disjoint_tenants v w = disjoint_tenants w v"
  using sameHostOwner_sym [of "hClient v" "hClient w"] by (auto simp: disjoint_tenants_def)

lemma hosts_inv_put:
  assumes "hosts_inv db" "stored_ok h" "hId h = k"
    and "\<And>l w. map_of (hosts db) l = Some w \<Longrightarrow> l \<noteq> k \<Longrightarrow> disjoint_tenants h w"
  shows "hosts_inv (db\<lparr>hosts := AList.update k h (hosts db)\<rparr>)"
  using assms disjoint_tenants_sym [of h] by (auto simp: hosts_inv_def update_conv' distinct_update)

lemma hosts_inv_delete: "hosts_inv db \<Longrightarrow> hosts_inv (db\<lparr>hosts := AList.delete k (hosts db)\<rparr>)"
  by (auto simp: hosts_inv_def delete_conv' distinct_delete split: if_splits)

lemma strip_slashes_spec:
  "HasPrefix s ''/'' \<Longrightarrow> HasPrefix (strip_slashes s) ''/'' \<and> (strip_slashes s = ''/'' \<or> \<not> HasSuffix (strip_slashes s) ''/'')"
proof (induction s rule: strip_slashes.induct)
  case (1 s)
  show ?case
  proof (cases "length s > 1 \<and> HasSuffix s ''/''")
    case True
    have "HasPrefix (TrimSuffix s ''/'') ''/''"
      using True "1.prems" by (auto simp: TrimSuffix_def HasPrefix_def take_Suc)
    then show ?thesis using 1 True by (simp add: strip_slashes.simps [of s])
  next
    case False
    have "s = ''/'' \<or> length s > 1" using "1.prems" by (cases s) (auto simp: HasPrefix_def)
    then show ?thesis using False "1.prems" by (auto simp: strip_slashes.simps [of s])
  qed
qed

lemma normalizeHostLocation_spec:
  "HasPrefix (normalizeHostLocation l) ''/'' \<and> (normalizeHostLocation l = ''/'' \<or> \<not> HasSuffix (normalizeHostLocation l) ''/'')"
  using strip_slashes_spec [of "if \<not> HasPrefix (TrimSpace l) ''/'' then ''/'' @ TrimSpace l else TrimSpace l"]
  by (auto simp: normalizeHostLocation_def Let_def HasPrefix_def)

lemma normalizeHostMutation_ok:
  assumes "normalizeHostMutation t0 = Inr t"
  shows "stored_ok t \<and> hId t = hId t0 \<and> hNoStore t = hNoStore t0"
proof -
  obtain target scheme loc where t: "hTarget t0 = Some target" "hClient t0 \<noteq> None" "validHostRule (normalizeHostName (hHost t0))"
    "normalizeHostScheme (hScheme t0) = Some scheme" "loc = normalizeHostLocation (if hLocation t0 = [] then ''/'' else hLocation t0)"
    "\<not> ContainsAny loc [CHR ''?'', CHR ''#'', CHR 0x5C, CHR 0x0D, CHR 0x0A]"
    "hClient t = hClient t0" "hHost t = normalizeHostName (hHost t0)" "hScheme t = scheme" "hLocation t = loc" "hId t = hId t0" "hNoStore t = hNoStore t0"
    using assms by (auto simp: normalizeHostMutation_def Let_def split: option.splits if_splits sum.splits)
  moreover have "scheme \<in> {''http'', ''https'', ''all''}" using t(4) by (auto simp: normalizeHostScheme_def Let_def split: if_splits)
  moreover have "stored_location loc"
  proof -
    have "CHR ''?'' \<notin> set loc" using t(6) by (auto simp: ContainsAny_def list_ex_iff)
    then show ?thesis using normalizeHostLocation_spec unfolding t(5) stored_location_def by blast
  qed
  ultimately show ?thesis by (simp add: stored_ok_def)
qed

lemma preparePlatformHost_ok:
  "preparePlatformHost cert_ok db t p = Inr t' \<Longrightarrow> stored_ok t \<Longrightarrow> stored_ok t' \<and> hId t' = hId t"
  by (auto simp: preparePlatformHost_def Let_def stored_ok_def validHostRule_normal split: if_splits option.splits)

lemma no_conflict:
  assumes "\<not> IsHostRouteConflict db t" "stored_ok t" "hosts_inv db" "map_of (hosts db) l = Some w" "l \<noteq> hId t"
  shows "disjoint_tenants t w"
proof -
  obtain c where c: "hClient t = Some c" "validHostRule (hHost t)" using assms(2) by (auto simp: stored_ok_def)
  have w: "(l, w) \<in> set (hosts db)" "hId w = l" "hClient w \<noteq> None"
    using assms(3,4) by (auto simp: hosts_inv_def stored_ok_def dest: map_of_SomeD)
  then show ?thesis using assms(1,5) c
    by (fastforce simp: IsHostRouteConflict_def list_ex_iff disjoint_tenants_def split: if_splits)
qed

lemma assign_id_keeps:
  "assign_id t db = (t', db') \<Longrightarrow> hosts db' = hosts db \<and> (stored_ok t \<longrightarrow> stored_ok t')"
  by (auto simp: assign_id_def Let_def stored_ok_def split: if_splits)

lemma hosts_inv_cong: "hosts db' = hosts db \<Longrightarrow> hosts_inv db' = hosts_inv db"
  by (simp add: hosts_inv_def)

lemma IsHostRouteConflict_cong: "hosts db' = hosts db \<Longrightarrow> IsHostRouteConflict db' t = IsHostRouteConflict db t"
  by (cases "hClient t") (simp_all add: IsHostRouteConflict_def)

text \<open>The outcomes of \<open>NewHost\<close> and \<open>UpdateHost\<close>: an error leaves the hosts as they were, a success stores one
  validated host that is disjoint from those of other tenants.\<close>

lemma NewHost_cases:
  fixes db :: "'x hostdb"
  assumes "NewHost cert_ok store_ok t db = (r, db')"
  shows "(\<exists>e. r = Inl e \<and> hosts db' = hosts db) \<or>
    (\<exists>h. r = Inr h \<and> stored_ok h \<and> map_of (hosts db) (hId h) = None \<and> hosts db' = AList.update (hId h) h (hosts db) \<and>
      \<not> IsHostRouteConflict db h)"
proof (cases "normalizeHostMutation t")
  case (Inl e)
  then have "r = Inl e" "db' = db" using assms by (simp_all add: NewHost_def)
  then show ?thesis by simp
next
  case (Inr t1)
  obtain t2 db1 where a: "assign_id t1 db = (t2, db1)" by (cases "assign_id t1 db")
  have t2: "hosts db1 = hosts db" "stored_ok t2" using assign_id_keeps [OF a] normalizeHostMutation_ok [OF Inr] by auto
  define db2 where "db2 = (if \<not> hNoStore t2 \<and> hId t2 > HostIncreaseId db1 then db1\<lparr>HostIncreaseId := hId t2\<rparr> else db1)"
  have d: "hosts db2 = hosts db" using t2 by (simp add: db2_def)
  note N = assms [unfolded NewHost_def Inr sum.case Let_def a prod.case, folded db2_def]
  show ?thesis
  proof (cases "hId t2 > 2147483647 \<or> map_of (hosts db1) (hId t2) \<noteq> None")
    case True
    then show ?thesis using N t2 by (auto split: if_splits)
  next
    case fresh: False
    show ?thesis
    proof (cases "preparePlatformHost cert_ok db2 t2 None")
      case (Inl e)
      then have "r = Inl e" "db' = db2" using N fresh by simp_all
      then show ?thesis using d by simp
    next
      case p: (Inr t3)
      have t3: "stored_ok t3" "hId t3 = hId t2" using preparePlatformHost_ok [OF p t2(2)] by auto
      have absent: "map_of (hosts db) (hId t3) = None" using fresh t2 t3 by auto
      then have "AList.delete (hId t3) (AList.update (hId t3) t3 (hosts db)) = hosts db"
        by (simp add: delete_update_same map_of_eq_None_iff)
      note gone = this
      show ?thesis
      proof (cases "IsHostExist db2 t3 \<or> IsHostRouteConflict db2 t3 \<or> \<not> store_ok")
        case True
        then have "\<exists>e. r = Inl e" "hosts db' = hosts db" using N fresh p d gone t3 by (auto split: if_splits)
        then show ?thesis by blast
      next
        case False
        then have "r = Inr t3" "hosts db' = AList.update (hId t3) t3 (hosts db)" using N fresh p d by auto
        then show ?thesis using False t3 absent IsHostRouteConflict_cong [OF d, of t3] by simp
      qed
    qed
  qed
qed

lemma copy_fields_back: "copy_fields stored (copy_fields t stored) = stored"
  by (cases stored) (simp add: copy_fields_def)

lemma UpdateHost_cases:
  fixes db :: "'x hostdb"
  assumes "UpdateHost cert_ok store_ok t db = (r, db')"
  shows "(\<exists>e. r = Inl e \<and> hosts db' = hosts db) \<or>
    (\<exists>h stored. r = Inr () \<and> stored_ok h \<and> map_of (hosts db) (hId h) = Some stored \<and>
      hosts db' = AList.update (hId h) (copy_fields h stored) (hosts db) \<and> \<not> IsHostRouteConflict db h)"
proof (cases "normalizeHostMutation t")
  case (Inl e)
  then show ?thesis using assms by (auto simp: UpdateHost_def)
next
  case (Inr t1)
  note t1 = normalizeHostMutation_ok [OF Inr]
  show ?thesis
  proof (cases "map_of (hosts db) (hId t1)")
    case None
    then show ?thesis using assms Inr by (auto simp: UpdateHost_def)
  next
    case (Some stored)
    show ?thesis
    proof (cases "preparePlatformHost cert_ok db t1 (Some stored)")
      case (Inl e)
      then show ?thesis using assms Inr Some by (auto simp: UpdateHost_def)
    next
      case p: (Inr t2)
      have t2: "stored_ok t2" "hId t2 = hId t1" using preparePlatformHost_ok [OF p] t1 by auto
      have "AList.update (hId t1) stored (hosts db) = hosts db" using Some by (rule update_triv)
      then show ?thesis using assms Inr Some p t2
        by (auto simp: UpdateHost_def Let_def copy_fields_back split: if_splits)
    qed
  qed
qed


subsection \<open>Tenants are isolated\<close>

datatype 'x host_op = OpNewHost bool "'x host" | OpUpdateHost bool "'x host" | OpDelHost int | OpSetClosed int bool
  | OpSaveGlobal "platformDomain list"

fun host_step :: "(platformDomain \<Rightarrow> bool) \<Rightarrow> (string \<Rightarrow> string) \<Rightarrow> 'x hostdb \<Rightarrow> 'x host_op \<Rightarrow> 'x hostdb" where
  "host_step cert_ok sha db (OpNewHost ok t) = snd (NewHost cert_ok ok t db)"
| "host_step cert_ok sha db (OpUpdateHost ok t) = snd (UpdateHost cert_ok ok t db)"
| "host_step cert_ok sha db (OpDelHost i) = DelHost i db"
| "host_step cert_ok sha db (OpSetClosed i b) = set_closed i b db"
| "host_step cert_ok sha db (OpSaveGlobal ds) = snd (SaveGlobal cert_ok sha ds db)"

definition empty_hosts :: "'x hostdb" where
  "empty_hosts = \<lparr>hosts = [], HostIncreaseId = 0, temporaryHostID = 0, PlatformDomains = []\<rparr>"

lemma NewHost_inv: "hosts_inv db \<Longrightarrow> hosts_inv (snd (NewHost cert_ok ok t db))"
proof -
  assume I: "hosts_inv db"
  obtain r db' where N: "NewHost cert_ok ok t db = (r, db')" by (cases "NewHost cert_ok ok t db")
  from NewHost_cases [OF N] show ?thesis
  proof (elim disjE exE conjE)
    fix h assume h: "stored_ok h" "hosts db' = AList.update (hId h) h (hosts db)" "\<not> IsHostRouteConflict db h"
    then have "hosts_inv (db\<lparr>hosts := AList.update (hId h) h (hosts db)\<rparr>)"
      using I no_conflict [OF h(3,1) I] by (intro hosts_inv_put) auto
    then show ?thesis using N h(2) hosts_inv_cong [of db' "db\<lparr>hosts := AList.update (hId h) h (hosts db)\<rparr>"] by simp
  qed (use N I hosts_inv_cong [of db' db] in simp)
qed

lemma copy_fields_simps [simp]:
  "hId (copy_fields t h) = hId h" "hClient (copy_fields t h) = hClient t" "hHost (copy_fields t h) = hHost t"
  "hScheme (copy_fields t h) = hScheme t" "hLocation (copy_fields t h) = hLocation t"
  by (simp_all add: copy_fields_def)

lemma UpdateHost_inv: "hosts_inv db \<Longrightarrow> hosts_inv (snd (UpdateHost cert_ok ok t db))"
proof -
  assume I: "hosts_inv db"
  obtain r db' where N: "UpdateHost cert_ok ok t db = (r, db')" by (cases "UpdateHost cert_ok ok t db")
  from UpdateHost_cases [OF N] show ?thesis
  proof (elim disjE exE conjE)
    fix h s assume h: "stored_ok h" "map_of (hosts db) (hId h) = Some s"
      "hosts db' = AList.update (hId h) (copy_fields h s) (hosts db)" "\<not> IsHostRouteConflict db h"
    have "hId s = hId h" using I h(2) by (auto simp: hosts_inv_def)
    moreover have "disjoint_tenants (copy_fields h s) w" if "map_of (hosts db) l = Some w" "l \<noteq> hId h" for l w
      using no_conflict [OF h(4,1) I that] by (simp add: disjoint_tenants_def routes_overlap_def)
    ultimately have "hosts_inv (db\<lparr>hosts := AList.update (hId h) (copy_fields h s) (hosts db)\<rparr>)"
      using I h(1) by (intro hosts_inv_put) (auto simp: stored_ok_def)
    then show ?thesis using N h(3) hosts_inv_cong [of db' "db\<lparr>hosts := AList.update (hId h) (copy_fields h s) (hosts db)\<rparr>"] by simp
  qed (use N I hosts_inv_cong [of db' db] in simp)
qed

lemma hosts_inv_map:
  assumes "hosts_inv db" "\<And>k v. hId (f k v) = hId v \<and> hClient (f k v) = hClient v \<and> hHost (f k v) = hHost v \<and>
      hScheme (f k v) = hScheme v \<and> hLocation (f k v) = hLocation v"
  shows "hosts_inv (db\<lparr>hosts := map (\<lambda>(k, v). (k, f k v)) (hosts db), PlatformDomains := ds\<rparr>)"
proof -
  have "map_of (map (\<lambda>(k, v). (k, f k v)) xs) k = map_option (f k) (map_of xs k)" for xs k by (induction xs) auto
  moreover have "fst \<circ> (\<lambda>(k, v). (k, f k v)) = fst" by auto
  moreover have "disjoint_tenants (f k v) (f l w) = disjoint_tenants v w" "stored_ok (f k v) = stored_ok v" for k v l w
    using assms(2) by (simp_all add: disjoint_tenants_def routes_overlap_def stored_ok_def)
  ultimately show ?thesis using assms by (auto simp: hosts_inv_def)
qed

lemma set_closed_inv: "hosts_inv db \<Longrightarrow> hosts_inv (set_closed i b db)"
  using hosts_inv_map [of db "\<lambda>k v. if k = i then v\<lparr>hIsClose := b\<rparr> else v" "PlatformDomains db"]
  by (simp add: set_closed_def)

lemma SaveGlobal_inv: "hosts_inv db \<Longrightarrow> hosts_inv (snd (SaveGlobal cert_ok sha ds db))"
proof -
  assume I: "hosts_inv db"
  define f where "f = (\<lambda>ds' (v :: 'a host). case find_domain (PlatformDomainID v) ds' of None \<Rightarrow> v
      | Some d \<Rightarrow> v\<lparr>hCertFilePath := pdCert d, hKeyFilePath := pdKey d\<rparr>)"
  have "hId (f ds' v) = hId v \<and> hClient (f ds' v) = hClient v \<and> hHost (f ds' v) = hHost v \<and> hScheme (f ds' v) = hScheme v \<and>
      hLocation (f ds' v) = hLocation v" for ds' v
    by (simp add: f_def split: option.split)
  then have inv: "hosts_inv (db\<lparr>hosts := map (\<lambda>(k, v). (k, f ds' v)) (hosts db), PlatformDomains := ds'\<rparr>)" for ds'
    using hosts_inv_map [OF I, of "\<lambda>_. f ds'" ds'] by simp
  have "snd (SaveGlobal cert_ok sha ds db) = db \<or>
      (\<exists>ds'. snd (SaveGlobal cert_ok sha ds db) = db\<lparr>PlatformDomains := ds', hosts := map (\<lambda>(k, v). (k, f ds' v)) (hosts db)\<rparr>)"
    by (auto simp: SaveGlobal_def f_def split: option.split)
  then show ?thesis
  proof (elim disjE exE)
    fix ds' assume e: "snd (SaveGlobal cert_ok sha ds db) = db\<lparr>PlatformDomains := ds', hosts := map (\<lambda>(k, v). (k, f ds' v)) (hosts db)\<rparr>"
    show ?thesis unfolding e by (rule iffD1 [OF hosts_inv_cong inv [of ds']]) simp
  qed (simp add: I)
qed

lemma host_step_inv: "hosts_inv db \<Longrightarrow> hosts_inv (host_step cert_ok sha db a)"
  by (cases a) (simp_all add: NewHost_inv UpdateHost_inv DelHost_def hosts_inv_delete set_closed_inv SaveGlobal_inv)

lemma host_run_inv: "hosts_inv (foldl (host_step cert_ok sha) empty_hosts ops)"
proof (induction ops rule: rev_induct)
  case Nil
  show ?case by (simp add: hosts_inv_def empty_hosts_def)
qed (simp add: host_step_inv)

lemma served_location_stored: "stored_ok v \<Longrightarrow> served_location v = hLocation v"
  by (auto simp: stored_ok_def stored_location_def served_location_def HasPrefix_def)

lemma serving_rules_overlap:
  assumes "stored_ok v" "stored_ok w" "serves h uri scheme v" "serves h uri scheme w" "uri \<noteq> ''*''" "list_all (\<lambda>c. \<not> is_space c) uri"
  shows "routes_overlap v w"
proof -
  note v = served_location_stored [OF assms(1)] and w = served_location_stored [OF assms(2)]
  have "hostSchemesOverlap (hScheme v) (hScheme w)"
    using assms(1-4) by (intro schemes_overlap [where q = scheme]) (auto simp: stored_ok_def serves_def)
  moreover have "hostRulesOverlap (hHost v) (hHost w)"
    using assms(1-4) by (intro rules_overlap [where h = "GetIpByAddr h"]) (auto simp: stored_ok_def serves_def)
  moreover have "hostLocationsOverlap (hLocation v) (hLocation w)"
    using assms v w by (intro locations_overlap [of _ _ uri]) (auto simp: stored_ok_def serves_def)
  ultimately show ?thesis by (simp add: routes_overlap_def)
qed

text \<open>C4 Isolation of tenants. Whatever hosts are created, edited, deleted, opened and closed, and whatever
  platform domains are saved, for a request with a path all open rules that serve it belong to one owner:
  the rule that is selected never shadows the rule of another tenant, and a tenant cannot take over the
  traffic of another one by a more specific rule.\<close>

theorem tenants_are_isolated:
  fixes ops :: "'x host_op list" and cert_ok sha
  defines "db \<equiv> foldl (host_step cert_ok sha) empty_hosts ops"
  assumes "uri \<noteq> ''*''" "uri \<noteq> []" "list_all (\<lambda>c. \<not> is_space c) uri"
    and "GetInfoByHost hostText uri scheme db = Some v"
    and "(k, w) \<in> set (hosts db)" "serves hostText uri scheme w" "hId w \<noteq> hId v"
  shows "sameHostOwner (hClient v) (hClient w)"
proof -
  have I: "hosts_inv db" unfolding db_def by (rule host_run_inv)
  have b: "v \<in> snd ` set (hosts db)" "serves hostText uri scheme v"
    using GetInfoByHost_best [of hostText uri scheme db] assms(3,5) by (auto simp: best_of_def)
  then obtain l where l: "(l, v) \<in> set (hosts db)" by auto
  have m: "map_of (hosts db) l = Some v" "map_of (hosts db) k = Some w"
    using I l assms(6) by (auto simp: hosts_inv_def intro: map_of_is_SomeI)
  then have ok: "stored_ok v" "stored_ok w" "hId v = l" "hId w = k" using I by (auto simp: hosts_inv_def)
  then have "disjoint_tenants v w" using I m assms(8) by (auto simp: hosts_inv_def)
  then show ?thesis
    using serving_rules_overlap [OF ok(1,2) b(2) assms(7,2,4)] serving_rules_overlap [OF ok(2,1) assms(7) b(2) assms(2,4)]
    by (simp add: disjoint_tenants_def)
qed



subsection \<open>Examples and the lookup by server name\<close>

definition host_a :: "unit host" where
  "host_a = \<lparr>hId = 1, hHost = ''example.com'', PlatformDomainID = [], hLocation = ''/a'', hScheme = ''all'', hAuth = [],
     hCertFilePath = [], hKeyFilePath = [], hNoStore = False, hIsClose = False, hAutoHttps = False,
     hClient = Some \<lparr>hcId = 1, hcUserId = 1\<rparr>, hTarget = Some ''127.0.0.1:80'',
     hHealth = \<lparr>HealthCheckTimeout = 0, HealthMaxFail = 0, HealthCheckInterval = 0, HttpHealthUrl = [], HealthCheckType = [],
       HealthCheckTarget = []\<rparr>,
     hRest = ()\<rparr>"

definition host_b :: "unit host" where
  "host_b = host_a\<lparr>hId := 2, hLocation := ''/b/c'', hClient := Some \<lparr>hcId = 2, hcUserId = 2\<rparr>\<rparr>"

definition host_c :: "unit host" where
  "host_c = host_a\<lparr>hId := 2, hHost := ''*.com'', hLocation := ''/a'', hClient := Some \<lparr>hcId = 9, hcUserId = 1\<rparr>\<rparr>"

definition two_hosts :: "unit host \<Rightarrow> unit hostdb" where
  "two_hosts h = foldl (host_step (\<lambda>_. False) (\<lambda>s. s)) empty_hosts [OpNewHost True host_a, OpNewHost True h]"

lemma two_hosts_b: "hosts (two_hosts host_b) = [(1, host_a), (2, host_b)]" by code_simp
lemma two_hosts_c: "hosts (two_hosts host_c) = [(1, host_a), (2, host_c)]" by code_simp

lemma serves_c:
  "serves ''example.com:80'' ''/a/x'' ''http'' host_a" "serves ''example.com:80'' ''/a/x'' ''http'' host_c"
  "GetInfoByHost ''example.com:80'' ''/a/x'' ''http'' (two_hosts host_c) = Some host_a"
  by code_simp+

lemma host_ids: "hId host_a = 1" "hId host_c = 2" by code_simp+

lemma route_selection_deterministic_witness:
  "GetInfoByHost ''example.com:80'' ''/a/x'' ''http'' (two_hosts host_c\<lparr>hosts := rev (hosts (two_hosts host_c))\<rparr>) = Some host_a"
proof -
  have "inj_on hId (snd ` set (hosts (two_hosts host_c)))" unfolding two_hosts_c by (auto simp: inj_on_def host_ids)
  then show ?thesis
    using route_selection_deterministic [of "two_hosts host_c" "two_hosts host_c\<lparr>hosts := rev (hosts (two_hosts host_c))\<rparr>" "''/a/x''"
        "''example.com:80''" "''http''"] serves_c(3) by simp
qed

lemma tenants_are_isolated_witness: "sameHostOwner (hClient host_a) (hClient host_c)"
  using tenants_are_isolated [where ops = "[OpNewHost True host_a, OpNewHost True host_c]" and cert_ok = "\<lambda>_. False" and sha = "\<lambda>s. s"
      and uri = "''/a/x''" and hostText = "''example.com:80''" and scheme = "''http''" and v = host_a and w = host_c and k = 2,
      folded two_hosts_def] serves_c
  by (simp add: is_space_def two_hosts_c host_ids)

text \<open>A lookup by TLS server name has no path, and there the isolation ends. Two tenants may hold the same
  name with paths that do not overlap; the lookup returns the rule with the longer path, also for the
  traffic of the other tenant, whose requests with a path are served by the other rule.\<close>

theorem sni_lookup_crosses_tenants:
  "snd ` set (hosts (two_hosts host_b)) = {host_a, host_b} \<and> \<not> sameHostOwner (hClient host_a) (hClient host_b) \<and>
   GetInfoByHost ''example.com'' ''/a/x'' ''https'' (two_hosts host_b) = Some host_a \<and>
   GetInfoByHost ''example.com'' ''*'' ''https'' (two_hosts host_b) = Some host_b"
proof (intro conjI)
  show "snd ` set (hosts (two_hosts host_b)) = {host_a, host_b}" by (simp add: two_hosts_b insert_commute)
  show "\<not> sameHostOwner (hClient host_a) (hClient host_b)" by code_simp
  show "GetInfoByHost ''example.com'' ''/a/x'' ''https'' (two_hosts host_b) = Some host_a" by code_simp
  show "GetInfoByHost ''example.com'' ''*'' ''https'' (two_hosts host_b) = Some host_b" by code_simp
qed

end
