(* ===== verification/Account_Store.thy ===== *)
theory Account_Store
  imports Admission Host_Store
begin

text \<open>
  Users and clients (\<open>lib/file/db.go\<close>): creating, editing and deleting them, the quota of clients per user, expiry
  dates, and which clients are active.

  \<^item> The maps of users and clients are association lists. All writers hold \<open>clientMutationMu\<close>: each is one
    step. Writing the JSON files has no result in these operations and is left out, as are the client's limiter
    and its refill goroutine.
  \<^item> The library functions are arguments: \<open>parse\<close> tries the seven accepted layouts of \<open>time.ParseInLocation\<close> on a
    trimmed text, \<open>form\<close> is \<open>Time.Format\<close> with the canonical layout, \<open>instant\<close> is the instant (in nanoseconds) of a
    time, \<open>mail\<close> is the address found by \<open>mail.ParseAddress\<close>. A time is more than its instant, it has a zone:
    a text with a UTC offset is formatted in that zone and read back in the local one. What the invariant needs is
    \<open>canonical\<close>: a formatted date is not blank, is read as a date, and that date's text does not move any more.
  \<^item> Random keys for clients come from the list \<open>keys\<close> of keys drawn, in order.
  \<^item> The runtime limits of users are the registry of \<open>Admission\<close>.
\<close>

record user =
  uId :: int
  UserName :: string
  Password :: string
  Email :: string
  uStatus :: bool
  MaxClientNum :: int
  MaxTunnelNum :: int
  uMaxConn :: int
  uUploadLimit :: int
  uDownloadLimit :: int
  uExpireTime :: string

record client =
  cId :: int
  UserId :: int
  VerifyKey :: string
  cStatus :: bool
  IsConnect :: bool
  cExpireTime :: string
  cNoStore :: bool
  cAddr :: string
  NoDisplay :: bool
  WebUserName :: string
  WebPassword :: string

record 'l accounts =
  Users :: "(int \<times> user) list"
  Clients :: "(int \<times> client) list"
  UserIncreaseId :: int
  ClientIncreaseId :: int
  temporaryClientID :: int
  runtime :: "'l registry"

record ('l, 't) library =
  parse :: "string \<Rightarrow> 't option"
  form :: "'t \<Rightarrow> string"
  instant :: "'t \<Rightarrow> int"
  mail :: "string \<Rightarrow> string option"
  fresh_rate :: "'l directional"
  set_rate :: "'l \<Rightarrow> int \<Rightarrow> int \<Rightarrow> 'l"

datatype account_error = EmptyName | EmptyPassword | BadEmail | BadQuota | BadExpiry | DuplicateName | DuplicateEmail
  | QuotaBelowUse | ExpiryBeforeClient | BadUserId | NoSuchUser | BadOwner | QuotaReached | OwnerExpiryInvalid | ExpiryAfterOwner
  | DuplicateKey | NoKey | NoSuchClient | NotOwner

type_synonym 'a answer = "account_error + 'a"

subsection \<open>Expiry dates\<close>

definition ParseExpiryTime :: "('l, 't) library \<Rightarrow> string \<Rightarrow> 't option" where
  "ParseExpiryTime lib v = (let t = TrimSpace v in if t = [] then None else parse lib t)"

definition NormalizeExpiryTime :: "('l, 't) library \<Rightarrow> string \<Rightarrow> string option" where
  "NormalizeExpiryTime lib v = (if TrimSpace v = [] then Some [] else map_option (form lib) (ParseExpiryTime lib v))"

text \<open>The instant of a text, the zero \<open>time.Time\<close> (year 1) when it is no date.\<close>

definition zero_time :: int where "zero_time = - 62135596800000000000"

definition expiry_at :: "('l, 't) library \<Rightarrow> string \<Rightarrow> int" where
  "expiry_at lib v = (case ParseExpiryTime lib v of None \<Rightarrow> zero_time | Some t \<Rightarrow> instant lib t)"

definition canonical :: "('l, 't) library \<Rightarrow> bool" where
  "canonical lib \<longleftrightarrow> (\<forall>v t. parse lib v = Some t \<longrightarrow> TrimSpace (form lib t) = form lib t \<and> form lib t \<noteq> [] \<and>
     (\<exists>t'. parse lib (form lib t) = Some t' \<and> map_option (form lib) (parse lib (form lib t')) = Some (form lib t')))"

definition validateClientExpiryBounds :: "('l, 't) library \<Rightarrow> string \<Rightarrow> string \<Rightarrow> unit answer" where
  "validateClientExpiryBounds lib clientExpireTime userExpireTime =
     (case NormalizeExpiryTime lib clientExpireTime of
        None \<Rightarrow> Inl BadExpiry
      | Some clientExpiry \<Rightarrow>
          (case NormalizeExpiryTime lib userExpireTime of
             None \<Rightarrow> Inl OwnerExpiryInvalid
           | Some userExpiry \<Rightarrow>
               if clientExpiry = [] \<or> userExpiry = [] then Inr ()
               else if expiry_at lib clientExpiry > expiry_at lib userExpiry then Inl ExpiryAfterOwner
               else Inr ()))"

subsection \<open>Lookups and checks\<close>

definition GetUser :: "'l accounts \<Rightarrow> int \<Rightarrow> user option" where "GetUser db i = map_of (Users db) i"
definition GetClient :: "'l accounts \<Rightarrow> int \<Rightarrow> client option" where "GetClient db i = map_of (Clients db) i"

definition ValidateClientOwner :: "'l accounts \<Rightarrow> int \<Rightarrow> unit answer" where
  "ValidateClientOwner db userID =
     (if userID < 0 then Inl BadOwner else if userID = 0 then Inr () else if GetUser db userID = None then Inl NoSuchUser else Inr ())"

definition getUserClientNumLocked :: "'l accounts \<Rightarrow> int \<Rightarrow> int \<Rightarrow> nat" where
  "getUserClientNumLocked db userID excludedClientID =
     (if userID \<le> 0 then 0
      else length (filter (\<lambda>(_, c). UserId c = userID \<and> (excludedClientID \<le> 0 \<or> cId c \<noteq> excludedClientID)) (Clients db)))"

definition validateClientOwnerQuotaLocked :: "'l accounts \<Rightarrow> int \<Rightarrow> int \<Rightarrow> unit answer" where
  "validateClientOwnerQuotaLocked db userID excludedClientID =
     (case ValidateClientOwner db userID of
        Inl e \<Rightarrow> Inl e
      | Inr _ \<Rightarrow>
          if userID = 0 then Inr ()
          else case GetUser db userID of
                 None \<Rightarrow> Inl NoSuchUser
               | Some u \<Rightarrow>
                   if MaxClientNum u < 0 then Inl BadQuota
                   else if MaxClientNum u > 0 \<and> int (getUserClientNumLocked db userID excludedClientID) \<ge> MaxClientNum u then Inl QuotaReached
                   else Inr ())"

definition validateClientExpiryForOwnerLocked :: "('l, 't) library \<Rightarrow> 'l accounts \<Rightarrow> int \<Rightarrow> string \<Rightarrow> unit answer" where
  "validateClientExpiryForOwnerLocked lib db userID clientExpireTime =
     (case NormalizeExpiryTime lib clientExpireTime of
        None \<Rightarrow> Inl BadExpiry
      | Some clientExpiry \<Rightarrow>
          if userID = 0 then Inr ()
          else case ValidateClientOwner db userID of
                 Inl e \<Rightarrow> Inl e
               | Inr _ \<Rightarrow>
                   (case GetUser db userID of
                      None \<Rightarrow> Inl NoSuchUser
                    | Some u \<Rightarrow> validateClientExpiryBounds lib clientExpiry (uExpireTime u)))"

definition validateClientAssignmentLocked :: "('l, 't) library \<Rightarrow> 'l accounts \<Rightarrow> int \<Rightarrow> string \<Rightarrow> int \<Rightarrow> unit answer" where
  "validateClientAssignmentLocked lib db userID clientExpireTime excludedClientID =
     (case validateClientOwnerQuotaLocked db userID excludedClientID of
        Inl e \<Rightarrow> Inl e
      | Inr _ \<Rightarrow> validateClientExpiryForOwnerLocked lib db userID clientExpireTime)"

definition validateUserExpiryForClientsLocked :: "('l, 't) library \<Rightarrow> 'l accounts \<Rightarrow> int \<Rightarrow> string \<Rightarrow> bool" where
  "validateUserExpiryForClientsLocked lib db userID userExpireTime =
     list_all (\<lambda>(_, c). UserId c \<noteq> userID \<or> validateClientExpiryBounds lib (cExpireTime c) userExpireTime = Inr ()) (Clients db)"

definition EffectiveClientExpireTime :: "('l, 't) library \<Rightarrow> 'l accounts \<Rightarrow> client \<Rightarrow> string answer" where
  "EffectiveClientExpireTime lib db c =
     (case NormalizeExpiryTime lib (cExpireTime c) of
        None \<Rightarrow> Inl BadExpiry
      | Some clientExpiry \<Rightarrow>
          if UserId c = 0 then Inr clientExpiry
          else case GetUser db (UserId c) of
                 None \<Rightarrow> Inl NoSuchUser
               | Some u \<Rightarrow>
                   (case NormalizeExpiryTime lib (uExpireTime u) of
                      None \<Rightarrow> Inl OwnerExpiryInvalid
                    | Some userExpiry \<Rightarrow>
                        if clientExpiry = [] then Inr userExpiry
                        else if userExpiry = [] then Inr clientExpiry
                        else if expiry_at lib userExpiry < expiry_at lib clientExpiry then Inr userExpiry
                        else Inr clientExpiry))"

definition IsUserActive :: "('l, 't) library \<Rightarrow> int \<Rightarrow> 'l accounts \<Rightarrow> int \<Rightarrow> bool" where
  "IsUserActive lib now db userId =
     (case GetUser db userId of
        None \<Rightarrow> False
      | Some u \<Rightarrow>
          if \<not> uStatus u then False
          else if TrimSpace (uExpireTime u) = [] then True
          else case ParseExpiryTime lib (TrimSpace (uExpireTime u)) of None \<Rightarrow> False | Some t \<Rightarrow> now < instant lib t)"

definition IsClientActiveWithExpiry :: "('l, 't) library \<Rightarrow> int \<Rightarrow> 'l accounts \<Rightarrow> bool \<Rightarrow> client \<Rightarrow> bool" where
  "IsClientActiveWithExpiry lib now db enforceExpiry c =
     (if \<not> cStatus c then False
      else if UserId c \<noteq> 0 \<and> \<not> IsUserActive lib now db (UserId c) then False
      else if \<not> enforceExpiry then True
      else case EffectiveClientExpireTime lib db c of
             Inl e \<Rightarrow> False
           | Inr effectiveExpiry \<Rightarrow>
               if effectiveExpiry = [] then True
               else case ParseExpiryTime lib effectiveExpiry of None \<Rightarrow> False | Some t \<Rightarrow> now < instant lib t)"

definition IsClientActive :: "('l, 't) library \<Rightarrow> int \<Rightarrow> 'l accounts \<Rightarrow> client \<Rightarrow> bool" where
  "IsClientActive lib now db c = IsClientActiveWithExpiry lib now db True c"

definition VerifyUserLoginName :: "'l accounts \<Rightarrow> string \<Rightarrow> int \<Rightarrow> bool" where
  "VerifyUserLoginName db name i = (\<not> list_ex (\<lambda>(_, u). UserName u = name \<and> uId u \<noteq> i) (Users db))"

definition NormalizeUserEmail :: "('l, 't) library \<Rightarrow> string \<Rightarrow> string option" where
  "NormalizeUserEmail lib v =
     (let t = TrimSpace v in
      if t = [] then Some []
      else case mail lib t of None \<Rightarrow> None | Some a \<Rightarrow> if a = [] then None else Some (ToLower (TrimSpace a)))"

definition VerifyUserEmail :: "'l accounts \<Rightarrow> string \<Rightarrow> int \<Rightarrow> bool" where
  "VerifyUserEmail db email i =
     (let e = ToLower (TrimSpace email) in
      e = [] \<or> \<not> list_ex (\<lambda>(_, u). uId u \<noteq> i \<and> ToLower (TrimSpace (Email u)) = ToLower e) (Users db))"

definition VerifyVkey :: "'l accounts \<Rightarrow> string \<Rightarrow> int \<Rightarrow> bool" where
  "VerifyVkey db vkey i = (\<not> list_ex (\<lambda>(_, c). VerifyKey c = vkey \<and> cId c \<noteq> i) (Clients db))"

subsection \<open>Users\<close>

text \<open>The checks that creating and editing a user share.\<close>

definition check_user :: "('l, 't) library \<Rightarrow> 'l accounts \<Rightarrow> user \<Rightarrow> user answer" where
  "check_user lib db u =
     (if UserName u = [] then Inl EmptyName
      else if Password u = [] then Inl EmptyPassword
      else case NormalizeUserEmail lib (Email u) of
        None \<Rightarrow> Inl BadEmail
      | Some email \<Rightarrow>
          if MaxClientNum u < 0 \<or> MaxTunnelNum u < 0 \<or> uMaxConn u < 0 \<or> uUploadLimit u < 0 \<or> uDownloadLimit u < 0 then Inl BadQuota
          else case NormalizeExpiryTime lib (uExpireTime u) of
            None \<Rightarrow> Inl BadExpiry
          | Some expireTime \<Rightarrow>
              if \<not> VerifyUserLoginName db (UserName u) (uId u) then Inl DuplicateName
              else if \<not> VerifyUserEmail db email (uId u) then Inl DuplicateEmail
              else Inr (u\<lparr>Email := email, uExpireTime := expireTime\<rparr>))"

definition put_user :: "('l, 't) library \<Rightarrow> user \<Rightarrow> 'l accounts \<Rightarrow> 'l accounts" where
  "put_user lib u db =
     db\<lparr>Users := AList.update (uId u) u (Users db),
        runtime := SetUserRuntimeLimits (fresh_rate lib) (set_rate lib) (uId u) (uMaxConn u) (uUploadLimit u) (uDownloadLimit u) (runtime db)\<rparr>"

definition NewUser :: "('l, 't) library \<Rightarrow> user \<Rightarrow> 'l accounts \<Rightarrow> unit answer \<times> 'l accounts" where
  "NewUser lib u0 db =
     (case check_user lib db u0 of
        Inl e \<Rightarrow> (Inl e, db)
      | Inr u1 \<Rightarrow>
          let i = wrap32 (UserIncreaseId db + 1);
              (u2, db1) = (if uId u1 = 0 then (u1\<lparr>uId := i\<rparr>, db\<lparr>UserIncreaseId := i\<rparr>) else (u1, db))
          in (Inr (), put_user lib (u2\<lparr>uStatus := True\<rparr>) db1))"

definition UpdateUser :: "('l, 't) library \<Rightarrow> user \<Rightarrow> 'l accounts \<Rightarrow> unit answer \<times> 'l accounts" where
  "UpdateUser lib u0 db =
     (case check_user lib db u0 of
        Inl e \<Rightarrow> (Inl e, db)
      | Inr u1 \<Rightarrow>
          (case GetUser db (uId u1) of
             None \<Rightarrow> (Inr (), put_user lib u1 db)
           | Some old \<Rightarrow>
               if MaxClientNum u1 \<noteq> MaxClientNum old \<and> MaxClientNum u1 > 0 \<and> int (getUserClientNumLocked db (uId u1) 0) > MaxClientNum u1
               then (Inl QuotaBelowUse, db)
               else if uExpireTime u1 \<noteq> uExpireTime old \<and> \<not> validateUserExpiryForClientsLocked lib db (uId u1) (uExpireTime u1)
               then (Inl ExpiryBeforeClient, db)
               else (Inr (), put_user lib u1 db)))"

definition DelUser :: "int \<Rightarrow> 'l accounts \<Rightarrow> unit answer \<times> 'l accounts" where
  "DelUser i db =
     (if i \<le> 0 then (Inl BadUserId, db)
      else
        (Inr (), db\<lparr>Clients := map (\<lambda>(k, c). (k, if UserId c = i then c\<lparr>UserId := 0, cStatus := False, IsConnect := False\<rparr> else c)) (Clients db),
           Users := AList.delete i (Users db), runtime := CleanupUserRuntime i (runtime db)\<rparr>))"

subsection \<open>Clients\<close>

definition normalizeClientExpiry :: "('l, 't) library \<Rightarrow> client \<Rightarrow> client option" where
  "normalizeClientExpiry lib c = map_option (\<lambda>e. c\<lparr>cExpireTime := e\<rparr>) (NormalizeExpiryTime lib (cExpireTime c))"

definition choose_key :: "'l accounts \<Rightarrow> string list \<Rightarrow> client \<Rightarrow> client answer" where
  "choose_key db keys c =
     (if VerifyKey c = [] then
        (case List.find (\<lambda>k. VerifyVkey db k (cId c)) keys of None \<Rightarrow> Inl NoKey | Some k \<Rightarrow> Inr (c\<lparr>VerifyKey := k\<rparr>))
      else if \<not> VerifyVkey db (VerifyKey c) (cId c) then Inl DuplicateKey
      else Inr c)"

definition choose_client_id :: "client \<Rightarrow> 'l accounts \<Rightarrow> client \<times> 'l accounts" where
  "choose_client_id c db =
     (if cNoStore c then
        (if cId c \<ge> 0 then let i = wrap32 (temporaryClientID db - 1) in (c\<lparr>cId := i\<rparr>, db\<lparr>temporaryClientID := i\<rparr>) else (c, db))
      else if cId c = 0 then let i = wrap32 (ClientIncreaseId db + 1) in (c\<lparr>cId := i\<rparr>, db\<lparr>ClientIncreaseId := i\<rparr>)
      else (c, db))"

definition NewClient :: "('l, 't) library \<Rightarrow> string list \<Rightarrow> client \<Rightarrow> 'l accounts \<Rightarrow> client answer \<times> 'l accounts" where
  "NewClient lib keys c0 db =
     (case normalizeClientExpiry lib c0 of
        None \<Rightarrow> (Inl BadExpiry, db)
      | Some c1 \<Rightarrow>
          (case validateClientAssignmentLocked lib db (UserId c1) (cExpireTime c1) 0 of
             Inl e \<Rightarrow> (Inl e, db)
           | Inr _ \<Rightarrow>
               (case choose_key db keys c1 of
                  Inl e \<Rightarrow> (Inl e, db)
                | Inr c2 \<Rightarrow>
                    let (c3, db1) = choose_client_id c2 db
                    in (Inr c3, db1\<lparr>Clients := AList.update (cId c3) c3 (Clients db1)\<rparr>))))"

definition UpdateClient :: "('l, 't) library \<Rightarrow> client \<Rightarrow> 'l accounts \<Rightarrow> unit answer \<times> 'l accounts" where
  "UpdateClient lib t0 db =
     (case normalizeClientExpiry lib t0 of
        None \<Rightarrow> (Inl BadExpiry, db)
      | Some t1 \<Rightarrow>
          (case validateClientAssignmentLocked lib db (UserId t1) (cExpireTime t1) (cId t1) of
             Inl e \<Rightarrow> (Inl e, db)
           | Inr _ \<Rightarrow> (Inr (), db\<lparr>Clients := AList.update (cId t1) t1 (Clients db)\<rparr>)))"

definition DelClient :: "int \<Rightarrow> 'l accounts \<Rightarrow> 'l accounts" where
  "DelClient i db = db\<lparr>Clients := AList.delete i (Clients db)\<rparr>"

definition DelClientForUser :: "int \<Rightarrow> int \<Rightarrow> 'l accounts \<Rightarrow> unit answer \<times> 'l accounts" where
  "DelClientForUser i userID db =
     (if userID \<le> 0 then (Inl BadUserId, db)
      else case map_of (Clients db) i of
             None \<Rightarrow> (Inl NoSuchClient, db)
           | Some c \<Rightarrow> if UserId c \<noteq> userID then (Inl NotOwner, db) else (Inr (), DelClient i db))"

definition UserClientIds :: "'l accounts \<Rightarrow> int \<Rightarrow> int list" where
  "UserClientIds db userId = map (\<lambda>(_, c). cId c) (filter (\<lambda>(_, c). UserId c = userId) (Clients db))"

definition IsClientBelongToUser :: "'l accounts \<Rightarrow> int \<Rightarrow> int \<Rightarrow> bool" where
  "IsClientBelongToUser db clientId userId = (case GetClient db clientId of None \<Rightarrow> False | Some c \<Rightarrow> UserId c = userId)"

subsection \<open>What the store guarantees\<close>

definition owned_count :: "(int \<times> client) list \<Rightarrow> int \<Rightarrow> nat" where
  "owned_count cs u = length (filter (\<lambda>(_, c). UserId c = u) cs)"

text \<open>Keys and names.\<close>

definition keys_ok :: "'l accounts \<Rightarrow> bool" where
  "keys_ok db \<longleftrightarrow> distinct (map fst (Users db)) \<and> distinct (map fst (Clients db)) \<and>
     (\<forall>k u. map_of (Users db) k = Some u \<longrightarrow> uId u = k \<and> 0 < k \<and> k \<le> UserIncreaseId db \<and> 0 \<le> MaxClientNum u) \<and>
     (\<forall>k c. map_of (Clients db) k = Some c \<longrightarrow> cId c = k) \<and>
     (\<forall>k u l v. map_of (Users db) k = Some u \<longrightarrow> map_of (Users db) l = Some v \<longrightarrow> UserName u = UserName v \<longrightarrow> k = l)"

text \<open>Owners exist, and a client with an expiry does not outlive its owner.\<close>

definition owner_ok :: "('l, 't) library \<Rightarrow> (int \<times> user) list \<Rightarrow> client \<Rightarrow> bool" where
  "owner_ok lib us c \<longleftrightarrow> UserId c = 0 \<or>
     (\<exists>u. map_of us (UserId c) = Some u \<and> validateClientExpiryBounds lib (cExpireTime c) (uExpireTime u) = Inr ())"

definition owners_ok :: "('l, 't) library \<Rightarrow> 'l accounts \<Rightarrow> bool" where
  "owners_ok lib db \<longleftrightarrow> (\<forall>k c. map_of (Clients db) k = Some c \<longrightarrow> owner_ok lib (Users db) c)"

definition quota_ok :: "'l accounts \<Rightarrow> bool" where
  "quota_ok db \<longleftrightarrow> (\<forall>k u. map_of (Users db) k = Some u \<longrightarrow> MaxClientNum u = 0 \<or> int (owned_count (Clients db) k) \<le> MaxClientNum u)"

definition accounts_ok :: "('l, 't) library \<Rightarrow> 'l accounts \<Rightarrow> bool" where
  "accounts_ok lib db \<longleftrightarrow> keys_ok db \<and> owners_ok lib db \<and> quota_ok db"

lemma owned_count_update:
  "distinct (map fst cs) \<Longrightarrow> owned_count (AList.update k c cs) u = owned_count (AList.delete k cs) u + (if UserId c = u then 1 else 0)"
proof (induction cs)
  case (Cons e cs)
  have "AList.delete (fst e) cs = cs" using Cons.prems by simp
  then show ?case using Cons by (cases e) (auto simp: owned_count_def)
qed (simp add: owned_count_def)

lemma owned_count_delete_le: "owned_count (AList.delete k cs) u \<le> owned_count cs u"
  by (induction cs) (auto simp: owned_count_def)

lemma excluded_count:
  assumes "keys_ok db" "0 < u"
  shows "owned_count (AList.delete i (Clients db)) u \<le> getUserClientNumLocked db u i"
proof (cases "i \<le> 0")
  case True
  then show ?thesis using assms owned_count_delete_le [of i "Clients db" u]
    by (simp add: getUserClientNumLocked_def owned_count_def)
next
  case False
  have ids: "cId c = k" if "(k, c) \<in> set (Clients db)" for k c
    using assms(1) that by (auto simp: keys_ok_def dest: map_of_is_SomeI)
  have "filter (\<lambda>(_, c). UserId c = u) (AList.delete i (Clients db)) =
      filter (\<lambda>(_, c). UserId c = u \<and> (i \<le> 0 \<or> cId c \<noteq> i)) (Clients db)"
    unfolding AList.delete_eq filter_filter using False by (auto intro!: filter_cong dest: ids)
  then show ?thesis using assms(2) by (simp add: getUserClientNumLocked_def owned_count_def)
qed

lemma count_all: "0 < u \<Longrightarrow> getUserClientNumLocked db u 0 = owned_count (Clients db) u"
  by (simp add: getUserClientNumLocked_def owned_count_def)

lemma NormalizeExpiryTime_blank [simp]: "NormalizeExpiryTime lib [] = Some []"
  by (simp add: NormalizeExpiryTime_def TrimSpace_def trim_while_def)

lemma normal_expiry_twice:
  assumes "canonical lib" "NormalizeExpiryTime lib v = Some e"
  shows "\<exists>e'. NormalizeExpiryTime lib e = Some e' \<and> NormalizeExpiryTime lib e' = Some e'"
proof (cases "TrimSpace v = []")
  case True
  then have "e = []" using assms(2) by (simp add: NormalizeExpiryTime_def)
  then show ?thesis by simp
next
  case False
  then obtain t where t: "parse lib (TrimSpace v) = Some t" "e = form lib t"
    using assms(2) by (auto simp: NormalizeExpiryTime_def ParseExpiryTime_def Let_def)
  from assms(1) t(1) obtain t' where t': "TrimSpace e = e" "e \<noteq> []" "parse lib e = Some t'"
    "map_option (form lib) (parse lib (form lib t')) = Some (form lib t')" unfolding canonical_def t(2) by blast
  from assms(1) t'(3) have "TrimSpace (form lib t') = form lib t'" "form lib t' \<noteq> []" unfolding canonical_def by blast+
  with t' show ?thesis by (simp add: NormalizeExpiryTime_def ParseExpiryTime_def Let_def)
qed

text \<open>Normalising once more does not change the verdict on the bounds.\<close>

lemma bounds_normalized:
  assumes "canonical lib" "NormalizeExpiryTime lib v = Some e" "NormalizeExpiryTime lib e = Some e'"
  shows "validateClientExpiryBounds lib e' x = validateClientExpiryBounds lib e x"
  using normal_expiry_twice [OF assms(1,2)] assms(3) by (auto simp: validateClientExpiryBounds_def)

lemma assignment_accepted:
  assumes "canonical lib" "normalizeClientExpiry lib c0 = Some c"
    and "validateClientAssignmentLocked lib db (UserId c) (cExpireTime c) i = Inr ()"
  shows "owner_ok lib (Users db) c \<and> 0 \<le> UserId c \<and>
    (\<forall>u. map_of (Users db) (UserId c) = Some u \<longrightarrow> 0 < UserId c \<longrightarrow> MaxClientNum u = 0 \<or> int (getUserClientNumLocked db (UserId c) i) < MaxClientNum u)"
proof -
  obtain v where v: "NormalizeExpiryTime lib v = Some (cExpireTime c)"
    using assms(2) by (auto simp: normalizeClientExpiry_def)
  have q: "validateClientOwnerQuotaLocked db (UserId c) i = Inr ()" "validateClientExpiryForOwnerLocked lib db (UserId c) (cExpireTime c) = Inr ()"
    using assms(3) by (auto simp: validateClientAssignmentLocked_def split: sum.splits)
  have "0 \<le> UserId c" using q(1) by (auto simp: validateClientOwnerQuotaLocked_def ValidateClientOwner_def split: if_splits)
  moreover have "owner_ok lib (Users db) c"
    using q(2) bounds_normalized [OF assms(1) v]
    by (auto simp: validateClientExpiryForOwnerLocked_def owner_ok_def GetUser_def split: if_splits sum.splits option.splits)
  moreover have "MaxClientNum u = 0 \<or> int (getUserClientNumLocked db (UserId c) i) < MaxClientNum u"
    if "map_of (Users db) (UserId c) = Some u" "0 < UserId c" for u
    using q(1) that by (auto simp: validateClientOwnerQuotaLocked_def GetUser_def split: if_splits sum.splits)
  ultimately show ?thesis by blast
qed

lemma put_client_ok:
  assumes "accounts_ok lib db" "owner_ok lib (Users db) c" "0 \<le> UserId c"
    and "\<And>u. map_of (Users db) (UserId c) = Some u \<Longrightarrow> 0 < UserId c \<Longrightarrow>
      MaxClientNum u = 0 \<or> int (owned_count (AList.delete (cId c) (Clients db)) (UserId c)) < MaxClientNum u"
  shows "accounts_ok lib (db\<lparr>Clients := AList.update (cId c) c (Clients db)\<rparr>)"
proof -
  have d: "distinct (map fst (Clients db))" using assms(1) by (simp add: accounts_ok_def keys_ok_def)
  have "keys_ok (db\<lparr>Clients := AList.update (cId c) c (Clients db)\<rparr>)"
    using assms(1) by (auto simp: accounts_ok_def keys_ok_def update_conv' distinct_update)
  moreover have "owners_ok lib (db\<lparr>Clients := AList.update (cId c) c (Clients db)\<rparr>)"
    using assms(1,2) by (auto simp: accounts_ok_def owners_ok_def update_conv')
  moreover have "MaxClientNum u = 0 \<or> int (owned_count (AList.update (cId c) c (Clients db)) k) \<le> MaxClientNum u"
    if "map_of (Users db) k = Some u" for k u
  proof (cases "UserId c = k")
    case True
    have "0 < k" using assms(1) that by (auto simp: accounts_ok_def keys_ok_def)
    then show ?thesis using assms(4) True that by (auto simp: owned_count_update [OF d])
  next
    case False
    have "MaxClientNum u = 0 \<or> int (owned_count (Clients db) k) \<le> MaxClientNum u" using assms(1) that by (auto simp: accounts_ok_def quota_ok_def)
    then show ?thesis using False owned_count_delete_le [of "cId c" "Clients db" k] by (auto simp: owned_count_update [OF d])
  qed
  ultimately show ?thesis by (simp add: accounts_ok_def quota_ok_def)
qed

lemma accounts_ok_cong:
  "Users db' = Users db \<Longrightarrow> Clients db' = Clients db \<Longrightarrow> UserIncreaseId db' = UserIncreaseId db \<Longrightarrow> accounts_ok lib db' = accounts_ok lib db"
  by (simp add: accounts_ok_def keys_ok_def owners_ok_def quota_ok_def)

lemma UpdateClient_ok: "canonical lib \<Longrightarrow> accounts_ok lib db \<Longrightarrow> accounts_ok lib (snd (UpdateClient lib t db))"
proof -
  assume C: "canonical lib" and I: "accounts_ok lib db"
  show ?thesis
  proof (cases "\<exists>t1. normalizeClientExpiry lib t = Some t1 \<and> validateClientAssignmentLocked lib db (UserId t1) (cExpireTime t1) (cId t1) = Inr ()")
    case True
    then obtain t1 where t1: "normalizeClientExpiry lib t = Some t1"
      "validateClientAssignmentLocked lib db (UserId t1) (cExpireTime t1) (cId t1) = Inr ()" by blast
    note a = assignment_accepted [OF C t1]
    have k: "keys_ok db" using I by (simp add: accounts_ok_def)
    have "accounts_ok lib (db\<lparr>Clients := AList.update (cId t1) t1 (Clients db)\<rparr>)"
      using a excluded_count [OF k, of "UserId t1" "cId t1"] by (intro put_client_ok [OF I]) fastforce+
    then show ?thesis using t1 by (simp add: UpdateClient_def)
  next
    case False
    then have "snd (UpdateClient lib t db) = db" by (auto simp: UpdateClient_def split: option.split sum.split)
    then show ?thesis using I by simp
  qed
qed

lemma choose_client_id_keeps:
  "choose_client_id c db = (c', db') \<Longrightarrow> Users db' = Users db \<and> Clients db' = Clients db \<and> UserIncreaseId db' = UserIncreaseId db \<and>
     UserId c' = UserId c \<and> cExpireTime c' = cExpireTime c"
  by (auto simp: choose_client_id_def Let_def split: if_splits)

lemma NewClient_ok: "canonical lib \<Longrightarrow> accounts_ok lib db \<Longrightarrow> accounts_ok lib (snd (NewClient lib ks c db))"
proof -
  assume C: "canonical lib" and I: "accounts_ok lib db"
  show ?thesis
  proof (cases "\<exists>c1 c2. normalizeClientExpiry lib c = Some c1 \<and> validateClientAssignmentLocked lib db (UserId c1) (cExpireTime c1) 0 = Inr () \<and>
      choose_key db ks c1 = Inr c2")
    case True
    then obtain c1 c2 where c: "normalizeClientExpiry lib c = Some c1" "validateClientAssignmentLocked lib db (UserId c1) (cExpireTime c1) 0 = Inr ()"
      "choose_key db ks c1 = Inr c2" by blast
    obtain c3 db1 where d: "choose_client_id c2 db = (c3, db1)" by (cases "choose_client_id c2 db")
    note keep = choose_client_id_keeps [OF d]
    have same: "UserId c2 = UserId c1" "cExpireTime c2 = cExpireTime c1"
      using c(3) by (auto simp: choose_key_def split: if_splits option.splits)
    note a = assignment_accepted [OF C c(1,2)]
    have I1: "accounts_ok lib db1" using I keep accounts_ok_cong [of db1 db lib] by simp
    have "accounts_ok lib (db1\<lparr>Clients := AList.update (cId c3) c3 (Clients db1)\<rparr>)"
    proof (rule put_client_ok [OF I1])
      show "owner_ok lib (Users db1) c3" "0 \<le> UserId c3" using a keep same by (auto simp: owner_ok_def)
      show "MaxClientNum u = 0 \<or> int (owned_count (AList.delete (cId c3) (Clients db1)) (UserId c3)) < MaxClientNum u"
        if "map_of (Users db1) (UserId c3) = Some u" "0 < UserId c3" for u
        using a that keep same count_all [of "UserId c1" db] owned_count_delete_le [of "cId c3" "Clients db" "UserId c1"] by fastforce
    qed
    then show ?thesis using c d by (simp add: NewClient_def)
  next
    case False
    then have "snd (NewClient lib ks c db) = db" by (auto simp: NewClient_def split: option.split sum.split)
    then show ?thesis using I by simp
  qed
qed

lemma check_user_accepts:
  assumes "check_user lib db u = Inr v"
  shows "uId v = uId u \<and> UserName v = UserName u \<and> MaxClientNum v = MaxClientNum u \<and> 0 \<le> MaxClientNum v \<and>
    (\<forall>k w. map_of (Users db) k = Some w \<longrightarrow> UserName w = UserName v \<longrightarrow> uId w = uId v)"
  using assms
  by (auto simp: check_user_def VerifyUserLoginName_def list_ex_iff split: if_splits option.splits dest!: map_of_SomeD)

lemma put_user_ok:
  assumes "accounts_ok lib db" "0 < uId v" "uId v \<le> UserIncreaseId db" "0 \<le> MaxClientNum v"
    and "\<And>k w. map_of (Users db) k = Some w \<Longrightarrow> UserName w = UserName v \<Longrightarrow> uId w = uId v"
    and "\<And>k c. map_of (Clients db) k = Some c \<Longrightarrow> UserId c = uId v \<Longrightarrow> validateClientExpiryBounds lib (cExpireTime c) (uExpireTime v) = Inr ()"
    and "MaxClientNum v = 0 \<or> int (owned_count (Clients db) (uId v)) \<le> MaxClientNum v"
  shows "accounts_ok lib (put_user lib v db)"
proof -
  have "keys_ok (put_user lib v db)"
    using assms(1-5) unfolding accounts_ok_def keys_ok_def put_user_def
    by (auto simp: update_conv' distinct_update split: if_splits)
  moreover have "owner_ok lib (AList.update (uId v) v (Users db)) c" if "map_of (Clients db) k = Some c" for k c
    using assms(1) assms(6) [OF that] that
    by (cases "UserId c = uId v") (auto simp: accounts_ok_def owners_ok_def owner_ok_def update_conv')
  moreover have "quota_ok (put_user lib v db)"
    using assms(1,7) by (auto simp: accounts_ok_def quota_ok_def put_user_def update_conv' split: if_splits)
  ultimately show ?thesis by (simp add: accounts_ok_def owners_ok_def put_user_def)
qed

lemma put_user_cong [simp]: "Users (put_user lib v db) = AList.update (uId v) v (Users db)" "Clients (put_user lib v db) = Clients db"
  "UserIncreaseId (put_user lib v db) = UserIncreaseId db"
  by (simp_all add: put_user_def)

text \<open>Nobody owns clients before being created: owners exist, and identifiers only grow.\<close>

lemma NewUser_ok:
  assumes "accounts_ok lib db" "uId u = 0" "UserIncreaseId db < 2 ^ 31 - 1" "0 \<le> UserIncreaseId db"
  shows "accounts_ok lib (snd (NewUser lib u db)) \<and> 0 \<le> UserIncreaseId (snd (NewUser lib u db))"
proof (cases "check_user lib db u")
  case (Inl e)
  then show ?thesis using assms by (simp add: NewUser_def)
next
  case (Inr v)
  note a = check_user_accepts [OF Inr]
  define n where "n = UserIncreaseId db + 1"
  have n: "wrap32 (UserIncreaseId db + 1) = n" "0 < n" using assms(3,4) by (simp_all add: n_def wrap32_def)
  define v1 where "v1 = v\<lparr>uId := n, uStatus := True\<rparr>"
  define db1 where "db1 = db\<lparr>UserIncreaseId := n\<rparr>"
  have r: "snd (NewUser lib u db) = put_user lib v1 db1"
    using Inr a assms(2) n by (simp add: NewUser_def Let_def v1_def db1_def)
  have fresh: "map_of (Users db) n = None"
  proof (rule ccontr)
    assume "map_of (Users db) n \<noteq> None"
    then obtain w where "map_of (Users db) n = Some w" by blast
    then have "n \<le> UserIncreaseId db" using assms(1) unfolding accounts_ok_def keys_ok_def by blast
    then show False by (simp add: n_def)
  qed
  have unused: "UserId c \<noteq> n" if "map_of (Clients db) k = Some c" for k c
    using assms(1) that fresh n(2) unfolding accounts_ok_def owners_ok_def owner_ok_def by (metis less_irrefl option.distinct(1))
  have "accounts_ok lib db1"
    using assms(1) by (fastforce simp: accounts_ok_def keys_ok_def owners_ok_def quota_ok_def db1_def n_def simp del: map_of_eq_Some_iff)
  moreover have "owned_count (Clients db1) n = 0"
    using unused assms(1) by (auto simp: owned_count_def db1_def filter_empty_conv accounts_ok_def keys_ok_def dest: map_of_is_SomeI)
  moreover have "uId w \<noteq> 0" if "map_of (Users db) k = Some w" for k w
    using assms(1) that unfolding accounts_ok_def keys_ok_def by force
  ultimately have "accounts_ok lib (put_user lib v1 db1)"
    using a assms(2) n(2) unused by (intro put_user_ok) (auto simp: v1_def db1_def)
  then show ?thesis using n(2) by (simp add: r db1_def)
qed

lemma UpdateUser_ok:
  assumes "accounts_ok lib db" "GetUser db (uId u) = Some old"
  shows "accounts_ok lib (snd (UpdateUser lib u db)) \<and> UserIncreaseId (snd (UpdateUser lib u db)) = UserIncreaseId db"
proof (cases "fst (UpdateUser lib u db)")
  case (Inl e)
  then have "snd (UpdateUser lib u db) = db"
    by (cases "check_user lib db u"; cases "GetUser db (uId (projr (check_user lib db u)))") (auto simp: UpdateUser_def split: if_splits)
  then show ?thesis using assms(1) by simp
next
  case ok: (Inr x)
  then obtain v where v: "check_user lib db u = Inr v" by (cases "check_user lib db u") (auto simp: UpdateUser_def)
  note a = check_user_accepts [OF v]
  have k: "map_of (Users db) (uId v) = Some old" using assms(2) a by (simp add: GetUser_def)
  have r: "snd (UpdateUser lib u db) = put_user lib v db"
    and q: "MaxClientNum v = MaxClientNum old \<or> MaxClientNum v = 0 \<or> int (getUserClientNumLocked db (uId v) 0) \<le> MaxClientNum v"
    and e: "uExpireTime v = uExpireTime old \<or> validateUserExpiryForClientsLocked lib db (uId v) (uExpireTime v)"
    using ok v k conjunct1 [OF conjunct2 [OF conjunct2 [OF conjunct2 [OF a]]]] by (auto simp: UpdateUser_def GetUser_def split: if_splits)
  have i: "0 < uId v" "uId v \<le> UserIncreaseId db" using assms(1) k by (auto simp: accounts_ok_def keys_ok_def)
  have "accounts_ok lib (put_user lib v db)"
  proof (rule put_user_ok [OF assms(1) i])
    show "MaxClientNum v = 0 \<or> int (owned_count (Clients db) (uId v)) \<le> MaxClientNum v"
      using assms(1) k q count_all [OF i(1), of db] unfolding accounts_ok_def quota_ok_def by fastforce
    show "validateClientExpiryBounds lib (cExpireTime c) (uExpireTime v) = Inr ()"
      if "map_of (Clients db) j = Some c" "UserId c = uId v" for j c
      using e
    proof
      assume "uExpireTime v = uExpireTime old"
      then show ?thesis using assms(1) that k i by (fastforce simp: accounts_ok_def owners_ok_def owner_ok_def)
    next
      assume "validateUserExpiryForClientsLocked lib db (uId v) (uExpireTime v)"
      then show ?thesis using that by (auto simp: validateUserExpiryForClientsLocked_def list_all_iff dest: map_of_SomeD)
    qed
  qed (use a in auto)
  then show ?thesis by (simp add: r)
qed

lemma map_of_delete_SomeD: "map_of (AList.delete k m) l = Some v \<Longrightarrow> l \<noteq> k \<and> map_of m l = Some v"
  by (simp add: delete_conv' split: if_splits)

lemma DelUser_ok:
  assumes "accounts_ok lib db"
  shows "accounts_ok lib (snd (DelUser i db)) \<and> UserIncreaseId (snd (DelUser i db)) = UserIncreaseId db"
proof (cases "i \<le> 0")
  case True
  then show ?thesis using assms by (simp add: DelUser_def)
next
  case False
  define g where "g c = (if UserId c = i then c\<lparr>UserId := 0, cStatus := False, IsConnect := False\<rparr> else c)" for c :: client
  let ?cs = "map (\<lambda>(k, c). (k, g c)) (Clients db)"
  have r: "snd (DelUser i db) = db\<lparr>Clients := ?cs, Users := AList.delete i (Users db), runtime := CleanupUserRuntime i (runtime db)\<rparr>"
    using False by (simp add: DelUser_def g_def)
  have m: "map_of ?cs k = map_option g (map_of (Clients db) k)" for k by (simp add: map_of_map)
  have f: "map fst ?cs = map fst (Clients db)" by auto
  have cid: "cId (g c) = cId c" for c by (simp add: g_def)
  have "keys_ok (snd (DelUser i db))"
    using assms unfolding r accounts_ok_def keys_ok_def
    by (auto simp: m f cid distinct_delete simp del: map_of_eq_Some_iff map_map dest!: map_of_delete_SomeD)
  moreover have "owner_ok lib (AList.delete i (Users db)) (g c)" if "map_of (Clients db) k = Some c" for k c
    using assms that by (auto simp: accounts_ok_def owners_ok_def owner_ok_def g_def delete_conv')
  moreover have count: "owned_count (map (\<lambda>(k, c). (k, g c)) cs) k = owned_count cs k" if "k \<noteq> i" "0 < k" for k cs
    using that by (induction cs) (auto simp: owned_count_def g_def)
  moreover have "quota_ok (snd (DelUser i db))"
    using assms unfolding r accounts_ok_def quota_ok_def keys_ok_def
    by (fastforce simp: count simp del: map_of_eq_Some_iff dest!: map_of_delete_SomeD)
  ultimately show ?thesis unfolding accounts_ok_def owners_ok_def r by (auto simp: m simp del: map_of_eq_Some_iff)
qed

lemma DelClient_ok:
  assumes "accounts_ok lib db"
  shows "accounts_ok lib (DelClient i db) \<and> UserIncreaseId (DelClient i db) = UserIncreaseId db"
proof -
  have "keys_ok (DelClient i db)" "owners_ok lib (DelClient i db)"
    using assms by (auto simp: accounts_ok_def keys_ok_def owners_ok_def DelClient_def distinct_delete simp del: map_of_eq_Some_iff dest!: map_of_delete_SomeD)
  moreover have "quota_ok (DelClient i db)"
    unfolding quota_ok_def
  proof (intro allI impI)
    fix k u
    assume "map_of (Users (DelClient i db)) k = Some u"
    then have "MaxClientNum u = 0 \<or> int (owned_count (Clients db) k) \<le> MaxClientNum u"
      using assms by (simp add: accounts_ok_def quota_ok_def DelClient_def)
    then show "MaxClientNum u = 0 \<or> int (owned_count (Clients (DelClient i db)) k) \<le> MaxClientNum u"
      using owned_count_delete_le [of i "Clients db" k] by (auto simp: DelClient_def)
  qed
  ultimately show ?thesis by (simp add: accounts_ok_def DelClient_def)
qed

text \<open>A concrete instance: two dates, written in the canonical layout.\<close>

definition sample_library :: "(unit, bool) library" where
  "sample_library =
     \<lparr>parse = (\<lambda>v. if v = ''2030-01-01 00:00:00'' then Some False else if v = ''2031-01-01 00:00:00'' then Some True else None),
      form = (\<lambda>t. if t then ''2031-01-01 00:00:00'' else ''2030-01-01 00:00:00''),
      instant = (\<lambda>t. if t then 1924992000000000000 else 1893456000000000000),
      mail = (\<lambda>v. Some v), fresh_rate = NewDirectional (\<lambda>_ _. ()) 0 0 0, set_rate = (\<lambda>_ _ _. ())\<rparr>"

definition sample_user :: user where
  "sample_user = \<lparr>uId = 0, UserName = ''ann'', Password = ''secret'', Email = [], uStatus = False, MaxClientNum = 1,
     MaxTunnelNum = 0, uMaxConn = 0, uUploadLimit = 0, uDownloadLimit = 0, uExpireTime = '' 2031-01-01 00:00:00 ''\<rparr>"

definition sample_client :: client where
  "sample_client = \<lparr>cId = 0, UserId = 1, VerifyKey = ''k1'', cStatus = True, IsConnect = False,
     cExpireTime = ''2030-01-01 00:00:00'', cNoStore = False, cAddr = [],
     NoDisplay = False, WebUserName = [], WebPassword = []\<rparr>"

definition sample_accounts :: "unit accounts" where
  "sample_accounts = \<lparr>Users = [], Clients = [], UserIncreaseId = 0, ClientIncreaseId = 0, temporaryClientID = 0, runtime = Map.empty\<rparr>"

definition sample_store :: "unit accounts" where
  "sample_store = snd (NewClient sample_library [] (sample_client\<lparr>VerifyKey := ''k2''\<rparr>)
     (snd (NewClient sample_library [] sample_client (snd (NewUser sample_library sample_user sample_accounts)))))"

lemma sample_canonical: "canonical sample_library"
proof -
  have "TrimSpace ''2030-01-01 00:00:00'' = ''2030-01-01 00:00:00''" "TrimSpace ''2031-01-01 00:00:00'' = ''2031-01-01 00:00:00''"
    by code_simp+
  then show ?thesis by (auto simp: canonical_def sample_library_def)
qed

subsection \<open>Reachable stores\<close>

text \<open>
  The operations as the callers use them: users are created without an identifier, and only users that exist are
  edited (\<open>web/controllers/user.go\<close>). Identifiers of users are not exhausted.
\<close>

inductive account_step :: "('l, 't) library \<Rightarrow> 'l accounts \<Rightarrow> 'l accounts \<Rightarrow> bool" for lib where
  create_user: "uId u = 0 \<Longrightarrow> UserIncreaseId db < 2 ^ 31 - 1 \<Longrightarrow> account_step lib db (snd (NewUser lib u db))"
| edit_user: "GetUser db (uId u) \<noteq> None \<Longrightarrow> account_step lib db (snd (UpdateUser lib u db))"
| delete_user: "account_step lib db (snd (DelUser i db))"
| create_client: "account_step lib db (snd (NewClient lib ks c db))"
| edit_client: "account_step lib db (snd (UpdateClient lib c db))"
| delete_client: "account_step lib db (DelClient i db)"
| delete_own_client: "account_step lib db (snd (DelClientForUser i j db))"

inductive reachable_accounts :: "('l, 't) library \<Rightarrow> 'l accounts \<Rightarrow> bool" for lib where
  start: "Users db = [] \<Longrightarrow> Clients db = [] \<Longrightarrow> UserIncreaseId db = 0 \<Longrightarrow> reachable_accounts lib db"
| step: "reachable_accounts lib db \<Longrightarrow> account_step lib db db' \<Longrightarrow> reachable_accounts lib db'"

lemma client_ops_keep_user_ids [simp]:
  "UserIncreaseId (snd (NewClient lib ks c db)) = UserIncreaseId db"
  "UserIncreaseId (snd (UpdateClient lib c db)) = UserIncreaseId db"
  "UserIncreaseId (snd (DelClientForUser i j db)) = UserIncreaseId db"
  by (auto simp: NewClient_def UpdateClient_def DelClientForUser_def DelClient_def choose_client_id_def Let_def split: option.split sum.split)

lemma account_step_ok:
  assumes "canonical lib" "account_step lib db db'" "accounts_ok lib db" "0 \<le> UserIncreaseId db"
  shows "accounts_ok lib db' \<and> 0 \<le> UserIncreaseId db'"
  using assms(2)
proof cases
  case (delete_own_client i j)
  then show ?thesis using assms(3,4) DelClient_ok [OF assms(3)] by (auto simp: DelClientForUser_def split: option.split)
next
  case (edit_user u)
  then show ?thesis using assms(3,4) UpdateUser_ok by fastforce
qed (use assms NewUser_ok [OF assms(3)] DelUser_ok [OF assms(3)] NewClient_ok UpdateClient_ok DelClient_ok [OF assms(3)] in \<open>simp_all\<close>)

text \<open>C7 Quotas, ownership and expiry. Whatever sequence of creations, edits and deletions of users and clients has been
  carried out, identifiers and login names of users are unique, the owner of every owned client exists, no user
  with a quota owns more clients than it allows, and a client with a date of its own does not outlive its owner.
\<close>

theorem account_invariant:
  assumes "canonical lib" "reachable_accounts lib db"
  shows "accounts_ok lib db"
proof -
  have "accounts_ok lib db \<and> 0 \<le> UserIncreaseId db" using assms(2)
  proof induction
    case (start db)
    then show ?case by (simp add: accounts_ok_def keys_ok_def owners_ok_def quota_ok_def)
  next
    case (step db db')
    then show ?case using account_step_ok [OF assms(1)] by blast
  qed
  then show ?thesis by blast
qed

lemma sample_reachable: "reachable_accounts sample_library sample_store"
  unfolding sample_store_def
  by (intro reachable_accounts.step [OF _ create_client] reachable_accounts.step [OF _ create_user] reachable_accounts.start)
    (simp_all add: sample_accounts_def sample_user_def)

lemma account_invariant_witness:
  "canonical sample_library \<and> reachable_accounts sample_library sample_store \<and> accounts_ok sample_library sample_store \<and>
   length (Users sample_store) = 1 \<and> owned_count (Clients sample_store) 1 = 1"
  using account_invariant [OF sample_canonical sample_reachable] sample_canonical sample_reachable
proof (intro conjI)
  show "length (Users sample_store) = 1" "owned_count (Clients sample_store) 1 = 1" by code_simp+
qed

text \<open>A date that has not come yet, or no date.\<close>

definition later :: "('l, 't) library \<Rightarrow> int \<Rightarrow> string \<Rightarrow> bool" where
  "later lib now v = (case NormalizeExpiryTime lib v of None \<Rightarrow> False | Some e \<Rightarrow> e = [] \<or> now < expiry_at lib e)"

lemma normalized_parses:
  assumes "canonical lib" "NormalizeExpiryTime lib v = Some e" "e \<noteq> []"
  shows "\<exists>t. ParseExpiryTime lib e = Some t"
proof -
  obtain t where t: "parse lib (TrimSpace v) = Some t" "e = form lib t"
    using assms(2,3) by (auto simp: NormalizeExpiryTime_def ParseExpiryTime_def Let_def split: if_splits)
  with assms(1) show ?thesis unfolding canonical_def by (fastforce simp: ParseExpiryTime_def Let_def)
qed

text \<open>Which clients are served. A client is active exactly when it is enabled, its own date has not come, and, if it
  has an owner, the owner exists, is enabled and not expired; unreadable dates and missing owners count against it.
\<close>

theorem client_active_exactly:
  assumes "canonical lib"
  shows "IsClientActive lib now db c \<longleftrightarrow> cStatus c \<and> later lib now (cExpireTime c) \<and>
    (UserId c = 0 \<or> IsUserActive lib now db (UserId c) \<and> (case GetUser db (UserId c) of None \<Rightarrow> False | Some u \<Rightarrow> later lib now (uExpireTime u)))"
proof -
  have p: "(case ParseExpiryTime lib e of None \<Rightarrow> False | Some t \<Rightarrow> now < instant lib t) \<longleftrightarrow> now < expiry_at lib e"
    if "NormalizeExpiryTime lib v = Some e" "e \<noteq> []" for v e
    using normalized_parses [OF assms that] by (auto simp: expiry_at_def)
  show ?thesis
  proof (cases "UserId c = 0")
    case True
    then show ?thesis
      by (auto simp: IsClientActive_def IsClientActiveWithExpiry_def EffectiveClientExpireTime_def later_def p split: option.split)
  next
    case False
    then show ?thesis
      by (auto simp: IsClientActive_def IsClientActiveWithExpiry_def EffectiveClientExpireTime_def later_def p split: option.split)
  qed
qed

lemma client_active_exactly_witness:
  "canonical sample_library \<and> IsClientActive sample_library 1800000000000000000 sample_store (sample_client\<lparr>cId := 1\<rparr>) \<and>
   \<not> IsClientActive sample_library 1900000000000000000 sample_store (sample_client\<lparr>cId := 1\<rparr>)"
proof -
  note active = client_active_exactly [OF sample_canonical]
  have "IsClientActive sample_library 1800000000000000000 sample_store (sample_client\<lparr>cId := 1\<rparr>)"
    unfolding active by code_simp
  moreover have "\<not> IsClientActive sample_library 1900000000000000000 sample_store (sample_client\<lparr>cId := 1\<rparr>)"
    unfolding active by code_simp
  ultimately show ?thesis using sample_canonical by blast
qed

end
