(* ===== verification/Wire_Conn.thy ===== *)
theory Wire_Conn
  imports Go_Std
begin

text \<open>
  The byte-level protocol of a bridge connection (\<open>lib/conn/conn.go\<close>) and datagrams framed on a stream
  (\<open>lib/conn/framed.go\<close>).

  \<^item> A program that talks over a connection is a function on a session: the bytes that will arrive, the bytes
    written so far and a store. It returns a value or an error. Every read is complete or fails
    (\<open>io.ReadFull\<close>, \<open>binary.Read\<close>); writes succeed: a failing write ends the program with an error, like a
    peer that stops sending.
  \<^item> \<open>ReadFlag\<close> returns the bytes it has read; the source leaves the order of the conversion and the read to the
    compiler.
  \<^item> \<open>[]byte(s)\<close> is \<open>bytes s\<close> and \<open>string(b)\<close> is \<open>text_of b\<close>.
  \<^item> \<open>FramedConn\<close> is modelled twice: \<open>Read\<close> and \<open>Write\<close> as whole operations, and, since both work on one header
    buffer under different locks, as the steps that a concurrent reader and writer take.
\<close>

subsection \<open>Bytes of strings\<close>

definition bytes :: "string \<Rightarrow> byte list" where "bytes s = map of_char s"
definition text_of :: "byte list \<Rightarrow> string" where "text_of b = map (\<lambda>w. char_of (unat w)) b"

lemma unat_of_char [simp]: "unat (of_char c :: byte) = of_char c"
proof -
  have "of_char c < (256 :: nat)" by (metis of_char_mod_256 mod_less_divisor zero_less_numeral)
  moreover have "(of_char c :: byte) = of_nat (of_char c)" by (simp only: of_nat_of_char)
  ultimately show ?thesis by (simp only: unat_of_nat) simp
qed

lemma text_of_bytes [simp]: "text_of (bytes s) = s"
  by (induction s) (simp_all add: text_of_def bytes_def)

lemma length_bytes [simp]: "length (bytes s) = length s"
  by (simp add: bytes_def)

lemma bytes_inject: "bytes s = bytes t \<longleftrightarrow> s = t"
  by (metis text_of_bytes)

text \<open>\<open>binary.BigEndian\<close>.\<close>

definition be_enc :: "nat \<Rightarrow> nat \<Rightarrow> byte list" where "be_enc n x = rev (le_enc n x)"
definition be_dec :: "byte list \<Rightarrow> nat" where "be_dec b = le_dec (rev b)"

lemma length_be_enc [simp]: "length (be_enc n x) = n"
  by (simp add: be_enc_def)

lemma be_dec_enc: "be_dec (be_enc n x) = x mod 256 ^ n"
  by (simp add: be_enc_def be_dec_def le_dec_enc)

subsection \<open>Programs on a connection\<close>

record 's session =
  incoming :: "byte list"
  written :: "byte list"
  store :: 's

datatype conn_error = ReadError io_err | BadLength | ShortInput | BadProof | StaleTimestamp | UnknownClient | InactiveClient
  | ChangedCredentials | ClientRejected string | NotFound | UnsupportedVersion | VerifyRejected | BadFingerprint

type_synonym ('s, 'a) io = "'s session \<Rightarrow> (conn_error + 'a) \<times> 's session"

definition return_io :: "'a \<Rightarrow> ('s, 'a) io" where "return_io x s = (Inr x, s)"
definition fail_io :: "conn_error \<Rightarrow> ('s, 'a) io" where "fail_io e s = (Inl e, s)"

definition bind_io :: "('s, 'a) io \<Rightarrow> ('a \<Rightarrow> ('s, 'b) io) \<Rightarrow> ('s, 'b) io" where
  "bind_io m f s = (case m s of (Inl e, s') \<Rightarrow> (Inl e, s') | (Inr x, s') \<Rightarrow> f x s')"

text \<open>An operation whose error the caller ignores.\<close>

definition try_io :: "('s, 'a) io \<Rightarrow> ('s, conn_error + 'a) io" where "try_io m s = (case m s of (r, s') \<Rightarrow> (Inr r, s'))"

definition Write :: "byte list \<Rightarrow> ('s, unit) io" where "Write b s = (Inr (), s\<lparr>written := written s @ b\<rparr>)"

definition ReadFull :: "nat \<Rightarrow> ('s, byte list) io" where
  "ReadFull n s =
     (case read_full n (incoming s) of
        (b, rest, None) \<Rightarrow> (Inr b, s\<lparr>incoming := rest\<rparr>)
      | (b, rest, Some e) \<Rightarrow> (Inl (ReadError e), s\<lparr>incoming := rest\<rparr>))"

definition PoolSize :: int where "PoolSize = 65536"

definition GetLen :: "('s, int) io" where
  "GetLen = bind_io (ReadFull 4) (\<lambda>b. return_io (sint (of_nat (le_dec b) :: i32)))"

definition GetShortContent :: "int \<Rightarrow> ('s, byte list) io" where
  "GetShortContent l = (if l < 0 \<or> l > PoolSize then fail_io BadLength else ReadFull (nat l))"

definition GetShortLenContent :: "('s, byte list) io" where
  "GetShortLenContent = bind_io GetLen (\<lambda>l. if l < 0 \<or> l > 32768 then fail_io BadLength else GetShortContent l)"

text \<open>\<open>ReadLen\<close> reads into the first \<open>cLen\<close> bytes of a buffer of \<open>n\<close> bytes.\<close>

definition ReadLen :: "int \<Rightarrow> nat \<Rightarrow> ('s, byte list) io" where
  "ReadLen cLen n = (if cLen > int n \<or> cLen \<le> 0 then fail_io BadLength else ReadFull (nat cLen))"

definition GetLenBytes :: "byte list \<Rightarrow> byte list" where
  "GetLenBytes b = le_enc 4 (unat (of_nat (length b) :: i32)) @ b"

definition WriteLenContent :: "byte list \<Rightarrow> ('s, unit) io" where "WriteLenContent b = Write (GetLenBytes b)"

definition ReadFlag :: "('s, string) io" where "ReadFlag = bind_io (ReadFull 4) (\<lambda>b. return_io (text_of b))"

lemmas io_prims = return_io_def fail_io_def bind_io_def try_io_def Write_def

lemma bind_io_Inr [simp]: "m s = (Inr x, s') \<Longrightarrow> bind_io m f s = f x s'"
  and bind_io_Inl [simp]: "m s = (Inl e, s') \<Longrightarrow> bind_io m f s = (Inl e, s')"
  by (simp_all add: bind_io_def)

text \<open>Running a program and asking where a success came from.\<close>

lemma bind_io_eq_Inr:
  "bind_io m f s = (Inr y, t) \<longleftrightarrow> (\<exists>x u. m s = (Inr x, u) \<and> f x u = (Inr y, t))"
  by (auto simp: bind_io_def split: prod.split sum.split)

lemma Write_run [simp]: "Write b s = (Inr (), s\<lparr>written := written s @ b\<rparr>)"
  by (simp add: Write_def)

lemma return_io_run [simp]: "return_io x s = (Inr x, s)"
  by (simp add: return_io_def)

lemma fail_io_run [simp]: "fail_io e s = (Inl e, s)"
  by (simp add: fail_io_def)

lemma ReadFull_append: "length b = n \<Longrightarrow> ReadFull n (s\<lparr>incoming := b @ rest\<rparr>) = (Inr b, s\<lparr>incoming := rest\<rparr>)"
  by (simp add: ReadFull_def)

lemma ReadFull_Inr: "ReadFull n s = (Inr b, t) \<longleftrightarrow> incoming s = b @ incoming t \<and> length b = n \<and> t = s\<lparr>incoming := incoming t\<rparr>"
proof
  assume "ReadFull n s = (Inr b, t)"
  then have "n \<le> length (incoming s)" "b = take n (incoming s)" "t = s\<lparr>incoming := drop n (incoming s)\<rparr>"
    by (simp_all add: ReadFull_def read_full_def split: if_splits)
  then show "incoming s = b @ incoming t \<and> length b = n \<and> t = s\<lparr>incoming := incoming t\<rparr>" by simp
next
  assume a: "incoming s = b @ incoming t \<and> length b = n \<and> t = s\<lparr>incoming := incoming t\<rparr>"
  then have "read_full n (incoming s) = (b, incoming t, None)" by simp
  then show "ReadFull n s = (Inr b, t)" using a by (simp add: ReadFull_def)
qed

text \<open>A record with a length prefix.\<close>

lemma GetLen_record:
  "length b < 2 ^ 31 \<Longrightarrow> GetLen (s\<lparr>incoming := GetLenBytes b @ rest\<rparr>) = (Inr (int (length b)), s\<lparr>incoming := b @ rest\<rparr>)"
proof -
  assume l: "length b < 2 ^ 31"
  have u: "unat (of_nat (length b) :: i32) = length b" using l by (simp add: unat_of_nat)
  have "sint (of_nat (length b) :: i32) = int (length b)" using l by (simp add: sint_uint uint_nat u signed_take_bit_int_eq_self)
  then show ?thesis using l
    by (simp add: GetLen_def GetLenBytes_def bind_io_def ReadFull_append le_dec_enc u)
qed

lemma GetShortLenContent_record:
  "length b \<le> 32768 \<Longrightarrow> GetShortLenContent (s\<lparr>incoming := GetLenBytes b @ rest\<rparr>) = (Inr b, s\<lparr>incoming := rest\<rparr>)"
  by (simp add: GetShortLenContent_def bind_io_def GetLen_record GetShortContent_def PoolSize_def ReadFull_append)

lemma GetShortContent_append:
  "int (length b) = l \<Longrightarrow> l \<le> PoolSize \<Longrightarrow> GetShortContent l (s\<lparr>incoming := b @ rest\<rparr>) = (Inr b, s\<lparr>incoming := rest\<rparr>)"
  by (auto simp: GetShortContent_def ReadFull_append)

lemma ReadFlag_append: "length f = 4 \<Longrightarrow> ReadFlag (s\<lparr>incoming := bytes f @ rest\<rparr>) = (Inr f, s\<lparr>incoming := rest\<rparr>)"
  by (simp add: ReadFlag_def bind_io_def ReadFull_append)

text \<open>Conversely, whatever \<open>GetShortLenContent\<close> accepts was such a record.\<close>

lemma sint_le_dec:
  assumes "length h = 4" "0 \<le> sint (of_nat (le_dec h) :: i32)" "n = nat (sint (of_nat (le_dec h) :: i32))"
  shows "h = le_enc 4 (unat (of_nat n :: i32))"
proof -
  let ?w = "of_nat (le_dec h) :: i32"
  have b: "le_dec h < 2 ^ 32" using le_dec_bound [of h] assms(1) by simp
  have "uint ?w = take_bit 32 (sint ?w)" by (simp add: uint_sint)
  also have "\<dots> = sint ?w" using assms(2) sint_lt [of ?w] by (intro take_bit_int_eq_self) simp_all
  finally have "sint ?w = uint ?w" ..
  then have "n = nat (uint ?w)" using assms(3) by (simp only:)
  also have "\<dots> = le_dec h" using b by (simp add: unat_of_nat)
  finally have "n = le_dec h" .
  then show ?thesis using b le_enc_dec [OF assms(1)] by (simp add: unat_of_nat)
qed

lemma GetShortLenContent_Inr:
  assumes "GetShortLenContent s = (Inr b, t)"
  shows "incoming s = GetLenBytes b @ incoming t \<and> length b \<le> 32768 \<and> t = s\<lparr>incoming := incoming t\<rparr>"
proof -
  obtain h u where h: "ReadFull 4 s = (Inr h, u)"
    and r: "(if sint (of_nat (le_dec h) :: i32) < 0 \<or> sint (of_nat (le_dec h) :: i32) > 32768 then fail_io BadLength
        else GetShortContent (sint (of_nat (le_dec h) :: i32))) u = (Inr b, t)"
    using assms unfolding GetShortLenContent_def GetLen_def bind_io_eq_Inr by auto
  let ?l = "sint (of_nat (le_dec h) :: i32)"
  have l: "0 \<le> ?l" "?l \<le> 32768" and f: "ReadFull (nat ?l) u = (Inr b, t)"
    using r by (auto simp: GetShortContent_def PoolSize_def split: if_splits)
  from h have h4: "length h = 4" and i: "incoming s = h @ incoming u" and u: "u = s\<lparr>incoming := incoming u\<rparr>"
    unfolding ReadFull_Inr by blast+
  from f have b: "length b = nat ?l" and j: "incoming u = b @ incoming t" and t: "t = u\<lparr>incoming := incoming t\<rparr>"
    unfolding ReadFull_Inr by blast+
  have "GetLenBytes b = h @ b" using sint_le_dec [OF h4 l(1) b] by (simp add: GetLenBytes_def)
  moreover have "t = s\<lparr>incoming := incoming t\<rparr>" using t u by (cases s, cases u) simp
  ultimately show ?thesis using i j b l by simp
qed

lemma GetShortContent_Inr:
  "GetShortContent l s = (Inr b, t) \<Longrightarrow> incoming s = b @ incoming t \<and> int (length b) = l \<and> t = s\<lparr>incoming := incoming t\<rparr>"
  by (auto simp: GetShortContent_def ReadFull_Inr split: if_splits)

lemma ReadFlag_Inr:
  "ReadFlag s = (Inr f, t) \<Longrightarrow> \<exists>b. incoming s = b @ incoming t \<and> length b = 4 \<and> f = text_of b \<and> t = s\<lparr>incoming := incoming t\<rparr>"
  by (auto simp: ReadFlag_def bind_io_eq_Inr ReadFull_Inr)

subsection \<open>Framed datagrams\<close>

definition maxFramedDatagramSize :: nat where "maxFramedDatagramSize = 2 ^ 20"

datatype frame_error = FramedDatagramTooLarge | FrameRead io_err

text \<open>\<open>pending\<close> is what is left of a datagram that did not fit, \<open>header\<close> the buffer of the length prefix.\<close>

record framed =
  rwc_in :: "byte list"
  rwc_out :: "byte list"
  pending :: "byte list"
  header :: "byte list"

definition header_size :: "byte list \<Rightarrow> nat" where "header_size h = unat (of_nat (le_dec h) :: u32)"

text \<open>The part of \<open>Read\<close> behind the header, into a buffer of \<open>n\<close> bytes.\<close>

definition read_body :: "nat \<Rightarrow> framed \<Rightarrow> (frame_error + byte list) \<times> framed" where
  "read_body n f =
     (let size = header_size (header f) in
      if size > maxFramedDatagramSize then (Inl FramedDatagramTooLarge, f)
      else if size = 0 then (Inr [], f)
      else case read_full size (rwc_in f) of
             (b, rest, Some e) \<Rightarrow> (Inl (FrameRead e), f\<lparr>rwc_in := rest\<rparr>)
           | (b, rest, None) \<Rightarrow> (Inr (take n b), f\<lparr>rwc_in := rest, pending := (if n < size then drop n b else pending f)\<rparr>))"

definition FramedConn_Read :: "nat \<Rightarrow> framed \<Rightarrow> (frame_error + byte list) \<times> framed" where
  "FramedConn_Read n f =
     (if pending f \<noteq> [] then (Inr (take n (pending f)), f\<lparr>pending := drop n (pending f)\<rparr>)
      else case read_full 4 (rwc_in f) of
             (h, rest, Some e) \<Rightarrow> (Inl (FrameRead e), f\<lparr>rwc_in := rest, header := overwrite 0 h (header f)\<rparr>)
           | (h, rest, None) \<Rightarrow> read_body n (f\<lparr>rwc_in := rest, header := h\<rparr>))"

definition FramedConn_Write :: "byte list \<Rightarrow> framed \<Rightarrow> (frame_error + nat) \<times> framed" where
  "FramedConn_Write p f =
     (if length p > maxFramedDatagramSize then (Inl FramedDatagramTooLarge, f)
      else let h = le_enc 4 (unat (of_nat (length p) :: u32))
           in (Inr (length p), f\<lparr>header := h, rwc_out := rwc_out f @ h @ p\<rparr>))"

text \<open>Several operations of one kind in a row, up to the first error.\<close>

fun write_all :: "byte list list \<Rightarrow> framed \<Rightarrow> frame_error option \<times> framed" where
  "write_all [] f = (None, f)"
| "write_all (p # ps) f = (case FramedConn_Write p f of (Inl e, f') \<Rightarrow> (Some e, f') | (Inr _, f') \<Rightarrow> write_all ps f')"

fun read_all :: "nat list \<Rightarrow> framed \<Rightarrow> (frame_error + byte list list) \<times> framed" where
  "read_all [] f = (Inr [], f)"
| "read_all (n # ns) f =
     (case FramedConn_Read n f of
        (Inl e, f') \<Rightarrow> (Inl e, f')
      | (Inr b, f') \<Rightarrow> (case read_all ns f' of (Inl e, f'') \<Rightarrow> (Inl e, f'') | (Inr bs, f'') \<Rightarrow> (Inr (b # bs), f'')))"

definition frame :: "byte list \<Rightarrow> byte list" where "frame p = le_enc 4 (length p) @ p"

lemma write_all_frames:
  "list_all (\<lambda>p. length p \<le> maxFramedDatagramSize) ps \<Longrightarrow>
     \<exists>f'. write_all ps f = (None, f') \<and> rwc_out f' = rwc_out f @ concat (map frame ps) \<and> rwc_in f' = rwc_in f \<and> pending f' = pending f"
proof (induction ps arbitrary: f)
  case (Cons p ps)
  have u: "unat (of_nat (length p) :: u32) = length p" using Cons.prems by (simp add: maxFramedDatagramSize_def unat_of_nat)
  define f1 where "f1 = f\<lparr>header := le_enc 4 (length p), rwc_out := rwc_out f @ frame p\<rparr>"
  have w: "FramedConn_Write p f = (Inr (length p), f1)"
    using Cons.prems by (simp add: FramedConn_Write_def u f1_def frame_def Let_def)
  obtain f' where "write_all ps f1 = (None, f')" "rwc_out f' = rwc_out f1 @ concat (map frame ps)" "rwc_in f' = rwc_in f1" "pending f' = pending f1"
    using Cons.IH [of f1] Cons.prems by auto
  then show ?case using w by (simp add: f1_def)
qed simp

lemma header_size_enc: "n < 2 ^ 32 \<Longrightarrow> header_size (le_enc 4 n) = n"
  by (simp add: header_size_def le_dec_enc unat_of_nat)

lemma read_frame:
  assumes "pending f = []" "rwc_in f = frame p @ rest" "length p \<le> maxFramedDatagramSize"
  shows "FramedConn_Read n f = (Inr (take n p), f\<lparr>rwc_in := rest, header := le_enc 4 (length p), pending := drop n p\<rparr>)"
proof -
  have s: "header_size (le_enc 4 (length p)) = length p" using assms(3) by (simp add: header_size_enc maxFramedDatagramSize_def)
  show ?thesis
  proof (cases "p = []")
    case True
    with s have "header_size (le_enc 4 0) = 0" by simp
    then show ?thesis using assms True by (simp add: FramedConn_Read_def frame_def read_body_def Let_def)
  next
    case False
    then show ?thesis using assms by (auto simp: FramedConn_Read_def frame_def read_body_def s Let_def)
  qed
qed

text \<open>The pieces in which a datagram reaches a caller with a buffer of \<open>n\<close> bytes.\<close>

function pieces :: "nat \<Rightarrow> byte list \<Rightarrow> byte list list" where
  "pieces n p = (if n = 0 \<or> length p \<le> n then [p] else take n p # pieces n (drop n p))"
  by auto
termination by (relation "measure (\<lambda>(n, p). length p)") auto

declare pieces.simps [simp del]

lemma concat_pieces: "concat (pieces n p) = p"
  by (induction n p rule: pieces.induct) (subst pieces.simps, simp)

lemma read_all_append:
  "read_all ns f = (Inr bs, g) \<Longrightarrow> read_all (ns @ ms) f =
     (case read_all ms g of (Inl e, h) \<Rightarrow> (Inl e, h) | (Inr cs, h) \<Rightarrow> (Inr (bs @ cs), h))"
proof (induction ns arbitrary: f bs)
  case (Cons n ns)
  then obtain b f' bs' where r: "FramedConn_Read n f = (Inr b, f')" "read_all ns f' = (Inr bs', g)" "bs = b # bs'"
    by (auto split: prod.splits sum.splits)
  show ?case using Cons.IH [OF r(2)] r by (auto split: prod.split sum.split)
qed (auto split: prod.split sum.split)

lemma read_pending:
  "0 < n \<Longrightarrow> pending f \<noteq> [] \<Longrightarrow>
     read_all (replicate (length (pieces n (pending f))) n) f = (Inr (pieces n (pending f)), f\<lparr>pending := []\<rparr>)"
proof (induction n "pending f" arbitrary: f rule: pieces.induct)
  case (1 n)
  have r: "FramedConn_Read n f = (Inr (take n (pending f)), f\<lparr>pending := drop n (pending f)\<rparr>)"
    using 1 by (simp add: FramedConn_Read_def)
  show ?case
  proof (cases "length (pending f) \<le> n")
    case True
    then show ?thesis using r by (simp add: pieces.simps [of n "pending f"])
  next
    case False
    then have "read_all (replicate (length (pieces n (drop n (pending f)))) n) (f\<lparr>pending := drop n (pending f)\<rparr>) =
        (Inr (pieces n (drop n (pending f))), f\<lparr>pending := []\<rparr>)"
      using "1.hyps" [of "f\<lparr>pending := drop n (pending f)\<rparr>"] "1.prems" by simp
    then show ?thesis using False "1.prems" r by (simp add: pieces.simps [of n "pending f"])
  qed
qed

lemma read_datagram:
  assumes "0 < n" "pending f = []" "rwc_in f = frame p @ rest" "length p \<le> maxFramedDatagramSize"
  shows "\<exists>h. read_all (replicate (length (pieces n p)) n) f = (Inr (pieces n p), f\<lparr>rwc_in := rest, header := h, pending := []\<rparr>)"
proof -
  note r = read_frame [OF assms(2-4), of n]
  show ?thesis
  proof (cases "length p \<le> n")
    case True
    then show ?thesis using r by (auto simp: pieces.simps [of n p])
  next
    case False
    let ?f = "f\<lparr>rwc_in := rest, header := le_enc 4 (length p), pending := drop n p\<rparr>"
    have "read_all (replicate (length (pieces n (drop n p))) n) ?f = (Inr (pieces n (drop n p)), ?f\<lparr>pending := []\<rparr>)"
      using read_pending [OF assms(1), of ?f] False by simp
    then show ?thesis using False assms(1) r by (auto simp: pieces.simps [of n p])
  qed
qed

lemma read_datagrams:
  assumes "0 < n"
  shows "pending f = [] \<Longrightarrow> rwc_in f = concat (map frame ps) @ rest \<Longrightarrow> list_all (\<lambda>p. length p \<le> maxFramedDatagramSize) ps \<Longrightarrow>
    \<exists>h. read_all (replicate (length (concat (map (pieces n) ps))) n) f =
      (Inr (concat (map (pieces n) ps)), f\<lparr>rwc_in := rest, header := h, pending := []\<rparr>)"
proof (induction ps arbitrary: f)
  case Nil
  then show ?case by (auto intro!: exI [of _ "header f"])
next
  case (Cons p ps)
  obtain h where h: "read_all (replicate (length (pieces n p)) n) f =
      (Inr (pieces n p), f\<lparr>rwc_in := concat (map frame ps) @ rest, header := h, pending := []\<rparr>)"
    using read_datagram [OF assms Cons.prems(1), of p] Cons.prems by auto
  obtain h' where "read_all (replicate (length (concat (map (pieces n) ps))) n) (f\<lparr>rwc_in := concat (map frame ps) @ rest, header := h, pending := []\<rparr>) =
      (Inr (concat (map (pieces n) ps)), f\<lparr>rwc_in := rest, header := h', pending := []\<rparr>)"
    using Cons.IH [of "f\<lparr>rwc_in := concat (map frame ps) @ rest, header := h, pending := []\<rparr>"] Cons.prems by auto
  then show ?case using read_all_append [OF h, of "replicate (length (concat (map (pieces n) ps))) n"] by (auto simp: replicate_add)
qed

text \<open>C18 Framed datagrams keep their boundaries. What one end of a stream writes as datagrams, the other end reads as
  the same datagrams in the same order, each in one piece when the buffer is large enough and otherwise in
  consecutive pieces, none of which mixes two datagrams; bytes behind the last frame stay unread.\<close>

theorem framed_roundtrip:
  assumes "0 < n" "list_all (\<lambda>p. length p \<le> maxFramedDatagramSize) ps"
    and "write_all ps a = (None, a')" "rwc_out a' = rwc_out a @ out" "rwc_in b = out @ rest" "pending b = []"
  shows "\<exists>b'. read_all (replicate (length (concat (map (pieces n) ps))) n) b = (Inr (concat (map (pieces n) ps)), b') \<and>
    rwc_in b' = rest \<and> map concat (map (pieces n) ps) = ps"
proof -
  have "out = concat (map frame ps)" using write_all_frames [OF assms(2), of a] assms(3,4) by auto
  then show ?thesis
    using read_datagrams [OF assms(1,6), of ps rest] assms(2,5) by (auto simp: concat_pieces intro!: map_idI)
qed

lemma framed_roundtrip_witness:
  "\<exists>b'. read_all [2, 2, 2] \<lparr>rwc_in = [3, 0, 0, 0, 7, 8, 9, 1, 0, 0, 0, 5, 4], rwc_out = [], pending = [], header = []\<rparr> =
     (Inr [[7, 8], [9], [5]], b') \<and> rwc_in b' = [4]"
proof -
  let ?a = "\<lparr>rwc_in = [], rwc_out = [], pending = [], header = []\<rparr>"
  have w: "write_all [[7, 8, 9], [5]] ?a =
      (None, \<lparr>rwc_in = [], rwc_out = [3, 0, 0, 0, 7, 8, 9, 1, 0, 0, 0, 5], pending = [], header = [1, 0, 0, 0]\<rparr>)"
  proof -
    have e: "le_enc 4 3 = [3, 0, 0, 0]" "le_enc 4 (Suc 0) = [1, 0, 0, 0]" by code_simp+
    show ?thesis by (simp add: FramedConn_Write_def maxFramedDatagramSize_def Let_def e)
  qed
  have p: "pieces 2 [7, 8, 9] = [[7, 8], [9]]" "pieces 2 [5] = [[5]]" by (simp_all add: pieces.simps)
  show ?thesis
    using framed_roundtrip [OF _ _ w, of 2 "[3, 0, 0, 0, 7, 8, 9, 1, 0, 0, 0, 5]"
        "\<lparr>rwc_in = [3, 0, 0, 0, 7, 8, 9, 1, 0, 0, 0, 5, 4], rwc_out = [], pending = [], header = []\<rparr>" "[4]"]
    by (simp add: p maxFramedDatagramSize_def)
qed

subsection \<open>Reader and writer at the same time\<close>

text \<open>
  \<open>CopyDatagrams\<close> runs \<open>Read\<close> and \<open>Write\<close> of one \<open>FramedConn\<close> in two goroutines. \<open>readMu\<close> and \<open>writeMu\<close> do not exclude each
  other, so that between two accesses to \<open>header\<close> of one side the other side may run.
\<close>

datatype reader_pc = ReadIdle | HeaderRead
datatype writer_pc = WriteIdle | HeaderSet "byte list"

record duplex =
  fconn :: framed
  rpc :: reader_pc
  wpc :: writer_pc
  delivered :: "byte list list"
  sent :: "byte list list"

inductive duplex_step :: "nat \<Rightarrow> duplex \<Rightarrow> duplex \<Rightarrow> bool" for n where
  read_header: "rpc d = ReadIdle \<Longrightarrow> pending (fconn d) = [] \<Longrightarrow> read_full 4 (rwc_in (fconn d)) = (h, rest, None) \<Longrightarrow>
    duplex_step n d (d\<lparr>fconn := (fconn d)\<lparr>rwc_in := rest, header := h\<rparr>, rpc := HeaderRead\<rparr>)"
| read_rest: "rpc d = HeaderRead \<Longrightarrow> read_body n (fconn d) = (Inr b, f) \<Longrightarrow>
    duplex_step n d (d\<lparr>fconn := f, rpc := ReadIdle, delivered := delivered d @ [b]\<rparr>)"
| read_left: "rpc d = ReadIdle \<Longrightarrow> pending (fconn d) \<noteq> [] \<Longrightarrow> FramedConn_Read n (fconn d) = (Inr b, f) \<Longrightarrow>
    duplex_step n d (d\<lparr>fconn := f, delivered := delivered d @ [b]\<rparr>)"
| write_header: "wpc d = WriteIdle \<Longrightarrow> length p \<le> maxFramedDatagramSize \<Longrightarrow>
    duplex_step n d (d\<lparr>fconn := (fconn d)\<lparr>header := le_enc 4 (unat (of_nat (length p) :: u32))\<rparr>, wpc := HeaderSet p\<rparr>)"
| write_rest: "wpc d = HeaderSet p \<Longrightarrow>
    duplex_step n d (d\<lparr>fconn := (fconn d)\<lparr>rwc_out := rwc_out (fconn d) @ header (fconn d) @ p\<rparr>, wpc := WriteIdle, sent := sent d @ [p]\<rparr>)"

definition fresh_duplex :: "byte list \<Rightarrow> duplex" where
  "fresh_duplex arriving = \<lparr>fconn = \<lparr>rwc_in = arriving, rwc_out = [], pending = [], header = [0, 0, 0, 0]\<rparr>,
     rpc = ReadIdle, wpc = WriteIdle, delivered = [], sent = []\<rparr>"

text \<open>The shared header buffer corrupts datagrams. There are schedules of one reader and one writer, on a connection on which
  well-formed frames arrive, after which the bytes written are not the frames of the datagrams sent, and others
  after which a datagram delivered is not one that arrived.\<close>

theorem framed_header_race:
  "(\<exists>d. (duplex_step 64)\<^sup>*\<^sup>* (fresh_duplex (frame [7] @ frame [8, 9])) d \<and> wpc d = WriteIdle \<and> sent d = [[1, 2]] \<and>
      rwc_out (fconn d) \<noteq> concat (map frame (sent d))) \<and>
   (\<exists>d. (duplex_step 64)\<^sup>*\<^sup>* (fresh_duplex (frame [7] @ frame [8, 9])) d \<and> rpc d = ReadIdle \<and> delivered d = [[7, 2]])"
proof -
  define f where "f = frame [7] @ frame [8, 9]"
  have e: "le_enc 4 2 = [2, 0, 0, 0]" "le_enc 4 (Suc 0) = [1, 0, 0, 0]" "le_enc 4 (Suc (Suc 0)) = [2, 0, 0, 0]" by code_simp+
  have f: "f = [1, 0, 0, 0, 7, 2, 0, 0, 0, 8, 9]" by (simp add: f_def frame_def e)
  define a where "a = (fresh_duplex f)\<lparr>fconn := (fconn (fresh_duplex f))\<lparr>header := [2, 0, 0, 0]\<rparr>, wpc := HeaderSet [1, 2]\<rparr>"
  define b where "b = a\<lparr>fconn := (fconn a)\<lparr>rwc_in := [7, 2, 0, 0, 0, 8, 9], header := [1, 0, 0, 0]\<rparr>, rpc := HeaderRead\<rparr>"
  define c where "c = b\<lparr>fconn := (fconn b)\<lparr>rwc_out := [1, 0, 0, 0, 1, 2]\<rparr>, wpc := WriteIdle, sent := [[1, 2]]\<rparr>"
  define r where "r = (fresh_duplex f)\<lparr>fconn := (fconn (fresh_duplex f))\<lparr>rwc_in := [7, 2, 0, 0, 0, 8, 9], header := [1, 0, 0, 0]\<rparr>, rpc := HeaderRead\<rparr>"
  define t where "t = r\<lparr>fconn := (fconn r)\<lparr>header := [2, 0, 0, 0]\<rparr>, wpc := HeaderSet [1, 2]\<rparr>"
  define u where "u = t\<lparr>fconn := (fconn t)\<lparr>rwc_in := [0, 0, 0, 8, 9]\<rparr>, rpc := ReadIdle, delivered := [[7, 2]]\<rparr>"
  have "duplex_step 64 (fresh_duplex f) a"
    using duplex_step.write_header [of "fresh_duplex f" "[1, 2]" 64] by (simp add: a_def fresh_duplex_def maxFramedDatagramSize_def e)
  moreover have "duplex_step 64 a b"
    using duplex_step.read_header [of a "[1, 0, 0, 0]" "[7, 2, 0, 0, 0, 8, 9]" 64] by (simp add: a_def b_def fresh_duplex_def f read_full_def)
  moreover have "duplex_step 64 b c"
    using duplex_step.write_rest [of b "[1, 2]" 64] by (simp add: a_def b_def c_def fresh_duplex_def)
  moreover have "duplex_step 64 (fresh_duplex f) r"
    using duplex_step.read_header [of "fresh_duplex f" "[1, 0, 0, 0]" "[7, 2, 0, 0, 0, 8, 9]" 64] by (simp add: r_def fresh_duplex_def f read_full_def)
  moreover have "duplex_step 64 r t"
    using duplex_step.write_header [of r "[1, 2]" 64] by (simp add: r_def t_def fresh_duplex_def maxFramedDatagramSize_def e)
  moreover have "duplex_step 64 t u"
  proof -
    have "header_size [2, 0, 0, 0] = 2" by (simp add: header_size_def)
    then have "read_body 64 (fconn t) = (Inr [7, 2], fconn u)"
      by (simp add: read_body_def Let_def maxFramedDatagramSize_def t_def u_def r_def fresh_duplex_def f read_full_def)
    then show ?thesis using duplex_step.read_rest [of t 64 "[7, 2]" "fconn u"] by (simp add: r_def t_def u_def fresh_duplex_def)
  qed
  ultimately have "(duplex_step 64)\<^sup>*\<^sup>* (fresh_duplex f) c" "(duplex_step 64)\<^sup>*\<^sup>* (fresh_duplex f) u"
    by (meson rtranclp.rtrancl_into_rtrancl rtranclp.rtrancl_refl)+
  moreover have "wpc c = WriteIdle" "sent c = [[1, 2]]" "rpc u = ReadIdle" "delivered u = [[7, 2]]"
    and "rwc_out (fconn c) \<noteq> concat (map frame (sent c))"
    by (simp_all add: a_def b_def c_def r_def t_def u_def fresh_duplex_def frame_def e)
  ultimately show ?thesis unfolding f_def [symmetric] by blast
qed

end
