(* ===== verification/Handshake.thy ===== *)
theory Handshake
  imports Account_Store Wire_Conn
begin

text \<open>
  How a client agent authenticates to the bridge: release numbers (\<open>lib/version\<close>), the proofs of
  \<open>lib/crypt/secure_handshake.go\<close>, the server's side (\<open>bridge/bridge.go\<close>: \<open>cliProcess\<close>, \<open>authenticateClient\<close>,
  \<open>secureClientHandshakeWithDB\<close>), the client's side (the dialogue in \<open>NewConn\<close> of \<open>client/control.go\<close>) and the lookups
  of \<open>lib/file/db.go\<close>.

  \<^item> HMAC-SHA-256, BLAKE2b and hexadecimal MD5 are arguments. The theorems about them need only the sizes of their results.
  \<^item> The random challenge, the clocks, the time window and the certificate fingerprint are part of the environment.
  \<^item> Other goroutines may change the store while the server waits for the client: \<open>before_check\<close> and
    \<open>after_check\<close> are arbitrary changes. A record that the server holds is the object of its key: an edit is visible
    through it, a deletion leaves it as it was.
  \<^item> Logging and deadlines are left out. The number that errors carry for the log is left out as well.
\<close>

subsection \<open>Releases\<close>

definition VERSION :: string where "VERSION = ''1.1.42''"
definition GetVersion :: string where "GetVersion = ''0.26.0''"
definition SecureHandshakeMinVersion :: string where "SecureHandshakeMinVersion = ''1.1.29''"
definition ModernP2PMinVersion :: string where "ModernP2PMinVersion = ''1.1.29''"
definition ClientIdentityMinVersion :: string where "ClientIdentityMinVersion = ''1.1.41''"
definition KeyedFileMinVersion :: string where "KeyedFileMinVersion = ''1.1.30''"

definition semver_part :: "string \<Rightarrow> int option" where
  "semver_part p =
     (if p = [] then None
      else if length p > 1 \<and> hd p = CHR ''0'' then None
      else if \<not> list_all is_digit p then None
      else if dec_val p > 2 ^ 63 - 1 then None
      else Some (dec_val p))"

definition parseStableSemver :: "string \<Rightarrow> int list option" where
  "parseStableSemver raw =
     (let parts = Split (TrimPrefix (TrimSpace raw) ''v'') (CHR ''.'') in
      if length parts \<noteq> 3 then None else those (map semver_part parts))"

fun compare_parts :: "int list \<Rightarrow> int list \<Rightarrow> int" where
  "compare_parts (x # xs) (y # ys) = (if x < y then -1 else if x > y then 1 else compare_parts xs ys)"
| "compare_parts _ _ = 0"

definition Compare :: "string \<Rightarrow> string \<Rightarrow> int option" where
  "Compare a b =
     (case parseStableSemver a of
        None \<Rightarrow> None
      | Some left \<Rightarrow> (case parseStableSemver b of None \<Rightarrow> None | Some right \<Rightarrow> Some (compare_parts left right)))"

definition at_least :: "string \<Rightarrow> string \<Rightarrow> bool" where
  "at_least least release = (case Compare release least of None \<Rightarrow> False | Some n \<Rightarrow> n \<ge> 0)"

definition UsesSecureHandshake :: "string \<Rightarrow> bool" where "UsesSecureHandshake = at_least SecureHandshakeMinVersion"
definition SupportsModernP2P :: "string \<Rightarrow> bool" where "SupportsModernP2P = at_least ModernP2PMinVersion"
definition SupportsClientIdentity :: "string \<Rightarrow> bool" where "SupportsClientIdentity = at_least ClientIdentityMinVersion"
definition SupportsKeyedFiles :: "string \<Rightarrow> bool" where "SupportsKeyedFiles = at_least KeyedFileMinVersion"

definition SupportsLegacyHandshake :: "string \<Rightarrow> bool" where
  "SupportsLegacyHandshake release = (case Compare release SecureHandshakeMinVersion of None \<Rightarrow> False | Some n \<Rightarrow> n < 0)"

subsection \<open>Proofs\<close>

record hashes =
  blake :: "byte list \<Rightarrow> byte list"
  hmac :: "byte list \<Rightarrow> byte list \<Rightarrow> byte list"
  md5 :: "string \<Rightarrow> string"

definition hashes_ok :: "hashes \<Rightarrow> bool" where
  "hashes_ok h \<longleftrightarrow> (\<forall>x. length (blake h x) = 32) \<and> (\<forall>k x. length (hmac h k x) = 32) \<and> (\<forall>x. length (md5 h x) = 32)"

definition SecureHandshakeMarker :: "byte list" where
  "SecureHandshakeMarker = overwrite 0 (bytes ''NPS-SECURE-HANDSHAKE-V1'') (replicate 32 0)"

definition SecureHandshakeKeyID :: "hashes \<Rightarrow> string \<Rightarrow> byte list" where "SecureHandshakeKeyID h verifyKey = blake h (bytes verifyKey)"

definition writeHandshakeField :: "byte list \<Rightarrow> byte list" where
  "writeHandshakeField f = be_enc 4 (unat (of_nat (length f) :: u32)) @ f"

definition transcript :: "byte list list \<Rightarrow> byte list" where "transcript fs = concat (map writeHandshakeField fs)"

definition secureHandshakeClientProof :: "hashes \<Rightarrow> string \<Rightarrow> string \<Rightarrow> string \<Rightarrow> byte list \<Rightarrow> byte list \<Rightarrow> byte list" where
  "secureHandshakeClientProof h verifyKey coreVersion productVersion timestamp challenge =
     hmac h (bytes verifyKey) (transcript [bytes ''nps-client-handshake-v1'', timestamp, bytes coreVersion, bytes productVersion, challenge])"

definition SecureHandshakeClientPayload :: "hashes \<Rightarrow> string \<Rightarrow> string \<Rightarrow> string \<Rightarrow> u64 \<Rightarrow> byte list \<Rightarrow> conn_error + byte list" where
  "SecureHandshakeClientPayload h verifyKey coreVersion productVersion timestamp challenge =
     (if verifyKey = [] \<or> length challenge \<noteq> 32 then Inl ShortInput
      else let ts = be_enc 8 (unat timestamp)
           in Inr (ts @ secureHandshakeClientProof h verifyKey coreVersion productVersion ts challenge))"

definition timestampWithinWindow :: "u64 \<Rightarrow> u64 \<Rightarrow> u64 \<Rightarrow> bool" where
  "timestampWithinWindow timestamp now window =
     (if sint window < 0 then False
      else if window = 0 then True
      else if sint timestamp \<ge> sint now then timestamp - now \<le> window
      else now - timestamp \<le> window)"

definition VerifySecureHandshakeClientPayload ::
  "hashes \<Rightarrow> string \<Rightarrow> string \<Rightarrow> string \<Rightarrow> byte list \<Rightarrow> byte list \<Rightarrow> u64 \<Rightarrow> u64 \<Rightarrow> conn_error + unit" where
  "VerifySecureHandshakeClientPayload h verifyKey coreVersion productVersion payload challenge now window =
     (if verifyKey = [] \<or> length payload \<noteq> 40 \<or> length challenge \<noteq> 32 then Inl ShortInput
      else let ts = of_nat (be_dec (take 8 payload)) :: u64 in
        if ts > 2 ^ 63 - 1 \<or> \<not> timestampWithinWindow ts now window then Inl StaleTimestamp
        else if drop 8 payload \<noteq> secureHandshakeClientProof h verifyKey coreVersion productVersion (take 8 payload) challenge then Inl BadProof
        else Inr ())"

definition SecureHandshakeServerProof :: "hashes \<Rightarrow> string \<Rightarrow> byte list \<Rightarrow> byte list \<Rightarrow> conn_error + byte list" where
  "SecureHandshakeServerProof h verifyKey clientPayload challenge =
     (if verifyKey = [] \<or> length clientPayload \<noteq> 40 \<or> length challenge \<noteq> 32 then Inl ShortInput
      else Inr (hmac h (bytes verifyKey) (transcript [bytes ''nps-server-handshake-v1'', drop 8 clientPayload, challenge])))"

definition VerifySecureHandshakeServerProof :: "hashes \<Rightarrow> string \<Rightarrow> byte list \<Rightarrow> byte list \<Rightarrow> byte list \<Rightarrow> conn_error + unit" where
  "VerifySecureHandshakeServerProof h verifyKey clientPayload challenge proof =
     (case SecureHandshakeServerProof h verifyKey clientPayload challenge of
        Inl e \<Rightarrow> Inl e
      | Inr want \<Rightarrow> if length proof \<noteq> 32 \<or> proof \<noteq> want then Inl BadProof else Inr ())"

definition SecureHandshakeFingerprintProof :: "hashes \<Rightarrow> string \<Rightarrow> byte list \<Rightarrow> conn_error + byte list" where
  "SecureHandshakeFingerprintProof h verifyKey fingerprint =
     (if verifyKey = [] \<or> length fingerprint \<noteq> 32 then Inl BadFingerprint
      else Inr (hmac h (bytes verifyKey) (transcript [bytes ''nps-bridge-fingerprint-v1'', fingerprint])))"

definition VerifySecureHandshakeFingerprintProof :: "hashes \<Rightarrow> string \<Rightarrow> byte list \<Rightarrow> byte list \<Rightarrow> conn_error + unit" where
  "VerifySecureHandshakeFingerprintProof h verifyKey fingerprint proof =
     (case SecureHandshakeFingerprintProof h verifyKey fingerprint of
        Inl e \<Rightarrow> Inl e
      | Inr want \<Rightarrow> if length proof \<noteq> 32 \<or> proof \<noteq> want then Inl BadProof else Inr ())"

subsection \<open>The server\<close>

record ('l, 't) environment =
  hashing :: hashes
  dates :: "('l, 't) library"
  unix_now :: u64
  local_now :: int
  auth_time_window :: u64
  allow_time_limit :: bool
  challenge :: "byte list"
  fingerprint :: "byte list"
  source_denied :: bool
  remote_addr :: string
  before_check :: "'l accounts \<Rightarrow> 'l accounts"
  after_check :: "'l accounts \<Rightarrow> 'l accounts"

definition CONN_TEST :: string where "CONN_TEST = ''TST''"
definition VERIFY_EER :: string where "VERIFY_EER = ''vkey''"
definition VERIFY_SUCCESS :: string where "VERIFY_SUCCESS = ''sucs''"

definition Getverifyval :: "hashes \<Rightarrow> string \<Rightarrow> string" where "Getverifyval h vkey = md5 h vkey"

definition GetClientBySecureKeyID :: "hashes \<Rightarrow> 'l accounts \<Rightarrow> byte list \<Rightarrow> (int \<times> client) option" where
  "GetClientBySecureKeyID h db keyID =
     (if length keyID \<noteq> 32 then None
      else List.find (\<lambda>(_, c). VerifyKey c \<noteq> [] \<and> SecureHandshakeKeyID h (VerifyKey c) = keyID) (Clients db))"

text \<open>The content of an object that was found under a key, and writing the address through it.\<close>

definition object :: "int \<Rightarrow> client \<Rightarrow> 'l accounts \<Rightarrow> client" where
  "object k c db = (case map_of (Clients db) k of None \<Rightarrow> c | Some c' \<Rightarrow> c')"

definition set_addr :: "string \<Rightarrow> int \<Rightarrow> 'l accounts \<Rightarrow> 'l accounts" where
  "set_addr addr k db =
     (case map_of (Clients db) k of None \<Rightarrow> db | Some c \<Rightarrow> db\<lparr>Clients := AList.update k (c\<lparr>cAddr := GetIpByAddr addr\<rparr>) (Clients db)\<rparr>)"

definition lift_result :: "conn_error + 'a \<Rightarrow> ('s, 'a) io" where "lift_result r s = (r, s)"
definition on_store :: "('s \<Rightarrow> 's) \<Rightarrow> ('s, unit) io" where "on_store f s = (Inr (), s\<lparr>store := f (store s)\<rparr>)"

text \<open>The checks behind a valid proof, on the current content of the record.\<close>

definition admit_client :: "('l, 't) environment \<Rightarrow> int \<Rightarrow> client \<Rightarrow> ('l accounts, int) io" where
  "admit_client env k c s =
     (if \<not> IsClientActiveWithExpiry (dates env) (local_now env) (store s) (allow_time_limit env) (object k c (store s))
      then (Inl InactiveClient, s)
      else let db = after_check env (store s); c' = object k c db in
        if VerifyKey c' \<noteq> VerifyKey c \<or> \<not> cStatus c' then (Inl ChangedCredentials, s\<lparr>store := db\<rparr>)
        else (Inr (cId c'), s\<lparr>store := set_addr (remote_addr env) k db\<rparr>))"

definition send_fingerprint :: "('l, 't) environment \<Rightarrow> string \<Rightarrow> string \<Rightarrow> ('l accounts, unit) io" where
  "send_fingerprint env verifyKey clientVersion =
     (if SupportsModernP2P clientVersion
      then bind_io (WriteLenContent (fingerprint env)) (\<lambda>_.
           bind_io (lift_result (SecureHandshakeFingerprintProof (hashing env) verifyKey (fingerprint env))) Write)
      else return_io ())"

definition secureClientHandshakeWithDB :: "('l, 't) environment \<Rightarrow> string \<Rightarrow> ('l accounts, int) io" where
  "secureClientHandshakeWithDB env clientVersion =
     bind_io (Write SecureHandshakeMarker) (\<lambda>_.
     bind_io GetShortLenContent (\<lambda>keyID.
     bind_io (\<lambda>s. (Inr (GetClientBySecureKeyID (hashing env) (store s) keyID), s)) (\<lambda>found.
     bind_io (WriteLenContent (challenge env)) (\<lambda>_.
     bind_io GetShortLenContent (\<lambda>payload.
     bind_io (on_store (before_check env)) (\<lambda>_.
       case found of
         None \<Rightarrow> fail_io UnknownClient
       | Some (k, c) \<Rightarrow>
           bind_io (lift_result (VerifySecureHandshakeClientPayload (hashing env) (VerifyKey c) GetVersion clientVersion payload
               (challenge env) (unix_now env) (auth_time_window env))) (\<lambda>_.
           bind_io (admit_client env k c) (\<lambda>clientID.
           bind_io (lift_result (SecureHandshakeServerProof (hashing env) (VerifyKey c) payload (challenge env))) (\<lambda>serverProof.
           bind_io (Write (bytes VERIFY_SUCCESS)) (\<lambda>_.
           bind_io (Write serverProof) (\<lambda>_.
           bind_io (send_fingerprint env (VerifyKey c) clientVersion) (\<lambda>_.
           return_io clientID))))))))))))"

text \<open>The lookup of the old handshake: the clients in the order of the map, with the last reason for a refusal.\<close>

fun scan_keys :: "('l, 't) environment \<Rightarrow> 'l accounts \<Rightarrow> string \<Rightarrow> conn_error option \<Rightarrow> (int \<times> client) list \<Rightarrow> conn_error + (int \<times> client)" where
  "scan_keys env db vKey reject [] = Inl (case reject of None \<Rightarrow> NotFound | Some e \<Rightarrow> e)"
| "scan_keys env db vKey reject ((k, v) # vs) =
     (if Getverifyval (hashing env) (VerifyKey v) \<noteq> vKey then scan_keys env db vKey reject vs
      else if \<not> cStatus v then scan_keys env db vKey (Some (ClientRejected ''client disabled'')) vs
      else if \<not> IsClientActive (dates env) (local_now env) db v
        then scan_keys env db vKey (Some (ClientRejected ''client owner inactive or client expired'')) vs
      else Inr (k, v))"

definition GetIdByVerifyKey :: "('l, 't) environment \<Rightarrow> string \<Rightarrow> ('l accounts, int) io" where
  "GetIdByVerifyKey env vKey s =
     (case scan_keys env (store s) vKey None (Clients (store s)) of
        Inl e \<Rightarrow> (Inl e, s)
      | Inr (k, v) \<Rightarrow> (Inr (cId v), s\<lparr>store := set_addr (remote_addr env) k (store s)\<rparr>))"

definition authenticateClient :: "('l, 't) environment \<Rightarrow> string \<Rightarrow> ('l accounts, int) io" where
  "authenticateClient env clientVersion =
     (if UsesSecureHandshake clientVersion then secureClientHandshakeWithDB env clientVersion
      else if SupportsLegacyHandshake clientVersion then
        bind_io (Write (bytes (md5 (hashing env) GetVersion))) (\<lambda>_.
        bind_io (GetShortContent 32) (\<lambda>proof.
        bind_io (try_io (GetIdByVerifyKey env (text_of proof))) (\<lambda>r.
          case r of
            Inl e \<Rightarrow> bind_io (Write (bytes VERIFY_EER)) (\<lambda>_. fail_io e)
          | Inr i \<Rightarrow> bind_io (Write (bytes VERIFY_SUCCESS)) (\<lambda>_. return_io i))))
      else fail_io UnsupportedVersion)"

definition cliProcess :: "('l, 't) environment \<Rightarrow> ('l accounts, int \<times> string) io" where
  "cliProcess env =
     (if source_denied env then fail_io (ClientRejected ''global access control denied'')
      else bind_io (GetShortContent 3) (\<lambda>_.
        bind_io (try_io GetShortLenContent) (\<lambda>_.
        bind_io GetShortLenContent (\<lambda>vs.
        bind_io (authenticateClient env (TrimSpace (Trim (text_of vs) [CHR 0x00]))) (\<lambda>i.
        bind_io ReadFlag (\<lambda>flag. return_io (i, flag)))))))"

subsection \<open>The client\<close>

definition client_secure :: "hashes \<Rightarrow> string \<Rightarrow> u64 \<Rightarrow> ('s, byte list option) io" where
  "client_secure h vkey now =
     bind_io (WriteLenContent (SecureHandshakeKeyID h vkey)) (\<lambda>_.
     bind_io GetShortLenContent (\<lambda>challenge.
     bind_io (lift_result (SecureHandshakeClientPayload h vkey GetVersion VERSION now challenge)) (\<lambda>payload.
     bind_io (WriteLenContent payload) (\<lambda>_.
     bind_io ReadFlag (\<lambda>flag. if flag = VERIFY_EER then fail_io VerifyRejected else
     bind_io (GetShortContent 32) (\<lambda>serverProof.
     bind_io (lift_result (VerifySecureHandshakeServerProof h vkey payload challenge serverProof)) (\<lambda>_.
       if SupportsModernP2P VERSION then
         bind_io GetShortLenContent (\<lambda>fp.
         bind_io (GetShortContent 32) (\<lambda>proof.
         bind_io (lift_result (VerifySecureHandshakeFingerprintProof h vkey fp proof)) (\<lambda>_. return_io (Some fp))))
       else return_io None)))))))"

definition client_legacy :: "hashes \<Rightarrow> string \<Rightarrow> ('s, byte list option) io" where
  "client_legacy h vkey =
     bind_io (Write (bytes (Getverifyval h vkey))) (\<lambda>_.
     bind_io ReadFlag (\<lambda>flag. if flag = VERIFY_EER then fail_io VerifyRejected else return_io None))"

definition client_handshake :: "hashes \<Rightarrow> string \<Rightarrow> u64 \<Rightarrow> string \<Rightarrow> ('s, byte list option) io" where
  "client_handshake h vkey now connType =
     bind_io (Write (bytes CONN_TEST)) (\<lambda>_.
     bind_io (WriteLenContent (bytes GetVersion)) (\<lambda>_.
     bind_io (WriteLenContent (bytes VERSION)) (\<lambda>_.
     bind_io (GetShortContent 32) (\<lambda>serverHandshake.
     bind_io (if UsesSecureHandshake VERSION \<and> serverHandshake = SecureHandshakeMarker then client_secure h vkey now else client_legacy h vkey) (\<lambda>fp.
     bind_io (Write (bytes connType)) (\<lambda>_. return_io fp))))))"

subsection \<open>Time windows\<close>

text \<open>The time window is exact for all 64-bit values. The unsigned difference of two timestamps decides as their distance
  does, also where the signed difference overflows; a window of 0 accepts every timestamp, a negative one none.\<close>

theorem timestamp_window_exact:
  "timestampWithinWindow timestamp now window \<longleftrightarrow>
     sint window = 0 \<or> (0 < sint window \<and> \<bar>sint timestamp - sint now\<bar> \<le> sint window)"
proof -
  have d: "uint (a - b) = sint a - sint b" if "sint b \<le> sint a" for a b :: u64
  proof -
    have "uint (a - b) = (uint a - uint b) mod 2 ^ 64" by (simp only: uint_word_ariths) simp
    also have "\<dots> = (sint a - sint b) mod 2 ^ 64"
      by (simp only: uint_sint take_bit_eq_mod) (simp add: mod_simps)
    also have "\<dots> = sint a - sint b"
      using that sint_lt [of a] sint_ge [of b] by (intro mod_pos_pos_trivial) simp_all
    finally show ?thesis .
  qed
  have w: "uint window = sint window" if "0 \<le> sint window"
    using that sint_lt [of window] by (simp add: uint_sint take_bit_int_eq_self)
  have z: "window = 0 \<longleftrightarrow> sint window = 0" by (metis sint_0 signed_word_eqI)
  show ?thesis
    using d [of now timestamp] d [of timestamp now] w by (auto simp: timestampWithinWindow_def word_le_def z)
qed

subsection \<open>Transcripts\<close>

definition read_field :: "byte list \<Rightarrow> (byte list \<times> byte list) option" where
  "read_field r =
     (if length r < 4 then None
      else let n = be_dec (take 4 r) in if length r < 4 + n then None else Some (take n (drop 4 r), drop (4 + n) r))"

interpretation handshake_field: stream_codec writeHandshakeField read_field "\<lambda>f. length f < 2 ^ 32"
proof
  show "read_field (writeHandshakeField f @ rest) = Some (f, rest)" if "length f < 2 ^ 32" for f rest
    using that by (simp add: read_field_def writeHandshakeField_def be_dec_enc unat_of_nat Let_def)
  show "writeHandshakeField f \<noteq> []" if "length f < 2 ^ 32" for f
  proof -
    have "length (writeHandshakeField f) \<ge> 4" by (simp add: writeHandshakeField_def)
    then show ?thesis by auto
  qed
qed

lemma transcript_inject:
  "list_all (\<lambda>f. length f < 2 ^ 32) fs \<Longrightarrow> list_all (\<lambda>f. length f < 2 ^ 32) gs \<Longrightarrow> transcript fs = transcript gs \<longleftrightarrow> fs = gs"
  using handshake_field.stream_unique [of fs gs] by (auto simp: transcript_def)

text \<open>What the three proofs of the handshake authenticate.\<close>

definition client_claim :: "byte list \<Rightarrow> string \<Rightarrow> string \<Rightarrow> byte list \<Rightarrow> byte list" where
  "client_claim ts core product ch = transcript [bytes ''nps-client-handshake-v1'', ts, bytes core, bytes product, ch]"

definition server_claim :: "byte list \<Rightarrow> byte list \<Rightarrow> byte list" where
  "server_claim proof ch = transcript [bytes ''nps-server-handshake-v1'', proof, ch]"

definition fingerprint_claim :: "byte list \<Rightarrow> byte list" where
  "fingerprint_claim fp = transcript [bytes ''nps-bridge-fingerprint-v1'', fp]"



subsection \<open>A session between an honest client and the server\<close>

lemma io_run:
  "length b \<le> 32768 \<Longrightarrow> GetShortLenContent \<lparr>incoming = GetLenBytes b @ rest, written = w, store = d\<rparr> = (Inr b, \<lparr>incoming = rest, written = w, store = d\<rparr>)"
  "length b = 32 \<Longrightarrow> GetShortContent 32 \<lparr>incoming = b @ rest, written = w, store = d\<rparr> = (Inr b, \<lparr>incoming = rest, written = w, store = d\<rparr>)"
  "length b = 3 \<Longrightarrow> GetShortContent 3 \<lparr>incoming = b @ rest, written = w, store = d\<rparr> = (Inr b, \<lparr>incoming = rest, written = w, store = d\<rparr>)"
  "length f = 4 \<Longrightarrow> ReadFlag \<lparr>incoming = bytes f @ rest, written = w, store = d\<rparr> = (Inr f, \<lparr>incoming = rest, written = w, store = d\<rparr>)"
  "WriteLenContent b \<lparr>incoming = i, written = w, store = d\<rparr> = (Inr (), \<lparr>incoming = i, written = w @ GetLenBytes b, store = d\<rparr>)"
  "Write b \<lparr>incoming = i, written = w, store = d\<rparr> = (Inr (), \<lparr>incoming = i, written = w @ b, store = d\<rparr>)"
  using GetShortLenContent_record [where s = "\<lparr>incoming = [], written = w, store = d\<rparr>" and b = b and rest = rest]
    GetShortContent_append [where s = "\<lparr>incoming = [], written = w, store = d\<rparr>" and b = b and rest = rest]
    ReadFlag_append [where s = "\<lparr>incoming = [], written = w, store = d\<rparr>" and f = f and rest = rest]
  by (simp_all add: PoolSize_def WriteLenContent_def)

lemma release_facts:
  "UsesSecureHandshake VERSION" "SupportsModernP2P VERSION" "TrimSpace (Trim VERSION [CHR 0x00]) = VERSION"
  by code_simp+

lemma length_constants [simp]: "length SecureHandshakeMarker = 32" "length CONN_TEST = 3" "length VERIFY_SUCCESS = 4" "VERIFY_SUCCESS \<noteq> VERIFY_EER"
  "length GetVersion \<le> 32768" "length VERSION \<le> 32768"
  by (simp_all add: SecureHandshakeMarker_def overwrite_def CONN_TEST_def VERIFY_SUCCESS_def VERIFY_EER_def GetVersion_def VERSION_def)

lemma hash_sizes:
  assumes "hashes_ok h"
  shows "length (blake h x) = 32" "length (hmac h k y) = 32" "length (md5 h z) = 32"
  using assms by (simp_all add: hashes_ok_def)

text \<open>What each side sends.\<close>

definition payload_of :: "hashes \<Rightarrow> string \<Rightarrow> u64 \<Rightarrow> byte list \<Rightarrow> byte list" where
  "payload_of h vkey t ch = be_enc 8 (unat t) @ hmac h (bytes vkey) (client_claim (be_enc 8 (unat t)) GetVersion VERSION ch)"

definition client_sends :: "hashes \<Rightarrow> string \<Rightarrow> u64 \<Rightarrow> byte list \<Rightarrow> string \<Rightarrow> byte list" where
  "client_sends h vkey t ch connType = bytes CONN_TEST @ GetLenBytes (bytes GetVersion) @ GetLenBytes (bytes VERSION) @
     GetLenBytes (SecureHandshakeKeyID h vkey) @ GetLenBytes (payload_of h vkey t ch) @ bytes connType"

definition server_sends :: "hashes \<Rightarrow> string \<Rightarrow> u64 \<Rightarrow> byte list \<Rightarrow> byte list \<Rightarrow> byte list" where
  "server_sends h vkey t ch fp = SecureHandshakeMarker @ GetLenBytes ch @ bytes VERIFY_SUCCESS @
     hmac h (bytes vkey) (server_claim (drop 8 (payload_of h vkey t ch)) ch) @ GetLenBytes fp @ hmac h (bytes vkey) (fingerprint_claim fp)"

lemma client_run:
  assumes "hashes_ok h" "vkey \<noteq> []" "length ch = 32" "length fp = 32"
  shows "client_handshake h vkey t connType \<lparr>incoming = server_sends h vkey t ch fp @ rest, written = w, store = d\<rparr> =
    (Inr (Some fp), \<lparr>incoming = rest, written = w @ client_sends h vkey t ch connType, store = d\<rparr>)"
  using assms(2-) hash_sizes [OF assms(1)]
  by (simp add: client_handshake_def client_secure_def server_sends_def client_sends_def payload_of_def bind_io_def io_run release_facts
      lift_result_def SecureHandshakeClientPayload_def Let_def secureHandshakeClientProof_def client_claim_def
      VerifySecureHandshakeServerProof_def SecureHandshakeServerProof_def server_claim_def
      VerifySecureHandshakeFingerprintProof_def SecureHandshakeFingerprintProof_def fingerprint_claim_def)

lemma be_timestamp: "(of_nat (be_dec (be_enc 8 (unat (t :: u64)))) :: u64) = t"
  using unat_lt [of t] by (simp add: be_dec_enc)

lemma positive_timestamp: "0 \<le> sint t \<Longrightarrow> \<not> (t :: u64) > 2 ^ 63 - 1"
proof -
  assume "0 \<le> sint t"
  then have "uint t = sint t" using sint_lt [of t] by (simp add: uint_sint take_bit_int_eq_self)
  then show ?thesis using sint_lt [of t] by (simp add: word_less_def)
qed

lemma payload_verifies:
  assumes "hashes_ok h" "vkey \<noteq> []" "length ch = 32" "0 \<le> sint t" "timestampWithinWindow t now window"
  shows "VerifySecureHandshakeClientPayload h vkey GetVersion VERSION (payload_of h vkey t ch) ch now window = Inr ()"
  using assms(2-) hash_sizes [OF assms(1)] positive_timestamp [OF assms(4)]
  by (simp add: VerifySecureHandshakeClientPayload_def payload_of_def be_timestamp Let_def secureHandshakeClientProof_def client_claim_def)

definition ready_for :: "('l, 't) environment \<Rightarrow> 'l accounts \<Rightarrow> int \<Rightarrow> client \<Rightarrow> bool" where
  "ready_for env db k c \<longleftrightarrow> \<not> source_denied env \<and> hashes_ok (hashing env) \<and> length (challenge env) = 32 \<and> length (fingerprint env) = 32 \<and>
     before_check env = id \<and> after_check env = id \<and> map_of (Clients db) k = Some c \<and> VerifyKey c \<noteq> [] \<and> cStatus c"

lemma secure_run:
  assumes "ready_for env db k c" "VerifyKey c = vkey" "hashing env = h" "challenge env = ch" "fingerprint env = fp"
    and "GetClientBySecureKeyID h db (SecureHandshakeKeyID h vkey) = Some (k, c)"
    and "IsClientActiveWithExpiry (dates env) (local_now env) db (allow_time_limit env) c"
    and "0 \<le> sint t" "timestampWithinWindow t (unix_now env) (auth_time_window env)"
  shows "secureClientHandshakeWithDB env VERSION
      \<lparr>incoming = GetLenBytes (SecureHandshakeKeyID h vkey) @ GetLenBytes (payload_of h vkey t ch) @ rest, written = w, store = db\<rparr> =
    (Inr (cId c), \<lparr>incoming = rest, written = w @ server_sends h vkey t ch fp, store = set_addr (remote_addr env) k db\<rparr>)"
proof -
  have o: "hashes_ok h" "vkey \<noteq> []" "length ch = 32" "length fp = 32" "before_check env = id" "after_check env = id" "object k c db = c" "cStatus c"
    using assms(1-5) by (auto simp: ready_for_def object_def)
  have p: "length (payload_of h vkey t ch) = 40" using hash_sizes [OF o(1)] by (simp add: payload_of_def)
  have a: "admit_client env k c \<lparr>incoming = i, written = w', store = db\<rparr> =
      (Inr (cId c), \<lparr>incoming = i, written = w', store = set_addr (remote_addr env) k db\<rparr>)" for i w'
    using assms(7) o by (simp add: admit_client_def Let_def)
  show ?thesis
    using assms o p hash_sizes [OF o(1)] payload_verifies [OF o(1-3) assms(8,9)]
    by (simp add: server_sends_def bind_io_def io_run release_facts secureClientHandshakeWithDB_def on_store_def lift_result_def a
        SecureHandshakeKeyID_def SecureHandshakeServerProof_def server_claim_def send_fingerprint_def SecureHandshakeFingerprintProof_def fingerprint_claim_def)
qed

lemma server_run:
  assumes "ready_for env db k c" "VerifyKey c = vkey" "hashing env = h" "challenge env = ch" "fingerprint env = fp"
    and "GetClientBySecureKeyID h db (SecureHandshakeKeyID h vkey) = Some (k, c)"
    and "IsClientActiveWithExpiry (dates env) (local_now env) db (allow_time_limit env) c"
    and "0 \<le> sint t" "timestampWithinWindow t (unix_now env) (auth_time_window env)" "length connType = 4"
  shows "cliProcess env \<lparr>incoming = client_sends h vkey t ch connType @ rest, written = w, store = db\<rparr> =
    (Inr (cId c, connType), \<lparr>incoming = rest, written = w @ server_sends h vkey t ch fp, store = set_addr (remote_addr env) k db\<rparr>)"
proof -
  have "\<not> source_denied env" using assms(1) by (simp add: ready_for_def)
  then show ?thesis
    using assms(10) length_constants(5,6) secure_run [OF assms(1-9)]
    by (simp add: cliProcess_def client_sends_def bind_io_def io_run try_io_def release_facts authenticateClient_def)
qed


text \<open>C8 Only a valid proof is admitted. When the new handshake admits a record, the client has sent a key identifier of that
  record and a payload that consists of a timestamp within the window and the HMAC, under the record's key, of that
  timestamp, both versions and the challenge of this session; and whatever happened to the store in the meantime,
  the record still has this key, is enabled, and was active after the proof was checked.
\<close>

theorem secure_handshake_sound:
  assumes "secureClientHandshakeWithDB env clientVersion s = (Inr i, s')"
  shows "\<exists>k c keyID payload rest. incoming s = GetLenBytes keyID @ GetLenBytes payload @ rest \<and>
    (k, c) \<in> set (Clients (store s)) \<and> VerifyKey c \<noteq> [] \<and> SecureHandshakeKeyID (hashing env) (VerifyKey c) = keyID \<and>
    timestampWithinWindow (of_nat (be_dec (take 8 payload))) (unix_now env) (auth_time_window env) \<and>
    drop 8 payload = hmac (hashing env) (bytes (VerifyKey c)) (client_claim (take 8 payload) GetVersion clientVersion (challenge env)) \<and>
    (let db1 = before_check env (store s); db2 = after_check env db1 in
      IsClientActiveWithExpiry (dates env) (local_now env) db1 (allow_time_limit env) (object k c db1) \<and>
      VerifyKey (object k c db2) = VerifyKey c \<and> cStatus (object k c db2) \<and> i = cId (object k c db2))"
proof -
  obtain keyID u k c payload v v1 where
    a: "GetShortLenContent (s\<lparr>written := written s @ SecureHandshakeMarker\<rparr>) = (Inr keyID, u)"
    and f: "GetClientBySecureKeyID (hashing env) (store u) keyID = Some (k, c)"
    and b: "GetShortLenContent (u\<lparr>written := written u @ GetLenBytes (challenge env)\<rparr>) = (Inr payload, v)"
    and p: "VerifySecureHandshakeClientPayload (hashing env) (VerifyKey c) GetVersion clientVersion payload (challenge env) (unix_now env) (auth_time_window env) = Inr ()"
    and ad: "admit_client env k c (v\<lparr>store := before_check env (store v)\<rparr>) = (Inr i, v1)"
    using assms unfolding secureClientHandshakeWithDB_def bind_io_eq_Inr WriteLenContent_def
    by (auto simp: on_store_def lift_result_def bind_io_eq_Inr split: option.splits)
  note a = GetShortLenContent_Inr [OF a] and b = GetShortLenContent_Inr [OF b]
  have st: "store u = store s" "store v = store s" using a b by (metis session.select_convs(3) session.surjective session.update_convs)+
  have inc: "incoming s = GetLenBytes keyID @ GetLenBytes payload @ incoming v" using a b by simp
  have key: "(k, c) \<in> set (Clients (store s))" "VerifyKey c \<noteq> []" "SecureHandshakeKeyID (hashing env) (VerifyKey c) = keyID"
    using f st by (auto simp: GetClientBySecureKeyID_def find_Some_iff split: if_splits) (metis nth_mem)
  have proof_ok: "timestampWithinWindow (of_nat (be_dec (take 8 payload))) (unix_now env) (auth_time_window env)"
    "drop 8 payload = hmac (hashing env) (bytes (VerifyKey c)) (client_claim (take 8 payload) GetVersion clientVersion (challenge env))"
    using p by (auto simp: VerifySecureHandshakeClientPayload_def secureHandshakeClientProof_def client_claim_def Let_def split: if_splits)
  have adm: "let db1 = before_check env (store s); db2 = after_check env db1 in
      IsClientActiveWithExpiry (dates env) (local_now env) db1 (allow_time_limit env) (object k c db1) \<and>
      VerifyKey (object k c db2) = VerifyKey c \<and> cStatus (object k c db2) \<and> i = cId (object k c db2)"
    using ad st by (auto simp: admit_client_def Let_def split: if_splits)
  show ?thesis using inc key proof_ok adm by blast
qed

subsection \<open>Falling back to the old handshake\<close>

lemma legacy_release: "\<not> UsesSecureHandshake ''1.1.28''" "SupportsLegacyHandshake ''1.1.28''" "TrimSpace (Trim ''1.1.28'' [CHR 0x00]) = ''1.1.28''"
  by code_simp+

lemma legacy_server_run:
  assumes "hashes_ok (hashing env)" "\<not> source_denied env" "length flag = 4"
    and "scan_keys env db (Getverifyval (hashing env) vkey) None (Clients db) = Inr (k, c)"
  shows "cliProcess env \<lparr>incoming = bytes CONN_TEST @ GetLenBytes (bytes GetVersion) @ GetLenBytes (bytes ''1.1.28'') @
      bytes (Getverifyval (hashing env) vkey) @ bytes flag @ rest, written = w, store = db\<rparr> =
    (Inr (cId c, flag), \<lparr>incoming = rest, written = w @ bytes (md5 (hashing env) GetVersion) @ bytes VERIFY_SUCCESS, store = set_addr (remote_addr env) k db\<rparr>)"
  using assms(2-) hash_sizes [OF assms(1)]
  by (simp add: cliProcess_def bind_io_def io_run try_io_def legacy_release authenticateClient_def GetIdByVerifyKey_def Getverifyval_def)

text \<open>Any greeting downgrades a client. Whatever 32 bytes other than the marker a peer answers with, a current client sends the
  static MD5 credential of its key; and a peer that has seen this credential is admitted by the server as that client
  by claiming a release below 1.1.29, with no knowledge of the key.\<close>

theorem downgrade_reveals_credential:
  assumes "hashes_ok (hashing env)" "\<not> source_denied env" "length flag = 4"
    and "length greeting = 32" "greeting \<noteq> SecureHandshakeMarker"
    and "scan_keys env db (Getverifyval (hashing env) vkey) None (Clients db) = Inr (k, c)"
  shows "\<exists>credential prefix. length credential = 32 \<and>
    client_handshake (hashing env) vkey t connType \<lparr>incoming = greeting @ bytes VERIFY_SUCCESS @ rest, written = [], store = d\<rparr> =
      (Inr None, \<lparr>incoming = rest, written = prefix @ credential @ bytes connType, store = d\<rparr>) \<and>
    cliProcess env \<lparr>incoming = bytes CONN_TEST @ GetLenBytes (bytes GetVersion) @ GetLenBytes (bytes ''1.1.28'') @ credential @ bytes flag @ data,
        written = [], store = db\<rparr> =
      (Inr (cId c, flag), \<lparr>incoming = data, written = bytes (md5 (hashing env) GetVersion) @ bytes VERIFY_SUCCESS, store = set_addr (remote_addr env) k db\<rparr>)"
proof -
  define credential where "credential = bytes (Getverifyval (hashing env) vkey)"
  define prefix where "prefix = bytes CONN_TEST @ GetLenBytes (bytes GetVersion) @ GetLenBytes (bytes VERSION)"
  have "length credential = 32" using hash_sizes [OF assms(1)] by (simp add: credential_def Getverifyval_def)
  moreover have "client_handshake (hashing env) vkey t connType \<lparr>incoming = greeting @ bytes VERIFY_SUCCESS @ rest, written = [], store = d\<rparr> =
      (Inr None, \<lparr>incoming = rest, written = prefix @ credential @ bytes connType, store = d\<rparr>)"
    using assms(4,5) by (simp add: client_handshake_def client_legacy_def bind_io_def io_run release_facts credential_def prefix_def)
  ultimately show ?thesis
    using legacy_server_run [OF assms(1-3,6), of data "[]"] unfolding credential_def [symmetric] by auto
qed

subsection \<open>A concrete instance\<close>

definition sample_hashes :: hashes where
  "sample_hashes = \<lparr>blake = (\<lambda>x. take 32 (x @ replicate 32 0)), hmac = (\<lambda>k x. take 32 (k @ rev x @ replicate 32 0)),
     md5 = (\<lambda>x. take 32 (x @ replicate 32 (CHR ''0'')))\<rparr>"

definition sample_environment :: "(unit, bool) environment" where
  "sample_environment = \<lparr>hashing = sample_hashes, dates = sample_library, unix_now = 1800000000, local_now = 1800000000000000000,
     auth_time_window = 300, allow_time_limit = True, challenge = replicate 32 9, fingerprint = replicate 32 5, source_denied = False,
     remote_addr = ''192.0.2.1:4000'', before_check = id, after_check = id\<rparr>"

definition sample_record :: client where
  "sample_record = sample_client\<lparr>cId := 1\<rparr>"

lemma sample_hashes_ok: "hashes_ok sample_hashes"
  by (auto simp: hashes_ok_def sample_hashes_def min_def)

lemma sample_ready: "ready_for sample_environment sample_store 1 sample_record"
proof -
  have "map_of (Clients sample_store) 1 = Some sample_record" by code_simp
  then show ?thesis
    using sample_hashes_ok by (simp add: ready_for_def sample_environment_def sample_record_def sample_client_def)
qed

lemma sample_found:
  "GetClientBySecureKeyID (hashing sample_environment) sample_store (SecureHandshakeKeyID (hashing sample_environment) (VerifyKey sample_record)) = Some (1, sample_record)"
  "IsClientActiveWithExpiry (dates sample_environment) (local_now sample_environment) sample_store (allow_time_limit sample_environment) sample_record"
  "scan_keys sample_environment sample_store (Getverifyval (hashing sample_environment) ''k1'') None (Clients sample_store) = Inr (1, sample_record)"
  by code_simp+


lemma secure_handshake_sound_witness:
  "\<exists>k c keyID payload rest. (k, c) \<in> set (Clients sample_store) \<and> SecureHandshakeKeyID sample_hashes (VerifyKey c) = keyID \<and>
     GetLenBytes (SecureHandshakeKeyID sample_hashes ''k1'') @ GetLenBytes (payload_of sample_hashes ''k1'' 1800000100 (replicate 32 9)) =
       GetLenBytes keyID @ GetLenBytes payload @ rest \<and>
     drop 8 payload = hmac sample_hashes (bytes (VerifyKey c)) (client_claim (take 8 payload) GetVersion VERSION (replicate 32 9))"
proof -
  let ?s = "\<lparr>incoming = GetLenBytes (SecureHandshakeKeyID sample_hashes ''k1'') @ GetLenBytes (payload_of sample_hashes ''k1'' 1800000100 (replicate 32 9)),
       written = [], store = sample_store\<rparr>"
  have v: "VerifyKey sample_record = ''k1''" "hashing sample_environment = sample_hashes" "challenge sample_environment = replicate 32 9"
    by (simp_all add: sample_record_def sample_client_def sample_environment_def)
  have t: "timestampWithinWindow 1800000100 (unix_now sample_environment) (auth_time_window sample_environment)"
    by (simp add: timestamp_window_exact sample_environment_def)
  obtain s' where "secureClientHandshakeWithDB sample_environment VERSION ?s = (Inr (cId sample_record), s')"
    using secure_run [OF sample_ready v refl sample_found(1) [unfolded v] sample_found(2) _ t, of "[]" "[]"] by auto
  from secure_handshake_sound [OF this, unfolded v] show ?thesis unfolding session.select_convs by blast
qed

lemma downgrade_reveals_credential_witness:
  "\<exists>credential prefix.
    client_handshake sample_hashes ''k1'' 0 ''main'' \<lparr>incoming = replicate 32 0 @ bytes VERIFY_SUCCESS, written = [], store = ()\<rparr> =
      (Inr None, \<lparr>incoming = [], written = prefix @ credential @ bytes ''main'', store = ()\<rparr>) \<and>
    cliProcess sample_environment \<lparr>incoming = bytes CONN_TEST @ GetLenBytes (bytes GetVersion) @ GetLenBytes (bytes ''1.1.28'') @ credential @ bytes ''main'',
        written = [], store = sample_store\<rparr> =
      (Inr (1, ''main''), \<lparr>incoming = [], written = bytes (md5 sample_hashes GetVersion) @ bytes VERIFY_SUCCESS, store = set_addr ''192.0.2.1:4000'' 1 sample_store\<rparr>)"
proof -
  have "replicate 32 0 \<noteq> SecureHandshakeMarker" by code_simp
  then show ?thesis
    using downgrade_reveals_credential [where env = sample_environment and flag = "''main''" and greeting = "replicate 32 0" and db = sample_store
        and vkey = "''k1''" and k = 1 and c = sample_record and t = 0 and connType = "''main''" and rest = "[]" and d = "()" and data = "[]"]
      sample_found(3) sample_hashes_ok
    by (auto simp: sample_environment_def sample_record_def sample_client_def)
qed

end
