(* ===== verification/Socks_Datagram.thy ===== *)
theory Socks_Datagram
  imports Host_Rules Wire_Conn
begin

text \<open>
  SOCKS5 addresses and UDP datagrams on the wire (\<open>lib/common/netpackager.go\<close>, \<open>readSOCKS5Address\<close> of
  \<open>server/proxy/socks5_udp_registry.go\<close>).

  \<^item> Operations that index or slice return an option: \<open>None\<close> is a run-time panic. An error of the code is a value.
  \<^item> The writer uses a pooled buffer of \<open>PoolSizeUdp\<close> bytes.
  \<^item> A reader of one datagram is the list of its bytes.
\<close>

record sockaddr =
  atype :: u8
  ahost :: string
  aport :: u16

record udp_header =
  Rsv :: u16
  Frag :: u8
  Addr :: "sockaddr option"

record udp_datagram =
  Header :: "udp_header option"
  Data :: "byte list"

datatype datagram_error = DecodeError | AddrNotSupported | InvalidDataLength | DatagramRead io_err

definition ipV4 :: u8 where "ipV4 = 1"
definition domainName :: u8 where "domainName = 3"
definition ipV6 :: u8 where "ipV6 = 4"
definition PoolSizeUdp :: nat where "PoolSizeUdp = 1672"

subsection \<open>Addresses of package net\<close>

definition net_IP_String :: "addr \<Rightarrow> string" where "net_IP_String a = addr_String (Unmap a)"

fun To4 :: "addr option \<Rightarrow> byte list option" where
  "To4 (Some a) = (case Unmap a of IP4 w \<Rightarrow> Some (be_enc 4 (unat w)) | _ \<Rightarrow> None)"
| "To4 None = None"

fun To16 :: "addr option \<Rightarrow> byte list option" where
  "To16 (Some (IP4 w)) = Some (replicate 10 0 @ [0xFF, 0xFF] @ be_enc 4 (unat w))"
| "To16 (Some (IP6 w z)) = Some (be_enc 16 (unat w))"
| "To16 _ = None"

subsection \<open>Encoding and decoding\<close>

definition be_u16 :: "byte list \<Rightarrow> u16 option" where
  "be_u16 b = (if length b < 2 then None else Some (of_nat (be_dec (take 2 b))))"

text \<open>The part of \<open>Decode\<close> behind the host, which ends at \<open>pos\<close>.\<close>

definition decode_port :: "u8 \<Rightarrow> string \<Rightarrow> nat \<Rightarrow> byte list \<Rightarrow> (datagram_error + sockaddr) option" where
  "decode_port t host pos b = map_option (\<lambda>p. Inr \<lparr>atype = t, ahost = host, aport = p\<rparr>) (be_u16 (drop pos b))"

definition Addr_Decode :: "byte list \<Rightarrow> (datagram_error + sockaddr) option" where
  "Addr_Decode b =
     (if b = [] then None
      else let t = hd b in
        if t = ipV4 then (if length b < 5 then None else decode_port t (net_IP_String (AddrFromSlice (take 4 (drop 1 b)))) 5 b)
        else if t = ipV6 then (if length b < 17 then None else decode_port t (net_IP_String (AddrFromSlice (take 16 (drop 1 b)))) 17 b)
        else if t = domainName then
          (if length b < 2 then None
           else let n = unat (b ! 1) in if length b < 2 + n then None else decode_port t (text_of (take n (drop 2 b))) (2 + n) b)
        else Some (Inl DecodeError))"

text \<open>\<open>Encode\<close> into a buffer of \<open>n\<close> bytes: the bytes it has written.\<close>

definition Addr_Encode :: "nat \<Rightarrow> sockaddr \<Rightarrow> byte list option" where
  "Addr_Encode n a =
     (let head = (if atype a = ipV4 then ipV4 # (case To4 (net_ParseIP (ahost a)) of None \<Rightarrow> [0, 0, 0, 0] | Some b \<Rightarrow> b)
          else if atype a = domainName then [domainName, of_nat (length (ahost a))] @ take (n - 2) (bytes (ahost a))
          else if atype a = ipV6 then ipV6 # (case To16 (net_ParseIP (ahost a)) of None \<Rightarrow> replicate 16 0 | Some b \<Rightarrow> b)
          else [ipV4, 0, 0, 0, 0])
      in if length head + 2 > n then None else Some (head @ be_enc 2 (unat (aport a))))"

definition UDPHeader_Write :: "udp_header \<Rightarrow> byte list option" where
  "UDPHeader_Write h =
     map_option (\<lambda>b. be_enc 2 (unat (Rsv h)) @ [Frag h] @ b)
       (Addr_Encode (PoolSizeUdp - 3) (case Addr h of None \<Rightarrow> \<lparr>atype = 0, ahost = [], aport = 0\<rparr> | Some a \<Rightarrow> a))"

definition UDPDatagram_Write :: "udp_datagram \<Rightarrow> byte list option" where
  "UDPDatagram_Write d =
     map_option (\<lambda>b. b @ Data d) (UDPHeader_Write (case Header d of None \<Rightarrow> \<lparr>Rsv = 0, Frag = 0, Addr = None\<rparr> | Some h \<Rightarrow> h))"

definition header_length :: "u8 \<Rightarrow> u8 \<Rightarrow> nat option" where
  "header_length t first = (if t = ipV4 then Some 10 else if t = ipV6 then Some 22 else if t = domainName then Some (7 + unat first) else None)"

text \<open>The bytes behind the first five, delimited by the reserved length field when it is not 0, and the rest of the function.\<close>

definition datagram_rest :: "nat \<Rightarrow> nat \<Rightarrow> byte list \<Rightarrow> datagram_error + byte list" where
  "datagram_rest hlen dlen r =
     (if dlen = 0 then Inr r
      else if hlen + dlen < 5 then Inl InvalidDataLength
      else case read_full (hlen + dlen - 5) r of (_, _, Some e) \<Rightarrow> Inl (DatagramRead e) | (extra, _, None) \<Rightarrow> Inr extra)"

definition parse_datagram :: "u16 \<Rightarrow> nat \<Rightarrow> byte list \<Rightarrow> (datagram_error + udp_datagram) option" where
  "parse_datagram rsv hlen raw =
     (if length raw < hlen then Some (Inl (DatagramRead ErrUnexpectedEOF))
      else case Addr_Decode (take (hlen - 3) (drop 3 raw)) of
             None \<Rightarrow> None
           | Some (Inl e) \<Rightarrow> Some (Inl e)
           | Some (Inr a) \<Rightarrow> Some (Inr \<lparr>Header = Some \<lparr>Rsv = rsv, Frag = raw ! 2, Addr = Some a\<rparr>, Data = drop hlen raw\<rparr>))"

definition ReadUDPDatagram :: "byte list \<Rightarrow> (datagram_error + udp_datagram) option" where
  "ReadUDPDatagram r =
     (case read_full 5 r of
        (_, _, Some e) \<Rightarrow> Some (Inl (DatagramRead e))
      | (pre, rest, None) \<Rightarrow>
          let rsv = of_nat (be_dec (take 2 pre)) :: u16 in
          (case header_length (pre ! 3) (pre ! 4) of
             None \<Rightarrow> Some (Inl AddrNotSupported)
           | Some hlen \<Rightarrow>
               (case datagram_rest hlen (unat rsv) rest of
                  Inl e \<Rightarrow> Some (Inl e)
                | Inr extra \<Rightarrow> parse_datagram rsv hlen (pre @ extra))))"

definition ToSocksAddr :: "string option \<Rightarrow> sockaddr" where
  "ToSocksAddr addr =
     (case addr of
        None \<Rightarrow> \<lparr>atype = ipV4, ahost = ''0.0.0.0'', aport = 0\<rparr>
      | Some text \<Rightarrow>
          (let (h, p) = (case SplitHostPort text of None \<Rightarrow> ([], []) | Some hp \<Rightarrow> hp)
           in \<lparr>atype = ipV4, ahost = h, aport = word_of_int (case Atoi p of None \<Rightarrow> 0 | Some n \<Rightarrow> n)\<rparr>))"

text \<open>The address of a SOCKS5 request, read from a stream: the IP if there is one, and the port.\<close>

definition readSOCKS5Address :: "byte list \<Rightarrow> (datagram_error + addr option \<times> u16) \<times> byte list" where
  "readSOCKS5Address r =
     (case read_full 1 r of
        (_, r1, Some e) \<Rightarrow> (Inl (DatagramRead e), r1)
      | (t, r1, None) \<Rightarrow>
          let finish = (\<lambda>host r2. case read_full 2 r2 of
                (_, r3, Some e) \<Rightarrow> (Inl (DatagramRead e), r3)
              | (p, r3, None) \<Rightarrow> (Inr (net_ParseIP host, of_nat (be_dec p)), r3))
          in if hd t = ipV4 then
               (case read_full 4 r1 of (_, r2, Some e) \<Rightarrow> (Inl (DatagramRead e), r2) | (b, r2, None) \<Rightarrow> finish (net_IP_String (AddrFromSlice b)) r2)
             else if hd t = ipV6 then
               (case read_full 16 r1 of (_, r2, Some e) \<Rightarrow> (Inl (DatagramRead e), r2) | (b, r2, None) \<Rightarrow> finish (net_IP_String (AddrFromSlice b)) r2)
             else if hd t = domainName then
               (case read_full 1 r1 of
                  (_, r2, Some e) \<Rightarrow> (Inl (DatagramRead e), r2)
                | (n, r2, None) \<Rightarrow>
                    (case read_full (unat (hd n)) r2 of (_, r3, Some e) \<Rightarrow> (Inl (DatagramRead e), r3) | (b, r3, None) \<Rightarrow> finish (text_of b) r3))
             else (Inl AddrNotSupported, r1))"

subsection \<open>No datagram crashes the reader\<close>

lemma Addr_Decode_total:
  assumes "header_length (b ! 0) (b ! 1) = Some hlen" "length b = hlen - 3"
  shows "\<exists>a. Addr_Decode b = Some (Inr a)"
proof -
  have "b \<noteq> []" using assms by (auto simp: header_length_def split: if_splits)
  then have h: "hd b = b ! 0" by (simp add: hd_conv_nth)
  show ?thesis
    using assms \<open>b \<noteq> []\<close> unfolding Addr_Decode_def Let_def h
    by (auto simp: header_length_def decode_port_def be_u16_def ipV4_def ipV6_def domainName_def split: if_splits)
qed

text \<open>No datagram crashes the reader. For every sequence of bytes, \<open>ReadUDPDatagram\<close> returns an error or a datagram without indexing or
  slicing out of range, and a datagram it returns carries at most the bytes it was given.\<close>

theorem datagram_reader_total:
  "\<exists>x. ReadUDPDatagram r = Some x \<and> (case x of Inl e \<Rightarrow> True | Inr d \<Rightarrow> length (Data d) + 7 \<le> length r)"
proof (cases "length r < 5")
  case True
  then show ?thesis by (simp add: ReadUDPDatagram_def read_full_short)
next
  case False
  define pre where "pre = take 5 r"
  define rest where "rest = drop 5 r"
  have pre: "length pre = 5" "length r = 5 + length rest" "read_full 5 r = (pre, rest, None)" using False by (auto simp: pre_def rest_def read_full_def)
  define rsv where "rsv = (of_nat (be_dec (take 2 pre)) :: u16)"
  show ?thesis
  proof (cases "header_length (pre ! 3) (pre ! 4)")
    case None
    then show ?thesis by (simp add: ReadUDPDatagram_def pre(3) Let_def)
  next
    case (Some hlen)
    have h7: "7 \<le> hlen" using Some by (auto simp: header_length_def split: if_splits)
    show ?thesis
    proof (cases "datagram_rest hlen (unat rsv) rest")
      case (Inl e)
      then show ?thesis by (simp add: ReadUDPDatagram_def pre(3) Let_def Some rsv_def)
    next
      case (Inr extra)
      have eq: "ReadUDPDatagram r = parse_datagram rsv hlen (pre @ extra)"
        using Inr by (simp add: ReadUDPDatagram_def pre(3) Let_def Some rsv_def)
      have le: "length extra \<le> length rest"
        using Inr by (auto simp: datagram_rest_def read_full_def split: if_splits)
      show ?thesis
      proof (cases "length (pre @ extra) < hlen")
        case True
        then show ?thesis by (simp add: eq parse_datagram_def)
      next
        case False
        let ?b = "take (hlen - 3) (drop 3 (pre @ extra))"
        have b: "length ?b = hlen - 3" "?b ! 0 = pre ! 3" "?b ! 1 = pre ! 4" using False h7 pre(1) by (auto simp: nth_append)
        obtain a where a: "Addr_Decode ?b = Some (Inr a)" using Addr_Decode_total [of ?b hlen] b Some by auto
        have n: "\<not> length (pre @ extra) < hlen" using False .
        show ?thesis unfolding eq parse_datagram_def a using n le pre(1,2) h7 by auto
      qed
    qed
  qed
qed

subsection \<open>Texts of IPv4 addresses\<close>

lemma octet_texts: "list_all (\<lambda>n. ipv4_field (dec_string n) = Some n \<and> list_all is_digit (dec_string n)) [0..255]"
  by code_simp

lemma octet_text:
  assumes "0 \<le> n" "n < 256"
  shows "ipv4_field (dec_string n) = Some n" "list_all is_digit (dec_string n)"
  using octet_texts assms by (auto simp: list_all_iff)

lemma base_256: "b = 256 * a + y \<Longrightarrow> c = 256 * b + z \<Longrightarrow> u = 256 * c + t \<Longrightarrow> (((0 * 256 + a) * 256 + y) * 256 + z) * 256 + t = (u :: int)"
  by simp

lemma octets:
  fixes u :: int
  assumes "0 \<le> u" "u < 2 ^ 32"
  shows "from_bytes [u div 2 ^ 24 mod 256, u div 2 ^ 16 mod 256, u div 2 ^ 8 mod 256, u mod 256] = u"
proof -
  have a: "u div 2 ^ 24 mod 256 = u div 2 ^ 24"
    using assms by (intro mod_pos_pos_trivial) (auto simp: pos_imp_zdiv_nonneg_iff div_less_iff_less_mult)
  have b: "u div 2 ^ 16 = 256 * (u div 2 ^ 24) + u div 2 ^ 16 mod 256" and c: "u div 2 ^ 8 = 256 * (u div 2 ^ 16) + u div 2 ^ 8 mod 256"
    using zdiv_zmult2_eq [of 256 u "2 ^ 16"] zdiv_zmult2_eq [of 256 u "2 ^ 8"] by simp_all
  have "u = 256 * (u div 2 ^ 8) + u mod 256" by simp
  from base_256 [OF b c this] show ?thesis unfolding from_bytes_def foldl.simps a .
qed

lemma v4_string_octets:
  "v4_string w = Join (map dec_string [uint w div 2 ^ 24 mod 256, uint w div 2 ^ 16 mod 256, uint w div 2 ^ 8 mod 256, uint w mod 256]) ''.''"
  by (simp add: v4_string_def upt_rec drop_bit_eq_div uint_div)

lemma digit_chars: "is_digit c \<Longrightarrow> c \<noteq> CHR ''.'' \<and> c \<noteq> CHR '':'' \<and> c \<noteq> CHR ''%''"
  unfolding is_digit_def by (auto simp: less_eq_char_def)

lemma ParseAddr_v4: "ParseAddr (v4_string w) = Some (IP4 w)"
proof -
  define os where "os = [uint w div 2 ^ 24 mod 256, uint w div 2 ^ 16 mod 256, uint w div 2 ^ 8 mod 256, uint w mod 256]"
  have o: "list_all (\<lambda>n. 0 \<le> n \<and> n < 256) os" by (simp add: os_def)
  then have f: "map ipv4_field (map dec_string os) = map Some os" "list_all (\<lambda>f. list_all is_digit f) (map dec_string os)"
    by (simp_all add: octet_text os_def)
  have "list_all (\<lambda>f. CHR ''.'' \<notin> set f) (map dec_string os)" using f(2) digit_chars by (auto simp: list_all_iff)
  then have sp: "Split (v4_string w) (CHR ''.'') = map dec_string os"
    using Split_Join [of "map dec_string os" "CHR ''.''"] by (simp add: v4_string_octets os_def)
  have b: "from_bytes os = uint w" unfolding os_def by (intro octets) (use uint_lt2p [of w] in simp_all)
  have "parseIPv4Fields (v4_string w) = Some os"
    unfolding parseIPv4Fields_def sp f(1) Let_def by (simp add: os_def)
  then have p: "parseIPv4 (v4_string w) = Some (IP4 w)" by (simp add: parseIPv4_def b)
  have scan: "ParseAddr_scan s (d @ CHR ''.'' # r) = parseIPv4 s" if "list_all is_digit d" for s d r
    using that digit_chars by (induction d) auto
  obtain r where "v4_string w = dec_string (uint w div 2 ^ 24 mod 256) @ CHR ''.'' # r" by (simp add: v4_string_octets)
  then show ?thesis using p scan [of "dec_string (uint w div 2 ^ 24 mod 256)"] octet_text(2) [of "uint w div 2 ^ 24 mod 256"]
    by (simp add: ParseAddr_def)
qed

lemma AddrFromSlice_be: "AddrFromSlice (be_enc 4 (unat w)) = IP4 w"
proof -
  have e: "be_enc 4 x = map of_nat [x div 2 ^ 24 mod 256, x div 2 ^ 16 mod 256, x div 2 ^ 8 mod 256, x mod 256]" for x
  proof -
    have "(4 :: nat) = Suc (Suc (Suc (Suc 0)))" by simp
    then have "le_enc 4 x = map of_nat [x mod 256, x div 256 mod 256, x div 256 div 256 mod 256, x div 256 div 256 div 256 mod 256]"
      by (simp only: le_enc.simps list.map)
    moreover have "x div 256 div 256 = x div 2 ^ 16" "x div 256 div 256 div 256 = x div 2 ^ 24" "x div 256 = x div 2 ^ 8"
      using div_mult2_eq [of x 256 256] div_mult2_eq [of x "256 * 256" 256] by simp_all
    ultimately show ?thesis unfolding be_enc_def by (simp only: rev.simps list.map append.simps)
  qed
  have "map uint (be_enc 4 (unat w)) = [uint w div 2 ^ 24 mod 256, uint w div 2 ^ 16 mod 256, uint w div 2 ^ 8 mod 256, uint w mod 256]"
  proof -
    have u: "uint (of_nat (n mod 256) :: byte) = int (n mod 256)" for n by (simp only: uint_nat unat_of_nat_byte)
    have i: "int (unat w div 2 ^ m mod 256) = uint w div 2 ^ m mod 256" "int (unat w mod 256) = uint w mod 256" for m
      by (simp_all add: zmod_int zdiv_int)
    show ?thesis unfolding e list.map u i ..
  qed
  moreover have "uint w < 2 ^ 32" using uint_lt2p [of w] by simp
  ultimately have "from_bytes (map uint (be_enc 4 (unat w))) = uint w" by (simp only: octets uint_ge_0)
  then show ?thesis by (simp add: AddrFromSlice_def)
qed

subsection \<open>Round trip\<close>

text \<open>Addresses that the encoding represents: IPv4 addresses in their usual text, and names of at most 255 bytes.\<close>

definition representable :: "sockaddr \<Rightarrow> bool" where
  "representable a \<longleftrightarrow> (atype a = ipV4 \<and> (\<exists>w. ahost a = v4_string w)) \<or> (atype a = domainName \<and> length (ahost a) \<le> 255)"

lemma be_u16_enc: "be_u16 (be_enc 2 (unat p) @ r) = Some p"
  using unat_lt [of p] by (simp add: be_u16_def be_dec_enc)

lemma net_ParseIP_v4: "net_ParseIP (v4_string w) = Some (IP4 w)"
  by (simp add: net_ParseIP_def ParseAddr_v4)

lemma encode_representable:
  assumes "representable a" "300 \<le> n"
  shows "\<exists>b t c. Addr_Encode n a = Some b \<and> b = t # c \<and> 3 \<le> length b \<and> header_length t (hd c) = Some (3 + length b) \<and> Addr_Decode b = Some (Inr a)"
  using assms(1) unfolding representable_def
proof (elim disjE conjE exE)
  fix w
  assume a: "atype a = ipV4" "ahost a = v4_string w"
  let ?b = "ipV4 # be_enc 4 (unat w) @ be_enc 2 (unat (aport a))"
  have "Addr_Encode n a = Some ?b" using a assms(2) by (simp add: Addr_Encode_def net_ParseIP_v4)
  moreover have "Addr_Decode ?b = Some (Inr a)"
    using a by (simp add: Addr_Decode_def decode_port_def AddrFromSlice_be net_IP_String_def be_u16_enc [where r = "[]", simplified])
  moreover have "header_length ipV4 (hd (be_enc 4 (unat w) @ be_enc 2 (unat (aport a)))) = Some (3 + length ?b)" by (simp add: header_length_def)
  ultimately show ?thesis by (intro exI [of _ ?b] exI [of _ ipV4] exI [of _ "be_enc 4 (unat w) @ be_enc 2 (unat (aport a))"]) simp
next
  assume a: "atype a = domainName" "length (ahost a) \<le> 255"
  let ?c = "of_nat (length (ahost a)) # bytes (ahost a) @ be_enc 2 (unat (aport a))"
  have u: "unat (of_nat (length (ahost a)) :: byte) = length (ahost a)" using a(2) by (simp add: unat_of_nat)
  have d: "domainName \<noteq> ipV4" "domainName \<noteq> ipV6" by (simp_all add: domainName_def ipV4_def ipV6_def)
  have "Addr_Encode n a = Some (domainName # ?c)" using a d assms(2) by (simp add: Addr_Encode_def Let_def)
  moreover have "Addr_Decode (domainName # ?c) = Some (Inr a)"
    using a d by (simp add: Addr_Decode_def decode_port_def u be_u16_enc [where r = "[]", simplified] Let_def)
  moreover have "header_length domainName (hd ?c) = Some (3 + length (domainName # ?c))" using d by (simp add: header_length_def u)
  ultimately show ?thesis by (intro exI [of _ "domainName # ?c"] exI [of _ domainName] exI [of _ ?c]) simp
qed

text \<open>Datagrams survive the wire. A datagram with an IPv4 address or a name, written by \<open>UDPDatagram.Write\<close>, is read back by
  \<open>ReadUDPDatagram\<close> with the same header and payload.\<close>

theorem datagram_roundtrip:
  assumes "representable a" "d = \<lparr>Header = Some \<lparr>Rsv = 0, Frag = f, Addr = Some a\<rparr>, Data = x\<rparr>"
  shows "\<exists>b. UDPDatagram_Write d = Some b \<and> ReadUDPDatagram b = Some (Inr d)"
proof -
  obtain b t c where e: "Addr_Encode (PoolSizeUdp - 3) a = Some b" "b = t # c" "3 \<le> length b"
    and h: "header_length t (hd c) = Some (3 + length b)" and dec: "Addr_Decode b = Some (Inr a)"
    using encode_representable [OF assms(1), of "PoolSizeUdp - 3"] by (auto simp: PoolSizeUdp_def)
  define raw where "raw = [0, 0, f] @ b @ x"
  have z: "be_enc 2 0 = [0, 0]" by code_simp
  have w: "UDPDatagram_Write d = Some raw"
    using e(1) assms(2) by (simp add: UDPDatagram_Write_def UDPHeader_Write_def raw_def z)
  obtain c1 c' where c: "c = c1 # c'" using e(2,3) by (cases c) auto
  have pre: "read_full 5 raw = ([0, 0, f, t, c1], c' @ x, None)" by (simp add: read_full_def raw_def e(2) c)
  have "be_dec [0, 0] = 0" by code_simp
  then have r: "ReadUDPDatagram raw = parse_datagram 0 (3 + length b) raw"
    using h c e(2) unfolding ReadUDPDatagram_def pre by (simp add: Let_def datagram_rest_def raw_def)
  have "drop (3 + length b) raw = x" by (simp add: raw_def numeral_3_eq_3)
  then have "parse_datagram 0 (3 + length b) raw = Some (Inr d)" using dec assms(2) by (simp add: parse_datagram_def raw_def)
  then show ?thesis using w r by simp
qed

lemma datagram_roundtrip_witness:
  "\<exists>b. UDPDatagram_Write \<lparr>Header = Some \<lparr>Rsv = 0, Frag = 0, Addr = Some \<lparr>atype = domainName, ahost = ''example.com'', aport = 53\<rparr>\<rparr>, Data = [1, 2, 3]\<rparr> = Some b \<and>
     ReadUDPDatagram b = Some (Inr \<lparr>Header = Some \<lparr>Rsv = 0, Frag = 0, Addr = Some \<lparr>atype = domainName, ahost = ''example.com'', aport = 53\<rparr>\<rparr>, Data = [1, 2, 3]\<rparr>)"
  by (rule datagram_roundtrip [OF _ refl]) (simp add: representable_def)

text \<open>Replies from IPv6 hosts lose their address. \<open>ToSocksAddr\<close> marks every address as IPv4, so that the header of a reply from
  an IPv6 address that is no IPv4-mapped one names the address 0.0.0.0.\<close>

theorem ipv6_reply_address_is_zero:
  assumes "SplitHostPort text = Some (h, p)" "net_ParseIP h = Some (IP6 w [])" "Unmap (IP6 w []) = IP6 w []"
  shows "\<exists>q. UDPHeader_Write \<lparr>Rsv = 0, Frag = 0, Addr = Some (ToSocksAddr (Some text))\<rparr> = Some ([0, 0, 0, ipV4, 0, 0, 0, 0] @ q) \<and> length q = 2"
proof -
  have z: "be_enc 2 0 = [0, 0]" by code_simp
  show ?thesis using assms
    by (simp add: UDPHeader_Write_def Addr_Encode_def ToSocksAddr_def PoolSizeUdp_def z del: Unmap.simps)
qed

lemma ipv6_reply_address_is_zero_witness:
  "\<exists>q. UDPHeader_Write \<lparr>Rsv = 0, Frag = 0, Addr = Some (ToSocksAddr (Some ''[2001:db8::1]:53''))\<rparr> = Some ([0, 0, 0, ipV4, 0, 0, 0, 0] @ q) \<and> length q = 2"
proof -
  have a: "SplitHostPort ''[2001:db8::1]:53'' = Some (''2001:db8::1'', ''53'')" by code_simp
  have "case net_ParseIP ''2001:db8::1'' of Some (IP6 w z) \<Rightarrow> z = [] \<and> Unmap (IP6 w z) = IP6 w z | _ \<Rightarrow> False" by code_simp
  then obtain w where "net_ParseIP ''2001:db8::1'' = Some (IP6 w [])" "Unmap (IP6 w []) = IP6 w []"
    by (auto split: option.splits addr.splits)
  from ipv6_reply_address_is_zero [OF a this] show ?thesis .
qed

end
