(* ===== verification/Socks_Udp.thy ===== *)
theory Socks_Udp
  imports Socks_Datagram
begin

text \<open>
  The shared port of SOCKS5 UDP associates (\<open>server/proxy/socks5_udp_registry.go\<close>).

  \<^item> A session is an object with an identity; \<open>obj\<close> is the heap. The four maps of the registry are partial functions;
    a list stands for a set or slice of sessions. Every operation runs under the mutex of the registry or of a session.
  \<^item> A UDP address is its text (\<open>UDPAddr.String\<close>) and its port: the code derives everything else from the text.
  \<^item> The tunnel to the agent, the access lists and the clock are arguments or observations: \<open>tunnel\<close> collects what is
    written to the agent, \<open>outbox\<close> what is sent to clients, \<open>slots\<close> counts the connection slots held by associates.
  \<^item> \<open>newSession\<close> is one step: the slot is reserved, the tunnel opened, the session registered and the reply sent.
\<close>

record udp_addr =
  utext :: string
  uport :: int

record usession =
  clientIPKey :: string
  requestedPort :: int
  packetCh :: "byte list list"
  closed :: bool
  lastActive :: int
  boundAddr :: "udp_addr option"
  boundKey :: string
  tunnel :: "byte list list"

record udp_registry =
  obj :: "nat \<Rightarrow> usession"
  fresh :: nat
  sessions :: "nat list"
  sessionsByAddr :: "string \<Rightarrow> nat option"
  sessionsByIP :: "string \<Rightarrow> nat list option"
  pendingByIP :: "string \<Rightarrow> nat list option"
  slots :: int
  outbox :: "(nat \<times> udp_addr \<times> byte list) list"

definition socks5UDPQueueSize :: nat where "socks5UDPQueueSize = 1024"
definition socks5UDPAssociateIdleTimeout :: int where "socks5UDPAssociateIdleTimeout = 180000000000"

text \<open>Reading a missing entry of a Go map of slices or maps.\<close>

definition entry :: "(string \<Rightarrow> nat list option) \<Rightarrow> string \<Rightarrow> nat list" where
  "entry m k = (case m k of None \<Rightarrow> [] | Some l \<Rightarrow> l)"

definition normalizeSocks5UDPIP :: "string \<Rightarrow> string" where
  "normalizeSocks5UDPIP text =
     (let host = (case SplitHostPort text of None \<Rightarrow> text | Some (h, _) \<Rightarrow> h)
      in case net_ParseIP (TrimSpace host) of None \<Rightarrow> [] | Some ip \<Rightarrow> net_IP_String ip)"

definition removeSocks5UDPPending :: "nat list \<Rightarrow> nat \<Rightarrow> nat list" where
  "removeSocks5UDPPending l target = filter (\<lambda>i. i \<noteq> target) l"

definition on_obj :: "nat \<Rightarrow> (usession \<Rightarrow> usession) \<Rightarrow> udp_registry \<Rightarrow> udp_registry" where
  "on_obj i f r = r\<lparr>obj := (obj r)(i := f (obj r i))\<rparr>"

definition touch :: "int \<Rightarrow> usession \<Rightarrow> usession" where "touch now s = s\<lparr>lastActive := now\<rparr>"

definition idleFor :: "int \<Rightarrow> usession \<Rightarrow> int" where
  "idleFor now s = (if lastActive s = 0 then 0 else now - lastActive s)"

definition bindClientAddr :: "udp_addr \<Rightarrow> usession \<Rightarrow> usession" where
  "bindClientAddr a s = s\<lparr>boundAddr := Some a, boundKey := utext a\<rparr>"

definition matchesRequestedPort :: "int \<Rightarrow> usession \<Rightarrow> bool" where
  "matchesRequestedPort port s \<longleftrightarrow> requestedPort s > 0 \<and> port > 0 \<and> requestedPort s = port"

subsection \<open>Registering and closing\<close>

definition registerSession :: "nat \<Rightarrow> udp_registry \<Rightarrow> udp_registry" where
  "registerSession i r =
     (let k = clientIPKey (obj r i) in
      r\<lparr>sessions := i # sessions r,
        sessionsByIP := (sessionsByIP r)(k := Some (i # entry (sessionsByIP r) k)),
        pendingByIP := (pendingByIP r)(k := Some (entry (pendingByIP r) k @ [i]))\<rparr>)"

definition unregisterSession :: "nat \<Rightarrow> udp_registry \<Rightarrow> udp_registry" where
  "unregisterSession i r =
     (let k = clientIPKey (obj r i); key = boundKey (obj r i);
          byAddr = (if key \<noteq> [] \<and> sessionsByAddr r key = Some i then (sessionsByAddr r)(key := None) else sessionsByAddr r);
          byIP = (case sessionsByIP r k of
              None \<Rightarrow> sessionsByIP r
            | Some l \<Rightarrow> let l' = removeAll i l in (sessionsByIP r)(k := (if l' = [] then None else Some l')));
          pend = removeSocks5UDPPending (entry (pendingByIP r) k) i
      in r\<lparr>sessions := removeAll i (sessions r), sessionsByAddr := byAddr, sessionsByIP := byIP,
           pendingByIP := (pendingByIP r)(k := (if pend = [] then None else Some pend))\<rparr>)"

definition closeSession :: "nat \<Rightarrow> udp_registry \<Rightarrow> udp_registry" where
  "closeSession i r =
     (if closed (obj r i) then r
      else let r1 = unregisterSession i (on_obj i (\<lambda>s. s\<lparr>closed := True\<rparr>) r) in r1\<lparr>slots := slots r1 - 1\<rparr>)"

text \<open>
  \<open>newSession\<close> after the address of the request has been read: \<open>reserved\<close> tells whether a slot could be reserved, \<open>opened\<close>
  whether the bridge opened a stream, \<open>replied\<close> whether the reply reached the client.
\<close>

definition newSession :: "bool \<Rightarrow> bool \<Rightarrow> bool \<Rightarrow> string \<Rightarrow> int \<Rightarrow> int \<Rightarrow> udp_registry \<Rightarrow> bool \<times> udp_registry" where
  "newSession reserved opened replied remote reqPort now r =
     (if \<not> reserved then (False, r)
      else
        let r1 = r\<lparr>slots := slots r + 1\<rparr>; k = normalizeSocks5UDPIP remote in
        if k = [] then (False, r1\<lparr>slots := slots r1 - 1\<rparr>)
        else if \<not> opened then (False, r1\<lparr>slots := slots r1 - 1\<rparr>)
        else
          let i = fresh r1;
              s = \<lparr>clientIPKey = k, requestedPort = reqPort, packetCh = [], closed = False, lastActive = 0, boundAddr = None, boundKey = [], tunnel = []\<rparr>;
              r2 = registerSession i (r1\<lparr>obj := (obj r1)(i := s), fresh := Suc i\<rparr>);
              r3 = on_obj i (touch now) r2
          in if replied then (True, r3) else (False, closeSession i r3))"

subsection \<open>Datagrams\<close>

text \<open>The loop over the sessions of one IP: a second match withdraws the first.\<close>

fun port_scan :: "(nat \<Rightarrow> usession) \<Rightarrow> int \<Rightarrow> nat option \<Rightarrow> nat list \<Rightarrow> nat option" where
  "port_scan h port found [] = found"
| "port_scan h port found (i # l) =
     (if \<not> matchesRequestedPort port (h i) then port_scan h port found l
      else if found \<noteq> None then None
      else port_scan h port (Some i) l)"

definition pick_candidate :: "udp_addr \<Rightarrow> udp_registry \<Rightarrow> nat option" where
  "pick_candidate a r =
     (let k = normalizeSocks5UDPIP (utext a); byIP = entry (sessionsByIP r) k; pend = entry (pendingByIP r) k;
          only_pending = (if length pend = 1 then Some (hd pend) else None)
      in if length byIP = 1 then Some (hd byIP)
         else if length byIP > 1
           then (case port_scan (obj r) (uport a) None byIP of None \<Rightarrow> only_pending | Some i \<Rightarrow> Some i)
         else only_pending)"

definition pickSession :: "udp_addr \<Rightarrow> udp_registry \<Rightarrow> nat option \<times> udp_registry" where
  "pickSession a r =
     (let key = utext a; k = normalizeSocks5UDPIP key in
      if k = [] then (None, r)
      else case sessionsByAddr r key of
             Some i \<Rightarrow> (Some i, on_obj i (bindClientAddr a) r)
           | None \<Rightarrow>
               (case pick_candidate a r of
                  None \<Rightarrow> (None, r)
                | Some i \<Rightarrow>
                    let old = boundKey (obj r i);
                        m = (if old \<noteq> [] \<and> old \<noteq> key \<and> sessionsByAddr r old = Some i then (sessionsByAddr r)(old := None) else sessionsByAddr r);
                        r1 = on_obj i (bindClientAddr a) (r\<lparr>sessionsByAddr := m(key \<mapsto> i)\<rparr>)
                    in (Some i, r1\<lparr>pendingByIP := (pendingByIP r1)(k := Some (removeSocks5UDPPending (entry (pendingByIP r1) k) i))\<rparr>)))"

definition enqueue :: "int \<Rightarrow> nat \<Rightarrow> byte list \<Rightarrow> udp_registry \<Rightarrow> bool \<times> udp_registry" where
  "enqueue now i data r =
     (if data = [] \<or> closed (obj r i) then (False, r)
      else if length (packetCh (obj r i)) < socks5UDPQueueSize
        then (True, on_obj i (\<lambda>s. touch now (s\<lparr>packetCh := packetCh s @ [data]\<rparr>)) r)
      else (False, r))"

text \<open>One datagram read from the shared port; \<open>allowed\<close> is \<open>sourceAllowed\<close>.\<close>

definition receive :: "(nat \<Rightarrow> udp_addr \<Rightarrow> bool) \<Rightarrow> int \<Rightarrow> udp_addr \<Rightarrow> byte list \<Rightarrow> udp_registry \<Rightarrow> udp_registry" where
  "receive allowed now a data r =
     (if data = [] then r
      else case pickSession a r of
             (None, r1) \<Rightarrow> r1
           | (Some i, r1) \<Rightarrow> if allowed i a then snd (enqueue now i data r1) else r1)"

text \<open>One pass of \<open>writeLoop\<close>; \<open>dest\<close> is \<open>destinationAllowed\<close>, \<open>ok\<close> whether the write to the agent succeeded.\<close>

definition writePass :: "(byte list \<Rightarrow> bool) \<Rightarrow> bool \<Rightarrow> int \<Rightarrow> nat \<Rightarrow> udp_registry \<Rightarrow> udp_registry" where
  "writePass dest ok now i r =
     (if closed (obj r i) then r
      else case packetCh (obj r i) of
        [] \<Rightarrow> r
      | p # ps \<Rightarrow>
          let r1 = on_obj i (\<lambda>s. s\<lparr>packetCh := ps\<rparr>) r in
          if p = [] \<or> \<not> dest p then r1
          else if \<not> ok then closeSession i r1
          else on_obj i (\<lambda>s. touch now (s\<lparr>tunnel := tunnel s @ [p]\<rparr>)) r1)"

text \<open>One frame from the agent in \<open>readLoop\<close> of a session: \<open>None\<close> is a failing read or a bad length.\<close>

definition readPass :: "byte list option \<Rightarrow> bool \<Rightarrow> int \<Rightarrow> nat \<Rightarrow> udp_registry \<Rightarrow> udp_registry" where
  "readPass got ok now i r =
     (case got of
        None \<Rightarrow> closeSession i r
      | Some data \<Rightarrow>
          if data = [] \<or> int (length data) > PoolSize then closeSession i r
          else case boundAddr (obj r i) of
                 None \<Rightarrow> r
               | Some a \<Rightarrow> if ok then on_obj i (touch now) (r\<lparr>outbox := outbox r @ [(i, a, data)]\<rparr>) else closeSession i r)"

definition sweep :: "int \<Rightarrow> udp_registry \<Rightarrow> udp_registry" where
  "sweep now r = fold closeSession (filter (\<lambda>i. idleFor now (obj r i) \<ge> socks5UDPAssociateIdleTimeout) (sessions r)) r"

definition registryClose :: "udp_registry \<Rightarrow> udp_registry" where "registryClose r = fold closeSession (sessions r) r"

subsection \<open>The invariant of the registry\<close>

definition of_ip :: "udp_registry \<Rightarrow> string \<Rightarrow> nat set" where
  "of_ip r k = {i \<in> set (sessions r). clientIPKey (obj r i) = k}"

text \<open>The registered sessions are those that are not closed, and each holds a slot.\<close>

definition live_ok :: "udp_registry \<Rightarrow> bool" where
  "live_ok r \<longleftrightarrow> distinct (sessions r) \<and> (\<forall>i. i \<in> set (sessions r) \<longleftrightarrow> i < fresh r \<and> \<not> closed (obj r i)) \<and> slots r = int (length (sessions r))"

text \<open>The indices by IP agree with the sessions, and no entry outlives the last session of its IP.\<close>

definition index_at :: "nat list option \<Rightarrow> nat list option \<Rightarrow> nat set \<Rightarrow> bool" where
  "index_at byIP pend S \<longleftrightarrow>
     (case byIP of None \<Rightarrow> S = {} | Some l \<Rightarrow> distinct l \<and> set l = S \<and> l \<noteq> []) \<and>
     (case pend of None \<Rightarrow> True | Some l \<Rightarrow> distinct l \<and> set l \<subseteq> S \<and> S \<noteq> {})"

definition index_ok :: "udp_registry \<Rightarrow> bool" where
  "index_ok r \<longleftrightarrow> (\<forall>k. index_at (sessionsByIP r k) (pendingByIP r k) (of_ip r k))"

text \<open>A session is bound to addresses of the IP of its control connection only, and at most one address leads to it.\<close>

definition own_binding :: "usession \<Rightarrow> bool" where
  "own_binding s \<longleftrightarrow> clientIPKey s \<noteq> [] \<and>
     (case boundAddr s of None \<Rightarrow> boundKey s = [] | Some a \<Rightarrow> boundKey s = utext a \<and> normalizeSocks5UDPIP (utext a) = clientIPKey s)"

definition bound_ok :: "udp_registry \<Rightarrow> bool" where
  "bound_ok r \<longleftrightarrow> (\<forall>key i. sessionsByAddr r key = Some i \<longrightarrow> i \<in> set (sessions r) \<and> boundKey (obj r i) = key \<and> key \<noteq> []) \<and>
     (\<forall>i < fresh r. own_binding (obj r i)) \<and>
     (\<forall>i a d. (i, a, d) \<in> set (outbox r) \<longrightarrow> i < fresh r \<and> normalizeSocks5UDPIP (utext a) = clientIPKey (obj r i))"

definition reg_ok :: "udp_registry \<Rightarrow> bool" where "reg_ok r \<longleftrightarrow> live_ok r \<and> index_ok r \<and> bound_ok r"

lemma on_obj_simps [simp]:
  "fresh (on_obj i f r) = fresh r" "sessions (on_obj i f r) = sessions r" "sessionsByAddr (on_obj i f r) = sessionsByAddr r"
  "sessionsByIP (on_obj i f r) = sessionsByIP r" "pendingByIP (on_obj i f r) = pendingByIP r" "slots (on_obj i f r) = slots r"
  "outbox (on_obj i f r) = outbox r" "obj (on_obj i f r) = (obj r)(i := f (obj r i))"
  by (simp_all add: on_obj_def)

lemma on_obj_ok:
  assumes "reg_ok r" "clientIPKey (f (obj r i)) = clientIPKey (obj r i)" "closed (f (obj r i)) = closed (obj r i)"
    "boundAddr (f (obj r i)) = boundAddr (obj r i)" "boundKey (f (obj r i)) = boundKey (obj r i)"
  shows "reg_ok (on_obj i f r)"
proof -
  have "of_ip (on_obj i f r) k = of_ip r k" for k using assms(2) by (auto simp: of_ip_def)
  then have "index_ok (on_obj i f r)" using assms(1) by (simp add: reg_ok_def index_ok_def)
  moreover have "live_ok (on_obj i f r)" using assms(1,3) by (auto simp: reg_ok_def live_ok_def)
  moreover have "own_binding (f (obj r i)) = own_binding (obj r i)" using assms(2,4,5) by (simp add: own_binding_def split: option.split)
  then have "bound_ok (on_obj i f r)" using assms by (auto simp: reg_ok_def bound_ok_def)
  ultimately show ?thesis by (simp add: reg_ok_def)
qed

lemma entry_sets:
  assumes "index_ok r"
  shows "set (entry (sessionsByIP r) k) = of_ip r k" "set (entry (pendingByIP r) k) \<subseteq> of_ip r k" "distinct (entry (sessionsByIP r) k)"
    "distinct (entry (pendingByIP r) k)"
  using assms [unfolded index_ok_def, rule_format, of k] by (auto simp: index_at_def entry_def split: option.splits)

lemma removeAll_empty_conv: "removeAll x l = [] \<longleftrightarrow> set l \<subseteq> {x}"
  by (auto simp: removeAll_filter_not_eq filter_empty_conv)

lemma index_at_remove:
  assumes "set l = S" "set p \<subseteq> S" "distinct l" "distinct p"
  shows "index_at (if removeAll i l = [] then None else Some (removeAll i l))
    (if removeSocks5UDPPending p i = [] then None else Some (removeSocks5UDPPending p i)) (S - {i})"
proof -
  have l: "set (removeAll i l) = S - {i}" "distinct (removeAll i l)" using assms by (auto simp: distinct_removeAll)
  have p: "set (removeSocks5UDPPending p i) \<subseteq> S - {i}" "distinct (removeSocks5UDPPending p i)"
    using assms by (auto simp: removeSocks5UDPPending_def)
  have "S - {i} = {}" if "removeAll i l = []" using l(1) that by simp
  moreover have "S - {i} \<noteq> {}" if "removeSocks5UDPPending p i \<noteq> []"
    using p(1) that by (cases "removeSocks5UDPPending p i") auto
  ultimately show ?thesis using l p by (simp add: index_at_def)
qed

lemma entry_upd: "entry (m(k := v)) j = (if j = k then (case v of None \<Rightarrow> [] | Some l \<Rightarrow> l) else entry m j)"
  by (simp add: entry_def)

lemma closeSession_ok:
  assumes "reg_ok r" "i < fresh r"
  shows "reg_ok (closeSession i r)"
proof (cases "closed (obj r i)")
  case True
  then show ?thesis using assms by (simp add: closeSession_def)
next
  case False
  define k where "k = clientIPKey (obj r i)"
  define r' where "r' = closeSession i r"
  have L: "live_ok r" and X: "index_ok r" and B: "bound_ok r" using assms(1) by (auto simp: reg_ok_def)
  have i: "i \<in> set (sessions r)" "i \<in> of_ip r k" using L assms(2) False by (auto simp: live_ok_def of_ip_def k_def)
  have obj': "obj r' = (obj r)(i := (obj r i)\<lparr>closed := True\<rparr>)" "sessions r' = removeAll i (sessions r)" "fresh r' = fresh r" "outbox r' = outbox r"
    "slots r' = slots r - 1"
    using False by (simp_all add: r'_def closeSession_def unregisterSession_def Let_def)
  have "i \<in> set (entry (sessionsByIP r) k)" using entry_sets(1) [OF X] i(2) by simp
  then have "sessionsByIP r k \<noteq> None" by (cases "sessionsByIP r k") (auto simp: entry_def)
  then have byIP: "sessionsByIP r' = (sessionsByIP r)(k := (if removeAll i (entry (sessionsByIP r) k) = [] then None else Some (removeAll i (entry (sessionsByIP r) k))))"
    using False by (auto simp: r'_def closeSession_def unregisterSession_def Let_def k_def entry_def split: option.split)
  have pend: "pendingByIP r' = (pendingByIP r)(k := (if removeSocks5UDPPending (entry (pendingByIP r) k) i = [] then None
      else Some (removeSocks5UDPPending (entry (pendingByIP r) k) i)))"
    using False by (simp add: r'_def closeSession_def unregisterSession_def Let_def k_def)
  have ip: "of_ip r' j = of_ip r j - {i}" for j by (auto simp: of_ip_def obj')
  have ip_other: "j \<noteq> k \<Longrightarrow> i \<notin> of_ip r j" for j by (auto simp: of_ip_def k_def)
  have "live_ok r'"
  proof -
    have d: "distinct (sessions r)" using L by (simp add: live_ok_def)
    have "removeAll i (sessions r) = remove1 i (sessions r)" using d by (simp add: distinct_remove1_removeAll)
    then have "length (removeAll i (sessions r)) = length (sessions r) - 1" using i(1) by (simp add: length_remove1)
    then have "int (length (removeAll i (sessions r))) = int (length (sessions r)) - 1" using length_pos_if_in_set [OF i(1)] by linarith
    moreover have "j \<in> set (removeAll i (sessions r)) \<longleftrightarrow> j < fresh r \<and> \<not> closed (((obj r)(i := (obj r i)\<lparr>closed := True\<rparr>)) j)" for j
      using L by (simp add: live_ok_def)
    ultimately show ?thesis using L d by (simp add: live_ok_def obj' distinct_removeAll)
  qed
  moreover have "index_at (sessionsByIP r' j) (pendingByIP r' j) (of_ip r' j)" for j
  proof (cases "j = k")
    case True
    have "sessionsByIP r k = Some (entry (sessionsByIP r) k)" using \<open>sessionsByIP r k \<noteq> None\<close> by (auto simp: entry_def)
    then show ?thesis using index_at_remove [OF entry_sets [OF X, of k], of i] True by (simp add: byIP pend ip)
  next
    case False
    then have "of_ip r' j = of_ip r j" using ip_other by (auto simp: ip)
    then show ?thesis using X False by (simp add: index_ok_def byIP pend)
  qed
  then have "index_ok r'" by (simp add: index_ok_def)
  moreover have "bound_ok r'"
  proof -
    let ?b = "boundKey (obj r i)"
    have "sessionsByAddr r' = (if ?b \<noteq> [] \<and> sessionsByAddr r ?b = Some i then (sessionsByAddr r)(?b := None) else sessionsByAddr r)"
      using False by (simp add: r'_def closeSession_def unregisterSession_def Let_def)
    moreover have "sessionsByAddr r key \<noteq> Some i" if "key \<noteq> ?b \<or> ?b = []" for key using B that by (auto simp: bound_ok_def)
    ultimately have a: "sessionsByAddr r' key \<noteq> Some i" "sessionsByAddr r' key = Some j \<Longrightarrow> sessionsByAddr r key = Some j" for key j
      by (auto split: if_splits)
    have o: "own_binding (obj r' j)" if "j < fresh r'" for j
    proof -
      have "own_binding (obj r j)" using B that by (simp add: bound_ok_def obj')
      then show ?thesis by (auto simp: obj' own_binding_def split: option.splits)
    qed
    have "j \<in> set (sessions r') \<and> boundKey (obj r' j) = key \<and> key \<noteq> []" if "sessionsByAddr r' key = Some j" for key j
      using a(1) [of key] a(2) [OF that] B that by (auto simp: bound_ok_def obj')
    moreover have "l < fresh r' \<and> normalizeSocks5UDPIP (utext a) = clientIPKey (obj r' l)" if "(l, a, d) \<in> set (outbox r')" for l a d
    proof -
      have "l < fresh r \<and> normalizeSocks5UDPIP (utext a) = clientIPKey (obj r l)" using B that unfolding bound_ok_def obj' by blast
      then show ?thesis by (simp add: obj')
    qed
    ultimately show ?thesis unfolding bound_ok_def using o by blast
  qed
  ultimately show ?thesis by (simp add: reg_ok_def r'_def)
qed

lemma closeSession_fresh [simp]: "fresh (closeSession i r) = fresh r"
  by (simp add: closeSession_def unregisterSession_def Let_def)

lemma fold_closeSession_ok:
  "reg_ok r \<Longrightarrow> list_all (\<lambda>i. i < fresh r) l \<Longrightarrow> reg_ok (fold closeSession l r)"
  by (induction l arbitrary: r) (simp_all add: closeSession_ok)

lemma sessions_allocated: "reg_ok r \<Longrightarrow> i \<in> set (sessions r) \<Longrightarrow> i < fresh r"
  by (simp add: reg_ok_def live_ok_def)

lemma newSession_ok:
  assumes "reg_ok r"
  shows "reg_ok (snd (newSession reserved opened replied remote reqPort now r))"
proof (cases "reserved \<and> normalizeSocks5UDPIP remote \<noteq> [] \<and> opened")
  case False
  then have "snd (newSession reserved opened replied remote reqPort now r) = r"
    by (auto simp: newSession_def Let_def)
  then show ?thesis using assms by simp
next
  case True
  define i where "i = fresh r"
  define k where "k = normalizeSocks5UDPIP remote"
  define s where "s = \<lparr>clientIPKey = k, requestedPort = reqPort, packetCh = [], closed = False, lastActive = 0, boundAddr = None, boundKey = [], tunnel = []\<rparr>"
  define r2 where "r2 = registerSession i (r\<lparr>slots := slots r + 1, obj := (obj r)(i := s), fresh := Suc i\<rparr>)"
  have L: "live_ok r" and X: "index_ok r" and B: "bound_ok r" using assms by (auto simp: reg_ok_def)
  have new: "i \<notin> set (sessions r)" using L by (auto simp: live_ok_def i_def)
  have r2: "obj r2 = (obj r)(i := s)" "fresh r2 = Suc i" "sessions r2 = i # sessions r" "slots r2 = slots r + 1" "outbox r2 = outbox r"
    "sessionsByAddr r2 = sessionsByAddr r" "sessionsByIP r2 = (sessionsByIP r)(k := Some (i # entry (sessionsByIP r) k))"
    "pendingByIP r2 = (pendingByIP r)(k := Some (entry (pendingByIP r) k @ [i]))"
    by (simp_all add: r2_def registerSession_def Let_def s_def)
  have ip: "of_ip r2 j = (if j = k then insert i (of_ip r j) else of_ip r j)" for j
    using new by (auto simp: of_ip_def r2 s_def)
  have fresh_ip: "i \<notin> of_ip r j" for j using new by (simp add: of_ip_def)
  have "live_ok r2" using L new by (auto simp: live_ok_def r2 s_def i_def less_Suc_eq)
  moreover have "index_at (sessionsByIP r2 j) (pendingByIP r2 j) (of_ip r2 j)" for j
    using X [unfolded index_ok_def, rule_format, of j] fresh_ip [of j] entry_sets [OF X, of j] by (auto simp: r2 ip index_at_def)
  then have "index_ok r2" by (simp add: index_ok_def)
  moreover have "bound_ok r2"
  proof -
    have "own_binding s" using True by (simp add: own_binding_def s_def k_def)
    then show ?thesis using B new by (fastforce simp: bound_ok_def r2 i_def less_Suc_eq)
  qed
  ultimately have "reg_ok r2" by (simp add: reg_ok_def)
  then have r3: "reg_ok (on_obj i (touch now) r2)" by (rule on_obj_ok) (simp_all add: touch_def)
  have "snd (newSession reserved opened replied remote reqPort now r) = (if replied then on_obj i (touch now) r2 else closeSession i (on_obj i (touch now) r2))"
    using True by (simp add: newSession_def Let_def r2_def s_def k_def i_def)
  then show ?thesis using r3 closeSession_ok [OF r3, of i] by (simp add: r2)
qed

lemma port_scan_in: "port_scan h port found l = Some i \<Longrightarrow> found = Some i \<or> i \<in> set l"
  by (induction l arbitrary: found) (auto split: if_splits)

lemma pick_candidate_ip:
  assumes "index_ok r" "pick_candidate a r = Some i"
  shows "i \<in> of_ip r (normalizeSocks5UDPIP (utext a))"
proof -
  define k where "k = normalizeSocks5UDPIP (utext a)"
  have s: "set (entry (sessionsByIP r) k) = of_ip r k" "set (entry (pendingByIP r) k) \<subseteq> of_ip r k"
    using entry_sets [OF assms(1)] by auto
  have hd: "length l = 1 \<Longrightarrow> hd l \<in> set l" for l :: "nat list" by (cases l) auto
  show ?thesis
    using assms(2) s hd [of "entry (sessionsByIP r) k"] hd [of "entry (pendingByIP r) k"]
      port_scan_in [of "obj r" "uport a" None "entry (sessionsByIP r) k" i]
    unfolding k_def [symmetric] pick_candidate_def Let_def by (auto split: if_splits option.splits)
qed

lemma normalize_empty: "normalizeSocks5UDPIP [] = []"
  by code_simp

lemma bind_ok:
  assumes "reg_ok r" "i \<in> of_ip r (normalizeSocks5UDPIP (utext a))" "normalizeSocks5UDPIP (utext a) \<noteq> []"
    and "\<And>key j. m key = Some j \<longleftrightarrow> key = utext a \<and> j = i \<or> (j \<noteq> i \<and> key \<noteq> utext a \<and> sessionsByAddr r key = Some j)"
    and "\<And>k. index_at (sessionsByIP r k) (p k) (of_ip r k)"
  shows "reg_ok ((on_obj i (bindClientAddr a) r)\<lparr>sessionsByAddr := m, pendingByIP := p\<rparr>)"
proof -
  let ?r = "(on_obj i (bindClientAddr a) r)\<lparr>sessionsByAddr := m, pendingByIP := p\<rparr>"
  have L: "live_ok r" and X: "index_ok r" and B: "bound_ok r" using assms(1) by (auto simp: reg_ok_def)
  have i: "i \<in> set (sessions r)" "clientIPKey (obj r i) = normalizeSocks5UDPIP (utext a)" using assms(2) by (auto simp: of_ip_def)
  have ip: "of_ip ?r k = of_ip r k" for k by (auto simp: of_ip_def bindClientAddr_def)
  have "live_ok ?r" using L by (auto simp: live_ok_def bindClientAddr_def)
  moreover have "index_ok ?r" using assms(5) by (simp add: index_ok_def ip)
  moreover have "bound_ok ?r"
  proof -
    have "own_binding (obj r i)" using B L i by (simp add: bound_ok_def live_ok_def)
    then have "own_binding (bindClientAddr a (obj r i))" using i by (simp add: own_binding_def bindClientAddr_def)
    moreover have "utext a \<noteq> []" using assms(3) by (cases "utext a = []") (auto simp: normalize_empty)
    ultimately show ?thesis using B i assms(4) by (auto simp: bound_ok_def bindClientAddr_def)
  qed
  ultimately show ?thesis by (simp add: reg_ok_def)
qed

lemma pickSession_ok:
  assumes "reg_ok r"
  shows "reg_ok (snd (pickSession a r)) \<and>
    (\<forall>i. fst (pickSession a r) = Some i \<longrightarrow> i \<in> of_ip r (normalizeSocks5UDPIP (utext a)) \<and>
       (\<exists>m p. snd (pickSession a r) = (on_obj i (bindClientAddr a) r)\<lparr>sessionsByAddr := m, pendingByIP := p\<rparr>)) \<and>
    (fst (pickSession a r) = None \<longrightarrow> snd (pickSession a r) = r)"
proof -
  define k where "k = normalizeSocks5UDPIP (utext a)"
  have L: "live_ok r" and X: "index_ok r" and B: "bound_ok r" using assms by (auto simp: reg_ok_def)
  consider (none) "k = []" | (bound) i where "k \<noteq> []" "sessionsByAddr r (utext a) = Some i"
    | (miss) "k \<noteq> []" "sessionsByAddr r (utext a) = None" "pick_candidate a r = None"
    | (found) i where "k \<noteq> []" "sessionsByAddr r (utext a) = None" "pick_candidate a r = Some i"
    by (cases "sessionsByAddr r (utext a)"; cases "pick_candidate a r") auto
  then show ?thesis
  proof cases
    case bound
    have i: "i \<in> set (sessions r)" "boundKey (obj r i) = utext a" "utext a \<noteq> []" using B bound by (auto simp: bound_ok_def)
    have "own_binding (obj r i)" using B L i by (simp add: bound_ok_def live_ok_def)
    then have ip: "i \<in> of_ip r (normalizeSocks5UDPIP (utext a))" using i by (auto simp: own_binding_def of_ip_def split: option.splits)
    have same: "(on_obj i (bindClientAddr a) r) = (on_obj i (bindClientAddr a) r)\<lparr>sessionsByAddr := sessionsByAddr r, pendingByIP := pendingByIP r\<rparr>"
      by (simp add: on_obj_def)
    have "sessionsByAddr r key = Some i \<longrightarrow> key = utext a" for key using B i(2) unfolding bound_ok_def by metis
    then have "sessionsByAddr r key = Some j \<longleftrightarrow> key = utext a \<and> j = i \<or> (j \<noteq> i \<and> key \<noteq> utext a \<and> sessionsByAddr r key = Some j)" for key j
      using bound(2) by (metis option.inject)
    then have "reg_ok ((on_obj i (bindClientAddr a) r)\<lparr>sessionsByAddr := sessionsByAddr r, pendingByIP := pendingByIP r\<rparr>)"
      using X bound(1) by (intro bind_ok [OF assms ip]) (auto simp: k_def index_ok_def)
    then have reg: "reg_ok (on_obj i (bindClientAddr a) r)" unfolding same [symmetric] .
    have pick: "pickSession a r = (Some i, on_obj i (bindClientAddr a) r)" using bound by (simp add: pickSession_def Let_def k_def [symmetric])
    from same have "\<exists>m p. on_obj i (bindClientAddr a) r = (on_obj i (bindClientAddr a) r)\<lparr>sessionsByAddr := m, pendingByIP := p\<rparr>" by blast
    then show ?thesis unfolding pick fst_conv snd_conv option.inject using reg ip by blast
  next
    case found
    note ip = pick_candidate_ip [OF X found(3)]
    define old where "old = boundKey (obj r i)"
    define m where "m = (if old \<noteq> [] \<and> old \<noteq> utext a \<and> sessionsByAddr r old = Some i then (sessionsByAddr r)(old := None) else sessionsByAddr r)(utext a \<mapsto> i)"
    define p where "p = (pendingByIP r)(k := Some (removeSocks5UDPPending (entry (pendingByIP r) k) i))"
    have o: "sessionsByAddr r key \<noteq> Some i" if "key \<noteq> old \<or> old = []" for key using B that by (auto simp: bound_ok_def old_def)
    have m: "m key = Some j \<longleftrightarrow> key = utext a \<and> j = i \<or> (j \<noteq> i \<and> key \<noteq> utext a \<and> sessionsByAddr r key = Some j)" for key j
    proof (cases "key = utext a")
      case False
      show ?thesis
      proof (cases "key = old \<and> old \<noteq> []")
        case True
        then show ?thesis using False by (auto simp: m_def)
      next
        case other: False
        then show ?thesis using False o [of key] by (auto simp: m_def)
      qed
    qed (auto simp: m_def)
    have p: "index_at (sessionsByIP r j) (p j) (of_ip r j)" for j
      using X [unfolded index_ok_def, rule_format, of j] entry_sets [OF X, of j] ip
      by (auto simp: p_def index_at_def removeSocks5UDPPending_def k_def)
    have "pickSession a r = (Some i, (on_obj i (bindClientAddr a) r)\<lparr>sessionsByAddr := m, pendingByIP := p\<rparr>)"
      using found by (simp add: pickSession_def Let_def k_def [symmetric] on_obj_def m_def p_def old_def)
    moreover have "reg_ok ((on_obj i (bindClientAddr a) r)\<lparr>sessionsByAddr := m, pendingByIP := p\<rparr>)"
      using bind_ok [OF assms ip _ m p] found(1) by (simp add: k_def)
    ultimately show ?thesis using ip by auto
  qed (simp_all add: pickSession_def Let_def k_def [symmetric] assms)
qed

lemma enqueue_ok: "reg_ok r \<Longrightarrow> reg_ok (snd (enqueue now i data r))"
  by (auto simp: enqueue_def touch_def intro!: on_obj_ok)

lemma receive_ok: "reg_ok r \<Longrightarrow> reg_ok (receive allowed now a data r)"
  using pickSession_ok [of r a] by (auto simp: receive_def enqueue_ok split: prod.split option.split)

lemma writePass_ok: "reg_ok r \<Longrightarrow> i < fresh r \<Longrightarrow> reg_ok (writePass dest ok now i r)"
proof -
  assume r: "reg_ok r" and i: "i < fresh r"
  show ?thesis
  proof (cases "closed (obj r i) \<or> packetCh (obj r i) = []")
    case True
    then show ?thesis using r by (auto simp: writePass_def)
  next
    case False
    then obtain p ps where p: "packetCh (obj r i) = p # ps" by (cases "packetCh (obj r i)") auto
    define r1 where "r1 = on_obj i (\<lambda>s. s\<lparr>packetCh := ps\<rparr>) r"
    have r1: "reg_ok r1" unfolding r1_def by (rule on_obj_ok [OF r]) simp_all
    have "reg_ok (on_obj i (\<lambda>s. touch now (s\<lparr>tunnel := tunnel s @ [p]\<rparr>)) r1)" by (rule on_obj_ok [OF r1]) (simp_all add: touch_def)
    moreover have "reg_ok (closeSession i r1)" using closeSession_ok [OF r1] i by (simp add: r1_def)
    ultimately show ?thesis using False r1 p by (simp add: writePass_def Let_def r1_def)
  qed
qed

lemma readPass_ok: "reg_ok r \<Longrightarrow> i < fresh r \<Longrightarrow> reg_ok (readPass got ok now i r)"
proof -
  assume r: "reg_ok r" and i: "i < fresh r"
  have "reg_ok (on_obj i (touch now) (r\<lparr>outbox := outbox r @ [(i, a, d)]\<rparr>))" if "boundAddr (obj r i) = Some a" for a d
  proof -
    have "own_binding (obj r i)" using r i by (simp add: reg_ok_def bound_ok_def)
    then have "normalizeSocks5UDPIP (utext a) = clientIPKey (obj r i)" using that by (simp add: own_binding_def)
    then have "reg_ok (r\<lparr>outbox := outbox r @ [(i, a, d)]\<rparr>)"
      using r i by (auto simp: reg_ok_def live_ok_def index_ok_def of_ip_def bound_ok_def)
    then show ?thesis by (rule on_obj_ok) (simp_all add: touch_def)
  qed
  then show ?thesis using r closeSession_ok [OF r i] by (auto simp: readPass_def split: option.split)
qed

inductive udp_step :: "udp_registry \<Rightarrow> udp_registry \<Rightarrow> bool" where
  associate: "udp_step r (snd (newSession reserved opened replied remote reqPort now r))"
| datagram: "udp_step r (receive allowed now a data r)"
| to_agent: "i < fresh r \<Longrightarrow> udp_step r (writePass dest ok now i r)"
| to_client: "i < fresh r \<Longrightarrow> udp_step r (readPass got ok now i r)"
| control_closed: "i < fresh r \<Longrightarrow> udp_step r (closeSession i r)"
| cleanup: "udp_step r (sweep now r)"
| shutdown: "udp_step r (registryClose r)"

definition newSocks5UDPRegistry :: "(nat \<Rightarrow> usession) \<Rightarrow> udp_registry" where
  "newSocks5UDPRegistry h = \<lparr>obj = h, fresh = 0, sessions = [], sessionsByAddr = (\<lambda>_. None), sessionsByIP = (\<lambda>_. None),
     pendingByIP = (\<lambda>_. None), slots = 0, outbox = []\<rparr>"

lemma udp_step_ok:
  assumes "udp_step r r'" "reg_ok r"
  shows "reg_ok r'"
  using assms(1)
proof cases
  case (cleanup now)
  then show ?thesis using assms(2) sessions_allocated by (auto simp: sweep_def list_all_iff intro!: fold_closeSession_ok)
next
  case shutdown
  then show ?thesis using assms(2) sessions_allocated by (auto simp: registryClose_def list_all_iff intro!: fold_closeSession_ok)
qed (use assms(2) in \<open>simp_all add: newSession_ok receive_ok writePass_ok readPass_ok closeSession_ok\<close>)

lemma reachable_reg_ok: "udp_step\<^sup>*\<^sup>* (newSocks5UDPRegistry h) r \<Longrightarrow> reg_ok r"
proof (induction rule: rtranclp_induct)
  case base
  then show ?case
    by (simp add: newSocks5UDPRegistry_def reg_ok_def live_ok_def index_ok_def index_at_def bound_ok_def of_ip_def)
next
  case (step r r')
  then show ?case using udp_step_ok by blast
qed

subsection \<open>What the registry guarantees\<close>

definition blank_session :: usession where
  "blank_session = \<lparr>clientIPKey = [], requestedPort = 0, packetCh = [], closed = False, lastActive = 0, boundAddr = None, boundKey = [], tunnel = []\<rparr>"

definition sample_associate :: udp_registry where
  "sample_associate = snd (newSession True True True ''192.0.2.7:5000'' 0 1 (newSocks5UDPRegistry (\<lambda>_. blank_session)))"

lemma sample_associate_reachable: "udp_step\<^sup>*\<^sup>* (newSocks5UDPRegistry (\<lambda>_. blank_session)) sample_associate"
  unfolding sample_associate_def by (rule r_into_rtranclp) (rule associate)

text \<open>C19 The registry is consistent. Whatever associates are opened, datagrams relayed and sessions closed in whatever order, the
  registered sessions are exactly those not closed, each holds one connection slot of its client, the indices by IP
  list exactly them and keep no entry for an IP without sessions, and at most one address leads to each session.\<close>

theorem udp_registry_invariant:
  assumes "udp_step\<^sup>*\<^sup>* (newSocks5UDPRegistry h) r"
  shows "reg_ok r"
  using reachable_reg_ok [OF assms] .

lemma udp_registry_invariant_witness: "reg_ok sample_associate \<and> slots sample_associate = 1"
proof
  show "reg_ok sample_associate" by (rule udp_registry_invariant [OF sample_associate_reachable])
qed code_simp

text \<open>C20 Associates of different clients are separate. A datagram from an address changes no session whose control connection comes
  from another IP, it sends nothing to clients, and every reply ever sent for a session went to an address of its own IP.\<close>

theorem udp_datagrams_isolated:
  assumes "udp_step\<^sup>*\<^sup>* (newSocks5UDPRegistry h) r"
  shows "(\<forall>j. clientIPKey (obj r j) \<noteq> normalizeSocks5UDPIP (utext a) \<longrightarrow> obj (receive allowed now a data r) j = obj r j) \<and>
    outbox (receive allowed now a data r) = outbox r \<and>
    (\<forall>i b d. (i, b, d) \<in> set (outbox r) \<longrightarrow> normalizeSocks5UDPIP (utext b) = clientIPKey (obj r i))"
proof -
  have R: "reg_ok r" by (rule reachable_reg_ok [OF assms])
  have "(\<forall>j. clientIPKey (obj r j) \<noteq> normalizeSocks5UDPIP (utext a) \<longrightarrow> obj (receive allowed now a data r) j = obj r j) \<and>
      outbox (receive allowed now a data r) = outbox r"
  proof (cases "fst (pickSession a r)")
    case None
    then have "pickSession a r = (None, r)" using pickSession_ok [OF R, of a] by (cases "pickSession a r") auto
    then show ?thesis by (simp add: receive_def)
  next
    case (Some i)
    then obtain m p where i: "i \<in> of_ip r (normalizeSocks5UDPIP (utext a))"
      and pick: "pickSession a r = (Some i, (on_obj i (bindClientAddr a) r)\<lparr>sessionsByAddr := m, pendingByIP := p\<rparr>)"
      using pickSession_ok [OF R, of a] by (cases "pickSession a r") auto
    then show ?thesis by (auto simp: receive_def enqueue_def of_ip_def on_obj_def)
  qed
  moreover have "normalizeSocks5UDPIP (utext b) = clientIPKey (obj r i)" if "(i, b, d) \<in> set (outbox r)" for i b d
    using R that unfolding reg_ok_def bound_ok_def by blast
  ultimately show ?thesis by blast
qed

lemma udp_datagrams_isolated_witness:
  "obj (receive (\<lambda>_ _. True) 2 \<lparr>utext = ''192.0.2.8:6000'', uport = 6000\<rparr> [1, 2] sample_associate) 0 = obj sample_associate 0 \<and>
   packetCh (obj (receive (\<lambda>_ _. True) 2 \<lparr>utext = ''192.0.2.7:6000'', uport = 6000\<rparr> [1, 2] sample_associate) 0) = [[1, 2]]"
proof
  have "clientIPKey (obj sample_associate 0) \<noteq> normalizeSocks5UDPIP ''192.0.2.8:6000''" by code_simp
  then show "obj (receive (\<lambda>_ _. True) 2 \<lparr>utext = ''192.0.2.8:6000'', uport = 6000\<rparr> [1, 2] sample_associate) 0 = obj sample_associate 0"
    using udp_datagrams_isolated [OF sample_associate_reachable, of "\<lparr>utext = ''192.0.2.8:6000'', uport = 6000\<rparr>"] by simp
qed code_simp

text \<open>The cleanup closes exactly the idle sessions. A pass keeps the registered sessions that were active within the last three
  minutes, unchanged, and gives back one slot for each other one.\<close>

theorem udp_sweep_exact:
  assumes "udp_step\<^sup>*\<^sup>* (newSocks5UDPRegistry h) r"
  shows "set (sessions (sweep now r)) = {i \<in> set (sessions r). idleFor now (obj r i) < socks5UDPAssociateIdleTimeout} \<and>
    slots (sweep now r) = int (card (set (sessions (sweep now r)))) \<and>
    (\<forall>i \<in> set (sessions (sweep now r)). obj (sweep now r) i = obj r i)"
proof -
  have R: "reg_ok r" by (rule reachable_reg_ok [OF assms])
  have one: "set (sessions (closeSession i q)) = set (sessions q) - {i} \<and> (\<forall>j. j \<noteq> i \<longrightarrow> obj (closeSession i q) j = obj q j)"
    if "\<not> closed (obj q i) \<or> i \<notin> set (sessions q)" for i q
    using that by (auto simp: closeSession_def unregisterSession_def Let_def)
  have fold: "set (sessions (fold closeSession l q)) = set (sessions q) - set l \<and> (\<forall>j. j \<notin> set l \<longrightarrow> obj (fold closeSession l q) j = obj q j)"
    if "distinct l" "\<forall>i \<in> set l. \<not> closed (obj q i)" for l q
    using that
  proof (induction l arbitrary: q)
    case (Cons i l)
    have "\<forall>j \<in> set l. \<not> closed (obj (closeSession i q) j)" using Cons.prems one [of q i] by (metis distinct.simps(2) list.set_intros)
    then show ?case using Cons.IH [of "closeSession i q"] Cons.prems one [of q i] by auto
  qed simp
  define l where "l = filter (\<lambda>i. idleFor now (obj r i) \<ge> socks5UDPAssociateIdleTimeout) (sessions r)"
  have "distinct l" "\<forall>i \<in> set l. \<not> closed (obj r i)" using R by (auto simp: l_def reg_ok_def live_ok_def)
  note f = fold [OF this]
  have S: "sweep now r = fold closeSession l r" by (simp add: sweep_def l_def)
  have "reg_ok (sweep now r)" using udp_step_ok [OF cleanup R] .
  then have "slots (sweep now r) = int (card (set (sessions (sweep now r))))" by (simp add: reg_ok_def live_ok_def distinct_card)
  then show ?thesis using f unfolding S by (auto simp: l_def)
qed

lemma udp_sweep_exact_witness:
  "set (sessions (sweep 180000000001 sample_associate)) = {} \<and> set (sessions (sweep 180000000000 sample_associate)) = {0}"
proof -
  have "sessions sample_associate = [0]" "idleFor 180000000001 (obj sample_associate 0) = 180000000000"
    "idleFor 180000000000 (obj sample_associate 0) = 179999999999" by code_simp+
  then show ?thesis
    using udp_sweep_exact [OF sample_associate_reachable, of 180000000001] udp_sweep_exact [OF sample_associate_reachable, of 180000000000]
    by (auto simp: socks5UDPAssociateIdleTimeout_def)
qed

text \<open>Two silent associates of one IP block each other. When two associates from one IP, both without a port in their request, are
  open before either has sent a datagram, no datagram from that IP is relayed for either of them.\<close>

theorem two_associates_starve:
  assumes "normalizeSocks5UDPIP remote = normalizeSocks5UDPIP remote'" "normalizeSocks5UDPIP remote \<noteq> []"
    and "r = snd (newSession True True True remote' 0 now' (snd (newSession True True True remote 0 now (newSocks5UDPRegistry h))))"
  shows "receive allowed later a data r = r"
proof -
  define k where "k = normalizeSocks5UDPIP remote"
  have r: "sessionsByIP r = (\<lambda>_. None)(k := Some [1, 0])" "pendingByIP r = (\<lambda>_. None)(k := Some [0, 1])" "sessionsByAddr r = (\<lambda>_. None)"
    "requestedPort (obj r 0) = 0" "requestedPort (obj r 1) = 0"
    using assms by (auto simp: newSession_def newSocks5UDPRegistry_def registerSession_def entry_def Let_def touch_def k_def)
  have "port_scan (obj r) (uport a) None [1, 0] = None" using r(4,5) by (simp add: matchesRequestedPort_def)
  then have "pick_candidate a r = None"
    using r by (auto simp: pick_candidate_def entry_def Let_def)
  then have "pickSession a r = (None, r)" using r(3) by (simp add: pickSession_def Let_def)
  then show ?thesis by (simp add: receive_def)
qed

lemma two_associates_starve_witness:
  "receive (\<lambda>_ _. True) 3 \<lparr>utext = ''192.0.2.7:6000'', uport = 6000\<rparr> [1, 2]
     (snd (newSession True True True ''192.0.2.7:5001'' 0 2 sample_associate)) =
   snd (newSession True True True ''192.0.2.7:5001'' 0 2 sample_associate)"
proof -
  have "normalizeSocks5UDPIP ''192.0.2.7:5000'' = ''192.0.2.7''" "normalizeSocks5UDPIP ''192.0.2.7:5001'' = ''192.0.2.7''" by code_simp+
  then show ?thesis
    using two_associates_starve [of "''192.0.2.7:5000''" "''192.0.2.7:5001''"] unfolding sample_associate_def by simp
qed

end
