(* ===== verification/Conn_History.thy ===== *)
theory Conn_History
  imports Go_Std
begin

text \<open>
  The bounded history of connections that every client record keeps (\<open>lib/file/connection_history.go\<close>): recording of
  online and offline transitions, trimming to the configured number of sessions, and restoring from the stored file.
  The mutex makes every operation atomic; the time stamp of a transition is the formatted text of its moment.
\<close>

record connection_event =
  OnlineTime :: string
  OfflineTime :: string

record connection_history =
  events :: "connection_event list"
  online :: bool

definition newHistory :: connection_history where "newHistory = \<lparr>events = [], online = False\<rparr>"

definition SetConnectionHistoryLimit :: "int \<Rightarrow> int" where
  "SetConnectionHistoryLimit limit = (let l = (if limit < 0 then 0 else limit) in if l > 100 then 100 else l)"

definition trimLocked :: "int \<Rightarrow> connection_history \<Rightarrow> connection_history" where
  "trimLocked limit h =
     (if limit = 0 then h\<lparr>events := []\<rparr>
      else if int (length (events h)) > limit then h\<lparr>events := drop (nat (int (length (events h)) - limit)) (events h)\<rparr>
      else h)"

text \<open>The body of \<open>record\<close> between its two trims: a transition opens a session or closes the last one.\<close>

definition note_transition :: "bool \<Rightarrow> string \<Rightarrow> connection_history \<Rightarrow> connection_history" where
  "note_transition up stamp h =
     (let h = h\<lparr>online := up\<rparr> in
      if up then h\<lparr>events := events h @ [\<lparr>OnlineTime = stamp, OfflineTime = []\<rparr>]\<rparr>
      else if events h \<noteq> [] then h\<lparr>events := (events h)[length (events h) - 1 := (last (events h))\<lparr>OfflineTime := stamp\<rparr>]\<rparr>
      else h)"

definition record_transition :: "int \<Rightarrow> bool \<Rightarrow> string \<Rightarrow> connection_history \<Rightarrow> connection_history" where
  "record_transition limit up stamp h =
     (let h = trimLocked limit h in
      if limit = 0 \<or> online h = up then h\<lparr>online := up\<rparr>
      else trimLocked limit (note_transition up stamp h))"

definition history_snapshot :: "int \<Rightarrow> connection_history \<Rightarrow> connection_event list \<times> connection_history" where
  "history_snapshot limit h = (let h = trimLocked limit h in (events h, h))"

text \<open>The decoded items of the stored file: the current format, and the older one with single transitions.\<close>

record stored_item =
  sOnlineTime :: string
  sOfflineTime :: string
  sTime :: string
  sOnline :: bool

fun restore_items :: "connection_event list \<Rightarrow> stored_item list \<Rightarrow> connection_event list" where
  "restore_items evs [] = evs"
| "restore_items evs (i # is) =
     (if sOnlineTime i \<noteq> [] then restore_items (evs @ [\<lparr>OnlineTime = sOnlineTime i, OfflineTime = sOfflineTime i\<rparr>]) is
      else if sTime i \<noteq> [] \<and> sOnline i then restore_items (evs @ [\<lparr>OnlineTime = sTime i, OfflineTime = []\<rparr>]) is
      else if sTime i \<noteq> [] \<and> evs \<noteq> []
        then restore_items (evs[length evs - 1 := (last evs)\<lparr>OfflineTime := sTime i\<rparr>]) is
      else restore_items evs is)"

definition UnmarshalJSON :: "int \<Rightarrow> stored_item list \<Rightarrow> connection_history" where
  "UnmarshalJSON limit items = (trimLocked limit \<lparr>events = restore_items [] items, online = True\<rparr>)\<lparr>online := False\<rparr>"

text \<open>\<open>RecordConnection\<close> of the client with the given id; its history may be absent.\<close>

definition RecordConnection :: "int \<Rightarrow> int \<Rightarrow> bool \<Rightarrow> string \<Rightarrow> connection_history option \<Rightarrow> connection_history option" where
  "RecordConnection limit cid up stamp hist = (if cid \<le> 0 then hist else map_option (record_transition limit up stamp) hist)"

subsection \<open>Properties\<close>

text \<open>The newest \<open>k\<close> elements of a list.\<close>

definition newest :: "nat \<Rightarrow> 'a list \<Rightarrow> 'a list" where "newest k xs = drop (length xs - k) xs"

lemma newest_append1: "k > 0 \<Longrightarrow> newest k (newest k xs @ [x]) = newest k (xs @ [x])"
  by (cases "k \<le> length xs") (auto simp: newest_def Suc_diff_le)

lemma newest_idem [simp]: "newest k (newest k xs) = newest k xs"
  by (auto simp: newest_def)

lemma newest_eq_Nil [simp]: "k > 0 \<Longrightarrow> newest k xs = [] \<longleftrightarrow> xs = []"
  by (cases xs) (auto simp: newest_def)

lemma last_newest [simp]: "k > 0 \<Longrightarrow> last (newest k xs) = last xs"
  by (cases "xs = []") (auto simp: newest_def last_drop)

lemma length_newest [simp]: "length (newest k xs) = min k (length xs)"
  by (auto simp: newest_def)

lemma newest_update_last:
  "k > 0 \<Longrightarrow> newest k ((newest k xs)[min k (length xs) - Suc 0 := v]) = newest k (xs[length xs - Suc 0 := v])"
  by (cases "k \<le> length xs") (auto simp: newest_def drop_update_swap min_def)

lemma trim_newest: "limit \<ge> 0 \<Longrightarrow> trimLocked limit h = h\<lparr>events := newest (nat limit) (events h)\<rparr>"
  by (cases h) (auto simp: trimLocked_def newest_def intro!: arg_cong2 [where f = drop])

text \<open>What the bridge relies on: after a report the log shows the reported state, whatever it keeps of the past.\<close>

locale presence_log =
  fixes report :: "bool \<Rightarrow> string \<Rightarrow> 'h \<Rightarrow> 'h" and shown :: "'h \<Rightarrow> bool"
  assumes shown_report: "shown (report up stamp h) = up"
begin

lemma shown_reports: "shown (fold (\<lambda>(up, stamp). report up stamp) ts h) = (if ts = [] then shown h else fst (last ts))"
  by (induction ts rule: rev_induct) (auto simp: shown_report split: prod.split)

end

interpretation kept: presence_log "record_transition limit" online for limit
  by unfold_locales (simp add: record_transition_def note_transition_def trimLocked_def Let_def)

text \<open>The complete history: what \<open>record\<close> would keep if it never trimmed.\<close>

definition record_complete :: "bool \<Rightarrow> string \<Rightarrow> connection_history \<Rightarrow> connection_history" where
  "record_complete up stamp h = (if online h = up then h else note_transition up stamp h)"

lemma record_simulates:
  assumes "limit > 0"
  shows "record_transition limit up stamp (h\<lparr>events := newest (nat limit) (events h)\<rparr>)
       = (let c = record_complete up stamp h in c\<lparr>events := newest (nat limit) (events c)\<rparr>)"
  using assms
  by (cases h) (auto simp: record_transition_def record_complete_def note_transition_def Let_def trim_newest newest_append1 newest_update_last)

text \<open>Whatever transitions the bridge reports, the stored history of a client is exactly the newest \<open>limit\<close>
sessions of its complete history: trimming on every change loses nothing but the oldest sessions and never attaches an
offline time to a session other than the one it ends.\<close>

theorem history_is_recent_tail:
  assumes "limit > 0"
  shows "events (fold (\<lambda>(up, stamp). record_transition limit up stamp) ts newHistory)
       = newest (nat limit) (events (fold (\<lambda>(up, stamp). record_complete up stamp) ts newHistory))"
proof -
  have "fold (\<lambda>(up, stamp). record_transition limit up stamp) ts (h\<lparr>events := newest (nat limit) (events h)\<rparr>)
      = (let c = fold (\<lambda>(up, stamp). record_complete up stamp) ts h in c\<lparr>events := newest (nat limit) (events c)\<rparr>)" for h
  proof (induction ts arbitrary: h)
    case (Cons t ts)
    show ?case by (cases t) (simp add: record_simulates [OF assms] Let_def Cons.IH [unfolded Let_def])
  qed (simp add: Let_def)
  from this [of newHistory] show ?thesis by (simp add: newHistory_def newest_def Let_def)
qed

lemma history_is_recent_tail_witness:
  "events (fold (\<lambda>(up, stamp). record_transition 1 up stamp) [(True, ''a''), (False, ''b''), (True, ''c'')] newHistory)
     = newest 1 (events (fold (\<lambda>(up, stamp). record_complete up stamp) [(True, ''a''), (False, ''b''), (True, ''c'')] newHistory))
   \<and> events (fold (\<lambda>(up, stamp). record_transition 1 up stamp) [(True, ''a''), (False, ''b''), (True, ''c'')] newHistory)
     = [\<lparr>OnlineTime = ''c'', OfflineTime = []\<rparr>]"
  using history_is_recent_tail [of 1 "[(True, ''a''), (False, ''b''), (True, ''c'')]"]
  by (simp add: newHistory_def record_transition_def note_transition_def record_complete_def trimLocked_def newest_def Let_def)

text \<open>An open session is always the last one: an online client has no closed last session.\<close>

definition history_ok :: "int \<Rightarrow> connection_history \<Rightarrow> bool" where
  "history_ok limit h \<longleftrightarrow> int (length (events h)) \<le> limit
     \<and> (online h \<longrightarrow> events h = [] \<or> OfflineTime (last (events h)) = [])"

lemma record_keeps_ok:
  assumes "limit \<ge> 0" "online h \<longrightarrow> events h = [] \<or> OfflineTime (last (events h)) = []"
  shows "history_ok limit (record_transition limit up stamp h)"
  using assms
  by (cases "limit = 0")
     (auto simp: history_ok_def record_transition_def note_transition_def Let_def trim_newest newest_def last_drop)

lemma restored_ok: "limit \<ge> 0 \<Longrightarrow> history_ok limit (UnmarshalJSON limit items)"
  by (auto simp: history_ok_def UnmarshalJSON_def trim_newest)

end
