(* ===== verification/Bridge_Table.thy ===== *)
theory Bridge_Table
  imports Conn_History "HOL-Library.AList" "HOL-Library.Multiset"
begin

text \<open>
  The sessions of connected clients in \<open>bridge/bridge.go\<close>. The bridge maps a client id to a root \<open>Client\<close> object; the root
  lists the session objects of that client (itself among them), one per running NPC process, and each session object
  holds up to one control connection (\<open>signal\<close>), one data multiplexer (\<open>tunnel\<close>), one file multiplexer and one multiplexer
  per keyed file channel. Objects live in a store and are named by pointers, because the map, the session lists, the
  ping pass and the handlers share them. Everything done under \<open>clientsMu\<close> is one operation; what happens after the lock
  is released (the answer of the client to the identity request, the deletions a ping pass collected) is an operation
  of its own, so that other operations come in between.

  A connection and a multiplexer are named by numbers. The log \<open>closed\<close> holds the calls of \<open>Close\<close> in order, \<open>opened\<close>
  the connections handed to the session table; \<open>dead\<close> are multiplexers whose peer has gone. \<open>clientRecords\<close> stands for the
  client database: absent is a failing \<open>GetClient\<close>. The event log and the reads and writes on the connections are not
  part of the state.
\<close>

type_synonym cptr = nat

datatype resource = Sig nat | Mx nat

record client_identity =
  InstanceID :: string
  Hostname :: string
  OS :: string
  Arch :: string
  LocalIPs :: "string list"
  StartedAt :: string

definition noIdentity :: client_identity where
  "noIdentity = \<lparr>InstanceID = [], Hostname = [], OS = [], Arch = [], LocalIPs = [], StartedAt = []\<rparr>"

record bclient =
  tunnel :: "nat option"
  signal :: "nat option"
  file_mux :: "nat option"
  fileChannels :: "(string \<times> nat) list"
  cVersion :: string
  Transport :: string
  Instance :: client_identity
  RemoteAddr :: string
  ConnectedAt :: string
  retryTime :: i32
  parent :: "cptr option"
  sessions :: "cptr list"
  selectSeq :: u64

datatype runtime_entry = Root cptr | MalformedEntry

record bridge =
  objects :: "cptr \<Rightarrow> bclient"
  nextPtr :: cptr
  ClientMap :: "int \<Rightarrow> runtime_entry option"
  bare :: "nat list"
  dead :: "nat list"
  opened :: "resource list"
  closed :: "resource list"
  clientRecords :: "int \<Rightarrow> connection_history option option"
  historyLimit :: int
  pubClient :: "int \<Rightarrow> bool"
  CloseClient :: "int list"
  selectMode :: int
  tunnelType :: string

text \<open>Access to objects, \<open>IsClose\<close> of a multiplexer, and the test \<open>signal.Conn != nil\<close>.\<close>

definition modify :: "cptr \<Rightarrow> (bclient \<Rightarrow> bclient) \<Rightarrow> bridge \<Rightarrow> bridge" where
  "modify a f b = b\<lparr>objects := (objects b)(a := f (objects b a))\<rparr>"

definition IsClose :: "bridge \<Rightarrow> nat \<Rightarrow> bool" where
  "IsClose b m \<longleftrightarrow> m \<in> set (dead b) \<or> Mx m \<in> set (closed b)"

definition has_conn :: "bridge \<Rightarrow> nat option \<Rightarrow> bool" where
  "has_conn b s = (case s of None \<Rightarrow> False | Some n \<Rightarrow> n \<notin> set (bare b))"

definition live_mux :: "bridge \<Rightarrow> nat option \<Rightarrow> bool" where
  "live_mux b m = (case m of None \<Rightarrow> False | Some n \<Rightarrow> \<not> IsClose b n)"

definition NewSession :: "nat option \<Rightarrow> nat option \<Rightarrow> nat option \<Rightarrow> string \<Rightarrow> bclient" where
  "NewSession t f s vs = \<lparr>tunnel = t, signal = s, file_mux = f, fileChannels = [], cVersion = vs, Transport = [],
     Instance = noIdentity, RemoteAddr = [], ConnectedAt = [], retryTime = 0, parent = None, sessions = [], selectSeq = 0\<rparr>"

definition ensureClientSessions :: "cptr \<Rightarrow> bridge \<Rightarrow> bridge" where
  "ensureClientSessions r b = (if sessions (objects b r) = [] then modify r (sessions_update (\<lambda>_. [r])) b else b)"

definition sessionHasResource :: "bridge \<Rightarrow> cptr \<Rightarrow> string \<Rightarrow> bool" where
  "sessionHasResource b s res =
     (let c = objects b s in
      if res = ''signal'' then has_conn b (signal c)
      else if res = ''tunnel'' then live_mux b (tunnel c)
      else if res = ''file'' then live_mux b (file_mux c)
      else if res = ''online'' then has_conn b (signal c) \<and> live_mux b (tunnel c)
      else if HasPrefix res ''file:'' then live_mux b (map_of (fileChannels c) (TrimPrefix res ''file:''))
      else True)"

subsection \<open>Selection of a session\<close>

definition Primary :: int where "Primary = 0"
definition RoundRobin :: int where "RoundRobin = 1"
definition Random :: int where "Random = 2"

text \<open>The texts \<open>strconv.Atoi\<close> reads as 0, 1 or 2 are an optional sign and leading zeros; larger texts are no mode.\<close>

definition small_number :: "string \<Rightarrow> int option" where
  "small_number t =
     (let (neg, ds) = (case t of [] \<Rightarrow> (False, []) | c # cs \<Rightarrow> if c = CHR ''-'' then (True, cs) else if c = CHR ''+'' then (False, cs) else (False, t)) in
      if ds = [] \<or> \<not> list_all is_digit ds then None else Some (if neg then - dec_val ds else dec_val ds))"

definition SetClientSelectMode :: "string \<Rightarrow> bridge \<Rightarrow> bool \<times> bridge" where
  "SetClientSelectMode v b =
     (let t = ToLower (TrimSpace v) in
      if t \<in> {[], ''primary'', ''p'', ''0''} then (True, b\<lparr>selectMode := Primary\<rparr>)
      else if t \<in> {''roundrobin'', ''round-robin'', ''round'', ''rr'', ''1''} then (True, b\<lparr>selectMode := RoundRobin\<rparr>)
      else if t \<in> {''random'', ''rand'', ''2''} then (True, b\<lparr>selectMode := Random\<rparr>)
      else case small_number t of
        Some n \<Rightarrow> if n \<ge> Primary \<and> n \<le> Random then (True, b\<lparr>selectMode := n\<rparr>) else (False, b\<lparr>selectMode := Primary\<rparr>)
      | None \<Rightarrow> (False, b\<lparr>selectMode := Primary\<rparr>))"

definition ClientSelectMode :: "bridge \<Rightarrow> int" where
  "ClientSelectMode b = (if selectMode b < Primary \<or> selectMode b > Random then Primary else selectMode b)"

text \<open>\<open>rnd\<close> is \<open>rand.Intn\<close>; the counter is incremented atomically and its old value, modulo the number of candidates, chosen.\<close>

definition selectSession :: "(nat \<Rightarrow> nat) \<Rightarrow> int \<Rightarrow> string \<Rightarrow> bridge \<Rightarrow> cptr option \<times> bridge" where
  "selectSession rnd i res b = (case ClientMap b i of
     Some (Root r) \<Rightarrow>
       (let b = ensureClientSessions r b;
            candidates = filter (\<lambda>s. sessionHasResource b s res) (sessions (objects b r)) in
        if candidates = [] then (None, b)
        else if ClientSelectMode b = Random then (Some (candidates ! rnd (length candidates)), b)
        else if ClientSelectMode b = RoundRobin then
          (let index = selectSeq (objects b r) in
           (Some (candidates ! (unat index mod length candidates)), modify r (selectSeq_update (\<lambda>q. q + 1)) b))
        else (Some (candidates ! 0), b))
   | _ \<Rightarrow> (None, b))"

subsection \<open>Placing a new connection\<close>

definition add_variant :: "cptr \<Rightarrow> string \<Rightarrow> bridge \<Rightarrow> cptr \<times> bridge" where
  "add_variant r vs b =
     (let v = nextPtr b;
          b = b\<lparr>objects := (objects b)(v := (NewSession None None None vs)\<lparr>parent := Some r\<rparr>), nextPtr := v + 1\<rparr> in
      (v, modify r (sessions_update (\<lambda>ss. ss @ [v])) b))"

definition slot_free :: "string \<Rightarrow> bridge \<Rightarrow> cptr \<Rightarrow> bool" where
  "slot_free res b s =
     (let c = objects b s in
      if res = ''signal'' then \<not> has_conn b (signal c)
      else if res = ''tunnel'' then tunnel c = None
      else if res = ''file'' then file_mux c = None
      else False)"

definition waiting_signal :: "string \<Rightarrow> bridge \<Rightarrow> cptr \<Rightarrow> bool" where
  "waiting_signal res b s = (has_conn b (signal (objects b s))
     \<and> (if res = ''tunnel'' then tunnel (objects b s) = None else file_mux (objects b s) = None))"

definition sessionForLocked :: "cptr \<Rightarrow> string \<Rightarrow> string \<Rightarrow> bridge \<Rightarrow> cptr \<times> bridge" where
  "sessionForLocked r res vs b =
     (let b = ensureClientSessions r b; ss = sessions (objects b r);
          paired = (if res = ''tunnel'' \<or> res = ''file'' then find (waiting_signal res b) (rev ss) else None) in
      case paired of Some s \<Rightarrow> (s, b)
      | None \<Rightarrow> (case find (slot_free res b) ss of Some s \<Rightarrow> (s, b) | None \<Rightarrow> add_variant r vs b))"

definition channel_free :: "string \<Rightarrow> bridge \<Rightarrow> cptr \<Rightarrow> bool" where
  "channel_free key b s = (case map_of (fileChannels (objects b s)) key of None \<Rightarrow> True | Some m \<Rightarrow> IsClose b m)"

definition sessionForFileChannelLocked :: "cptr \<Rightarrow> string \<Rightarrow> string \<Rightarrow> bridge \<Rightarrow> cptr \<times> bridge" where
  "sessionForFileChannelLocked r key vs b =
     (let b = ensureClientSessions r b in
      case find (channel_free key b) (rev (sessions (objects b r))) of Some s \<Rightarrow> (s, b) | None \<Rightarrow> add_variant r vs b)"

subsection \<open>Recording and closing\<close>

definition recordClientConnection :: "int \<Rightarrow> bool \<Rightarrow> string \<Rightarrow> bridge \<Rightarrow> bridge" where
  "recordClientConnection i up stamp b = (case clientRecords b i of None \<Rightarrow> b
     | Some hist \<Rightarrow> b\<lparr>clientRecords := (clientRecords b)(i \<mapsto> RecordConnection (historyLimit b) i up stamp hist)\<rparr>)"

definition close_all :: "resource list \<Rightarrow> bridge \<Rightarrow> bridge" where
  "close_all rs b = b\<lparr>closed := closed b @ rs\<rparr>"

definition closeClientCapacity :: nat where "closeClientCapacity = 128"

definition notify_offline :: "int \<Rightarrow> bridge \<Rightarrow> bridge" where
  "notify_offline i b =
     (if pubClient b i \<or> clientRecords b i = None then b
      else if length (CloseClient b) < closeClientCapacity then b\<lparr>CloseClient := CloseClient b @ [i]\<rparr> else b)"

definition opt_list :: "'a option \<Rightarrow> 'a list" where "opt_list x = (case x of None \<Rightarrow> [] | Some y \<Rightarrow> [y])"

text \<open>Detaching the resources of a session; the deletion by signal and by id also forget who was connected.\<close>

definition clearFileChannelsLocked :: "bclient \<Rightarrow> nat list \<times> bclient" where
  "clearFileChannelsLocked c = (map snd (fileChannels c), c\<lparr>fileChannels := []\<rparr>)"

definition detached :: "bool \<Rightarrow> bclient \<Rightarrow> bclient" where
  "detached wipe c =
     (let c = (snd (clearFileChannelsLocked c))\<lparr>signal := None, tunnel := None, file_mux := None\<rparr> in
      if wipe then c\<lparr>Instance := noIdentity, RemoteAddr := [], ConnectedAt := []\<rparr> else c)"

type_synonym haul = "nat list \<times> nat list \<times> nat list"

definition take_session :: "bool \<Rightarrow> cptr \<Rightarrow> haul \<times> bridge \<Rightarrow> haul \<times> bridge" where
  "take_session wipe s = (\<lambda>((sg, tn, fl), b).
     (let c = objects b s in
      ((sg @ opt_list (signal c), tn @ opt_list (tunnel c), fl @ opt_list (file_mux c) @ fst (clearFileChannelsLocked c)),
       modify s (detached wipe) b)))"

definition close_haul :: "haul \<Rightarrow> bridge \<Rightarrow> bridge" where
  "close_haul = (\<lambda>(sg, tn, fl). close_all (map Sig sg @ map Mx tn @ map Mx fl))"

subsection \<open>Removing sessions\<close>

definition findClientSession :: "cptr \<Rightarrow> cptr \<Rightarrow> bridge \<Rightarrow> cptr option \<times> bridge" where
  "findClientSession r wanted b = (let b = ensureClientSessions r b in (find (\<lambda>s. s = wanted) (sessions (objects b r)), b))"

definition findClientSessionBySignal :: "cptr \<Rightarrow> nat \<Rightarrow> bridge \<Rightarrow> cptr option \<times> bridge" where
  "findClientSessionBySignal r sg b =
     (let b = ensureClientSessions r b in (find (\<lambda>s. signal (objects b s) = Some sg) (sessions (objects b r)), b))"

definition removeClientSession :: "cptr \<Rightarrow> cptr \<Rightarrow> bridge \<Rightarrow> bridge" where
  "removeClientSession r target b = (if target = r then b else modify r (sessions_update (remove1 target)) b)"

definition clientHasSignal :: "cptr \<Rightarrow> bridge \<Rightarrow> bool \<times> bridge" where
  "clientHasSignal r b =
     (let b = ensureClientSessions r b in (list_ex (\<lambda>s. has_conn b (signal (objects b s))) (sessions (objects b r)), b))"

text \<open>The last block of both deletions: without any control connection left, everything that remains goes too.\<close>

definition drop_root :: "bool \<Rightarrow> int \<Rightarrow> cptr \<Rightarrow> string \<Rightarrow> haul \<times> bridge \<Rightarrow> haul \<times> bridge" where
  "drop_root wipe i r stamp = (\<lambda>(bd, b).
     (let (bd, b) = fold (take_session wipe) (sessions (objects b r)) (bd, b);
          b = modify r (sessions_update (\<lambda>_. [])) b;
          b = recordClientConnection i False stamp b in
      (bd, b\<lparr>ClientMap := (ClientMap b)(i := None)\<rparr>)))"

definition delClient_all :: "int \<Rightarrow> string \<Rightarrow> bridge \<Rightarrow> bridge" where
  "delClient_all i stamp b = (case ClientMap b i of
     None \<Rightarrow> b
   | Some MalformedEntry \<Rightarrow> b\<lparr>ClientMap := (ClientMap b)(i := None)\<rparr>
   | Some (Root r) \<Rightarrow>
       (let (bd, b) = drop_root True i r stamp (([], [], []), ensureClientSessions r b) in
        notify_offline i (close_haul bd b)))"

definition delClient_signal :: "int \<Rightarrow> nat \<Rightarrow> string \<Rightarrow> bridge \<Rightarrow> bridge" where
  "delClient_signal i sg stamp b = (case ClientMap b i of
     None \<Rightarrow> b
   | Some MalformedEntry \<Rightarrow> b\<lparr>ClientMap := (ClientMap b)(i := None)\<rparr>
   | Some (Root r) \<Rightarrow>
       (case findClientSessionBySignal r sg (ensureClientSessions r b) of
          (None, b) \<Rightarrow> b
        | (Some s, b) \<Rightarrow>
            (let (bd, b) = take_session True s (([], [], []), b);
                 b = removeClientSession r s b;
                 (up, b) = clientHasSignal r b in
             if up then close_haul bd b
             else (let (bd, b) = drop_root False i r stamp (bd, b) in notify_offline i (close_haul bd b)))))"

definition delClient :: "int \<Rightarrow> nat option \<Rightarrow> string \<Rightarrow> bridge \<Rightarrow> bridge" where
  "delClient i sg stamp b = (case sg of None \<Rightarrow> delClient_all i stamp b | Some s \<Rightarrow> delClient_signal i s stamp b)"

record session_snapshot =
  snClient :: cptr
  snSignal :: "nat option"
  snTunnel :: "nat option"
  snFile :: "nat option"

definition snapshot_current :: "bridge \<Rightarrow> session_snapshot \<Rightarrow> bool" where
  "snapshot_current b sn = (let c = objects b (snClient sn) in
     signal c = snSignal sn \<and> tunnel c = snTunnel sn \<and> file_mux c = snFile sn)"

text \<open>The closing order differs from \<open>delClient\<close>: first the connections of the session, then those that remained, with the
keyed channels of the session at the head of the remaining files.\<close>

definition delClientIfSnapshot :: "int \<Rightarrow> session_snapshot \<Rightarrow> string \<Rightarrow> bridge \<Rightarrow> bridge" where
  "delClientIfSnapshot i sn stamp b = (case ClientMap b i of
     Some (Root r) \<Rightarrow>
       (case findClientSession r (snClient sn) (ensureClientSessions r b) of
          (None, b) \<Rightarrow> b
        | (Some s, b) \<Rightarrow>
            if \<not> snapshot_current b sn then b
            else
              (let c = objects b s; own = map Sig (opt_list (signal c)) @ map Mx (opt_list (tunnel c) @ opt_list (file_mux c));
                   rest = ([], [], fst (clearFileChannelsLocked c));
                   b = modify s (detached False) b;
                   b = removeClientSession r s b;
                   (up, b) = clientHasSignal r b in
               if up then close_haul rest (close_all own b)
               else (let (rest, b) = drop_root False i r stamp (rest, b) in
                     notify_offline i (close_haul rest (close_all own b)))))
   | _ \<Rightarrow> b)"

definition DisconnectClientInstance :: "int \<Rightarrow> string \<Rightarrow> string \<Rightarrow> bridge \<Rightarrow> bool \<times> bridge" where
  "DisconnectClientInstance i inst stamp b =
     (let inst = TrimSpace inst in
      if inst = [] then (False, b)
      else case ClientMap b i of
        Some (Root r) \<Rightarrow>
          (let b = ensureClientSessions r b in
           case find (\<lambda>s. TrimSpace (InstanceID (Instance (objects b s))) = inst \<and> signal (objects b s) \<noteq> None)
                  (sessions (objects b r)) of
             None \<Rightarrow> (False, b)
           | Some s \<Rightarrow> (True, delClient i (signal (objects b s)) stamp b))
      | _ \<Rightarrow> (False, b))"

subsection \<open>Connections arriving\<close>

definition normalizeBridgeTransport :: "string \<Rightarrow> string" where
  "normalizeBridgeTransport t =
     (if ToLower (TrimSpace t) \<in> {''tcp'', ''tls'', ''kcp'', ''ws'', ''wss'', ''quic'', ''http3''}
      then ToLower (TrimSpace t) else ''tcp'')"

definition alloc :: "bclient \<Rightarrow> bridge \<Rightarrow> cptr \<times> bridge" where
  "alloc c b = (let r = nextPtr b in (r, ensureClientSessions r (b\<lparr>objects := (objects b)(r := c), nextPtr := r + 1\<rparr>)))"

definition store_root :: "int \<Rightarrow> bclient \<Rightarrow> bridge \<Rightarrow> cptr \<times> bridge" where
  "store_root i c b = (let (r, b) = alloc c b in (r, b\<lparr>ClientMap := (ClientMap b)(i \<mapsto> Root r)\<rparr>))"

definition announce :: "resource \<Rightarrow> bridge \<Rightarrow> bridge" where
  "announce x b = b\<lparr>opened := opened b @ [x]\<rparr>"

text \<open>A control connection up to the identity request: \<open>remote\<close> is the address of the peer, \<open>stamp\<close> the current time.
A public client is refused and its connection closed.\<close>

definition set_main :: "nat \<Rightarrow> string \<Rightarrow> string \<Rightarrow> string \<Rightarrow> string \<Rightarrow> bclient \<Rightarrow> bclient" where
  "set_main c vs transport remote stamp s =
     s\<lparr>signal := Some c, cVersion := vs, Transport := normalizeBridgeTransport transport, RemoteAddr := remote, ConnectedAt := stamp\<rparr>"

definition typeDeal_main :: "int \<Rightarrow> nat \<Rightarrow> string \<Rightarrow> string \<Rightarrow> string \<Rightarrow> string \<Rightarrow> bridge \<Rightarrow> cptr option \<times> bridge" where
  "typeDeal_main i c vs transport remote stamp b0 =
     (let b = announce (Sig c) b0 in
      if pubClient b i then (None, close_all [Sig c] b)
      else
        (let fresh = (NewSession None None (Some c) vs)\<lparr>Transport := normalizeBridgeTransport transport, RemoteAddr := remote, ConnectedAt := stamp\<rparr>;
             (selected, old, wasOnline, b) = (case ClientMap b i of
                Some (Root r) \<Rightarrow>
                  (let b = ensureClientSessions r b;
                       was = list_ex (\<lambda>s. signal (objects b s) \<noteq> None) (sessions (objects b r));
                       (s, b) = sessionForLocked r ''signal'' vs b in
                   (s, signal (objects b s), was, modify s (set_main c vs transport remote stamp) b))
              | Some MalformedEntry \<Rightarrow> (let (s, b) = store_root i fresh (b\<lparr>ClientMap := (ClientMap b)(i := None)\<rparr>) in (s, None, False, b))
              | None \<Rightarrow> (let (s, b) = store_root i fresh b in (s, None, False, b)));
             b = (if wasOnline then b else recordClientConnection i True stamp b);
             b = (case old of Some n \<Rightarrow> if n \<noteq> c then close_all [Sig n] b else b | None \<Rightarrow> b) in
         (Some selected, b)))"

text \<open>The answer to the identity request arrives later; it counts only while the connection is still the one of the session.\<close>

definition store_identity :: "cptr \<Rightarrow> nat \<Rightarrow> client_identity \<Rightarrow> bridge \<Rightarrow> bridge" where
  "store_identity s c ident b =
     (if InstanceID ident \<noteq> [] \<and> signal (objects b s) = Some c then modify s (Instance_update (\<lambda>_. ident)) b else b)"

definition set_chan :: "nat \<Rightarrow> string \<Rightarrow> string \<Rightarrow> bclient \<Rightarrow> bclient" where
  "set_chan m vs transport s =
     (let s = s\<lparr>tunnel := Some m\<rparr>; s = (if cVersion s = [] then s\<lparr>cVersion := vs\<rparr> else s) in
      if Transport s = [] then s\<lparr>Transport := normalizeBridgeTransport transport\<rparr> else s)"

definition close_old :: "nat option \<Rightarrow> bridge \<Rightarrow> bridge" where
  "close_old old b = (case old of Some n \<Rightarrow> close_all [Mx n] b | None \<Rightarrow> b)"

definition typeDeal_chan :: "int \<Rightarrow> nat \<Rightarrow> string \<Rightarrow> string \<Rightarrow> bridge \<Rightarrow> bridge" where
  "typeDeal_chan i m vs transport b0 =
     (let b = announce (Mx m) b0;
          fresh = (NewSession (Some m) None None vs)\<lparr>Transport := normalizeBridgeTransport transport\<rparr>;
          (old, b) = (case ClientMap b i of
             Some (Root r) \<Rightarrow> (let (s, b) = sessionForLocked r ''tunnel'' vs b in (tunnel (objects b s), modify s (set_chan m vs transport) b))
           | Some MalformedEntry \<Rightarrow> (None, snd (store_root i fresh (b\<lparr>ClientMap := (ClientMap b)(i := None)\<rparr>)))
           | None \<Rightarrow> (None, snd (store_root i fresh b))) in
      close_old old b)"

definition set_file :: "nat \<Rightarrow> string \<Rightarrow> bclient \<Rightarrow> bclient" where
  "set_file m vs s = (let s = s\<lparr>file_mux := Some m\<rparr> in if cVersion s = [] then s\<lparr>cVersion := vs\<rparr> else s)"

definition typeDeal_file :: "int \<Rightarrow> nat \<Rightarrow> string \<Rightarrow> bridge \<Rightarrow> bridge" where
  "typeDeal_file i m vs b0 =
     (let b = announce (Mx m) b0;
          fresh = NewSession None (Some m) None vs;
          (old, b) = (case ClientMap b i of
             Some (Root r) \<Rightarrow> (let (s, b) = sessionForLocked r ''file'' vs b in (file_mux (objects b s), modify s (set_file m vs) b))
           | Some MalformedEntry \<Rightarrow> (None, snd (store_root i fresh (b\<lparr>ClientMap := (ClientMap b)(i := None)\<rparr>)))
           | None \<Rightarrow> (None, snd (store_root i fresh b))) in
      close_old old b)"

definition set_channel :: "string \<Rightarrow> nat \<Rightarrow> string \<Rightarrow> bclient \<Rightarrow> bclient" where
  "set_channel key m vs s =
     (let s = s\<lparr>fileChannels := AList.update key m (fileChannels s)\<rparr> in if cVersion s = [] then s\<lparr>cVersion := vs\<rparr> else s)"

text \<open>A keyed file channel whose key has been checked.\<close>

definition typeDeal_keyed :: "int \<Rightarrow> string \<Rightarrow> nat \<Rightarrow> string \<Rightarrow> bridge \<Rightarrow> bridge" where
  "typeDeal_keyed i key m vs b0 =
     (let b = announce (Mx m) b0;
          (old, b) = (case ClientMap b i of
             Some (Root r) \<Rightarrow>
               (let (s, b) = sessionForFileChannelLocked r key vs b in
                (map_of (fileChannels (objects b s)) key, modify s (set_channel key m vs) b))
           | Some MalformedEntry \<Rightarrow>
               (None, snd (store_root i ((NewSession None (Some m) None vs)\<lparr>fileChannels := [(key, m)]\<rparr>) (b\<lparr>ClientMap := (ClientMap b)(i := None)\<rparr>)))
           | None \<Rightarrow> (None, snd (store_root i ((NewSession None None None vs)\<lparr>fileChannels := [(key, m)]\<rparr>) b))) in
      case old of Some n \<Rightarrow> if n \<noteq> m then close_all [Mx n] b else b | None \<Rightarrow> b)"

text \<open>The entry stored for a client that a public configuration connection has just created.\<close>

definition store_new_client :: "int \<Rightarrow> bridge \<Rightarrow> bridge" where
  "store_new_client i b =
     b\<lparr>objects := (objects b)(nextPtr b := NewSession None None None []), ClientMap := (ClientMap b)(i \<mapsto> Root (nextPtr b)),
       nextPtr := nextPtr b + 1\<rparr>"

subsection \<open>The ping pass\<close>

text \<open>One session of a pass: the snapshot it takes, and whether the session is to be deleted. A missing control or data
connection is tolerated twice; a closed multiplexer is not.\<close>

definition take_snapshot :: "bridge \<Rightarrow> cptr \<Rightarrow> session_snapshot" where
  "take_snapshot b s = (let c = objects b s in \<lparr>snClient = s, snSignal = signal c, snTunnel = tunnel c, snFile = file_mux c\<rparr>)"

definition ping_session :: "cptr \<Rightarrow> bridge \<Rightarrow> session_snapshot option \<times> bridge" where
  "ping_session s b =
     (let c = objects b s; sn = take_snapshot b s;
          isClose = (case tunnel c of None \<Rightarrow> False | Some m \<Rightarrow> IsClose b m);
          healthy = (tunnel c \<noteq> None \<and> signal c \<noteq> None \<and> \<not> isClose) in
      if healthy then (None, modify s (retryTime_update (\<lambda>_. 0)) b)
      else if tunnel c = None \<or> signal c = None then
        (let b = modify s (retryTime_update (\<lambda>n. n + 1)) b in
         (if sint (retryTime (objects b s)) \<ge> 3 then Some sn else None, b))
      else if isClose then (Some sn, b)
      else (None, b))"

fun ping_sessions :: "int \<Rightarrow> cptr list \<Rightarrow> bridge \<Rightarrow> (int \<times> session_snapshot) list \<times> bridge" where
  "ping_sessions i [] b = ([], b)"
| "ping_sessions i (s # ss) b =
     (let (x, b) = ping_session s b; (xs, b) = ping_sessions i ss b in (map (Pair i) (opt_list x) @ xs, b))"

fun ping_collect :: "int list \<Rightarrow> bridge \<Rightarrow> (int \<times> session_snapshot) list \<times> bridge" where
  "ping_collect [] b = ([], b)"
| "ping_collect (i # is) b = (case ClientMap b i of
     Some (Root r) \<Rightarrow>
       (let b = ensureClientSessions r b; (xs, b) = ping_sessions i (sessions (objects b r)) b; (ys, b) = ping_collect is b in (xs @ ys, b))
   | _ \<Rightarrow> ping_collect is b)"

definition ping_pass :: "int list \<Rightarrow> string \<Rightarrow> bridge \<Rightarrow> bridge" where
  "ping_pass is stamp b = (let (xs, b) = ping_collect is b in fold (\<lambda>(i, sn). delClientIfSnapshot i sn stamp) xs b)"

subsection \<open>What the console sees\<close>

definition TransportSnapshot :: "bclient \<Rightarrow> string" where "TransportSnapshot c = ToLower (TrimSpace (Transport c))"

definition IsClientConnected :: "(nat \<Rightarrow> nat) \<Rightarrow> int \<Rightarrow> bridge \<Rightarrow> bool \<times> bridge" where
  "IsClientConnected rnd i b = (let (s, b) = selectSession rnd i ''online'' b in (s \<noteq> None, b))"

definition SelectedClientVersion :: "(nat \<Rightarrow> nat) \<Rightarrow> int \<Rightarrow> bridge \<Rightarrow> string \<times> bridge" where
  "SelectedClientVersion rnd i b =
     (let (s, b) = selectSession rnd i ''signal'' b in (case s of None \<Rightarrow> [] | Some s \<Rightarrow> cVersion (objects b s), b))"

definition SelectedClientTransport :: "(nat \<Rightarrow> nat) \<Rightarrow> int \<Rightarrow> bridge \<Rightarrow> string \<times> bridge" where
  "SelectedClientTransport rnd i b =
     (let (s, b) = selectSession rnd i ''online'' b in
      (case s of None \<Rightarrow> []
       | Some s \<Rightarrow> if TransportSnapshot (objects b s) \<noteq> [] then TransportSnapshot (objects b s) else ToLower (TrimSpace (tunnelType b)), b))"

definition ActiveClientTransports :: "int \<Rightarrow> bridge \<Rightarrow> string list \<times> bridge" where
  "ActiveClientTransports i b = (case ClientMap b i of
     Some (Root r) \<Rightarrow>
       (let b = ensureClientSessions r b;
            name = (\<lambda>s. if TransportSnapshot (objects b s) = [] then ToLower (TrimSpace (tunnelType b)) else TransportSnapshot (objects b s));
            names = map name (filter (\<lambda>s. sessionHasResource b s ''online'') (sessions (objects b r))) in
        (fold (\<lambda>t ts. if t = [] \<or> t \<in> set ts then ts else ts @ [t]) names [], b))
   | _ \<Rightarrow> ([], b))"

record instance_snapshot =
  iInstanceID :: string
  iVersion :: string
  iTransport :: string
  iRemoteAddr :: string
  iIdentity :: client_identity
  iConnectedAt :: string
  iOnline :: bool

definition instanceSnapshot :: "bridge \<Rightarrow> nat \<Rightarrow> cptr \<Rightarrow> instance_snapshot" where
  "instanceSnapshot b index s =
     (let c = objects b s; inst = TrimSpace (InstanceID (Instance c)) in
      \<lparr>iInstanceID = (if inst = [] then ''legacy-'' @ dec_string (int index + 1) else inst), iVersion = cVersion c,
       iTransport = (if TransportSnapshot c = [] then ToLower (TrimSpace (tunnelType b)) else TransportSnapshot c),
       iRemoteAddr = RemoteAddr c, iIdentity = Instance c, iConnectedAt = ConnectedAt c,
       iOnline = sessionHasResource b s ''online''\<rparr>)"

definition ClientInstances :: "int \<Rightarrow> bridge \<Rightarrow> instance_snapshot list \<times> bridge" where
  "ClientInstances i b = (case ClientMap b i of
     Some (Root r) \<Rightarrow>
       (let b = ensureClientSessions r b in
        (map (\<lambda>(k, s). instanceSnapshot b k s)
           (filter (\<lambda>(k, s). sessionHasResource b s ''signal'') (enumerate 0 (sessions (objects b r)))), b))
   | _ \<Rightarrow> ([], b))"

text \<open>The kick frame goes to the control connections that are reached before the common deadline of one second.\<close>

definition writeKickFlag :: "nat \<Rightarrow> int \<Rightarrow> bridge \<Rightarrow> nat list \<times> bridge" where
  "writeKickFlag reached i b = (case ClientMap b i of
     Some (Root r) \<Rightarrow>
       (let b = ensureClientSessions r b;
            targets = concat (map (\<lambda>s. opt_list (signal (objects b s))) (sessions (objects b r))) in
        (filter (\<lambda>n. n \<notin> set (bare b)) (take reached targets), b))
   | _ \<Rightarrow> ([], b))"

definition KickClient :: "nat \<Rightarrow> int \<Rightarrow> string \<Rightarrow> bridge \<Rightarrow> bridge" where
  "KickClient reached i stamp b = delClient i None stamp (snd (writeKickFlag reached i b))"

subsection \<open>Operations and reachable states\<close>

datatype bridge_op =
    Main int nat string string string string
  | Identity cptr nat client_identity
  | Chan int nat string string
  | File int nat string
  | Keyed int string nat string
  | NewPublic int
  | Delete int string
  | DeleteSignal int nat string
  | DeleteSnapshot int session_snapshot string
  | Disconnect int string string
  | Select "nat \<Rightarrow> nat" int string
  | PingSession cptr
  | MuxDied nat
  | CreateRecord int
  | RemoveRecord int

fun apply_op :: "bridge_op \<Rightarrow> bridge \<Rightarrow> bridge" where
  "apply_op (Main i c vs transport remote stamp) b = snd (typeDeal_main i c vs transport remote stamp b)"
| "apply_op (Identity s c ident) b = store_identity s c ident b"
| "apply_op (Chan i m vs transport) b = typeDeal_chan i m vs transport b"
| "apply_op (File i m vs) b = typeDeal_file i m vs b"
| "apply_op (Keyed i key m vs) b = typeDeal_keyed i key m vs b"
| "apply_op (NewPublic i) b = store_new_client i b"
| "apply_op (Delete i stamp) b = delClient i None stamp b"
| "apply_op (DeleteSignal i sg stamp) b = delClient i (Some sg) stamp b"
| "apply_op (DeleteSnapshot i sn stamp) b = delClientIfSnapshot i sn stamp b"
| "apply_op (Disconnect i inst stamp) b = snd (DisconnectClientInstance i inst stamp b)"
| "apply_op (Select rnd i res) b = snd (selectSession rnd i res b)"
| "apply_op (PingSession s) b = snd (ping_session s b)"
| "apply_op (MuxDied m) b = b\<lparr>dead := m # dead b\<rparr>"
| "apply_op (CreateRecord i) b = b\<lparr>clientRecords := (clientRecords b)(i \<mapsto> Some newHistory)\<rparr>"
| "apply_op (RemoveRecord i) b = b\<lparr>clientRecords := (clientRecords b)(i := None)\<rparr>"

text \<open>Every connection is handed over once, and it has a socket; the client of a new record is not connected yet.\<close>

fun allowed :: "bridge_op \<Rightarrow> bridge \<Rightarrow> bool" where
  "allowed (Main i c vs transport remote stamp) b \<longleftrightarrow> Sig c \<notin> set (opened b) \<and> c \<notin> set (bare b)"
| "allowed (Chan i m vs transport) b \<longleftrightarrow> Mx m \<notin> set (opened b)"
| "allowed (File i m vs) b \<longleftrightarrow> Mx m \<notin> set (opened b)"
| "allowed (Keyed i key m vs) b \<longleftrightarrow> Mx m \<notin> set (opened b)"
| "allowed (NewPublic i) b \<longleftrightarrow> ClientMap b i = None"
| "allowed (CreateRecord i) b \<longleftrightarrow> ClientMap b i = None"
| "allowed _ b \<longleftrightarrow> True"

definition initial_bridge :: "bridge \<Rightarrow> bool" where
  "initial_bridge b \<longleftrightarrow> nextPtr b = 0 \<and> (\<forall>i. ClientMap b i = None) \<and> opened b = [] \<and> closed b = []
     \<and> (\<forall>i h. clientRecords b i = Some (Some h) \<longrightarrow> \<not> online h)"

inductive bridge_reachable :: "bridge \<Rightarrow> bool" where
  start: "initial_bridge b \<Longrightarrow> bridge_reachable b"
| step: "bridge_reachable b \<Longrightarrow> allowed x b \<Longrightarrow> bridge_reachable (apply_op x b)"

end
