(* ===== verification/Bridge_Sessions.thy ===== *)
theory Bridge_Sessions
  imports Bridge_Table
begin

text \<open>
  Properties of the session table of \<open>Bridge_Table\<close> in every reachable state: the table is well formed (a client lists
  distinct sessions, the root among them, and no session belongs to two clients), only listed sessions hold connections,
  every connection handed over is held once or has been closed once, and the recorded presence of a client is exact. The
  handlers of the three kinds of data connections share the contract \<open>mux_attachment\<close>.
\<close>

subsection \<open>The invariant\<close>

definition members :: "bridge \<Rightarrow> cptr \<Rightarrow> cptr list" where
  "members b r = (if sessions (objects b r) = [] then [r] else sessions (objects b r))"

definition sessions_of :: "bridge \<Rightarrow> int \<Rightarrow> cptr set" where
  "sessions_of b i = (case ClientMap b i of Some (Root r) \<Rightarrow> set (members b r) | _ \<Rightarrow> {})"

definition slots :: "bclient \<Rightarrow> resource list" where
  "slots c = map Sig (opt_list (signal c)) @ map Mx (opt_list (tunnel c) @ opt_list (file_mux c) @ map snd (fileChannels c))"

definition held :: "bridge \<Rightarrow> resource multiset" where
  "held b = (\<Sum>a<nextPtr b. mset (slots (objects b a)))"

definition root_ok :: "bridge \<Rightarrow> runtime_entry \<Rightarrow> bool" where
  "root_ok b e = (case e of MalformedEntry \<Rightarrow> False
     | Root r \<Rightarrow> r \<in> set (members b r) \<and> set (members b r) \<subseteq> {..<nextPtr b} \<and> distinct (members b r))"

definition table_ok :: "bridge \<Rightarrow> bool" where
  "table_ok b \<longleftrightarrow> (\<forall>i e. ClientMap b i = Some e \<longrightarrow> root_ok b e)
     \<and> (\<forall>i j. i \<noteq> j \<longrightarrow> sessions_of b i \<inter> sessions_of b j = {})"

definition no_orphans :: "bridge \<Rightarrow> bool" where
  "no_orphans b \<longleftrightarrow> (\<forall>a<nextPtr b. slots (objects b a) \<noteq> [] \<longrightarrow> (\<exists>i. a \<in> sessions_of b i))"

definition accounted :: "bridge \<Rightarrow> bool" where
  "accounted b \<longleftrightarrow> held b + mset (closed b) = mset (opened b) \<and> distinct (opened b)"

definition bridge_ok :: "bridge \<Rightarrow> bool" where
  "bridge_ok b \<longleftrightarrow> table_ok b \<and> no_orphans b \<and> accounted b"

text \<open>The parts of the state an operation on one object leaves alone.\<close>

lemma modify_sel [simp]:
  "nextPtr (modify a f b) = nextPtr b" "ClientMap (modify a f b) = ClientMap b" "opened (modify a f b) = opened b"
  "closed (modify a f b) = closed b" "bare (modify a f b) = bare b" "dead (modify a f b) = dead b"
  "clientRecords (modify a f b) = clientRecords b" "historyLimit (modify a f b) = historyLimit b"
  "pubClient (modify a f b) = pubClient b" "CloseClient (modify a f b) = CloseClient b" "selectMode (modify a f b) = selectMode b"
  "objects (modify a f b) x = (if x = a then f (objects b a) else objects b x)"
  by (simp_all add: modify_def)

lemma members_modify:
  "sessions (f (objects b a)) = sessions (objects b a) \<Longrightarrow> members (modify a f b) r = members b r"
  by (simp add: members_def)

lemma sessions_of_modify:
  "sessions (f (objects b a)) = sessions (objects b a) \<Longrightarrow> sessions_of (modify a f b) i = sessions_of b i"
  by (simp add: sessions_of_def members_modify split: option.split runtime_entry.split)

lemma held_modify:
  assumes "a < nextPtr b"
  shows "held (modify a f b) + mset (slots (objects b a)) = held b + mset (slots (f (objects b a)))"
proof -
  have *: "(\<Sum>x<nextPtr b. g x) = g a + (\<Sum>x\<in>{..<nextPtr b} - {a}. g x)" for g :: "nat \<Rightarrow> resource multiset"
    using assms by (subst sum.remove [of _ a]) auto
  have "(\<Sum>x\<in>{..<nextPtr b} - {a}. mset (slots (objects (modify a f b) x))) = (\<Sum>x\<in>{..<nextPtr b} - {a}. mset (slots (objects b x)))"
    by (rule sum.cong) auto
  then show ?thesis
    unfolding held_def modify_sel(1) * [of "\<lambda>x. mset (slots (objects (modify a f b) x))"] * [of "\<lambda>x. mset (slots (objects b x))"]
    by (simp only: modify_sel(12) if_True simp_thms ac_simps)
qed

lemma table_modify:
  "sessions (f (objects b a)) = sessions (objects b a) \<Longrightarrow> table_ok (modify a f b) = table_ok b"
  by (simp add: table_ok_def root_ok_def members_modify sessions_of_modify split: runtime_entry.split)

lemma orphans_modify:
  assumes "sessions (f (objects b a)) = sessions (objects b a)" "no_orphans b"
    and "slots (f (objects b a)) \<noteq> [] \<Longrightarrow> slots (objects b a) \<noteq> [] \<or> (\<exists>i. a \<in> sessions_of b i)"
  shows "no_orphans (modify a f b)"
  using assms by (auto simp: no_orphans_def sessions_of_modify)

text \<open>Filling in the list of a root that has none changes nothing observable.\<close>

lemma ensure_sel [simp]:
  "nextPtr (ensureClientSessions r b) = nextPtr b" "ClientMap (ensureClientSessions r b) = ClientMap b"
  "opened (ensureClientSessions r b) = opened b" "closed (ensureClientSessions r b) = closed b"
  "bare (ensureClientSessions r b) = bare b" "dead (ensureClientSessions r b) = dead b"
  "clientRecords (ensureClientSessions r b) = clientRecords b" "historyLimit (ensureClientSessions r b) = historyLimit b"
  "pubClient (ensureClientSessions r b) = pubClient b" "CloseClient (ensureClientSessions r b) = CloseClient b"
  "selectMode (ensureClientSessions r b) = selectMode b"
  by (simp_all add: ensureClientSessions_def)

lemma ensure_obj [simp]:
  "tunnel (objects (ensureClientSessions r b) x) = tunnel (objects b x)"
  "signal (objects (ensureClientSessions r b) x) = signal (objects b x)"
  "file_mux (objects (ensureClientSessions r b) x) = file_mux (objects b x)"
  "fileChannels (objects (ensureClientSessions r b) x) = fileChannels (objects b x)"
  "Instance (objects (ensureClientSessions r b) x) = Instance (objects b x)"
  "retryTime (objects (ensureClientSessions r b) x) = retryTime (objects b x)"
  "selectSeq (objects (ensureClientSessions r b) x) = selectSeq (objects b x)"
  by (simp_all add: ensureClientSessions_def)

lemma ensure_members [simp]: "members (ensureClientSessions r b) x = members b x"
  by (simp add: members_def ensureClientSessions_def)

lemma ensure_sessions [simp]: "sessions (objects (ensureClientSessions r b) r) = members b r"
  by (simp add: members_def ensureClientSessions_def)

lemma ensure_idem [simp]: "ensureClientSessions r (ensureClientSessions r b) = ensureClientSessions r b"
  by (simp add: ensureClientSessions_def)

lemma ensure_sessions_of [simp]: "sessions_of (ensureClientSessions r b) i = sessions_of b i"
  by (simp add: sessions_of_def split: option.split runtime_entry.split)

lemma ensure_slots [simp]: "slots (objects (ensureClientSessions r b) x) = slots (objects b x)"
  by (simp add: slots_def)

lemma ensure_ok [simp]:
  "table_ok (ensureClientSessions r b) = table_ok b" "no_orphans (ensureClientSessions r b) = no_orphans b"
  "held (ensureClientSessions r b) = held b" "accounted (ensureClientSessions r b) = accounted b"
  "bridge_ok (ensureClientSessions r b) = bridge_ok b"
  by (simp_all add: table_ok_def root_ok_def no_orphans_def held_def accounted_def bridge_ok_def split: runtime_entry.split)

lemma in_sessions_of: "ClientMap b i = Some (Root r) \<Longrightarrow> s \<in> set (members b r) \<Longrightarrow> s \<in> sessions_of b i"
  by (simp add: sessions_of_def)

lemma member_bound: "table_ok b \<Longrightarrow> s \<in> sessions_of b i \<Longrightarrow> s < nextPtr b"
  by (force simp: table_ok_def sessions_of_def root_ok_def split: option.splits runtime_entry.splits)

text \<open>Updates that do not touch objects, the table or the resource logs.\<close>

definition shape_ok :: "bridge \<Rightarrow> bool" where "shape_ok b \<longleftrightarrow> table_ok b \<and> no_orphans b"

definition same_frame :: "bridge \<Rightarrow> bridge \<Rightarrow> bool" where
  "same_frame b b' \<longleftrightarrow> ClientMap b' = ClientMap b \<and> opened b' = opened b \<and> closed b' = closed b \<and> bare b' = bare b
     \<and> dead b' = dead b \<and> clientRecords b' = clientRecords b \<and> historyLimit b' = historyLimit b \<and> pubClient b' = pubClient b"

lemma shape_ensure [simp]: "shape_ok (ensureClientSessions r b) = shape_ok b"
  by (simp add: shape_ok_def)

lemma frame_ensure: "same_frame b (ensureClientSessions r b)"
  by (simp add: same_frame_def)

lemma table_root:
  assumes "table_ok b" "ClientMap b i = Some e"
  obtains r where "e = Root r" "r \<in> set (members b r)" "set (members b r) \<subseteq> {..<nextPtr b}" "distinct (members b r)"
proof -
  have "root_ok b e" using assms unfolding table_ok_def by blast
  then show thesis using that by (cases e) (auto simp: root_ok_def)
qed

lemma unregistered_new:
  assumes "table_ok b" shows "ClientMap b j \<noteq> Some (Root (nextPtr b))"
proof
  assume "ClientMap b j = Some (Root (nextPtr b))"
  then show False by (rule table_root [OF assms]) auto
qed

lemma root_unique:
  assumes "table_ok b" "ClientMap b i = Some (Root r)" "ClientMap b j = Some (Root r)" shows "i = j"
proof (rule ccontr)
  assume "i \<noteq> j"
  then have "sessions_of b i \<inter> sessions_of b j = {}" using assms(1) by (simp add: table_ok_def)
  moreover have "r \<in> set (members b r)" by (rule table_root [OF assms(1,2)]) auto
  ultimately show False using assms(2,3) by (auto simp: sessions_of_def)
qed

lemma variant_sel [simp]:
  "fst (add_variant r vs b) = nextPtr b" "nextPtr (snd (add_variant r vs b)) = Suc (nextPtr b)" "same_frame b (snd (add_variant r vs b))"
  by (simp_all add: add_variant_def Let_def same_frame_def)

lemma variant_obj:
  assumes "r \<noteq> nextPtr b"
  shows "objects (snd (add_variant r vs b)) a =
     (if a = r then (objects b r)\<lparr>sessions := sessions (objects b r) @ [nextPtr b]\<rparr>
      else if a = nextPtr b then (NewSession None None None vs)\<lparr>parent := Some r\<rparr> else objects b a)"
  using assms by (simp add: add_variant_def Let_def)

lemma slots_NewSession [simp]: "slots (NewSession None None None vs) = []" "slots (c\<lparr>parent := p\<rparr>) = slots c" "slots (c\<lparr>sessions := ss\<rparr>) = slots c"
  by (simp_all add: slots_def NewSession_def opt_list_def)

lemma held_variant: "r \<noteq> nextPtr b \<Longrightarrow> held (snd (add_variant r vs b)) = held b"
  by (auto simp: held_def variant_obj intro!: sum.cong)

lemma members_variant:
  assumes "r \<noteq> nextPtr b" "sessions (objects b r) \<noteq> []" "x \<noteq> nextPtr b"
  shows "members (snd (add_variant r vs b)) x = members b x @ (if x = r then [nextPtr b] else [])"
  using assms by (auto simp: members_def variant_obj)

lemma sessions_of_variant:
  assumes "table_ok b" "ClientMap b i = Some (Root r)" "sessions (objects b r) \<noteq> []"
  shows "sessions_of (snd (add_variant r vs b)) j = sessions_of b j \<union> (if j = i then {nextPtr b} else {})"
proof -
  have "r \<noteq> nextPtr b" using unregistered_new [OF assms(1), of i] assms(2) by auto
  moreover have "ClientMap (snd (add_variant r vs b)) = ClientMap b" by (simp add: add_variant_def Let_def)
  ultimately show ?thesis
    using assms unregistered_new [OF assms(1), of j] root_unique [OF assms(1,2), of j]
    by (cases "ClientMap b j"; cases "the (ClientMap b j)") (auto simp: sessions_of_def members_variant split: if_splits)
qed

lemma shape_variant:
  assumes "shape_ok b" "ClientMap b i = Some (Root r)" "sessions (objects b r) \<noteq> []"
  shows "shape_ok (snd (add_variant r vs b))"
proof -
  let ?b = "snd (add_variant r vs b)"
  have t: "table_ok b" and n: "no_orphans b" using assms(1) by (auto simp: shape_ok_def)
  have r: "r \<noteq> nextPtr b" using unregistered_new [OF t, of i] assms(2) by auto
  have map: "ClientMap ?b = ClientMap b" by (simp add: add_variant_def Let_def)
  note so = sessions_of_variant [OF t assms(2,3)]
  have "root_ok ?b e" if e: "ClientMap b j = Some e" for j e
  proof -
    obtain x where x: "e = Root x" "x \<in> set (members b x)" "set (members b x) \<subseteq> {..<nextPtr b}" "distinct (members b x)"
      by (rule table_root [OF t e])
    moreover have "x \<noteq> nextPtr b" using x by auto
    ultimately show ?thesis using r assms(3) by (auto simp: root_ok_def members_variant)
  qed
  moreover have "sessions_of ?b j \<inter> sessions_of ?b k = {}" if "j \<noteq> k" for j k
    using that t member_bound [OF t, of "nextPtr b"] unfolding so by (auto simp: table_ok_def)
  moreover have "no_orphans ?b" using n r by (auto simp: no_orphans_def so variant_obj less_Suc_eq split: if_splits)
  ultimately show ?thesis by (simp add: shape_ok_def table_ok_def map)
qed

text \<open>Choosing a session for a new connection: an existing one, or a new empty one.\<close>

lemma find_member: "find p xs = Some x \<Longrightarrow> x \<in> set xs \<and> p x"
  by (auto simp: find_Some_iff)

lemma sessionForLocked_cases:
  obtains (old) s where "sessionForLocked r res vs b = (s, ensureClientSessions r b)" "s \<in> set (members b r)"
      "slot_free res (ensureClientSessions r b) s \<or> (res = ''tunnel'' \<or> res = ''file'') \<and> waiting_signal res (ensureClientSessions r b) s"
  | (new) "sessionForLocked r res vs b = add_variant r vs (ensureClientSessions r b)"
  unfolding sessionForLocked_def Let_def
  by (fastforce split: option.splits if_splits dest: find_member)

lemma sessionForFileChannelLocked_cases:
  obtains (old) s where "sessionForFileChannelLocked r key vs b = (s, ensureClientSessions r b)" "s \<in> set (members b r)"
      "channel_free key (ensureClientSessions r b) s"
  | (new) "sessionForFileChannelLocked r key vs b = add_variant r vs (ensureClientSessions r b)"
  unfolding sessionForFileChannelLocked_def Let_def
  by (fastforce split: option.splits if_splits dest: find_member)

definition placed :: "int \<Rightarrow> bridge \<Rightarrow> cptr \<times> bridge \<Rightarrow> bool" where
  "placed i b p \<longleftrightarrow> shape_ok (snd p) \<and> held (snd p) = held b \<and> same_frame b (snd p) \<and> fst p \<in> sessions_of (snd p) i
     \<and> fst p < nextPtr (snd p) \<and> (\<forall>a j. a \<in> sessions_of (snd p) j \<longrightarrow>
          (a \<in> sessions_of b j \<and> slots (objects (snd p) a) = slots (objects b a)
             \<and> signal (objects (snd p) a) = signal (objects b a)) \<or> slots (objects (snd p) a) = [])
     \<and> (\<forall>a j. a \<in> sessions_of b j \<longrightarrow> a \<in> sessions_of (snd p) j \<and> slots (objects (snd p) a) = slots (objects b a))"

lemma placed_ensure:
  assumes "shape_ok b" "ClientMap b i = Some (Root r)" "s \<in> set (members b r)"
  shows "placed i b (s, ensureClientSessions r b)"
  using assms member_bound [of b s i] in_sessions_of [OF assms(2,3)] frame_ensure
  by (auto simp: placed_def shape_ok_def)

lemma placed_variant:
  assumes "shape_ok b" "ClientMap b i = Some (Root r)"
  shows "placed i b (add_variant r vs (ensureClientSessions r b))"
proof -
  let ?e = "ensureClientSessions r b"
  have e: "shape_ok ?e" "ClientMap ?e i = Some (Root r)" "sessions (objects ?e r) \<noteq> []"
    using assms by (auto simp: members_def)
  then have t: "table_ok ?e" "table_ok b" by (simp_all add: shape_ok_def)
  have r: "r \<noteq> nextPtr b" using unregistered_new [OF t(2), of i] assms(2) by auto
  note so = sessions_of_variant [OF t(1) e(2,3), of vs]
  have "same_frame b (snd (add_variant r vs ?e))" using frame_ensure [of b r] variant_sel(3) [of ?e r vs] by (simp add: same_frame_def)
  moreover have "slots (objects (snd (add_variant r vs ?e)) a) = slots (objects b a)
      \<and> signal (objects (snd (add_variant r vs ?e)) a) = signal (objects b a)" if "a \<noteq> nextPtr b" for a
    using that r by (auto simp: variant_obj)
  ultimately show ?thesis
    using shape_variant [OF e, of vs] held_variant [of r ?e vs] r member_bound [OF t(2)]
    by (auto simp: placed_def so variant_obj)
qed

lemma placed_session: "shape_ok b \<Longrightarrow> ClientMap b i = Some (Root r) \<Longrightarrow> placed i b (sessionForLocked r res vs b)"
  by (cases rule: sessionForLocked_cases [of r res vs b]) (auto simp: placed_ensure placed_variant)

lemma placed_channel: "shape_ok b \<Longrightarrow> ClientMap b i = Some (Root r) \<Longrightarrow> placed i b (sessionForFileChannelLocked r key vs b)"
  by (cases rule: sessionForFileChannelLocked_cases [of r key vs b]) (auto simp: placed_ensure placed_variant)

subsection \<open>Arriving connections keep the invariant\<close>

definition same_core :: "bridge \<Rightarrow> bridge \<Rightarrow> bool" where
  "same_core b b' \<longleftrightarrow> objects b' = objects b \<and> nextPtr b' = nextPtr b \<and> ClientMap b' = ClientMap b"

lemma core_cong:
  assumes "same_core b b'"
  shows "members b' = members b" "sessions_of b' = sessions_of b" "held b' = held b" "shape_ok b' = shape_ok b"
proof -
  have m: "members b' = members b" using assms by (auto simp: members_def same_core_def)
  then have s: "sessions_of b' = sessions_of b" using assms by (intro ext) (simp add: sessions_of_def same_core_def split: option.split runtime_entry.split)
  show "members b' = members b" "sessions_of b' = sessions_of b" by fact+
  show "held b' = held b" using assms by (simp add: held_def same_core_def)
  have "root_ok b' = root_ok b" using assms m by (intro ext) (simp add: root_ok_def same_core_def split: runtime_entry.split)
  then show "shape_ok b' = shape_ok b" using assms m s by (simp add: shape_ok_def table_ok_def no_orphans_def same_core_def)
qed

lemma core_updates [simp]:
  "same_core b (announce x b)" "same_core b (close_all rs b)" "same_core b (recordClientConnection i up stamp b)"
  "same_core b (notify_offline i b)" "same_core b (b\<lparr>dead := d\<rparr>)" "same_core b (b\<lparr>clientRecords := cr\<rparr>)" "same_core b (close_haul hl b)"
  "same_core b (close_old old b)"
  by (auto simp: same_core_def announce_def close_all_def recordClientConnection_def notify_offline_def close_haul_def close_old_def
      split: option.split prod.split)

lemmas core_simps [simp] = core_updates [THEN core_cong(1)] core_updates [THEN core_cong(2)] core_updates [THEN core_cong(3)] core_updates [THEN core_cong(4)]

lemma map_updates [simp]:
  "ClientMap (announce x b) = ClientMap b" "ClientMap (close_all rs b) = ClientMap b" "pubClient (announce x b) = pubClient b"
  "ClientMap (recordClientConnection i up stamp b) = ClientMap b" "ClientMap (notify_offline i b) = ClientMap b"
  "ClientMap (close_old old b) = ClientMap b" "ClientMap (close_haul hl b) = ClientMap b"
  using core_updates [of b] by (auto simp: same_core_def announce_def)

lemma log_updates [simp]:
  "opened (announce x b) = opened b @ [x]" "closed (announce x b) = closed b"
  "opened (close_all rs b) = opened b" "closed (close_all rs b) = closed b @ rs"
  "opened (recordClientConnection i up stamp b) = opened b" "closed (recordClientConnection i up stamp b) = closed b"
  "opened (notify_offline i b) = opened b" "closed (notify_offline i b) = closed b"
  "opened (close_old old b) = opened b" "closed (close_old old b) = closed b @ map Mx (opt_list old)"
  "opened (close_haul hl b) = opened b"
  by (auto simp: announce_def close_all_def recordClientConnection_def notify_offline_def close_old_def close_haul_def opt_list_def split: option.split prod.split)

definition conserved :: "bridge \<Rightarrow> bool" where
  "conserved b \<longleftrightarrow> held b + mset (closed b) = mset (opened b) \<and> distinct (opened b)"

lemma bridge_ok_iff: "bridge_ok b \<longleftrightarrow> shape_ok b \<and> conserved b"
  by (auto simp: bridge_ok_def shape_ok_def accounted_def conserved_def)

lemma bridge_ok_log: "same_core b b' \<Longrightarrow> opened b' = opened b \<Longrightarrow> closed b' = closed b \<Longrightarrow> bridge_ok b' = bridge_ok b"
  by (simp add: bridge_ok_iff conserved_def core_cong)

lemma slot_held: "a < nextPtr b \<Longrightarrow> x \<in> set (slots (objects b a)) \<Longrightarrow> x \<in># held b"
  by (auto simp: held_def in_Union_mset_iff intro!: bexI [of _ a] simp flip: set_mset_mset simp: set_mset_sum)

lemma held_opened: "bridge_ok b \<Longrightarrow> x \<in># held b \<Longrightarrow> x \<in> set (opened b)"
proof -
  assume "bridge_ok b" "x \<in># held b"
  then have "x \<in># mset (opened b)" by (metis bridge_ok_def accounted_def union_iff)
  then show ?thesis by simp
qed

lemma attach_ok:
  assumes b: "bridge_ok b" "x \<notin> set (opened b)" and p: "placed i (announce x b) p"
    and f: "\<And>c. sessions (f c) = sessions c"
    and s: "mset (slots (f (objects (snd p) (fst p)))) + mset olds = mset (slots (objects (snd p) (fst p))) + {#x#}"
    and b': "same_core (modify (fst p) f (snd p)) b'" "opened b' = opened (snd p)" "closed b' = closed (snd p) @ olds"
  shows "bridge_ok b'"
proof -
  let ?m = "modify (fst p) f (snd p)"
  note pl = p [unfolded placed_def same_frame_def]
  have "shape_ok ?m" using pl f by (auto simp: shape_ok_def table_modify intro!: orphans_modify)
  moreover have "held ?m + mset olds = held b + {#x#}"
  proof -
    let ?S = "mset (slots (objects (snd p) (fst p)))" and ?N = "mset (slots (f (objects (snd p) (fst p))))"
    have "held ?m + ?S = held (snd p) + ?N" using pl by (intro held_modify) auto
    moreover have "held (snd p) = held b" using pl by (simp add: core_cong)
    ultimately have "(held ?m + mset olds) + ?S = held b + (?N + mset olds)" by (simp add: ac_simps)
    also have "\<dots> = (held b + {#x#}) + ?S" unfolding s by (simp add: ac_simps)
    finally show ?thesis by (rule add_right_imp_eq)
  qed
  then have "held ?m + mset (closed (snd p) @ olds) = (held b + mset (closed b)) + {#x#}"
    using pl by (simp add: ac_simps)
  moreover have "mset (opened (snd p)) = (held b + mset (closed b)) + {#x#}" using pl b(1) by (simp add: bridge_ok_iff conserved_def)
  moreover have "distinct (opened (snd p))" using pl b by (simp add: bridge_ok_iff conserved_def)
  ultimately show ?thesis using b' by (simp add: bridge_ok_iff conserved_def core_cong [OF b'(1)])
qed

lemma new_root_sessions:
  assumes t: "table_ok b" and c: "sessions c = [] \<or> sessions c = [nextPtr b]"
    and b': "objects b' = (objects b)(nextPtr b := c)" "ClientMap b' = (ClientMap b)(i \<mapsto> Root (nextPtr b))"
  shows "sessions_of b' j = (if j = i then {nextPtr b} else sessions_of b j)"
proof -
  have "members b' (nextPtr b) = [nextPtr b]" using b' c by (auto simp: members_def)
  moreover have "members b' x = members b x" if "x \<noteq> nextPtr b" for x using b' that by (simp add: members_def)
  ultimately show ?thesis
    using unregistered_new [OF t, of j] b' by (cases "ClientMap b j"; cases "the (ClientMap b j)") (auto simp: sessions_of_def)
qed

lemma new_root_ok:
  assumes b: "bridge_ok b" "ClientMap b i = None" and c: "sessions c = [] \<or> sessions c = [nextPtr b]"
    and o: "mset (slots c) + mset (opened b) = mset (opened b')" "distinct (opened b')" "closed b' = closed b"
    and b': "objects b' = (objects b)(nextPtr b := c)" "nextPtr b' = Suc (nextPtr b)" "ClientMap b' = (ClientMap b)(i \<mapsto> Root (nextPtr b))"
  shows "bridge_ok b'"
proof -
  let ?r = "nextPtr b"
  have t: "table_ok b" "no_orphans b" using b(1) by (simp_all add: bridge_ok_def)
  have mr: "members b' ?r = [?r]" using b' c by (auto simp: members_def)
  have m: "members b' x = members b x" if "x \<noteq> ?r" for x using b' that by (simp add: members_def)
  note so = new_root_sessions [OF t(1) c b'(1,3)]
  have "root_ok b' e" if e: "ClientMap b' j = Some e" for j e
  proof (cases "j = i")
    case True then show ?thesis using e b' mr by (auto simp: root_ok_def)
  next
    case False
    then have "ClientMap b j = Some e" using e b' by simp
    then obtain x where x: "e = Root x" "x \<in> set (members b x)" "set (members b x) \<subseteq> {..<nextPtr b}" "distinct (members b x)"
      by (rule table_root [OF t(1)])
    then have "x \<noteq> ?r" by auto
    then show ?thesis using x m b' by (auto simp: root_ok_def)
  qed
  moreover have "sessions_of b' j \<inter> sessions_of b' k = {}" if "j \<noteq> k" for j k
    using that t member_bound [OF t(1), of ?r] unfolding so by (auto simp: table_ok_def)
  moreover have "no_orphans b'"
    unfolding no_orphans_def
  proof (intro allI impI)
    fix a assume a: "a < nextPtr b'" "slots (objects b' a) \<noteq> []"
    show "\<exists>j. a \<in> sessions_of b' j"
    proof (cases "a = ?r")
      case False
      then obtain j where "a \<in> sessions_of b j" using a b' t(2) by (auto simp: no_orphans_def less_Suc_eq)
      moreover have "j \<noteq> i" using calculation b(2) by (auto simp: sessions_of_def)
      ultimately show ?thesis using so by auto
    qed (use so in auto)
  qed
  moreover have "conserved b'"
  proof -
    have "held b' = held b + mset (slots c)" using b' by (simp add: held_def)
    then have "held b' + mset (closed b') = mset (slots c) + (held b + mset (closed b))" using o(3) by (simp add: ac_simps)
    then show ?thesis using b(1) o(1,2) by (simp add: bridge_ok_iff conserved_def)
  qed
  ultimately show ?thesis by (simp add: bridge_ok_iff shape_ok_def table_ok_def)
qed

lemma store_root_ok:
  assumes "bridge_ok b" "x \<notin> set (opened b)" "ClientMap b i = None" "slots c = [x]" "sessions c = []"
    and "same_core (snd (store_root i c (announce x b))) b'" "opened b' = opened b @ [x]" "closed b' = closed b"
  shows "bridge_ok b'"
proof (rule new_root_ok [OF assms(1,3)])
  let ?c = "c\<lparr>sessions := [nextPtr b]\<rparr>"
  show "sessions ?c = [] \<or> sessions ?c = [nextPtr b]" by simp
  show "mset (slots ?c) + mset (opened b) = mset (opened b')" using assms by (simp add: slots_def)
  show "distinct (opened b')" using assms by (simp add: bridge_ok_def accounted_def)
  show "closed b' = closed b" by fact
  show "objects b' = (objects b)(nextPtr b := ?c)" "nextPtr b' = Suc (nextPtr b)" "ClientMap b' = (ClientMap b)(i \<mapsto> Root (nextPtr b))"
    using assms(5,6) by (auto simp: same_core_def store_root_def alloc_def Let_def ensureClientSessions_def modify_def announce_def)
qed

lemma channel_update:
  "mset (map snd (AList.update k v al)) + mset (opt_list (map_of al k)) = mset (map snd al) + {#v#}"
  by (induction al) (auto simp: opt_list_def)

lemma placing_cases [consumes 1]:
  assumes "bridge_ok b"
  obtains (root) r where "ClientMap (announce x b) i = Some (Root r)" "shape_ok (announce x b)"
  | (none) "ClientMap (announce x b) i = None" "ClientMap b i = None"
proof (cases "ClientMap b i")
  case (Some e)
  then obtain r where "e = Root r" using assms by (auto simp: bridge_ok_def elim: table_root)
  then show thesis using root Some assms by (simp add: bridge_ok_iff)
qed (use none in simp)

lemma main_ok:
  assumes "bridge_ok b" "Sig c \<notin> set (opened b)"
  shows "bridge_ok (snd (typeDeal_main i c vs transport remote stamp b))"
proof -
  let ?b = "announce (Sig c) b"
  have sh: "shape_ok ?b" using assms by (simp add: bridge_ok_iff)
  consider "pubClient b i" | r where "\<not> pubClient b i" "ClientMap b i = Some (Root r)" | "\<not> pubClient b i" "ClientMap b i = None"
    using placing_cases [OF assms(1), of "Sig c" i] by (metis map_updates(1))
  then show ?thesis
  proof cases
    case 1
    then show ?thesis using assms by (simp add: typeDeal_main_def Let_def bridge_ok_iff conserved_def)
  next
    case (2 r)
    define p where "p = sessionForLocked r ''signal'' vs (ensureClientSessions r ?b)"
    have p: "placed i ?b p"
      using placed_session [of "ensureClientSessions r ?b" i r] sh 2(2) frame_ensure [of ?b r] by (simp add: p_def placed_def same_frame_def)
    define old where "old = signal (objects (snd p) (fst p))"
    have ne: "n \<noteq> c" if "old = Some n" for n
    proof -
      have "Sig n \<in># held (snd p)"
        using p that by (intro slot_held [of "fst p"]) (auto simp: old_def slots_def opt_list_def placed_def)
      then have "Sig n \<in># held b" using p by (simp add: placed_def)
      then show ?thesis using held_opened [OF assms(1)] assms(2) by auto
    qed
    show ?thesis
    proof (rule attach_ok [OF assms p, where f = "set_main c vs transport remote stamp" and olds = "map Sig (opt_list old)"])
      show "mset (slots (set_main c vs transport remote stamp (objects (snd p) (fst p)))) + mset (map Sig (opt_list old))
          = mset (slots (objects (snd p) (fst p))) + {#Sig c#}"
        by (simp add: set_main_def slots_def old_def opt_list_def)
    qed (use 2 ne in \<open>auto simp: typeDeal_main_def Let_def case_prod_beta set_main_def p_def [symmetric] old_def opt_list_def
           same_core_def close_all_def recordClientConnection_def split: option.splits\<close>)
  next
    case 3
    show ?thesis
    proof (rule store_root_ok [OF assms])
      show "ClientMap b i = None" using 3 by (simp add: announce_def)
      show "slots ((NewSession None None (Some c) vs)\<lparr>Transport := normalizeBridgeTransport transport, RemoteAddr := remote, ConnectedAt := stamp\<rparr>) = [Sig c]"
        by (simp add: slots_def NewSession_def opt_list_def)
    qed (use 3 in \<open>auto simp: typeDeal_main_def Let_def case_prod_beta NewSession_def same_core_def recordClientConnection_def
           store_root_def alloc_def announce_def split: option.splits\<close>)
  qed
qed

text \<open>The three handlers of data connections share a contract: the placing function chooses a session of the client without
losing anything, and the setter puts the new multiplexer where the getter finds the one it replaces.\<close>

definition attach_mux :: "(cptr \<Rightarrow> bridge \<Rightarrow> cptr \<times> bridge) \<Rightarrow> (nat \<Rightarrow> bclient \<Rightarrow> bclient) \<Rightarrow> (bclient \<Rightarrow> nat option) \<Rightarrow> (nat \<Rightarrow> bclient)
    \<Rightarrow> int \<Rightarrow> nat \<Rightarrow> bridge \<Rightarrow> bridge" where
  "attach_mux place put get fresh i m b = (case ClientMap b i of
     Some (Root r) \<Rightarrow> (let p = place r (announce (Mx m) b) in close_old (get (objects (snd p) (fst p))) (modify (fst p) (put m) (snd p)))
   | _ \<Rightarrow> snd (store_root i (fresh m) (announce (Mx m) b)))"

locale mux_attachment =
  fixes place :: "cptr \<Rightarrow> bridge \<Rightarrow> cptr \<times> bridge"
    and put :: "nat \<Rightarrow> bclient \<Rightarrow> bclient"
    and get :: "bclient \<Rightarrow> nat option"
    and fresh :: "nat \<Rightarrow> bclient"
  assumes place_placed: "shape_ok b \<Longrightarrow> ClientMap b i = Some (Root r) \<Longrightarrow> placed i b (place r b)"
    and put_keeps: "sessions (put m c) = sessions c" "signal (put m c) = signal c"
    and put_slots: "mset (slots (put m c)) + mset (map Mx (opt_list (get c))) = mset (slots c) + {#Mx m#}"
    and fresh_empty: "sessions (fresh m) = []" "signal (fresh m) = None" "slots (fresh m) = [Mx m]"
begin

lemma attached_ok:
  assumes "bridge_ok b" "Mx m \<notin> set (opened b)" shows "bridge_ok (attach_mux place put get fresh i m b)"
using assms(1)
proof (cases rule: placing_cases [of b "Mx m" i])
  case (root r)
  define p where "p = place r (announce (Mx m) b)"
  have p: "placed i (announce (Mx m) b) p" unfolding p_def by (rule place_placed [OF root(2,1)])
  have core: "same_core (modify (fst p) (put m) (snd p)) (attach_mux place put get fresh i m b)"
    using root core_updates(8) by (simp add: attach_mux_def Let_def p_def)
  show ?thesis
    by (rule attach_ok [OF assms p put_keeps(1) put_slots core]) (use root in \<open>simp_all add: attach_mux_def Let_def p_def\<close>)
next
  case none
  show ?thesis
    by (rule store_root_ok [OF assms none(2) fresh_empty(3,1)])
       (use none in \<open>simp_all add: attach_mux_def same_core_def store_root_def alloc_def Let_def\<close>)
qed

end

lemma close_old_None [simp]: "close_old None b = b"
  by (simp add: close_old_def)

lemma attach_chan:
  assumes "bridge_ok b"
  shows "typeDeal_chan i m vs transport b = attach_mux (\<lambda>r. sessionForLocked r ''tunnel'' vs) (\<lambda>m. set_chan m vs transport) tunnel
    (\<lambda>m. (NewSession (Some m) None None vs)\<lparr>Transport := normalizeBridgeTransport transport\<rparr>) i m b"
  using assms by (cases rule: placing_cases [of b "Mx m" i]) (simp_all add: typeDeal_chan_def attach_mux_def Let_def case_prod_beta)

lemma attach_file:
  assumes "bridge_ok b"
  shows "typeDeal_file i m vs b = attach_mux (\<lambda>r. sessionForLocked r ''file'' vs) (\<lambda>m. set_file m vs) file_mux (\<lambda>m. NewSession None (Some m) None vs) i m b"
  using assms by (cases rule: placing_cases [of b "Mx m" i]) (simp_all add: typeDeal_file_def attach_mux_def Let_def case_prod_beta)

lemma attach_keyed:
  assumes "bridge_ok b" "Mx m \<notin> set (opened b)"
  shows "typeDeal_keyed i key m vs b = attach_mux (\<lambda>r. sessionForFileChannelLocked r key vs) (\<lambda>m. set_channel key m vs)
    (\<lambda>c. map_of (fileChannels c) key) (\<lambda>m. (NewSession None None None vs)\<lparr>fileChannels := [(key, m)]\<rparr>) i m b"
  using assms(1)
proof (cases rule: placing_cases [of b "Mx m" i])
  case (root r)
  define p where "p = sessionForFileChannelLocked r key vs (announce (Mx m) b)"
  have p: "placed i (announce (Mx m) b) p" unfolding p_def by (rule placed_channel [OF root(2,1)])
  have "n \<noteq> m" if "map_of (fileChannels (objects (snd p) (fst p))) key = Some n" for n
  proof -
    have "n \<in> snd ` set (fileChannels (objects (snd p) (fst p)))" using that by (force dest: map_of_SomeD)
    then have "Mx n \<in># held (snd p)" using p by (intro slot_held [of "fst p"]) (auto simp: slots_def placed_def)
    then show ?thesis using p held_opened [OF assms(1), of "Mx n"] assms(2) by (auto simp: placed_def)
  qed
  then show ?thesis using root
    by (auto simp: typeDeal_keyed_def attach_mux_def Let_def case_prod_beta p_def [symmetric] close_old_def split: option.splits)
qed (simp add: typeDeal_keyed_def attach_mux_def Let_def)

interpretation chan: mux_attachment "\<lambda>r. sessionForLocked r ''tunnel'' vs" "\<lambda>m. set_chan m vs transport" tunnel
  "\<lambda>m. (NewSession (Some m) None None vs)\<lparr>Transport := normalizeBridgeTransport transport\<rparr>" for vs transport
  by unfold_locales (auto simp: placed_session set_chan_def Let_def slots_def NewSession_def opt_list_def)

interpretation files: mux_attachment "\<lambda>r. sessionForLocked r ''file'' vs" "\<lambda>m. set_file m vs" file_mux "\<lambda>m. NewSession None (Some m) None vs" for vs
  by unfold_locales (auto simp: placed_session set_file_def Let_def slots_def NewSession_def opt_list_def)

lemma channel_slots:
  "mset (slots (set_channel key m vs c)) + mset (map Mx (opt_list (map_of (fileChannels c) key))) = mset (slots c) + {#Mx m#}"
proof -
  have "mset (map Mx (map snd (AList.update key m al))) + mset (map Mx (opt_list (map_of al key))) = mset (map Mx (map snd al)) + {#Mx m#}" for al
    using arg_cong [OF channel_update [of key m al], of "image_mset Mx"] by (simp del: map_map)
  then show ?thesis by (simp add: set_channel_def slots_def Let_def)
qed

interpretation keyed: mux_attachment "\<lambda>r. sessionForFileChannelLocked r key vs" "\<lambda>m. set_channel key m vs" "\<lambda>c. map_of (fileChannels c) key"
  "\<lambda>m. (NewSession None None None vs)\<lparr>fileChannels := [(key, m)]\<rparr>" for key vs
  by unfold_locales (rule channel_slots | simp add: placed_channel set_channel_def Let_def slots_def NewSession_def opt_list_def)+

lemma arrivals_ok:
  assumes "bridge_ok b" "Mx m \<notin> set (opened b)"
  shows "bridge_ok (typeDeal_chan i m vs transport b)" "bridge_ok (typeDeal_file i m vs b)" "bridge_ok (typeDeal_keyed i key m vs b)"
  unfolding attach_chan [OF assms(1)] attach_file [OF assms(1)] attach_keyed [OF assms]
  by (rule chan.attached_ok files.attached_ok keyed.attached_ok; fact assms)+

lemma new_public_ok: "bridge_ok b \<Longrightarrow> ClientMap b i = None \<Longrightarrow> bridge_ok (store_new_client i b)"
  by (rule new_root_ok [where b = b and i = i and c = "NewSession None None None []"])
     (auto simp: store_new_client_def NewSession_def slots_def opt_list_def bridge_ok_def accounted_def)

lemma quiet_modify_ok:
  assumes "bridge_ok b" "\<And>c. sessions (f c) = sessions c" "\<And>c. slots (f c) = slots c"
  shows "bridge_ok (modify s f b)"
proof -
  have "held (modify s f b) = held b" unfolding held_def modify_sel by (rule sum.cong) (auto simp: assms(3))
  moreover have "no_orphans (modify s f b)"
    using assms by (intro orphans_modify) (auto simp: bridge_ok_def)
  ultimately show ?thesis using assms by (simp add: bridge_ok_def table_modify accounted_def)
qed

subsection \<open>Deletions keep the invariant\<close>

definition haul_list :: "haul \<Rightarrow> resource list" where
  "haul_list = (\<lambda>(sg, tn, fl). map Sig sg @ map Mx tn @ map Mx fl)"

lemma closed_haul [simp]: "closed (close_haul hl b) = closed b @ haul_list hl"
  by (simp add: close_haul_def haul_list_def split: prod.split)

lemma detached_simps [simp]:
  "slots (detached w c) = []" "sessions (detached w c) = sessions c" "signal (detached w c) = None"
  "detached w (detached w c) = detached w c"
  by (simp_all add: detached_def clearFileChannelsLocked_def slots_def opt_list_def Let_def)

lemma take_obj:
  "snd (take_session w s (hl, b)) = modify s (detached w) b"
  "mset (haul_list (fst (take_session w s (hl, b)))) = mset (haul_list hl) + mset (slots (objects b s))"
  by (cases hl, simp add: take_session_def Let_def)
     (cases hl, simp add: take_session_def Let_def haul_list_def slots_def clearFileChannelsLocked_def ac_simps)

lemma fold_take:
  assumes "set ss \<subseteq> {..<nextPtr b}" "fold (take_session w) ss (hl, b) = (hl', b')"
  shows "(\<forall>a. objects b' a = (if a \<in> set ss then detached w (objects b a) else objects b a))
    \<and> same_frame b b' \<and> nextPtr b' = nextPtr b \<and> held b' + mset (haul_list hl') = held b + mset (haul_list hl)"
  using assms
proof (induction ss arbitrary: hl b)
  case (Cons s ss)
  obtain hl1 where t: "take_session w s (hl, b) = (hl1, modify s (detached w) b)"
      "mset (haul_list hl1) = mset (haul_list hl) + mset (slots (objects b s))"
    using take_obj [of w s hl b] by (metis prod.collapse)
  note IH = Cons.IH [of "modify s (detached w) b" hl1]
  have "held (modify s (detached w) b) + mset (slots (objects b s)) = held b"
    using held_modify [of s b "detached w"] Cons.prems(1) by simp
  then have "held (modify s (detached w) b) + mset (haul_list hl1) = held b + mset (haul_list hl)"
    using t(2) by (metis add.assoc add.commute)
  with IH Cons.prems t(1) show ?case by (simp add: same_frame_def)
qed (simp add: same_frame_def)

text \<open>Dropping a client: everything its sessions hold is handed over, and its entry disappears.\<close>

lemma drop_root_effect:
  assumes b: "shape_ok b" "ClientMap b i = Some (Root r)" "sessions (objects b r) = members b r"
    and d: "drop_root w i r stamp (hl, b) = (hl', b')"
  shows "shape_ok b' \<and> held b' + mset (haul_list hl') = held b + mset (haul_list hl) \<and> opened b' = opened b \<and> closed b' = closed b
    \<and> ClientMap b' = (ClientMap b)(i := None) \<and> clientRecords b' = clientRecords (recordClientConnection i False stamp b)
    \<and> (\<forall>j. sessions_of b' j = (if j = i then {} else sessions_of b j))
    \<and> (\<forall>a. a \<notin> sessions_of b i \<longrightarrow> objects b' a = objects b a)"
proof -
  have t: "table_ok b" "no_orphans b" using b(1) by (simp_all add: shape_ok_def)
  obtain hl1 b1 where f: "fold (take_session w) (members b r) (hl, b) = (hl1, b1)" by fastforce
  have r: "r \<in> set (members b r)" and bd: "set (members b r) \<subseteq> {..<nextPtr b}" by (rule table_root [OF t(1) b(2)], auto)+
  note ft = fold_take [OF bd f]
  let ?b2 = "modify r (sessions_update (\<lambda>_. [])) b1"
  let ?b3 = "recordClientConnection i False stamp ?b2"
  have hl: "hl' = hl1" and b': "b' = ?b3\<lparr>ClientMap := (ClientMap ?b3)(i := None)\<rparr>"
    using d f b(3) by (simp_all add: drop_root_def)
  have fields: "nextPtr b1 = nextPtr b" "ClientMap b1 = ClientMap b" "opened b1 = opened b" "closed b1 = closed b"
      "clientRecords b1 = clientRecords b" "historyLimit b1 = historyLimit b"
    using ft by (simp_all add: same_frame_def)
  have obj: "objects b' a = (if a = r then (detached w (objects b r))\<lparr>sessions := []\<rparr>
      else if a \<in> set (members b r) then detached w (objects b a) else objects b a)" for a
    using ft r core_updates(3) [of ?b2 i False stamp] unfolding b' same_core_def by simp
  have next': "nextPtr b' = nextPtr b" using core_updates(3) [of ?b2 i False stamp] fields unfolding b' same_core_def by simp
  have map': "ClientMap b' = (ClientMap b)(i := None)" using fields unfolding b' by simp
  have mem: "members b' x = members b x" if "x \<noteq> r" for x using that by (simp add: members_def obj)
  have so: "sessions_of b' j = (if j = i then {} else sessions_of b j)" for j
  proof -
    have "members b' x = members b x" if "ClientMap b j = Some (Root x)" "j \<noteq> i" for x
      using root_unique [OF t(1) b(2), of j] mem that by metis
    then show ?thesis by (cases "ClientMap b j"; cases "the (ClientMap b j)") (auto simp: sessions_of_def map')
  qed
  have "table_ok b'"
  proof -
    have "root_ok b' e" if "ClientMap b' j = Some e" for j e
    proof -
      have e: "ClientMap b j = Some e" "j \<noteq> i" using that map' by (auto split: if_splits)
      then obtain x where x: "e = Root x" "x \<in> set (members b x)" "set (members b x) \<subseteq> {..<nextPtr b}" "distinct (members b x)"
        using table_root [OF t(1)] by metis
      then have "x \<noteq> r" using root_unique [OF t(1) b(2), of j] e by auto
      then show ?thesis using x mem next' by (simp add: root_ok_def)
    qed
    moreover have "\<forall>j k. j \<noteq> k \<longrightarrow> sessions_of b' j \<inter> sessions_of b' k = {}" using t(1) by (simp add: so table_ok_def)
    ultimately show ?thesis by (simp add: table_ok_def)
  qed
  moreover have "no_orphans b'"
    unfolding no_orphans_def
  proof (intro allI impI)
    fix a assume a: "a < nextPtr b'" "slots (objects b' a) \<noteq> []"
    have "a \<notin> set (members b r)" using a(2) r by (auto simp: obj split: if_splits)
    moreover from this have "slots (objects b a) \<noteq> []" using a(2) r by (auto simp: obj split: if_splits)
    then obtain j where j: "a \<in> sessions_of b j" using t(2) a(1) next' by (auto simp: no_orphans_def)
    ultimately have "j \<noteq> i" using b(2) by (auto simp: sessions_of_def)
    then show "\<exists>j. a \<in> sessions_of b' j" using j so by auto
  qed
  moreover have "held b' = held b1"
    unfolding held_def next' fields(1) using ft r by (intro sum.cong) (auto simp: obj)
  moreover have "opened b' = opened b \<and> closed b' = closed b" using fields unfolding b' by simp
  moreover have "clientRecords b' = clientRecords (recordClientConnection i False stamp b)"
    using fields unfolding b' by (simp add: recordClientConnection_def split: option.split)
  moreover have "objects b' a = objects b a" if "a \<notin> sessions_of b i" for a
    using that b(2) r by (auto simp: obj sessions_of_def)
  ultimately show ?thesis using ft so map' by (auto simp: shape_ok_def hl)
qed

lemma remove_effect:
  assumes b: "shape_ok b" "ClientMap b i = Some (Root r)" "sessions (objects b r) = members b r"
    and s: "s \<in> set (members b r)" "slots (objects b s) = []"
  defines "b' \<equiv> removeClientSession r s b"
  shows "shape_ok b' \<and> held b' = held b \<and> sessions (objects b' r) = members b' r
    \<and> (\<forall>j. sessions_of b' j = (if j = i \<and> s \<noteq> r then sessions_of b i - {s} else sessions_of b j))"
proof (cases "s = r")
  case True then show ?thesis using b unfolding b'_def by (simp add: removeClientSession_def)
next
  case False
  have t: "table_ok b" "no_orphans b" using b(1) by (simp_all add: shape_ok_def)
  have r: "r \<in> set (members b r)" "distinct (members b r)" "set (members b r) \<subseteq> {..<nextPtr b}" by (rule table_root [OF t(1) b(2)], auto)+
  have b': "b' = modify r (sessions_update (remove1 s)) b" using False unfolding b'_def by (simp add: removeClientSession_def)
  have mr: "sessions (objects b' r) = remove1 s (members b r)" using b(3) by (simp add: b')
  moreover have "remove1 s (members b r) \<noteq> []" using r(1) False by (metis in_set_remove1 list.set(1) empty_iff)
  ultimately have mem_r: "members b' r = remove1 s (members b r)" by (simp add: members_def)
  have mem: "members b' x = members b x" if "x \<noteq> r" for x using that by (simp add: members_def b')
  have cm: "ClientMap b' = ClientMap b" by (simp add: b')
  have so: "sessions_of b' j = (if j = i \<and> s \<noteq> r then sessions_of b i - {s} else sessions_of b j)" for j
  proof (cases "j = i")
    case True then show ?thesis using b(2) False r(2) by (simp add: sessions_of_def mem_r cm)
  next
    case ne: False
    have "members b' x = members b x" if "ClientMap b j = Some (Root x)" for x
      using root_unique [OF t(1) b(2), of j] mem that ne by metis
    then show ?thesis using ne by (cases "ClientMap b j"; cases "the (ClientMap b j)") (auto simp: sessions_of_def b')
  qed
  have sl: "slots (objects b' a) = slots (objects b a)" for a by (simp add: b' slots_def)
  have "root_ok b' e" if e: "ClientMap b j = Some e" for j e
  proof -
    obtain x where x: "e = Root x" "x \<in> set (members b x)" "set (members b x) \<subseteq> {..<nextPtr b}" "distinct (members b x)"
      by (rule table_root [OF t(1) e])
    have np: "nextPtr b' = nextPtr b" by (simp add: b')
    show ?thesis
    proof (cases "x = r")
      case True
      then show ?thesis using x False mem_r np by (auto simp: root_ok_def)
    qed (use x mem np in \<open>auto simp: root_ok_def\<close>)
  qed
  moreover have "sessions_of b' j \<inter> sessions_of b' k = {}" if "j \<noteq> k" for j k
  proof -
    have "sessions_of b j \<inter> sessions_of b k = {}" using that t(1) unfolding table_ok_def by blast
    then show ?thesis unfolding so by auto
  qed
  moreover have "no_orphans b'"
    unfolding no_orphans_def
  proof (intro allI impI)
    fix a assume a: "a < nextPtr b'" "slots (objects b' a) \<noteq> []"
    then obtain j where "a \<in> sessions_of b j" using t(2) sl by (auto simp: no_orphans_def b')
    moreover have "a \<noteq> s" using a(2) s(2) sl by auto
    ultimately show "\<exists>j. a \<in> sessions_of b' j" using so by (intro exI [of _ j]) auto
  qed
  moreover have "held b' = held b" unfolding held_def by (simp add: sl) (simp add: b')
  ultimately show ?thesis using so mr mem_r by (simp add: shape_ok_def table_ok_def b')
qed

text \<open>A session loses its connections and, unless it is the root, its place.\<close>

lemma detach_effect:
  fixes w :: bool
  assumes b: "shape_ok b" "ClientMap b i = Some (Root r)" and s: "s \<in> set (members b r)"
  defines "b1 \<equiv> removeClientSession r s (modify s (detached w) (ensureClientSessions r b))"
  shows "shape_ok b1 \<and> held b1 + mset (slots (objects b s)) = held b \<and> same_frame b b1 \<and> sessions (objects b1 r) = members b1 r
    \<and> (\<forall>j. sessions_of b1 j = (if j = i \<and> s \<noteq> r then sessions_of b i - {s} else sessions_of b j))"
proof -
  let ?e = "ensureClientSessions r b" and ?d = "modify s (detached w) (ensureClientSessions r b)"
  have bound: "s < nextPtr b" using member_bound in_sessions_of [OF b(2) s] b(1) by (auto simp: shape_ok_def)
  have sh: "shape_ok ?d" using b(1) by (auto simp: shape_ok_def table_modify intro!: orphans_modify)
  have mem: "members ?d x = members b x" "sessions_of ?d j = sessions_of b j" for x j
    by (simp_all add: members_modify sessions_of_modify)
  have "sessions (objects ?d r) = members b r" by simp
  then have e: "ClientMap ?d i = Some (Root r)" "sessions (objects ?d r) = members ?d r" "s \<in> set (members ?d r)" "slots (objects ?d s) = []"
    using b(2) s by (simp_all only: mem) simp_all
  have "held ?d + mset (slots (objects ?e s)) = held ?e" using held_modify [of s ?e "detached w"] bound by simp
  then have "held ?d + mset (slots (objects b s)) = held b" by simp
  moreover have "same_frame b b1" by (simp add: b1_def removeClientSession_def same_frame_def)
  ultimately show ?thesis using remove_effect [OF sh e] mem(2) by (simp add: b1_def)
qed

lemma ensure_tests [simp]:
  "has_conn (ensureClientSessions r b) = has_conn b" "IsClose (ensureClientSessions r b) = IsClose b"
  "live_mux (ensureClientSessions r b) = live_mux b"
  by (auto simp: has_conn_def live_mux_def IsClose_def fun_eq_iff split: option.split)

lemma has_signal [simp]:
  "fst (clientHasSignal r b) = (\<exists>s\<in>set (members b r). has_conn b (signal (objects b s)))"
  "snd (clientHasSignal r b) = ensureClientSessions r b"
  by (simp_all add: clientHasSignal_def Let_def list_ex_iff)

lemma ensured_same: "sessions (objects b r) = members b r \<Longrightarrow> ensureClientSessions r b = b"
  by (auto simp: ensureClientSessions_def members_def split: if_splits)

lemma conserve_close:
  assumes "conserved b" "shape_ok b'" "held b' + mset gone = held b" "opened b' = opened b" "mset (closed b') = mset (closed b) + mset gone"
  shows "bridge_ok b'"
proof -
  have "held b' + mset (closed b') = held b + mset (closed b)" using assms(3,5) by (metis add.assoc add.commute)
  then show ?thesis using assms(1,2,4) by (simp add: bridge_ok_iff conserved_def)
qed

lemma delete_all_ok:
  assumes "bridge_ok b" shows "bridge_ok (delClient_all i stamp b)"
proof (cases "ClientMap b i")
  case (Some e)
  then obtain r where r: "ClientMap b i = Some (Root r)" using assms by (auto simp: bridge_ok_def elim: table_root)
  let ?e = "ensureClientSessions r b"
  obtain hl b1 where d: "drop_root True i r stamp (([], [], []), ?e) = (hl, b1)" by fastforce
  have "shape_ok ?e" "ClientMap ?e i = Some (Root r)" "sessions (objects ?e r) = members ?e r" using assms r by (simp_all add: bridge_ok_iff)
  note eff = drop_root_effect [OF this d]
  show ?thesis
    by (rule conserve_close [of b _ "haul_list hl"])
       (use assms eff r d in \<open>auto simp: delClient_all_def bridge_ok_iff haul_list_def\<close>)
qed (use assms in \<open>simp add: delClient_all_def\<close>)

text \<open>Deletion of one session, in the two forms of the code: the sessions that remain and what has been closed.\<close>

definition after_delete :: "bool \<Rightarrow> cptr \<Rightarrow> cptr \<Rightarrow> bridge \<Rightarrow> bridge" where
  "after_delete w r s b = removeClientSession r s (modify s (detached w) (ensureClientSessions r b))"

lemma delete_signal_cases:
  assumes "shape_ok b"
  obtains (absent) "delClient_signal i sg stamp b = b \<or> (\<exists>r. delClient_signal i sg stamp b = ensureClientSessions r b)"
      "\<forall>s\<in>sessions_of b i. signal (objects b s) \<noteq> Some sg"
  | (kept) r s where "ClientMap b i = Some (Root r)" "s \<in> set (members b r)" "signal (objects b s) = Some sg"
      "\<exists>x\<in>set (members (after_delete True r s b) r). has_conn b (signal (objects (after_delete True r s b) x))"
      "delClient_signal i sg stamp b = close_haul (fst (take_session True s (([], [], []), b))) (after_delete True r s b)"
  | (last) r s hl b1 where "ClientMap b i = Some (Root r)" "s \<in> set (members b r)" "signal (objects b s) = Some sg"
      "\<forall>x\<in>set (members (after_delete True r s b) r). \<not> has_conn b (signal (objects (after_delete True r s b) x))"
      "drop_root False i r stamp (fst (take_session True s (([], [], []), b)), after_delete True r s b) = (hl, b1)"
      "delClient_signal i sg stamp b = notify_offline i (close_haul hl b1)"
proof (cases "ClientMap b i")
  case None
  then show thesis using absent by (simp add: delClient_signal_def sessions_of_def)
next
  case (Some e)
  then obtain r where r: "ClientMap b i = Some (Root r)" using assms by (auto simp: shape_ok_def elim: table_root)
  show thesis
  proof (cases "find (\<lambda>s. signal (objects b s) = Some sg) (members b r)")
    case None
    then have "delClient_signal i sg stamp b = ensureClientSessions r b"
      using r by (simp add: delClient_signal_def findClientSessionBySignal_def Let_def)
    moreover have "\<forall>s\<in>sessions_of b i. signal (objects b s) \<noteq> Some sg" using None r by (auto simp: sessions_of_def find_None_iff)
    ultimately show thesis using absent by blast
  next
    case (Some s)
    then have s: "s \<in> set (members b r)" "signal (objects b s) = Some sg" by (auto dest: find_member)
    let ?d = "after_delete True r s b"
    have d: "sessions (objects ?d r) = members ?d r" "same_frame b ?d"
      using detach_effect [OF assms r s(1), of True] by (simp_all add: after_delete_def)
    have hc: "has_conn ?d = has_conn b" using d(2) by (auto simp: has_conn_def same_frame_def fun_eq_iff split: option.split)
    have tk: "take_session True s (h, ensureClientSessions r b) = (fst (take_session True s (h, b)), modify s (detached True) (ensureClientSessions r b))" for h
      by (cases h) (simp add: take_session_def clearFileChannelsLocked_def Let_def)
    have run: "delClient_signal i sg stamp b =
      (if \<exists>x\<in>set (members ?d r). has_conn b (signal (objects ?d x)) then close_haul (fst (take_session True s (([], [], []), b))) ?d
       else (let (hl, b1) = drop_root False i r stamp (fst (take_session True s (([], [], []), b)), ?d) in notify_offline i (close_haul hl b1)))"
      using r Some ensured_same [OF d(1)] hc
      by (simp add: delClient_signal_def findClientSessionBySignal_def Let_def tk case_prod_beta flip: after_delete_def)
    obtain hl b1 where dr: "drop_root False i r stamp (fst (take_session True s (([], [], []), b)), ?d) = (hl, b1)" by fastforce
    show thesis
    proof (cases "\<exists>x\<in>set (members ?d r). has_conn b (signal (objects ?d x))")
      case True then show thesis using kept [OF r s] run by simp
    next
      case False then show thesis using last [OF r s] run dr by simp
    qed
  qed
qed

lemma delete_signal_ok:
  assumes "bridge_ok b" shows "bridge_ok (delClient_signal i sg stamp b)"
proof -
  have sh: "shape_ok b" and co: "conserved b" using assms by (simp_all add: bridge_ok_iff)
  from sh show ?thesis
  proof (cases rule: delete_signal_cases [of b i sg stamp])
    case (kept r s)
    note de = detach_effect [OF sh kept(1,2), of True, folded after_delete_def]
    show ?thesis
      by (rule conserve_close [OF co, of _ "slots (objects b s)"])
         (use kept de take_obj(2) [of True s "([], [], [])" b] in \<open>auto simp: haul_list_def same_frame_def\<close>)
  next
    case (last r s hl b1)
    note de = detach_effect [OF sh last(1,2), of True, folded after_delete_def]
    then have "shape_ok (after_delete True r s b)" "ClientMap (after_delete True r s b) i = Some (Root r)"
        "sessions (objects (after_delete True r s b) r) = members (after_delete True r s b) r" using last(1) by (simp_all add: same_frame_def)
    note eff = drop_root_effect [OF this last(5)]
    have "mset (haul_list (fst (take_session True s (([], [], []), b)))) = mset (slots (objects b s))"
      using take_obj(2) [of True s "([], [], [])" b] by (simp add: haul_list_def)
    then have "held b1 + mset (haul_list hl) = held b" using eff de by simp
    then show ?thesis
      by (intro conserve_close [OF co, of _ "haul_list hl"]) (use last eff de in \<open>auto simp: same_frame_def\<close>)
  qed (use assms in auto)
qed

lemma delete_snapshot_cases:
  assumes "shape_ok b"
  obtains (stale) "delClientIfSnapshot i sn stamp b = b \<or> (\<exists>r. delClientIfSnapshot i sn stamp b = ensureClientSessions r b)"
      "snClient sn \<notin> sessions_of b i \<or> \<not> snapshot_current b sn"
  | (kept) r rest own where "ClientMap b i = Some (Root r)" "snClient sn \<in> set (members b r)" "snapshot_current b sn"
      "\<exists>x\<in>set (members (after_delete False r (snClient sn) b) r). has_conn b (signal (objects (after_delete False r (snClient sn) b) x))"
      "mset own + mset (haul_list rest) = mset (slots (objects b (snClient sn)))"
      "delClientIfSnapshot i sn stamp b = close_haul rest (close_all own (after_delete False r (snClient sn) b))"
  | (last) r rest own hl b1 where "ClientMap b i = Some (Root r)" "snClient sn \<in> set (members b r)" "snapshot_current b sn"
      "\<forall>x\<in>set (members (after_delete False r (snClient sn) b) r). \<not> has_conn b (signal (objects (after_delete False r (snClient sn) b) x))"
      "mset own + mset (haul_list rest) = mset (slots (objects b (snClient sn)))"
      "drop_root False i r stamp (rest, after_delete False r (snClient sn) b) = (hl, b1)"
      "delClientIfSnapshot i sn stamp b = notify_offline i (close_haul hl (close_all own b1))"
proof -
  let ?s = "snClient sn"
  consider (none) "ClientMap b i = None" | (out) r where "ClientMap b i = Some (Root r)" "?s \<notin> set (members b r)"
    | (old) r where "ClientMap b i = Some (Root r)" "?s \<in> set (members b r)" "\<not> snapshot_current b sn"
    | (current) r where "ClientMap b i = Some (Root r)" "?s \<in> set (members b r)" "snapshot_current b sn"
    using assms by (metis not_Some_eq shape_ok_def table_root)
  then show thesis
  proof cases
    case none then show thesis using stale by (simp add: delClientIfSnapshot_def sessions_of_def)
  next
    case (out r)
    then have "find (\<lambda>s. s = ?s) (members b r) = None" by (auto simp: find_None_iff)
    then have "delClientIfSnapshot i sn stamp b = ensureClientSessions r b"
      using out by (simp add: delClientIfSnapshot_def findClientSession_def Let_def)
    then show thesis using stale out by (auto simp: sessions_of_def)
  next
    case (old r)
    then have "find (\<lambda>s. s = ?s) (members b r) = Some ?s" by (metis (mono_tags, lifting) find_None_iff find_member option.exhaust)
    then have "delClientIfSnapshot i sn stamp b = ensureClientSessions r b"
      using old by (simp add: delClientIfSnapshot_def findClientSession_def snapshot_current_def Let_def)
    then show thesis using stale old by auto
  next
    case (current r)
    let ?c = "objects b ?s" and ?d = "after_delete False r ?s b"
    let ?own = "map Sig (opt_list (signal ?c)) @ map Mx (opt_list (tunnel ?c) @ opt_list (file_mux ?c))"
      and ?rest = "([], [], map snd (fileChannels ?c))"
    have f: "find (\<lambda>s. s = ?s) (members b r) = Some ?s" using current(2) by (metis (mono_tags, lifting) find_None_iff find_member option.exhaust)
    have d: "sessions (objects ?d r) = members ?d r" "same_frame b ?d"
      using detach_effect [OF assms current(1,2), of False] by (simp_all add: after_delete_def)
    have hc: "has_conn ?d = has_conn b" using d(2) by (auto simp: has_conn_def same_frame_def fun_eq_iff split: option.split)
    have cur: "snapshot_current (ensureClientSessions r b) sn" using current(3) by (simp add: snapshot_current_def Let_def)
    have run: "delClientIfSnapshot i sn stamp b =
      (if \<exists>x\<in>set (members ?d r). has_conn b (signal (objects ?d x)) then close_haul ?rest (close_all ?own ?d)
       else (let (hl, b1) = drop_root False i r stamp (?rest, ?d) in notify_offline i (close_haul hl (close_all ?own b1))))"
      using current(1) f cur ensured_same [OF d(1)] hc
      by (simp add: delClientIfSnapshot_def findClientSession_def Let_def clearFileChannelsLocked_def case_prod_beta flip: after_delete_def)
    have ms: "mset ?own + mset (haul_list ?rest) = mset (slots ?c)" by (simp add: haul_list_def slots_def ac_simps)
    obtain hl b1 where dr: "drop_root False i r stamp (?rest, ?d) = (hl, b1)" by fastforce
    show thesis
    proof (cases "\<exists>x\<in>set (members ?d r). has_conn b (signal (objects ?d x))")
      case True then show thesis using kept [OF current True ms] run by simp
    next
      case False then show thesis using last [OF current _ ms dr] run dr by simp
    qed
  qed
qed

lemma delete_snapshot_ok:
  assumes "bridge_ok b" shows "bridge_ok (delClientIfSnapshot i sn stamp b)"
proof -
  have sh: "shape_ok b" and co: "conserved b" using assms by (simp_all add: bridge_ok_iff)
  let ?s = "snClient sn"
  from sh show ?thesis
  proof (cases rule: delete_snapshot_cases [of b i sn stamp])
    case (kept r rest own)
    note de = detach_effect [OF sh kept(1,2), of False, folded after_delete_def]
    show ?thesis
      by (rule conserve_close [OF co, of _ "own @ haul_list rest"])
         (use kept(5,6) de in \<open>auto simp: same_frame_def\<close>)
  next
    case (last r rest own hl b1)
    note de = detach_effect [OF sh last(1,2), of False, folded after_delete_def]
    then have "shape_ok (after_delete False r ?s b)" "ClientMap (after_delete False r ?s b) i = Some (Root r)"
        "sessions (objects (after_delete False r ?s b) r) = members (after_delete False r ?s b) r" using last(1) by (simp_all add: same_frame_def)
    note eff = drop_root_effect [OF this last(6)]
    have "held b1 + mset (own @ haul_list hl) = (held b1 + mset (haul_list hl)) + mset own" by (simp add: ac_simps)
    also have "\<dots> = held (after_delete False r ?s b) + (mset own + mset (haul_list rest))" using eff by (simp add: ac_simps)
    also have "\<dots> = held b" using de last(5) by simp
    finally show ?thesis
      by (intro conserve_close [OF co, of _ "own @ haul_list hl"]) (use last(7) eff de in \<open>auto simp: same_frame_def\<close>)
  qed (use assms in auto)
qed

subsection \<open>Every connection is accounted for\<close>

lemma ping_modify: "\<exists>f. snd (ping_session s b) = modify s f b \<and> (\<forall>c. sessions (f c) = sessions c \<and> slots (f c) = slots c)"
proof -
  have "modify s (\<lambda>c. c) b = b" by (simp add: modify_def)
  then show ?thesis
    unfolding ping_session_def Let_def
    by (auto intro: exI [of _ "retryTime_update (\<lambda>_. 0)"] exI [of _ "retryTime_update (\<lambda>n. n + 1)"] exI [of _ "\<lambda>c. c"] simp: slots_def)
qed

lemma select_state:
  "snd (selectSession rnd i res b) = b \<or> (\<exists>r. snd (selectSession rnd i res b) = ensureClientSessions r b)
   \<or> (\<exists>r. snd (selectSession rnd i res b) = modify r (selectSeq_update (\<lambda>q. q + 1)) (ensureClientSessions r b))"
  by (auto simp: selectSession_def Let_def split: option.split runtime_entry.split)

lemma disconnect_state:
  obtains "snd (DisconnectClientInstance i inst stamp b) = b"
  | r where "snd (DisconnectClientInstance i inst stamp b) = ensureClientSessions r b"
  | r sg where "snd (DisconnectClientInstance i inst stamp b) = delClient_signal i sg stamp (ensureClientSessions r b)"
proof -
  { fix r assume "TrimSpace inst \<noteq> []" "ClientMap b i = Some (Root r)"
    let ?p = "\<lambda>s. TrimSpace (InstanceID (Instance (objects b s))) = TrimSpace inst \<and> signal (objects b s) \<noteq> None"
    have ?thesis
    proof (cases "find ?p (members b r)")
      case None then show ?thesis using that(2) [of r] \<open>TrimSpace inst \<noteq> []\<close> \<open>ClientMap b i = _\<close> by (simp add: DisconnectClientInstance_def Let_def)
    next
      case (Some s)
      then obtain sg where "signal (objects b s) = Some sg" by (auto dest: find_member)
      then show ?thesis using that(3) [of sg r] Some \<open>TrimSpace inst \<noteq> []\<close> \<open>ClientMap b i = _\<close>
        by (simp add: DisconnectClientInstance_def delClient_def Let_def)
    qed }
  then show ?thesis using that(1) by (cases "TrimSpace inst = []"; cases "ClientMap b i"; cases "the (ClientMap b i)") (auto simp: DisconnectClientInstance_def)
qed

lemma op_keeps_ok:
  assumes "bridge_ok b" "allowed x b" shows "bridge_ok (apply_op x b)"
proof (cases x)
  case (Identity s c ident)
  then show ?thesis using assms by (auto simp: store_identity_def slots_def intro!: quiet_modify_ok)
next
  case (Disconnect i inst stamp)
  show ?thesis
    by (rule disconnect_state [of i inst stamp b]) (use assms delete_signal_ok in \<open>auto simp: Disconnect\<close>)
next
  case (Select rnd i res)
  show ?thesis
    using select_state [of rnd i res b] assms by (auto simp: Select slots_def intro!: quiet_modify_ok)
next
  case (PingSession s)
  obtain f where "snd (ping_session s b) = modify s f b" "\<forall>c. sessions (f c) = sessions c \<and> slots (f c) = slots c" using ping_modify by blast
  then show ?thesis using assms quiet_modify_ok [of b f s] by (simp add: PingSession)
qed (use assms in \<open>auto simp: main_ok arrivals_ok new_public_ok delClient_def delete_all_ok delete_signal_ok delete_snapshot_ok
       bridge_ok_log [OF core_updates(5)] bridge_ok_log [OF core_updates(6)]\<close>)

lemma reachable_ok: "bridge_reachable b \<Longrightarrow> bridge_ok b"
proof (induction rule: bridge_reachable.induct)
  case (start b)
  then show ?case by (auto simp: initial_bridge_def bridge_ok_def table_ok_def no_orphans_def accounted_def held_def sessions_of_def)
qed (rule op_keeps_ok)

lemma count_held: "count (held b) x = (\<Sum>a<nextPtr b. count (mset (slots (objects b a))) x)"
  by (simp add: held_def count_sum)

lemma held_once:
  assumes "count (held b) x = 1"
  shows "\<exists>!a. a < nextPtr b \<and> x \<in> set (slots (objects b a))"
proof -
  let ?n = "\<lambda>a. count (mset (slots (objects b a))) x"
  have "sum ?n {..<nextPtr b} = 1" using assms by (simp only: count_held)
  then have "\<exists>a\<in>{..<nextPtr b}. ?n a = 1 \<and> (\<forall>c\<in>{..<nextPtr b}. a \<noteq> c \<longrightarrow> ?n c = 0)"
    using sum_eq_1_iff [of "{..<nextPtr b}" ?n] by blast
  then obtain a where a: "a < nextPtr b" "?n a = 1" "\<forall>c<nextPtr b. c \<noteq> a \<longrightarrow> ?n c = 0"
    by (metis lessThan_iff)
  have in': "x \<in> set (slots (objects b c)) \<longleftrightarrow> count (mset (slots (objects b c))) x \<noteq> 0" for c
    by (metis count_eq_zero_iff set_mset_mset)
  have "x \<in> set (slots (objects b a))" by (metis a(2) in' zero_neq_one)
  moreover have "c = a" if "c < nextPtr b" "x \<in> set (slots (objects b c))" for c by (metis a(3) in' that)
  ultimately show ?thesis using a(1) by blast
qed


subsection \<open>The recorded presence of a client\<close>

definition is_up :: "bridge \<Rightarrow> int \<Rightarrow> bool" where
  "is_up b i \<longleftrightarrow> (\<exists>s\<in>sessions_of b i. signal (objects b s) \<noteq> None)"

definition presence_ok :: "bridge \<Rightarrow> bool" where
  "presence_ok b \<longleftrightarrow> (\<forall>i h. clientRecords b i = Some (Some h) \<longrightarrow> i > 0 \<longrightarrow> online h = is_up b i)"

definition sockets_ok :: "bridge \<Rightarrow> bool" where
  "sockets_ok b \<longleftrightarrow> (\<forall>n. Sig n \<in> set (opened b) \<longrightarrow> n \<notin> set (bare b))"

lemma slot_signal: "Sig n \<in> set (slots c) \<longleftrightarrow> signal c = Some n"
  by (auto simp: slots_def opt_list_def split: option.splits)

lemma same_slots_signal: "slots c = slots c' \<Longrightarrow> signal c = signal c'"
  by (metis slot_signal not_None_eq)

lemma no_slots_signal: "slots c = [] \<Longrightarrow> signal c = None"
  by (metis empty_iff list.set(1) not_None_eq slot_signal)

lemma up_core: "same_core b b' \<Longrightarrow> is_up b' = is_up b"
proof (rule ext)
  fix i assume c: "same_core b b'"
  have "sessions_of b' = sessions_of b" "objects b' = objects b" using core_cong(2) [OF c] c by (simp_all add: same_core_def)
  then show "is_up b' i = is_up b i" by (simp only: is_up_def)
qed

lemma up_ensure [simp]: "is_up (ensureClientSessions r b) = is_up b"
  by (intro ext) (simp add: is_up_def)

lemma up_placed:
  assumes "placed i b p" shows "is_up (snd p) j = is_up b j"
proof -
  have "signal (objects (snd p) a) = signal (objects b a)" if "a \<in> sessions_of b j" for a
    using assms that unfolding placed_def by (blast intro: same_slots_signal)
  moreover have "a \<in> sessions_of b j" if "a \<in> sessions_of (snd p) j" "signal (objects (snd p) a) \<noteq> None" for a
    using assms that no_slots_signal unfolding placed_def by metis
  ultimately show ?thesis using assms unfolding is_up_def placed_def by metis
qed

lemma up_modify:
  "\<forall>c. sessions (f c) = sessions c \<Longrightarrow> \<forall>c. signal (f c) = signal c \<Longrightarrow> is_up (modify s f b) = is_up b"
  by (intro ext) (auto simp: is_up_def sessions_of_modify)

lemma held_signal_has_conn:
  assumes "bridge_ok b" "sockets_ok b" "a \<in> sessions_of b i"
  shows "has_conn b (signal (objects b a)) \<longleftrightarrow> signal (objects b a) \<noteq> None"
proof (cases "signal (objects b a)")
  case (Some n)
  have "a < nextPtr b" using assms member_bound by (auto simp: bridge_ok_def)
  then have "Sig n \<in># held b" using Some slot_held slot_signal by metis
  then show ?thesis using Some held_opened [OF assms(1)] assms(2) by (auto simp: has_conn_def sockets_ok_def)
qed (simp add: has_conn_def)

lemma presence_same: "presence_ok b \<Longrightarrow> clientRecords b' = clientRecords b \<Longrightarrow> is_up b' = is_up b \<Longrightarrow> presence_ok b'"
  by (simp add: presence_ok_def)

lemma presence_record:
  assumes "presence_ok b" "clientRecords b' = clientRecords (recordClientConnection i up stamp b0)" "clientRecords b0 = clientRecords b"
    and "is_up b' i = up" "\<And>j. j \<noteq> i \<Longrightarrow> is_up b' j = is_up b j"
  shows "presence_ok b'"
proof -
  have "online h = is_up b' j" if h: "clientRecords b' j = Some (Some h)" "j > 0" for j h
  proof (cases "j = i")
    case True
    then obtain g where "h = record_transition (historyLimit b0) up stamp g"
      using h assms(2) by (auto simp: recordClientConnection_def RecordConnection_def split: option.splits)
    then show ?thesis using True assms(4) by (simp add: kept.shown_report)
  next
    case False
    then have "clientRecords b j = Some (Some h)"
      using h(1) assms(2,3) by (auto simp: recordClientConnection_def split: option.splits)
    then show ?thesis using assms(1) h(2) assms(5) [OF False] by (simp add: presence_ok_def)
  qed
  then show ?thesis by (simp add: presence_ok_def)
qed

lemma eq_except: "f i = g i \<Longrightarrow> (\<And>j. j \<noteq> i \<Longrightarrow> f j = g j) \<Longrightarrow> f = g"
  by (rule ext) metis

lemma up_new_root:
  assumes "table_ok b" "sessions c = [] \<or> sessions c = [nextPtr b]"
    and "objects b' = (objects b)(nextPtr b := c)" "ClientMap b' = (ClientMap b)(i \<mapsto> Root (nextPtr b))"
  shows "is_up b' j = (if j = i then signal c \<noteq> None else is_up b j)"
proof -
  have "a \<noteq> nextPtr b" if "a \<in> sessions_of b j" for a using member_bound [OF assms(1) that] by simp
  then show ?thesis using assms(3) by (auto simp: is_up_def new_root_sessions [OF assms])
qed

lemma up_unregistered: "ClientMap b i = None \<Longrightarrow> \<not> is_up b i"
  by (simp add: is_up_def sessions_of_def)

lemma store_root_fields:
  "sessions c = [] \<Longrightarrow> objects (snd (store_root i c b)) = (objects b)(nextPtr b := c\<lparr>sessions := [nextPtr b]\<rparr>)"
  "ClientMap (snd (store_root i c b)) = (ClientMap b)(i \<mapsto> Root (nextPtr b))" "clientRecords (snd (store_root i c b)) = clientRecords b"
  by (auto simp: store_root_def alloc_def Let_def ensureClientSessions_def modify_def fun_eq_iff)

lemma up_store_root:
  assumes "bridge_ok b" "sessions c = []"
  shows "is_up (snd (store_root i c (announce x b))) j = (if j = i then signal c \<noteq> None else is_up b j)"
  using up_new_root [of b "c\<lparr>sessions := [nextPtr b]\<rparr>" "snd (store_root i c (announce x b))" i j] assms core_updates(1) [of b x]
  by (simp add: bridge_ok_def store_root_fields same_core_def)

lemma records_updates [simp]:
  "clientRecords (announce x b) = clientRecords b" "clientRecords (close_all rs b) = clientRecords b"
  "clientRecords (close_old old b) = clientRecords b" "clientRecords (close_haul hl b) = clientRecords b" "clientRecords (notify_offline i b) = clientRecords b"
  by (auto simp: announce_def close_all_def close_old_def close_haul_def notify_offline_def split: option.split prod.split)

lemma up_updates [simp]:
  "is_up (announce x b) = is_up b" "is_up (close_all rs b) = is_up b" "is_up (recordClientConnection i up stamp b) = is_up b"
  "is_up (notify_offline i b) = is_up b" "is_up (close_haul hl b) = is_up b" "is_up (close_old old b) = is_up b"
  by (rule up_core, simp)+

context mux_attachment
begin

lemma attached_presence:
  assumes "bridge_ok b"
  shows "is_up (attach_mux place put get fresh i m b) = is_up b \<and> clientRecords (attach_mux place put get fresh i m b) = clientRecords b"
using assms
proof (cases rule: placing_cases [of b "Mx m" i])
  case (root r)
  note p = place_placed [OF root(2,1)]
  have "is_up (modify s (put m) b') = is_up b'" for s b' by (rule up_modify) (simp_all add: put_keeps)
  then show ?thesis using root p up_placed [OF p] by (simp add: attach_mux_def Let_def placed_def same_frame_def fun_eq_iff)
next
  case none
  then show ?thesis using up_unregistered [OF none(2)]
    by (simp add: attach_mux_def up_store_root [OF assms] store_root_fields fresh_empty fun_eq_iff)
qed

end

lemma arrivals_presence:
  assumes "bridge_ok b" "presence_ok b"
  shows "presence_ok (typeDeal_chan i m vs transport b)" "presence_ok (typeDeal_file i m vs b)"
    "Mx m \<notin> set (opened b) \<Longrightarrow> presence_ok (typeDeal_keyed i key m vs b)"
  using chan.attached_presence [OF assms(1)] files.attached_presence [OF assms(1)] keyed.attached_presence [OF assms(1)]
  by (auto simp: attach_chan [OF assms(1)] attach_file [OF assms(1)] attach_keyed [OF assms(1)] intro!: presence_same [OF assms(2)])

lemma main_presence:
  assumes "bridge_ok b" "presence_ok b" "sockets_ok b"
  shows "presence_ok (snd (typeDeal_main i c vs transport remote stamp b))"
proof (cases "pubClient b i")
  case True then show ?thesis using assms by (intro presence_same [OF assms(2)]) (simp_all add: typeDeal_main_def Let_def)
next
  case np: False
  from assms(1) show ?thesis
  proof (cases rule: placing_cases [of b "Sig c" i])
    case (root r)
    let ?b = "announce (Sig c) b" and ?f = "set_main c vs transport remote stamp"
    define p where "p = sessionForLocked r ''signal'' vs (ensureClientSessions r ?b)"
    have p: "placed i ?b p"
      using placed_session [of "ensureClientSessions r ?b" i r] root frame_ensure [of ?b r] by (simp add: p_def placed_def same_frame_def)
    let ?m = "modify (fst p) ?f (snd p)" and ?res = "snd (typeDeal_main i c vs transport remote stamp b)"
    have was: "(\<exists>s\<in>set (members b r). signal (objects ?b s) \<noteq> None) = is_up b i"
      using root by (simp add: is_up_def sessions_of_def announce_def)
    have up: "is_up ?res = is_up ?m" and rec: "clientRecords ?res = (if is_up b i then clientRecords ?m else clientRecords (recordClientConnection i True stamp ?m))"
      using np root was by (auto simp: typeDeal_main_def Let_def case_prod_beta p_def [symmetric] list_ex_iff split: option.split)
    have so: "sessions_of ?m j = sessions_of (snd p) j" for j by (rule sessions_of_modify) (simp add: set_main_def)
    have "fst p \<in> sessions_of (snd p) i" and t: "table_ok (snd p)" using p by (auto simp: placed_def shape_ok_def)
    then have up_i: "is_up ?m i" unfolding is_up_def so by (intro bexI [of _ "fst p"]) (simp_all add: set_main_def)
    have up_j: "is_up ?m j = is_up b j" if "j \<noteq> i" for j
    proof -
      have "fst p \<notin> sessions_of (snd p) j" using t that \<open>fst p \<in> _\<close> unfolding table_ok_def by blast
      then have "is_up ?m j = is_up (snd p) j" unfolding is_up_def so by (intro bex_cong) auto
      then show ?thesis using up_placed [OF p, of j] by simp
    qed
    have cr: "clientRecords ?m = clientRecords b" using p by (simp add: placed_def same_frame_def)
    show ?thesis
    proof (cases "is_up b i")
      case True
      then have "is_up ?res = is_up b" unfolding up by (intro eq_except [of _ i]) (use up_i up_j in simp_all)
      then show ?thesis using presence_same [OF assms(2)] True rec cr by simp
    next
      case False
      then show ?thesis using presence_record [OF assms(2) _ cr, of ?res i True stamp] rec up up_i up_j by simp
    qed
  next
    case none
    show ?thesis
      by (rule presence_record [OF assms(2), of _ i True stamp "snd (store_root i ((NewSession None None (Some c) vs)\<lparr>Transport := normalizeBridgeTransport transport, RemoteAddr := remote, ConnectedAt := stamp\<rparr>) (announce (Sig c) b))"])
         (use np none in \<open>simp_all add: typeDeal_main_def Let_def case_prod_beta up_store_root [OF assms(1)] store_root_fields NewSession_def\<close>)
  qed
qed

lemma after_delete_up:
  assumes "shape_ok b" "ClientMap b i = Some (Root r)" "s \<in> set (members b r)"
  shows "(\<exists>x\<in>set (members (after_delete w r s b) r). signal (objects (after_delete w r s b) x) \<noteq> None) = is_up (after_delete w r s b) i"
    and "j \<noteq> i \<Longrightarrow> is_up (after_delete w r s b) j = is_up b j"
    and "is_up (after_delete w r s b) i \<Longrightarrow> is_up b i"
    and "\<And>a n. signal (objects (after_delete w r s b) a) = Some n \<Longrightarrow> signal (objects b a) = Some n"
proof -
  let ?d = "after_delete w r s b"
  note de = detach_effect [OF assms, of w, folded after_delete_def]
  have obj: "signal (objects ?d a) = (if a = s then None else signal (objects b a))" for a
    by (simp add: after_delete_def removeClientSession_def)
  show "(\<exists>x\<in>set (members ?d r). signal (objects ?d x) \<noteq> None) = is_up ?d i"
    using de assms(2) by (simp add: is_up_def sessions_of_def same_frame_def)
  show "is_up ?d i \<Longrightarrow> is_up b i" using de by (auto simp: is_up_def obj split: if_splits)
  show "signal (objects ?d a) = Some n \<Longrightarrow> signal (objects b a) = Some n" for a n by (simp add: obj split: if_splits)
  assume j: "j \<noteq> i"
  have "s \<notin> sessions_of b j" using j assms(1) in_sessions_of [OF assms(2,3)] unfolding shape_ok_def table_ok_def by blast
  then have "signal (objects ?d a) = signal (objects b a)" if "a \<in> sessions_of b j" for a using that by (auto simp: obj)
  moreover have "sessions_of ?d j = sessions_of b j" using de j by simp
  ultimately show "is_up ?d j = is_up b j" by (simp add: is_up_def)
qed

lemma dropped_presence:
  assumes d: "shape_ok b" "ClientMap b i = Some (Root r)" "sessions (objects b r) = members b r" "drop_root w i r stamp (hl, b) = (hl', b')"
    and p: "presence_ok b0" "clientRecords b = clientRecords b0" "\<And>j. j \<noteq> i \<Longrightarrow> is_up b j = is_up b0 j"
  shows "presence_ok b'"
proof -
  note eff = drop_root_effect [OF d]
  have "is_up b' j = is_up b j" if "j \<noteq> i" for j
  proof -
    have "a \<notin> sessions_of b i" if "a \<in> sessions_of b j" for a using that \<open>j \<noteq> i\<close> d(1) unfolding shape_ok_def table_ok_def by blast
    then show ?thesis using eff that by (simp add: is_up_def)
  qed
  moreover have "\<not> is_up b' i" using eff by (simp add: is_up_def)
  ultimately show ?thesis using presence_record [OF p(1) _ p(2), of b' i False stamp] eff p(3) by simp
qed

lemma delete_all_presence:
  assumes "bridge_ok b" "presence_ok b" shows "presence_ok (delClient_all i stamp b)"
proof (cases "ClientMap b i")
  case (Some e)
  then obtain r where r: "ClientMap b i = Some (Root r)" using assms by (auto simp: bridge_ok_def elim: table_root)
  let ?e = "ensureClientSessions r b"
  obtain hl b1 where d: "drop_root True i r stamp (([], [], []), ?e) = (hl, b1)" by fastforce
  have "shape_ok ?e" "ClientMap ?e i = Some (Root r)" "sessions (objects ?e r) = members ?e r" using assms r by (simp_all add: bridge_ok_iff)
  then have "presence_ok b1" by (rule dropped_presence [OF _ _ _ d assms(2)]) simp_all
  then show ?thesis using presence_same r d by (simp add: delClient_all_def)
qed (use assms in \<open>simp add: delClient_all_def\<close>)

lemma remaining_conn:
  assumes "bridge_ok b" "sockets_ok b" "ClientMap b i = Some (Root r)" "s \<in> set (members b r)" "x \<in> set (members (after_delete w r s b) r)"
  shows "has_conn b (signal (objects (after_delete w r s b) x)) \<longleftrightarrow> signal (objects (after_delete w r s b) x) \<noteq> None"
proof (cases "signal (objects (after_delete w r s b) x)")
  case (Some n)
  have sh: "shape_ok b" using assms(1) by (simp add: bridge_ok_iff)
  have "x \<in> sessions_of (after_delete w r s b) i"
    using detach_effect [OF sh assms(3,4), of w, folded after_delete_def] assms(3,5) by (simp add: sessions_of_def same_frame_def)
  then have "x \<in> sessions_of b i" using detach_effect [OF sh assms(3,4), of w, folded after_delete_def] by (auto split: if_splits)
  moreover have "signal (objects b x) = Some n" by (rule after_delete_up(4) [OF sh assms(3,4) Some])
  ultimately show ?thesis using held_signal_has_conn [OF assms(1,2)] Some by metis
qed (simp add: has_conn_def)

lemma delete_signal_presence:
  assumes "bridge_ok b" "presence_ok b" "sockets_ok b" shows "presence_ok (delClient_signal i sg stamp b)"
proof -
  have sh: "shape_ok b" using assms(1) by (simp add: bridge_ok_iff)
  from sh show ?thesis
  proof (cases rule: delete_signal_cases [of b i sg stamp])
    case absent then show ?thesis using presence_same [OF assms(2)] assms(2) by auto
  next
    case (kept r s)
    note u = after_delete_up [OF sh kept(1,2)]
    have "is_up (after_delete True r s b) i" using kept(4) remaining_conn [OF assms(1,3) kept(1,2)] u(1) by metis
    then have "is_up (after_delete True r s b) = is_up b" by (intro eq_except [of _ i]) (simp_all add: u(2,3))
    moreover have "clientRecords (after_delete True r s b) = clientRecords b"
      using detach_effect [OF sh kept(1,2), of True, folded after_delete_def] by (simp add: same_frame_def)
    ultimately show ?thesis using presence_same [OF assms(2)] kept(5) by simp
  next
    case (last r s hl b1)
    note de = detach_effect [OF sh last(1,2), of True, folded after_delete_def]
    then have "shape_ok (after_delete True r s b)" "ClientMap (after_delete True r s b) i = Some (Root r)"
        "sessions (objects (after_delete True r s b) r) = members (after_delete True r s b) r" using last(1) by (simp_all add: same_frame_def)
    then have "presence_ok b1"
      by (rule dropped_presence [OF _ _ _ last(5) assms(2)]) (use de after_delete_up(2) [OF sh last(1,2)] in \<open>simp_all add: same_frame_def\<close>)
    then show ?thesis using presence_same last(6) by simp
  qed
qed

lemma delete_snapshot_presence:
  assumes "bridge_ok b" "presence_ok b" "sockets_ok b" shows "presence_ok (delClientIfSnapshot i sn stamp b)"
proof -
  have sh: "shape_ok b" using assms(1) by (simp add: bridge_ok_iff)
  let ?s = "snClient sn"
  from sh show ?thesis
  proof (cases rule: delete_snapshot_cases [of b i sn stamp])
    case stale then show ?thesis using presence_same [OF assms(2)] assms(2) by auto
  next
    case (kept r rest own)
    note u = after_delete_up [OF sh kept(1,2)]
    have "is_up (after_delete False r ?s b) i" using kept(4) remaining_conn [OF assms(1,3) kept(1,2)] u(1) by metis
    then have "is_up (after_delete False r ?s b) = is_up b" by (intro eq_except [of _ i]) (simp_all add: u(2,3))
    moreover have "clientRecords (after_delete False r ?s b) = clientRecords b"
      using detach_effect [OF sh kept(1,2), of False, folded after_delete_def] by (simp add: same_frame_def)
    ultimately show ?thesis using presence_same [OF assms(2)] kept(6) by simp
  next
    case (last r rest own hl b1)
    note de = detach_effect [OF sh last(1,2), of False, folded after_delete_def]
    then have "shape_ok (after_delete False r ?s b)" "ClientMap (after_delete False r ?s b) i = Some (Root r)"
        "sessions (objects (after_delete False r ?s b) r) = members (after_delete False r ?s b) r" using last(1) by (simp_all add: same_frame_def)
    then have "presence_ok b1"
      by (rule dropped_presence [OF _ _ _ last(6) assms(2)]) (use de after_delete_up(2) [OF sh last(1,2)] in \<open>simp_all add: same_frame_def\<close>)
    then show ?thesis using presence_same last(7) by simp
  qed
qed

text \<open>No operation changes which connections have a socket, and only arrivals hand over connections.\<close>

definition ledger :: "bridge \<Rightarrow> nat list \<times> resource list" where "ledger b = (bare b, opened b)"

lemma ledger_updates [simp]:
  "ledger (modify a f b) = ledger b" "ledger (ensureClientSessions r b) = ledger b" "ledger (close_all rs b) = ledger b"
  "ledger (recordClientConnection i up stamp b) = ledger b" "ledger (notify_offline i b) = ledger b" "ledger (close_old old b) = ledger b"
  "ledger (close_haul hl b) = ledger b" "ledger (removeClientSession r s b) = ledger b" "ledger (snd (add_variant r vs b)) = ledger b"
  "ledger (snd (take_session w s hb)) = ledger (snd hb)" "ledger (b\<lparr>ClientMap := cm\<rparr>) = ledger b" "ledger (snd (store_root i c b)) = ledger b"
  "ledger (store_identity s n ident b) = ledger b" "ledger (store_new_client i b) = ledger b"
  by (auto simp: ledger_def close_all_def recordClientConnection_def notify_offline_def close_old_def close_haul_def removeClientSession_def
      add_variant_def take_session_def Let_def store_root_def alloc_def store_identity_def store_new_client_def split: option.split prod.split)

lemma ledger_placing [simp]:
  "ledger (snd (sessionForLocked r res vs b)) = ledger b" "ledger (snd (sessionForFileChannelLocked r key vs b)) = ledger b"
  by (auto simp: sessionForLocked_def sessionForFileChannelLocked_def Let_def split: option.split)

lemma ledger_fold: "ledger (snd (fold (take_session w) ss hb)) = ledger (snd hb)"
  by (induction ss arbitrary: hb) auto

lemma ledger_drop [simp]: "ledger (snd (drop_root w i r stamp hb)) = ledger (snd hb)"
  by (cases hb) (simp add: drop_root_def Let_def case_prod_beta ledger_fold)

lemma ledger_deletes [simp]:
  "ledger (delClient i sg stamp b) = ledger b" "ledger (delClientIfSnapshot i sn stamp b) = ledger b"
  by (auto simp: delClient_def delClient_all_def delClient_signal_def delClientIfSnapshot_def findClientSession_def findClientSessionBySignal_def
      Let_def case_prod_beta split: option.split runtime_entry.split)

lemma ledger_arrivals:
  "ledger (snd (typeDeal_main i c vs transport remote stamp b)) = (bare b, opened b @ [Sig c])"
  "ledger (typeDeal_chan i m vs transport b) = (bare b, opened b @ [Mx m])"
  "ledger (typeDeal_file i m vs b) = (bare b, opened b @ [Mx m])"
  "ledger (typeDeal_keyed i key m vs b) = (bare b, opened b @ [Mx m])"
  by (simp_all add: typeDeal_main_def typeDeal_chan_def typeDeal_file_def typeDeal_keyed_def Let_def case_prod_beta
      split: option.split runtime_entry.split) (simp_all add: ledger_def announce_def)

lemma op_sockets:
  assumes "sockets_ok b" "allowed x b" shows "sockets_ok (apply_op x b)"
proof -
  have "ledger (apply_op x b) = ledger b \<or> (\<exists>y. ledger (apply_op x b) = (bare b, opened b @ [y]) \<and> (\<forall>n. y = Sig n \<longrightarrow> n \<notin> set (bare b)))"
  proof (cases x)
    case (Disconnect i inst stamp)
    show ?thesis
      by (rule disconnect_state [of i inst stamp b]) (use ledger_deletes(1) [of i "Some _" stamp] in \<open>auto simp: Disconnect delClient_def\<close>)
  next
    case (Select rnd i res)
    then show ?thesis using select_state [of rnd i res b] by auto
  next
    case (PingSession s)
    then show ?thesis using ping_modify [of s b] by auto
  qed (use assms in \<open>auto simp: ledger_arrivals\<close>, auto simp: ledger_def)
  then show ?thesis using assms by (auto simp: ledger_def sockets_ok_def)
qed

lemma quiet_presence:
  assumes "presence_ok b" "\<forall>c. sessions (f c) = sessions c" "\<forall>c. signal (f c) = signal c"
  shows "presence_ok (modify s f b)"
  by (rule presence_same [OF assms(1)]) (simp_all add: up_modify assms(2,3))

lemma presence_ensure [simp]: "presence_ok (ensureClientSessions r b) = presence_ok b"
  by (simp add: presence_ok_def)

lemma op_presence:
  assumes "bridge_ok b" "presence_ok b" "sockets_ok b" "allowed x b" shows "presence_ok (apply_op x b)"
proof (cases x)
  case (Identity s c ident)
  then show ?thesis using assms(2) by (auto simp: store_identity_def intro!: quiet_presence)
next
  case (NewPublic i)
  have "is_up (store_new_client i b) j = (if j = i then signal (NewSession None None None []) \<noteq> None else is_up b j)" for j
    by (rule up_new_root) (use assms(1) in \<open>auto simp: store_new_client_def NewSession_def bridge_ok_def\<close>)
  then have "is_up (store_new_client i b) = is_up b"
    using up_unregistered [of b i] assms(4) by (intro eq_except [of _ i]) (simp_all add: NewPublic NewSession_def)
  then show ?thesis by (intro presence_same [OF assms(2)]) (simp_all add: NewPublic, simp add: store_new_client_def)
next
  case (Disconnect i inst stamp)
  have "presence_ok (delClient_signal i sg stamp (ensureClientSessions r b))" for sg r
    using assms by (intro delete_signal_presence) (simp_all add: sockets_ok_def)
  then show ?thesis by - (rule disconnect_state [of i inst stamp b], use assms(2) in \<open>simp_all add: Disconnect\<close>)
next
  case (Select rnd i res)
  show ?thesis using select_state [of rnd i res b] assms(2) by (auto simp: Select intro!: quiet_presence)
next
  case (PingSession s)
  obtain f where "snd (ping_session s b) = modify s f b" "\<forall>c. sessions (f c) = sessions c \<and> slots (f c) = slots c" using ping_modify by blast
  moreover from this have "\<forall>c. signal (f c) = signal c" by (blast intro: same_slots_signal)
  ultimately show ?thesis using assms(2) quiet_presence [of b f s] by (simp add: PingSession)
next
  case (MuxDied m)
  then show ?thesis using presence_same [OF assms(2)] up_core [OF core_updates(5)] by simp
next
  case (CreateRecord i)
  then show ?thesis using assms up_unregistered [of b i]
    by (auto simp: presence_ok_def newHistory_def up_core [OF core_updates(6)])
next
  case (RemoveRecord i)
  then show ?thesis using assms by (auto simp: presence_ok_def up_core [OF core_updates(6)])
qed (use assms in \<open>simp_all add: main_presence arrivals_presence delClient_def delete_all_presence delete_signal_presence delete_snapshot_presence\<close>)

lemma reachable_presence: "bridge_reachable b \<Longrightarrow> presence_ok b \<and> sockets_ok b"
proof (induction rule: bridge_reachable.induct)
  case (start b)
  then show ?case by (auto simp: initial_bridge_def presence_ok_def sockets_ok_def is_up_def sessions_of_def)
next
  case (step b x)
  then show ?case using op_presence op_sockets reachable_ok by blast
qed

lemma held_not_closed:
  assumes "bridge_ok b" "x \<in># held b" shows "x \<notin> set (closed b)"
proof -
  have eq: "held b + mset (closed b) = mset (opened b)" and d: "distinct (opened b)" using assms(1) by (simp_all add: bridge_ok_def accounted_def)
  have "count (held b) x + count (mset (closed b)) x = count (mset (opened b)) x" by (simp flip: eq)
  moreover have "count (mset (opened b)) x \<le> 1" using d by (simp add: distinct_count_atmost_1)
  moreover have "count (held b) x > 0" using assms(2) by simp
  ultimately have "count (mset (closed b)) x = 0" by linarith
  then show ?thesis by (simp add: count_eq_zero_iff)
qed


end
