(* ===== verification/Bridge_Runs.thy ===== *)
theory Bridge_Runs
  imports Bridge_Sessions
begin

text \<open>
  Behaviour of the session table on top of its invariant: deletions touch nothing but the session they are about, stale
  clean-ups do nothing, the selection of a session is complete and round robin is fair; then the interleavings in which the
  table does not do what its comments promise, and runs on a concrete bridge.
\<close>

subsection \<open>Deletions are confined\<close>

lemma holder_unique:
  assumes "bridge_ok b" "a \<in> sessions_of b i" "c \<in> sessions_of b j" "x \<in> set (slots (objects b a))" "x \<in> set (slots (objects b c))"
  shows "a = c"
proof -
  have t: "table_ok b" and eq: "held b + mset (closed b) = mset (opened b)" "distinct (opened b)" using assms(1) by (simp_all add: bridge_ok_def accounted_def)
  have bd: "a < nextPtr b" "c < nextPtr b" using member_bound [OF t] assms(2,3) by auto
  have "count (held b) x \<noteq> 0" using slot_held [OF bd(1) assms(4)] by simp
  moreover have "count (held b) x \<le> count (mset (opened b)) x" by (simp flip: eq(1))
  moreover have "count (mset (opened b)) x \<le> 1" using eq(2) by (simp add: distinct_count_atmost_1)
  ultimately have "count (held b) x = 1" by linarith
  then show ?thesis using held_once bd assms(4,5) by blast
qed

lemma after_delete_slots: "slots (objects (after_delete w r s b) a) = (if a = s then [] else slots (objects b a))"
  by (auto simp: after_delete_def removeClientSession_def slots_def detached_def clearFileChannelsLocked_def opt_list_def Let_def)

text \<open>C23 When the control connection of one process fails and another process of the same client is still connected,
exactly the connections of the failed session are closed; the other sessions keep all of theirs and stay registered, the
sessions of other clients are untouched, and nothing is recorded or announced as offline.\<close>

theorem delete_by_signal_confined:
  assumes "bridge_reachable b" "s \<in> sessions_of b i" "signal (objects b s) = Some sg"
    and other: "s' \<in> sessions_of b i" "s' \<noteq> s" "signal (objects b s') = Some n"
  shows "let b' = delClient i (Some sg) stamp b in mset (closed b') = mset (closed b) + mset (slots (objects b s))
    \<and> (\<forall>a. a \<noteq> s \<longrightarrow> slots (objects b' a) = slots (objects b a)) \<and> s' \<in> sessions_of b' i
    \<and> (\<forall>j. j \<noteq> i \<longrightarrow> sessions_of b' j = sessions_of b j) \<and> clientRecords b' = clientRecords b \<and> CloseClient b' = CloseClient b"
proof -
  define b' where "b' = delClient i (Some sg) stamp b"
  have ok: "bridge_ok b" and sk: "sockets_ok b" using reachable_ok reachable_presence assms(1) by blast+
  then have sh: "shape_ok b" by (simp add: bridge_ok_iff)
  have b': "b' = delClient_signal i sg stamp b" by (simp add: b'_def delClient_def)
  have same: "t = s" if "ClientMap b i = Some (Root r)" "t \<in> set (members b r)" "signal (objects b t) = Some sg" for r t
    using holder_unique [OF ok in_sessions_of [OF that(1,2)] assms(2), of "Sig sg"] that(3) assms(3) by (simp add: slot_signal)
  from sh show ?thesis
  proof (cases rule: delete_signal_cases [of b i sg stamp])
    case absent then show ?thesis using assms(2,3) by blast
  next
    case (kept r t)
    have t: "t = s" by (rule same [OF kept(1-3)])
    note de = detach_effect [OF sh kept(1,2), of True, folded after_delete_def]
    have cc: "CloseClient (after_delete True r t b) = CloseClient b" by (simp add: after_delete_def removeClientSession_def)
    have ob: "objects b' = objects (after_delete True r t b)" "CloseClient b' = CloseClient (after_delete True r t b)"
      unfolding b' kept(5) by (simp_all add: close_haul_def close_all_def case_prod_beta)
    have "sessions_of b' j = sessions_of (after_delete True r t b) j" for j unfolding b' kept(5) by simp
    moreover have "mset (closed b') = mset (closed b) + mset (slots (objects b s))"
      using take_obj(2) [of True t "([], [], [])" b] de unfolding b' kept(5) by (simp add: t same_frame_def haul_list_def)
    moreover have "clientRecords b' = clientRecords b" using de unfolding b' kept(5) by (simp add: same_frame_def)
    ultimately show ?thesis using de other cc ob by (simp add: t after_delete_slots Let_def b'_def [symmetric])
  next
    case (last r t hl b1)
    have t: "t = s" by (rule same [OF last(1-3)])
    note de = detach_effect [OF sh last(1,2), of True, folded after_delete_def]
    have "s' \<in> sessions_of (after_delete True r t b) i" using de other t by simp
    then have "s' \<in> set (members (after_delete True r t b) r)" using de last(1) by (simp add: sessions_of_def same_frame_def)
    moreover have "signal (objects (after_delete True r t b) s') = Some n"
      using other(2,3) t by (auto simp: after_delete_def removeClientSession_def)
    ultimately have False using last(4) remaining_conn [OF ok sk last(1,2)] by auto
    then show ?thesis ..
  qed
qed

text \<open>A clean-up that was decided on an older snapshot of a session does nothing when the session has been replaced or
one of its connections has changed since: it closes nothing, takes no connection from any session and removes none.\<close>

theorem stale_snapshot_harmless:
  assumes "bridge_reachable b" "snClient sn \<notin> sessions_of b i \<or> \<not> snapshot_current b sn"
  shows "let b' = delClientIfSnapshot i sn stamp b in
    closed b' = closed b \<and> (\<forall>a. slots (objects b' a) = slots (objects b a)) \<and> (\<forall>j. sessions_of b' j = sessions_of b j)"
proof -
  have sh: "shape_ok b" using reachable_ok [OF assms(1)] by (simp add: bridge_ok_iff)
  from sh show ?thesis
  proof (cases rule: delete_snapshot_cases [of b i sn stamp])
    case stale then show ?thesis by (auto simp: Let_def)
  qed (use assms(2) in_sessions_of in metis)+
qed

subsection \<open>Selection\<close>

lemma ensure_has_resource [simp]: "sessionHasResource (ensureClientSessions r b) = sessionHasResource b"
  by (intro ext) (simp add: sessionHasResource_def Let_def)

lemma mode_ensure [simp]: "ClientSelectMode (ensureClientSessions r b) = ClientSelectMode b"
  by (simp add: ClientSelectMode_def)

definition candidates :: "bridge \<Rightarrow> cptr \<Rightarrow> string \<Rightarrow> cptr list" where
  "candidates b r res = filter (\<lambda>s. sessionHasResource b s res) (members b r)"

text \<open>\<open>selectSession\<close> finds a session with the wanted resource exactly when the client has one, in every selection
mode and for every behaviour of the random number generator, also when the round-robin counter wraps around.\<close>

theorem select_session_exact:
  assumes "bridge_reachable b" "\<forall>n. n > 0 \<longrightarrow> rnd n < n"
  shows "case fst (selectSession rnd i res b) of
      None \<Rightarrow> \<forall>s\<in>sessions_of b i. \<not> sessionHasResource b s res
    | Some s \<Rightarrow> s \<in> sessions_of b i \<and> sessionHasResource b s res"
proof (cases "ClientMap b i")
  case None then show ?thesis by (simp add: selectSession_def sessions_of_def)
next
  case (Some e)
  then obtain r where r: "ClientMap b i = Some (Root r)" using reachable_ok [OF assms(1)] by (auto simp: bridge_ok_def elim: table_root)
  let ?c = "candidates b r res"
  have run: "fst (selectSession rnd i res b) = (if ?c = [] then None else if ClientSelectMode b = Random then Some (?c ! rnd (length ?c))
     else if ClientSelectMode b = RoundRobin then Some (?c ! (unat (selectSeq (objects b r)) mod length ?c)) else Some (?c ! 0))"
    using r by (simp add: selectSession_def candidates_def Let_def)
  have c: "x \<in> sessions_of b i \<and> sessionHasResource b x res" if "x \<in> set ?c" for x using that r by (simp add: candidates_def sessions_of_def)
  show ?thesis
  proof (cases "?c = []")
    case True
    then have "\<forall>s\<in>sessions_of b i. \<not> sessionHasResource b s res" using r by (simp add: candidates_def sessions_of_def filter_empty_conv)
    then show ?thesis using run True by simp
  next
    case False
    then show ?thesis using run assms(2) c by (simp add: nth_mem)
  qed
qed

fun select_many :: "(nat \<Rightarrow> nat) \<Rightarrow> int \<Rightarrow> string \<Rightarrow> nat \<Rightarrow> bridge \<Rightarrow> cptr option list" where
  "select_many rnd i res 0 b = []"
| "select_many rnd i res (Suc k) b = (let (s, b) = selectSession rnd i res b in s # select_many rnd i res k b)"

lemma select_round_robin:
  assumes "ClientMap b i = Some (Root r)" "ClientSelectMode b = RoundRobin" "candidates b r res \<noteq> []"
  shows "selectSession rnd i res b = (Some (candidates b r res ! (unat (selectSeq (objects b r)) mod length (candidates b r res))),
      modify r (selectSeq_update (\<lambda>q. q + 1)) (ensureClientSessions r b))"
  using assms by (simp add: selectSession_def candidates_def Let_def Random_def RoundRobin_def)

lemma modify_tests [simp]:
  "has_conn (modify a f b) = has_conn b" "IsClose (modify a f b) = IsClose b" "live_mux (modify a f b) = live_mux b"
  "ClientSelectMode (modify a f b) = ClientSelectMode b"
  by (auto simp: has_conn_def live_mux_def IsClose_def ClientSelectMode_def fun_eq_iff split: option.split)

lemma candidates_advance [simp]: "candidates (modify r (selectSeq_update f) (ensureClientSessions r b)) r res = candidates b r res"
proof -
  have "sessionHasResource (modify r (selectSeq_update f) (ensureClientSessions r b)) = sessionHasResource b"
    by (intro ext) (simp add: sessionHasResource_def Let_def)
  then show ?thesis by (simp add: candidates_def members_modify)
qed

lemma select_many_rotates:
  assumes "ClientMap b i = Some (Root r)" "ClientSelectMode b = RoundRobin" "candidates b r res \<noteq> []"
    and "unat (selectSeq (objects b r)) + k < 2 ^ 64"
  shows "select_many rnd i res k b
       = map (\<lambda>j. Some (candidates b r res ! ((unat (selectSeq (objects b r)) + j) mod length (candidates b r res)))) [0..<k]"
  using assms
proof (induction k arbitrary: b)
  case (Suc k)
  let ?b = "modify r (selectSeq_update (\<lambda>q. q + 1)) (ensureClientSessions r b)"
  have seq: "unat (selectSeq (objects ?b r)) = Suc (unat (selectSeq (objects b r)))"
    using Suc.prems(4) by (simp add: unat_word_ariths)
  have "select_many rnd i res k ?b
      = map (\<lambda>j. Some (candidates b r res ! ((Suc (unat (selectSeq (objects b r))) + j) mod length (candidates b r res)))) [0..<k]"
  proof -
    have "ClientMap ?b i = Some (Root r)" "ClientSelectMode ?b = RoundRobin" "candidates ?b r res \<noteq> []" "unat (selectSeq (objects ?b r)) + k < 2 ^ 64"
      using Suc.prems seq by simp_all
    from Suc.IH [OF this] show ?thesis by (simp only: seq candidates_advance)
  qed
  then show ?case
    by (simp add: select_round_robin [OF Suc.prems(1-3)] map_upt_Suc del: upt_Suc)
qed simp

text \<open>C24 Round robin is fair: while nothing else happens and the counter does not wrap, as many selections as there are
usable sessions choose every one of them exactly once.\<close>

theorem round_robin_fair:
  assumes "bridge_reachable b" "ClientMap b i = Some (Root r)" "ClientSelectMode b = RoundRobin"
    and "n = card {s \<in> sessions_of b i. sessionHasResource b s res}" "unat (selectSeq (objects b r)) + n < 2 ^ 64"
  shows "distinct (select_many rnd i res n b) \<and> set (select_many rnd i res n b) = Some ` {s \<in> sessions_of b i. sessionHasResource b s res}"
proof -
  let ?c = "candidates b r res"
  have t: "table_ok b" using reachable_ok [OF assms(1)] by (simp add: bridge_ok_def)
  have d: "distinct (members b r)" by (rule table_root [OF t assms(2)]) auto
  have st: "set ?c = {s \<in> sessions_of b i. sessionHasResource b s res}" using assms(2) by (auto simp: candidates_def sessions_of_def)
  have "distinct ?c" using d by (simp add: candidates_def)
  then have n: "n = length ?c" using distinct_card [of ?c] assms(4) st by simp
  show ?thesis
  proof (cases "?c = []")
    case True then show ?thesis using n st by simp
  next
    case False
    have "select_many rnd i res n b = map Some (rotate (unat (selectSeq (objects b r))) ?c)"
      unfolding select_many_rotates [OF assms(2,3) False assms(5)] by (rule nth_equalityI) (simp_all add: n nth_rotate)
    then show ?thesis using d st by (simp add: distinct_map candidates_def)
  qed
qed

subsection \<open>Where the code falls short\<close>

lemma record_sel [simp]:
  "objects (recordClientConnection i up stamp b) = objects b" "nextPtr (recordClientConnection i up stamp b) = nextPtr b"
  "bare (recordClientConnection i up stamp b) = bare b" "pubClient (recordClientConnection i up stamp b) = pubClient b"
  "dead (recordClientConnection i up stamp b) = dead b"
  by (simp_all add: recordClientConnection_def split: option.split)

lemma close_sel [simp]:
  "objects (close_old old b) = objects b" "nextPtr (close_old old b) = nextPtr b" "bare (close_old old b) = bare b" "pubClient (close_old old b) = pubClient b"
  "objects (announce x b) = objects b" "nextPtr (announce x b) = nextPtr b" "bare (announce x b) = bare b"
  "objects (close_all rs b) = objects b" "nextPtr (close_all rs b) = nextPtr b" "bare (close_all rs b) = bare b" "pubClient (close_all rs b) = pubClient b"
  by (simp_all add: close_old_def close_all_def announce_def split: option.split)

text \<open>Two sessions of one client, as the table shows them.\<close>

definition two_sessions :: "int \<Rightarrow> cptr \<Rightarrow> nat option \<Rightarrow> nat option \<Rightarrow> cptr \<Rightarrow> nat option \<Rightarrow> nat option \<Rightarrow> bridge \<Rightarrow> bool" where
  "two_sessions i r c m s d n b \<longleftrightarrow> ClientMap b i = Some (Root r) \<and> r \<noteq> s \<and> sessions (objects b r) = [r, s]
     \<and> signal (objects b r) = c \<and> tunnel (objects b r) = m \<and> file_mux (objects b r) = None \<and> fileChannels (objects b r) = []
     \<and> signal (objects b s) = d \<and> tunnel (objects b s) = n"

lemma first_main:
  assumes "ClientMap b i = None" "\<not> pubClient b i"
    and b1: "b1 = apply_op (Main i c vs transport remote stamp) b"
  shows "ClientMap b1 i = Some (Root (nextPtr b)) \<and> sessions (objects b1 (nextPtr b)) = [nextPtr b] \<and> signal (objects b1 (nextPtr b)) = Some c
    \<and> tunnel (objects b1 (nextPtr b)) = None \<and> file_mux (objects b1 (nextPtr b)) = None \<and> fileChannels (objects b1 (nextPtr b)) = []
    \<and> nextPtr b1 = Suc (nextPtr b) \<and> bare b1 = bare b \<and> closed b1 = closed b \<and> \<not> pubClient b1 i"
  using assms(1,2) unfolding b1
  by (simp add: typeDeal_main_def Let_def store_root_def alloc_def NewSession_def ensureClientSessions_def)

lemma second_main:
  assumes "ClientMap b i = Some (Root r)" "sessions (objects b r) = [r]" "signal (objects b r) = Some c" "c \<notin> set (bare b)" "r < nextPtr b"
    and "tunnel (objects b r) = None" "file_mux (objects b r) = None" "fileChannels (objects b r) = []" "\<not> pubClient b i"
    and b1: "b1 = apply_op (Main i d vs transport remote stamp) b"
  shows "two_sessions i r (Some c) None (nextPtr b) (Some d) None b1 \<and> bare b1 = bare b \<and> closed b1 = closed b"
  using assms(1-9) unfolding b1
  by (simp add: typeDeal_main_def Let_def sessionForLocked_def slot_free_def has_conn_def ensureClientSessions_def add_variant_def NewSession_def
      set_main_def two_sessions_def)

lemma first_chan:
  assumes "two_sessions i r (Some c) None s (Some d) None b" "c \<notin> set (bare b)" "d \<notin> set (bare b)"
    and b1: "b1 = apply_op (Chan i m vs transport) b"
  shows "two_sessions i r (Some c) None s (Some d) (Some m) b1 \<and> bare b1 = bare b \<and> closed b1 = closed b"
  using assms(1-3) unfolding b1 two_sessions_def
  by (auto simp: typeDeal_chan_def Let_def sessionForLocked_def waiting_signal_def has_conn_def ensureClientSessions_def set_chan_def opt_list_def)

lemma second_chan:
  assumes "two_sessions i r (Some c) None s (Some d) (Some m) b" "c \<notin> set (bare b)" "d \<notin> set (bare b)"
    and b1: "b1 = apply_op (Chan i n vs transport) b"
  shows "two_sessions i r (Some c) (Some n) s (Some d) (Some m) b1 \<and> bare b1 = bare b \<and> closed b1 = closed b"
  using assms(1-3) unfolding b1 two_sessions_def
  by (auto simp: typeDeal_chan_def Let_def sessionForLocked_def waiting_signal_def has_conn_def ensureClientSessions_def set_chan_def opt_list_def)

lemma drop_first:
  assumes "two_sessions i r (Some c) (Some n) s (Some d) (Some m) b" "d \<notin> set (bare b)"
  shows "closed (apply_op (DeleteSignal i c stamp) b) = closed b @ [Sig c, Mx n]"
  using assms unfolding two_sessions_def
  by (auto simp: delClient_def delClient_signal_def findClientSessionBySignal_def take_session_def removeClientSession_def clientHasSignal_def
      has_conn_def ensureClientSessions_def clearFileChannelsLocked_def opt_list_def haul_list_def Let_def)

text \<open>Two processes of one client that connect at the same time get each other's data connections: with control
connections \<open>c\<close> and then \<open>d\<close>, followed by the data connection \<open>m\<close> of the first process and \<open>n\<close> of the second, the first session
holds \<open>c\<close> with \<open>n\<close>. When the first process goes away, the data connection of the second process is closed.\<close>

theorem interleaved_processes_cross_pair:
  assumes "ClientMap b i = None" "\<not> pubClient b i" "c \<notin> set (bare b)" "d \<notin> set (bare b)"
  shows "closed (apply_op (DeleteSignal i c stamp) (apply_op (Chan i n vs transport) (apply_op (Chan i m vs transport)
      (apply_op (Main i d vs transport remote stamp) (apply_op (Main i c vs transport remote stamp) b)))))
    = closed b @ [Sig c, Mx n]"
proof -
  let ?r = "nextPtr b"
  define b1 where "b1 = apply_op (Main i c vs transport remote stamp) b"
  define b2 where "b2 = apply_op (Main i d vs transport remote stamp) b1"
  define b3 where "b3 = apply_op (Chan i m vs transport) b2"
  define b4 where "b4 = apply_op (Chan i n vs transport) b3"
  note f1 = first_main [OF assms(1,2) b1_def]
  then have f2: "two_sessions i ?r (Some c) None (nextPtr b1) (Some d) None b2 \<and> bare b2 = bare b \<and> closed b2 = closed b"
    using second_main [OF _ _ _ _ _ _ _ _ _ b2_def, of ?r c] assms(3) by simp
  then have f3: "two_sessions i ?r (Some c) None (nextPtr b1) (Some d) (Some m) b3 \<and> bare b3 = bare b \<and> closed b3 = closed b"
    using first_chan [OF _ _ _ b3_def, of ?r c "nextPtr b1" d] assms(3,4) by simp
  then have f4: "two_sessions i ?r (Some c) (Some n) (nextPtr b1) (Some d) (Some m) b4 \<and> bare b4 = bare b \<and> closed b4 = closed b"
    using second_chan [OF _ _ _ b4_def, of ?r c "nextPtr b1" d m] assms(3,4) by simp
  show ?thesis using drop_first [of i ?r c n "nextPtr b1" d m b4 stamp] f4 assms(4) by (simp add: b4_def b3_def b2_def b1_def)
qed

text \<open>A process that reports no identity is listed for the console under a made-up id, but a request to disconnect that
id is answered with an error and disconnects nothing.\<close>

theorem legacy_instances_stay_connected:
  assumes "ClientMap b i = Some (Root r)" "k < length (members b r)" "s = members b r ! k" "signal (objects b s) = Some c" "c \<notin> set (bare b)"
    and "TrimSpace (InstanceID (Instance (objects b s))) = []" "legacy = ''legacy-'' @ dec_string (int k + 1)"
    and "\<forall>t\<in>set (members b r). TrimSpace (InstanceID (Instance (objects b t))) \<noteq> TrimSpace legacy"
  shows "legacy \<in> iInstanceID ` set (fst (ClientInstances i b))
    \<and> DisconnectClientInstance i legacy stamp b = (False, if TrimSpace legacy = [] then b else ensureClientSessions r b)"
proof -
  let ?e = "ensureClientSessions r b"
  have "(k, s) \<in> set (enumerate 0 (members b r))" using assms(2,3) by (simp add: in_set_enumerate_eq)
  moreover have "sessionHasResource b s ''signal''" using assms(4,5) by (simp add: sessionHasResource_def has_conn_def)
  ultimately have "instanceSnapshot ?e k s \<in> set (fst (ClientInstances i b))"
    using assms(1) by (force simp: ClientInstances_def Let_def)
  moreover have "iInstanceID (instanceSnapshot ?e k s) = legacy" using assms(6,7) by (simp add: instanceSnapshot_def Let_def)
  moreover have "find (\<lambda>t. TrimSpace (InstanceID (Instance (objects b t))) = TrimSpace legacy \<and> signal (objects b t) \<noteq> None) (members b r) = None"
    using assms(8) by (auto simp: find_None_iff)
  then have "DisconnectClientInstance i legacy stamp b = (False, if TrimSpace legacy = [] then b else ?e)"
    using assms(1) by (simp add: DisconnectClientInstance_def Let_def)
  ultimately show ?thesis by force
qed

subsection \<open>Concrete runs\<close>

definition demo_bridge :: bridge where
  "demo_bridge = \<lparr>objects = (\<lambda>_. NewSession None None None []), nextPtr = 0, ClientMap = (\<lambda>_. None), bare = [], dead = [], opened = [], closed = [],
     clientRecords = (\<lambda>i. if i = 1 then Some (Some newHistory) else None), historyLimit = 5, pubClient = (\<lambda>_. False), CloseClient = [],
     selectMode = 1, tunnelType = ''tcp''\<rparr>"

definition demo_two :: bridge where
  "demo_two = fold apply_op [Main 1 1 [] [] [] [], Chan 1 10 [] [], Main 1 2 [] [] [] [], Chan 1 20 [] []] demo_bridge"


lemma arrivals_logged [simp]:
  "opened (snd (typeDeal_main i c vs transport remote stamp b)) = opened b @ [Sig c]" "bare (snd (typeDeal_main i c vs transport remote stamp b)) = bare b"
  "opened (typeDeal_chan i m vs transport b) = opened b @ [Mx m]" "bare (typeDeal_chan i m vs transport b) = bare b"
  using ledger_arrivals(1) [of i c vs transport remote stamp b] ledger_arrivals(2) [of i m vs transport b] by (simp_all add: ledger_def)

lemma demo_reachable: "bridge_reachable demo_bridge" "bridge_reachable demo_two"
proof -
  show d: "bridge_reachable demo_bridge" by (rule bridge_reachable.start) (auto simp: initial_bridge_def demo_bridge_def newHistory_def)
  have o: "opened demo_bridge = []" "bare demo_bridge = []" by (simp_all add: demo_bridge_def)
  let ?b1 = "apply_op (Main 1 1 [] [] [] []) demo_bridge" and ?b2 = "\<lambda>b. apply_op (Chan 1 10 [] []) b" and ?b3 = "\<lambda>b. apply_op (Main 1 2 [] [] [] []) b"
  have "bridge_reachable ?b1" by (rule bridge_reachable.step [OF d]) (simp add: o)
  then have "bridge_reachable (?b2 ?b1)" by (rule bridge_reachable.step) (simp add: o)
  then have "bridge_reachable (?b3 (?b2 ?b1))" by (rule bridge_reachable.step) (simp add: o)
  then have "bridge_reachable (apply_op (Chan 1 20 [] []) (?b3 (?b2 ?b1)))" by (rule bridge_reachable.step) (simp add: o)
  then show "bridge_reachable demo_two" by (simp add: demo_two_def)
qed

lemma demo_two_state:
  "ClientMap demo_two 1 = Some (Root 0) \<and> sessions (objects demo_two 0) = [0, 1]
   \<and> map (\<lambda>a. (signal (objects demo_two a), tunnel (objects demo_two a), file_mux (objects demo_two a))) [0, 1] = [(Some 1, Some 10, None), (Some 2, Some 20, None)]
   \<and> map_option (map_option online) (clientRecords demo_two 1) = Some (Some True) \<and> closed demo_two = [] \<and> dead demo_two = [] \<and> bare demo_two = []
   \<and> opened demo_two = [Sig 1, Mx 10, Sig 2, Mx 20] \<and> selectMode demo_two = 1 \<and> selectSeq (objects demo_two 0) = 0"
  by code_simp

lemma demo_two_view:
  "ClientMap demo_two 1 = Some (Root 0)" "sessions_of demo_two 1 = {0, 1}" "signal (objects demo_two 0) = Some 1" "signal (objects demo_two 1) = Some 2"
  "signal (objects demo_two (Suc 0)) = Some 2" "tunnel (objects demo_two 0) = Some 10" "tunnel (objects demo_two (Suc 0)) = Some 20"
  "closed demo_two = []" "dead demo_two = []" "bare demo_two = []" "opened demo_two = [Sig 1, Mx 10, Sig 2, Mx 20]"
  "selectMode demo_two = 1" "selectSeq (objects demo_two 0) = 0"
  using demo_two_state by (simp_all add: sessions_of_def members_def)



lemma delete_by_signal_confined_witness:
  "mset (closed (delClient 1 (Some 1) [] demo_two)) = mset (slots (objects demo_two 0)) \<and> 1 \<in> sessions_of (delClient 1 (Some 1) [] demo_two) 1"
  using delete_by_signal_confined [OF demo_reachable(2), of 0 1 1 1 2 "[]"] by (simp add: demo_two_view Let_def)

lemma stale_snapshot_harmless_witness:
  "closed (delClientIfSnapshot 1 \<lparr>snClient = 0, snSignal = Some 7, snTunnel = Some 10, snFile = None\<rparr> [] demo_two) = []"
  using stale_snapshot_harmless [OF demo_reachable(2), of "\<lparr>snClient = 0, snSignal = Some 7, snTunnel = Some 10, snFile = None\<rparr>" 1 "[]"]
  by (simp add: demo_two_view Let_def snapshot_current_def)

lemma demo_online: "{s \<in> sessions_of demo_two 1. sessionHasResource demo_two s ''online''} = {0, 1}"
  by (auto simp: demo_two_view sessionHasResource_def has_conn_def live_mux_def IsClose_def)

lemma select_session_exact_witness:
  "\<exists>s. fst (selectSession (\<lambda>n. n - 1) 1 ''online'' demo_two) = Some s \<and> s \<in> sessions_of demo_two 1"
proof -
  have "\<not> (\<forall>s\<in>sessions_of demo_two 1. \<not> sessionHasResource demo_two s ''online'')" using demo_online by auto
  then show ?thesis using select_session_exact [OF demo_reachable(2), of "\<lambda>n. n - 1" 1 "''online''"] by (auto split: option.splits)
qed

lemma round_robin_fair_witness:
  "distinct (select_many (\<lambda>_. 0) 1 ''online'' 2 demo_two) \<and> set (select_many (\<lambda>_. 0) 1 ''online'' 2 demo_two) = {Some 0, Some 1}"
  using round_robin_fair [OF demo_reachable(2), of 1 0 2 "''online''" "\<lambda>_. 0"] unfolding demo_online
  by (simp add: demo_two_view(1,12,13) ClientSelectMode_def Primary_def RoundRobin_def Random_def)

lemma interleaved_processes_cross_pair_witness:
  "closed (apply_op (DeleteSignal 1 1 []) (apply_op (Chan 1 20 [] []) (apply_op (Chan 1 10 [] [])
      (apply_op (Main 1 2 [] [] [] []) (apply_op (Main 1 1 [] [] [] []) demo_bridge))))) = [Sig 1, Mx 20]"
  using interleaved_processes_cross_pair [of demo_bridge 1 1 2 "[]" 20 "[]" "[]" 10 "[]"] by (simp add: demo_bridge_def)

definition demo_legacy :: bridge where "demo_legacy = demo_bridge\<lparr>objects := (\<lambda>_. NewSession None None (Some 5) []), ClientMap := [1 \<mapsto> Root 0], nextPtr := 1\<rparr>"

lemma legacy_instances_stay_connected_witness:
  "''legacy-1'' \<in> iInstanceID ` set (fst (ClientInstances 1 demo_legacy)) \<and> \<not> fst (DisconnectClientInstance 1 ''legacy-1'' [] demo_legacy)"
proof -
  have "''legacy-1'' = ''legacy-'' @ dec_string (int 0 + 1)" "TrimSpace ''legacy-1'' = ''legacy-1''" "TrimSpace [] = []" by code_simp+
  moreover have "members demo_legacy 0 = [0]" "objects demo_legacy 0 = NewSession None None (Some 5) []" "ClientMap demo_legacy 1 = Some (Root 0)" "bare demo_legacy = []"
    by (simp_all add: demo_legacy_def demo_bridge_def members_def NewSession_def)
  ultimately show ?thesis
    using legacy_instances_stay_connected [of demo_legacy 1 0 0 0 5 "''legacy-1''" "[]"] by (simp add: NewSession_def noIdentity_def)
qed

text \<open>A new process does not always get the two missed pings of grace. The root session of a client stays in the table
when its process leaves, and its count of missed pings goes on; a process that connects later takes over the session with
that count, and the first ping before its data connection closes it. The same connection on an unused session survives.\<close>

theorem stale_retry_closes_new_process:
  "closed (ping_pass [1] [] (apply_op (Main 1 3 [] [] [] []) ((ping_pass [1] [] ^^ 3) (apply_op (DeleteSignal 1 1 []) demo_two)))) = [Sig 1, Mx 10, Sig 3]
   \<and> closed (ping_pass [2] [] (apply_op (Main 2 3 [] [] [] []) demo_bridge)) = []"
  by code_simp

text \<open>The clean-up compares the control, data and file connections of a session with its snapshot, but not the keyed file
channels: a channel that a restarting process attaches after the snapshot is closed with the old session.\<close>

theorem snapshot_ignores_file_channels:
  "let b = fold apply_op [Main 1 1 [] [] [] [], Chan 1 10 [] [], MuxDied 10] demo_bridge; (found, b) = ping_collect [1] b;
       b = apply_op (Keyed 1 ''k'' 30 []) b
   in closed b = [] \<and> closed (fold (\<lambda>(i, sn). delClientIfSnapshot i sn []) found b) = [Sig 1, Mx 10, Mx 30]"
  by code_simp

end
