(* ===== verification/Login_Guard.thy ===== *)
theory Login_Guard
  imports Account_Store
begin

unbundle bit_operations_syntax

text \<open>
  The protection of the console login in \<open>web/controllers/login.go\<close> and \<open>lib/crypt/totp.go\<close>: the limiter of login attempts
  per IP address and per user name, the store of proof-of-work challenges with the check of a solution, and one-time
  passwords. Times and durations are in nanoseconds (Unix seconds for one-time passwords). The maps are
  association lists; SHA-256 (with the hexadecimal text of the key), HMAC-SHA-1 and base32 are arguments; upper and lower case are those of
  ASCII. Every operation
  runs under the mutex of its store.
\<close>

subsection \<open>The limiter of login attempts\<close>

record attempt_record =
  akey :: string
  acount :: int
  windowFrom :: int
  lastAttempt :: int

record login_policy =
  minInterval :: int
  ipWindow :: int
  userWindow :: int
  maxFails :: int

definition time_second :: int where "time_second = 1000000000"

definition maxInt :: "int \<Rightarrow> int \<Rightarrow> int" where "maxInt v fallback = (if v < fallback then fallback else v)"

definition maxLoginFailures :: int where "maxLoginFailures = 10"
definition maxLoginRecords :: nat where "maxLoginRecords = 4096"

text \<open>The configured policy; an absent setting is \<open>None\<close>. A number of seconds is multiplied in 64-bit arithmetic.\<close>

definition seconds64 :: "int \<Rightarrow> int" where "seconds64 n = (n * time_second + 2 ^ 63) mod 2 ^ 64 - 2 ^ 63"

definition defaultLoginPolicy :: login_policy where
  "defaultLoginPolicy = \<lparr>minInterval = 0, ipWindow = 60 * time_second, userWindow = 60 * time_second, maxFails = maxLoginFailures\<rparr>"

definition configuredLoginPolicy :: "int option \<Rightarrow> int option \<Rightarrow> int option \<Rightarrow> int option \<Rightarrow> login_policy" where
  "configuredLoginPolicy ban_time ip_ban_time user_ban_time max_fail_times =
     \<lparr>minInterval = seconds64 (maxInt (case ban_time of None \<Rightarrow> 5 | Some v \<Rightarrow> v) 0),
      ipWindow = seconds64 (maxInt (case ip_ban_time of None \<Rightarrow> 180 | Some v \<Rightarrow> v) 1),
      userWindow = seconds64 (maxInt (case user_ban_time of None \<Rightarrow> 3600 | Some v \<Rightarrow> v) 1),
      maxFails = maxInt (case max_fail_times of None \<Rightarrow> maxLoginFailures | Some v \<Rightarrow> v) 1\<rparr>"

type_synonym attempts = "(string \<times> attempt_record) list"

record login_limiter =
  byIP :: attempts
  byUsername :: attempts
  lcapacity :: nat
  nextCleanupTime :: int

definition loginCleanupPeriod :: int where "loginCleanupPeriod = 15 * time_second"

definition newLoginAttemptLimiter :: "int \<Rightarrow> login_limiter" where
  "newLoginAttemptLimiter cap = \<lparr>byIP = [], byUsername = [], lcapacity = nat (if cap < 1 then 1 else cap), nextCleanupTime = zero_time\<rparr>"

definition drop_expired :: "int \<Rightarrow> int \<Rightarrow> attempts \<Rightarrow> attempts" where
  "drop_expired window now tab = filter (\<lambda>(k, e). now < windowFrom e + window) tab"

definition removeExpiredLocked :: "int \<Rightarrow> login_policy \<Rightarrow> login_limiter \<Rightarrow> login_limiter" where
  "removeExpiredLocked now p s =
     s\<lparr>byIP := drop_expired (ipWindow p) now (byIP s), byUsername := drop_expired (userWindow p) now (byUsername s)\<rparr>"

definition login_cleanup :: "int \<Rightarrow> login_policy \<Rightarrow> login_limiter \<Rightarrow> login_limiter" where
  "login_cleanup now p s =
     (if now < nextCleanupTime s then s else (removeExpiredLocked now p s)\<lparr>nextCleanupTime := now + loginCleanupPeriod\<rparr>)"

definition loginUsernameKey :: "(string \<Rightarrow> string) \<Rightarrow> string \<Rightarrow> string" where
  "loginUsernameKey hash username = hash (ToLower (TrimSpace username))"

definition too_soon :: "int \<Rightarrow> int \<Rightarrow> attempt_record option \<Rightarrow> bool" where
  "too_soon interval now e = (case e of None \<Rightarrow> False | Some e \<Rightarrow> now < lastAttempt e + interval)"

definition banned :: "int \<Rightarrow> int \<Rightarrow> int \<Rightarrow> attempt_record option \<Rightarrow> bool" where
  "banned window fails now e = (case e of None \<Rightarrow> False | Some e \<Rightarrow> now < windowFrom e + window \<and> acount e \<ge> fails)"

definition no_room :: "login_limiter \<Rightarrow> string \<Rightarrow> string \<Rightarrow> bool" where
  "no_room s ip user \<longleftrightarrow> (map_of (byIP s) ip = None \<and> length (byIP s) \<ge> lcapacity s)
     \<or> (map_of (byUsername s) user = None \<and> length (byUsername s) \<ge> lcapacity s)"

text \<open>Counting an attempt: a missing entry is created, an expired window starts again.\<close>

definition count_attempt :: "int \<Rightarrow> int \<Rightarrow> string \<Rightarrow> attempts \<Rightarrow> attempts" where
  "count_attempt window now k tab =
     (let e = (case map_of tab k of
                 None \<Rightarrow> \<lparr>akey = k, acount = 0, windowFrom = now, lastAttempt = now\<rparr>
               | Some e \<Rightarrow> if now < windowFrom e + window then e else e\<lparr>acount := 0, windowFrom := now\<rparr>) in
      AList.update k (e\<lparr>acount := acount e + 1, lastAttempt := now\<rparr>) tab)"

definition reserveWith :: "(string \<Rightarrow> string) \<Rightarrow> string \<Rightarrow> string \<Rightarrow> int \<Rightarrow> login_policy \<Rightarrow> login_limiter \<Rightarrow> bool \<times> login_limiter" where
  "reserveWith hash ip0 username now p s0 =
     (let ip = (if TrimSpace ip0 = [] then ''unknown'' else TrimSpace ip0);
          user = loginUsernameKey hash username;
          s = login_cleanup now p s0;
          ipEntry = map_of (byIP s) ip; userEntry = map_of (byUsername s) user in
      if too_soon (minInterval p) now ipEntry then (False, s)
      else if too_soon (minInterval p) now userEntry then (False, s)
      else if banned (ipWindow p) (maxFails p) now ipEntry then (False, s)
      else if banned (userWindow p) (maxFails p) now userEntry then (False, s)
      else
        (let full = no_room s ip user; s = (if full then removeExpiredLocked now p s else s) in
         if full \<and> no_room s ip user then (False, s)
         else (True, s\<lparr>byIP := count_attempt (ipWindow p) now ip (byIP s), byUsername := count_attempt (userWindow p) now user (byUsername s)\<rparr>)))"

definition login_clear :: "(string \<Rightarrow> string) \<Rightarrow> string \<Rightarrow> string \<Rightarrow> login_limiter \<Rightarrow> login_limiter" where
  "login_clear hash ip username s =
     s\<lparr>byIP := AList.delete (TrimSpace ip) (byIP s), byUsername := AList.delete (loginUsernameKey hash username) (byUsername s)\<rparr>"

definition removeBan :: "(string \<Rightarrow> string) \<Rightarrow> string \<Rightarrow> login_limiter \<Rightarrow> bool \<times> login_limiter" where
  "removeBan hash key0 s =
     (let key = TrimSpace key0 in
      if key = [] then (False, s)
      else
        (let hashed = loginUsernameKey hash key;
             users = filter (\<lambda>(k, e). akey e \<noteq> key) (AList.delete hashed (byUsername s)) in
         (map_of (byIP s) key \<noteq> None \<or> length users < length (byUsername s),
          s\<lparr>byIP := AList.delete key (byIP s), byUsername := users\<rparr>)))"

definition removeAllBans :: "login_limiter \<Rightarrow> login_limiter" where
  "removeAllBans s = s\<lparr>byIP := [], byUsername := [], nextCleanupTime := zero_time\<rparr>"

definition cleanBans :: "login_policy \<Rightarrow> int \<Rightarrow> login_limiter \<Rightarrow> login_limiter" where
  "cleanBans p now s = (removeExpiredLocked now p s)\<lparr>nextCleanupTime := now + loginCleanupPeriod\<rparr>"

definition is_banned :: "login_policy \<Rightarrow> int \<Rightarrow> int \<Rightarrow> attempt_record \<Rightarrow> bool" where
  "is_banned p window now e \<longleftrightarrow> now < lastAttempt e + minInterval p \<or> (acount e \<ge> maxFails p \<and> now < windowFrom e + window)"

text \<open>The list for the administrator (its order is that of the page and not modelled): key, failures, banned, kind.\<close>

definition banList :: "login_policy \<Rightarrow> int \<Rightarrow> login_limiter \<Rightarrow> (string \<times> int \<times> bool \<times> string) list \<times> login_limiter" where
  "banList p now s =
     (let s = removeExpiredLocked now p s in
      (map (\<lambda>(k, e). (akey e, acount e, is_banned p (ipWindow p) now e, ''ip'')) (byIP s)
       @ map (\<lambda>(k, e). (akey e, acount e, is_banned p (userWindow p) now e, ''username'')) (byUsername s), s))"

subsection \<open>Proof of work\<close>

record pow_store =
  pentries :: "(string \<times> int) list"
  pcapacity :: nat
  pnextCleanup :: int

definition newPoWChallengeStore :: "int \<Rightarrow> pow_store" where
  "newPoWChallengeStore cap = \<lparr>pentries = [], pcapacity = nat (if cap < 1 then 1 else cap), pnextCleanup = zero_time\<rparr>"

definition pow_clearExpiredLocked :: "int \<Rightarrow> pow_store \<Rightarrow> pow_store" where
  "pow_clearExpiredLocked now s = s\<lparr>pentries := filter (\<lambda>(n, t). now < t) (pentries s)\<rparr>"

definition pow_put :: "string \<Rightarrow> int \<Rightarrow> int \<Rightarrow> pow_store \<Rightarrow> bool \<times> pow_store" where
  "pow_put nonce expires now s0 =
     (if nonce = [] then (False, s0)
      else
        (let s = (if \<not> now < pnextCleanup s0 \<or> length (pentries s0) \<ge> pcapacity s0
                  then (pow_clearExpiredLocked now s0)\<lparr>pnextCleanup := now + 15 * time_second\<rparr> else s0) in
         if map_of (pentries s) nonce = None \<and> length (pentries s) \<ge> pcapacity s then (False, s)
         else (True, s\<lparr>pentries := AList.update nonce expires (pentries s)\<rparr>)))"

definition pow_consume :: "string \<Rightarrow> int \<Rightarrow> pow_store \<Rightarrow> bool \<times> pow_store" where
  "pow_consume nonce now s =
     ((case map_of (pentries s) nonce of None \<Rightarrow> False | Some t \<Rightarrow> now < t), s\<lparr>pentries := AList.delete nonce (pentries s)\<rparr>)"

definition pow_clearExpired :: "int \<Rightarrow> pow_store \<Rightarrow> pow_store" where
  "pow_clearExpired now s = (pow_clearExpiredLocked now s)\<lparr>pnextCleanup := now + 15 * time_second\<rparr>"

definition powDifficulty :: "int option \<Rightarrow> int" where
  "powDifficulty cfg = (let bits = (case cfg of None \<Rightarrow> 20 | Some v \<Rightarrow> v) in if bits < 1 then 1 else if bits > 248 then 248 else bits)"

fun leading_zeros_loop :: "nat \<Rightarrow> byte list \<Rightarrow> bool" where
  "leading_zeros_loop remaining [] = True"
| "leading_zeros_loop remaining (b # bs) =
     (if remaining \<ge> 8 then (if b \<noteq> 0 then False else leading_zeros_loop (remaining - 8) bs)
      else if remaining = 0 then True
      else b AND push_bit (8 - remaining) 255 = 0)"

definition verifyLoginPoW :: "(string \<Rightarrow> byte list) \<Rightarrow> int option \<Rightarrow> string \<Rightarrow> string \<Rightarrow> int \<Rightarrow> pow_store \<Rightarrow> bool \<times> pow_store" where
  "verifyLoginPoW sha cfg nonce0 solution0 now s =
     (let nonce = TrimSpace nonce0; solution = TrimSpace solution0 in
      if nonce = [] \<or> solution = [] \<or> length solution > 64 then (False, s)
      else
        (let (ok, s) = pow_consume nonce now s in
         if \<not> ok then (False, s) else (leading_zeros_loop (nat (powDifficulty cfg)) (sha (nonce @ [CHR 0x00] @ solution)), s)))"

subsection \<open>One-time passwords\<close>

definition totpDigits :: nat where "totpDigits = 6"

definition be_bytes64 :: "int \<Rightarrow> byte list" where
  "be_bytes64 n = map (\<lambda>k. word_of_int (n div 256 ^ (7 - k))) [0..<8]"

text \<open>Dynamic truncation of RFC 4226; an index out of range is \<open>None\<close> (a panic in the code).\<close>

definition totpValue :: "(byte list \<Rightarrow> byte list \<Rightarrow> byte list) \<Rightarrow> byte list \<Rightarrow> int \<Rightarrow> int option" where
  "totpValue hmac key counter =
     (let digest = hmac key (be_bytes64 counter) in
      if digest = [] then None
      else
        (let offset = unat (last digest AND 15) in
         if offset + 3 \<ge> length digest then None
         else
           (let value = uint (digest ! offset AND 127) * 2 ^ 24 + uint (digest ! (offset + 1)) * 2 ^ 16
                  + uint (digest ! (offset + 2)) * 2 ^ 8 + uint (digest ! (offset + 3)) in
            Some (value mod 10 ^ totpDigits))))"

fun zero_padded :: "nat \<Rightarrow> int \<Rightarrow> string" where
  "zero_padded 0 n = []"
| "zero_padded (Suc k) n = zero_padded k (n div 10) @ [char_of (48 + n mod 10)]"

definition decodeTOTPSecret :: "(string \<Rightarrow> byte list option) \<Rightarrow> string \<Rightarrow> byte list option" where
  "decodeTOTPSecret b32 secret = (let t = map (\<lambda>c. if CHR ''a'' \<le> c \<and> c \<le> CHR ''z'' then char_of (of_char c - (32 :: nat)) else c) (TrimSpace secret) in
     if t = [] then None else b32 t)"

definition IsValidTOTPSecret :: "(string \<Rightarrow> byte list option) \<Rightarrow> string \<Rightarrow> bool" where
  "IsValidTOTPSecret b32 secret = (case decodeTOTPSecret b32 secret of None \<Rightarrow> False | Some key \<Rightarrow> length key \<ge> 10)"

text \<open>Division of Go truncates.\<close>

definition totpCounter :: "int \<Rightarrow> int" where
  "totpCounter now = (if now < 0 then - ((- now) div 30) else now div 30)"

text \<open>\<open>Inl\<close> is an error (a malformed secret or code).\<close>

definition validateTOTPCodeAt :: "(byte list \<Rightarrow> byte list \<Rightarrow> byte list) \<Rightarrow> (string \<Rightarrow> byte list option) \<Rightarrow> string \<Rightarrow> string \<Rightarrow> int \<Rightarrow> unit + bool" where
  "validateTOTPCodeAt hmac b32 secret code now = (case decodeTOTPSecret b32 secret of
     None \<Rightarrow> Inl ()
   | Some key \<Rightarrow>
       if length code \<noteq> totpDigits then Inl ()
       else if \<not> list_all is_digit code then Inl ()
       else
         (let counter = totpCounter now in
          Inr (list_ex (\<lambda>off. counter + off \<ge> 0 \<and> map_option (zero_padded totpDigits) (totpValue hmac key (counter + off)) = Some code) [-1, 0, 1])))"

subsection \<open>Runs of the limiter\<close>

datatype login_op =
    Attempt string string int
  | Success string string
  | Clean int
  | Listing int

fun login_step :: "(string \<Rightarrow> string) \<Rightarrow> login_policy \<Rightarrow> login_op \<Rightarrow> login_limiter \<Rightarrow> bool \<times> login_limiter" where
  "login_step hash p (Attempt ip user now) s = reserveWith hash ip user now p s"
| "login_step hash p (Success ip user) s = (False, login_clear hash ip user s)"
| "login_step hash p (Clean now) s = (False, cleanBans p now s)"
| "login_step hash p (Listing now) s = (False, snd (banList p now s))"

fun op_time :: "login_op \<Rightarrow> int option" where
  "op_time (Attempt ip user now) = Some now"
| "op_time (Success ip user) = None"
| "op_time (Clean now) = Some now"
| "op_time (Listing now) = Some now"

text \<open>The limiter key of an attempt in either table.\<close>

definition ip_key :: "string \<Rightarrow> string" where "ip_key ip = (if TrimSpace ip = [] then ''unknown'' else TrimSpace ip)"

fun op_keys :: "(string \<Rightarrow> string) \<Rightarrow> login_op \<Rightarrow> (string \<times> string) option" where
  "op_keys hash (Attempt ip user now) = Some (ip_key ip, loginUsernameKey hash user)"
| "op_keys hash _ = None"

text \<open>The moments of the attempts that are let through, for the keys that satisfy a condition.\<close>

fun granted :: "(string \<Rightarrow> string) \<Rightarrow> login_policy \<Rightarrow> (string \<times> string \<Rightarrow> bool) \<Rightarrow> login_op list \<Rightarrow> login_limiter \<Rightarrow> int list" where
  "granted hash p sel [] s = []"
| "granted hash p sel (x # xs) s =
     (let (ok, s') = login_step hash p x s in
      (if ok then (case op_keys hash x of Some k \<Rightarrow> if sel k then [the (op_time x)] else [] | None \<Rightarrow> []) else [])
      @ granted hash p sel xs s')"

fun times_from :: "int \<Rightarrow> login_op list \<Rightarrow> bool" where
  "times_from t [] = True"
| "times_from t (x # xs) = (case op_time x of None \<Rightarrow> times_from t xs | Some u \<Rightarrow> t \<le> u \<and> times_from u xs)"

subsection \<open>One table of windows\<close>

text \<open>The history of a key: every granted attempt with the start of its window. Windows do not overlap, each holds at most
\<open>mx\<close> attempts, and the entry of the table describes the last one; without an entry all windows are over.\<close>

definition in_window :: "int \<Rightarrow> (int \<times> int) list \<Rightarrow> nat" where
  "in_window w G = length (filter (\<lambda>g. snd g = w) G)"

definition windows_ok :: "int \<Rightarrow> nat \<Rightarrow> int \<Rightarrow> (int \<times> int) list \<Rightarrow> bool" where
  "windows_ok W mx t G \<longleftrightarrow> (\<forall>g\<in>set G. snd g \<le> fst g \<and> fst g < snd g + W \<and> fst g \<le> t) \<and> (\<forall>w. in_window w G \<le> mx)
     \<and> (\<forall>g\<in>set G. \<forall>h\<in>set G. snd g < snd h \<longrightarrow> snd g + W \<le> snd h)"

definition entry_ok :: "int \<Rightarrow> int \<Rightarrow> (int \<times> int) list \<Rightarrow> attempt_record option \<Rightarrow> bool" where
  "entry_ok W t G e = (case e of None \<Rightarrow> \<forall>g\<in>set G. snd g + W \<le> t
     | Some e \<Rightarrow> windowFrom e \<le> t \<and> acount e = int (in_window (windowFrom e) G) \<and> (\<forall>g\<in>set G. snd g = windowFrom e \<or> snd g + W \<le> windowFrom e))"

definition table_inv :: "int \<Rightarrow> nat \<Rightarrow> string \<Rightarrow> int \<Rightarrow> attempts \<Rightarrow> (int \<times> int) list \<Rightarrow> bool" where
  "table_inv W mx k t tab G \<longleftrightarrow> distinct (map fst tab) \<and> windows_ok W mx t G \<and> entry_ok W t G (map_of tab k)"

lemma map_of_drop_expired:
  "distinct (map fst tab) \<Longrightarrow> map_of (drop_expired W t tab) k
     = (case map_of tab k of None \<Rightarrow> None | Some e \<Rightarrow> if t < windowFrom e + W then Some e else None)"
proof (induction tab)
  case (Cons x tab)
  then show ?case by (cases x) (auto simp: drop_expired_def map_of_eq_None_iff split: option.splits dest: map_of_SomeD)
qed (simp add: drop_expired_def)

lemma distinct_drop_expired: "distinct (map fst tab) \<Longrightarrow> distinct (map fst (drop_expired W t tab))"
  by (simp add: drop_expired_def distinct_map_filter)

lemma windows_time: "windows_ok W mx t G \<Longrightarrow> t \<le> t' \<Longrightarrow> windows_ok W mx t' G"
  unfolding windows_ok_def by (meson order_trans)

lemma entry_time: "entry_ok W t G e \<Longrightarrow> t \<le> t' \<Longrightarrow> entry_ok W t' G e"
  by (cases e) (auto simp: entry_ok_def)

lemma inv_time: "table_inv W mx k t tab G \<Longrightarrow> t \<le> t' \<Longrightarrow> table_inv W mx k t' tab G"
  unfolding table_inv_def using windows_time entry_time by blast

lemma inv_expire:
  assumes "table_inv W mx k t tab G" shows "table_inv W mx k t (drop_expired W t tab) G"
proof -
  have "entry_ok W t G (map_of (drop_expired W t tab) k)"
  proof (cases "map_of tab k")
    case None then show ?thesis using assms by (simp add: table_inv_def map_of_drop_expired entry_ok_def)
  next
    case (Some e)
    then have "\<forall>g\<in>set G. snd g = windowFrom e \<or> snd g + W \<le> windowFrom e" "windowFrom e \<le> t" using assms by (simp_all add: table_inv_def entry_ok_def)
    then have "\<forall>g\<in>set G. snd g + W \<le> t" if "\<not> t < windowFrom e + W" using that by force
    then show ?thesis using assms Some by (simp add: table_inv_def map_of_drop_expired entry_ok_def)
  qed
  then show ?thesis using assms by (simp add: table_inv_def distinct_drop_expired)
qed

lemma inv_delete: "table_inv W mx k t tab G \<Longrightarrow> k' \<noteq> k \<Longrightarrow> table_inv W mx k t (AList.delete k' tab) G"
  by (simp add: table_inv_def delete_conv' distinct_delete)

lemma inv_other: "table_inv W mx k t tab G \<Longrightarrow> k' \<noteq> k \<Longrightarrow> table_inv W mx k t (count_attempt W t k' tab) G"
  by (simp add: table_inv_def count_attempt_def Let_def update_conv' distinct_update)

lemma windows_ok_add:
  assumes "windows_ok W mx t G" "W > 0" "in_window w G < mx" "w \<le> t" "t < w + W"
    and "\<forall>g\<in>set G. snd g = w \<or> snd g + W \<le> w"
  shows "windows_ok W mx t ((t, w) # G)"
  using assms by (fastforce simp: windows_ok_def in_window_def)

lemma inv_count:
  assumes inv: "table_inv W mx k t tab G" and W: "W > 0" "mx > 0" and "\<not> banned W (int mx) t (map_of tab k)"
  shows "\<exists>w. table_inv W mx k t (count_attempt W t k tab) ((t, w) # G)"
proof -
  have d: "distinct (map fst (count_attempt W t k tab))" using inv by (simp add: table_inv_def count_attempt_def Let_def distinct_update)
  have wk: "windows_ok W mx t G" and ek: "entry_ok W t G (map_of tab k)" using inv by (simp_all add: table_inv_def)
  define w where "w = (case map_of tab k of None \<Rightarrow> t | Some e \<Rightarrow> if t < windowFrom e + W then windowFrom e else t)"
  have starts: "\<forall>g\<in>set G. snd g = w \<or> snd g + W \<le> w" and range: "w \<le> t" "t < w + W"
    using ek W by (fastforce simp: entry_ok_def w_def split: option.splits)+
  have fresh: "in_window t G = 0" if "\<forall>g\<in>set G. snd g + W \<le> t" using that W by (force simp: in_window_def filter_empty_conv)
  have room: "in_window w G < mx"
  proof (cases "map_of tab k")
    case None then show ?thesis using ek W fresh by (simp add: entry_ok_def w_def)
  next
    case (Some e)
    show ?thesis
    proof (cases "t < windowFrom e + W")
      case True then show ?thesis using Some ek assms(4) by (simp add: entry_ok_def w_def banned_def)
    next
      case False
      then have "\<forall>g\<in>set G. snd g + W \<le> t" using Some ek by (force simp: entry_ok_def)
      then show ?thesis using Some False fresh W by (simp add: w_def)
    qed
  qed
  have "windows_ok W mx t ((t, w) # G)" by (rule windows_ok_add [OF wk W(1) room range starts])
  moreover have "entry_ok W t ((t, w) # G) (map_of (count_attempt W t k tab) k)"
  proof (cases "map_of tab k")
    case None then show ?thesis using ek fresh by (simp add: entry_ok_def w_def count_attempt_def update_conv' in_window_def)
  next
    case (Some e)
    show ?thesis
    proof (cases "t < windowFrom e + W")
      case True then show ?thesis using Some ek starts by (simp add: entry_ok_def w_def count_attempt_def update_conv' in_window_def)
    next
      case False
      then have "\<forall>g\<in>set G. snd g + W \<le> t" using Some ek by (force simp: entry_ok_def)
      then show ?thesis using Some False fresh by (simp add: entry_ok_def w_def count_attempt_def update_conv' in_window_def)
    qed
  qed
  ultimately show ?thesis using d by (auto simp: table_inv_def)
qed

lemma at_most_two_windows:
  assumes "windows_ok W mx t G" "W > 0"
  shows "length (filter (\<lambda>g. a \<le> fst g \<and> fst g < a + W) G) \<le> 2 * mx"
proof -
  let ?H = "filter (\<lambda>g. a \<le> fst g \<and> fst g < a + W) G"
  have count: "length (filter (\<lambda>g. snd g = w) ?H) \<le> mx" for w
  proof -
    have "length (filter (\<lambda>g. snd g = w) ?H) \<le> in_window w G"
      unfolding in_window_def filter_filter by (induction G) auto
    also have "\<dots> \<le> mx" using assms(1) by (simp add: windows_ok_def)
    finally show ?thesis .
  qed
  show ?thesis
  proof (cases "?H = []")
    case False
    define lo where "lo = Min (snd ` set ?H)"
    define hi where "hi = Max (snd ` set ?H)"
    have mem: "\<And>g. g \<in> set ?H \<Longrightarrow> lo \<le> snd g \<and> snd g \<le> hi" by (auto simp: lo_def hi_def)
    obtain l h where l: "l \<in> set ?H" "snd l = lo" and h: "h \<in> set ?H" "snd h = hi"
    proof -
      have "set ?H \<noteq> {}" using False by (metis set_empty)
      then have ne: "finite (snd ` set ?H)" "snd ` set ?H \<noteq> {}" by simp_all
      have "lo \<in> snd ` set ?H" "hi \<in> snd ` set ?H" unfolding lo_def hi_def by (rule Min_in [OF ne] Max_in [OF ne])+
      then show thesis using that by blast
    qed
    have g_in: "g \<in> set G" "a \<le> fst g" "fst g < a + W" "snd g \<le> fst g" "fst g < snd g + W" if "g \<in> set ?H" for g
      using that assms(1) by (auto simp: windows_ok_def)
    have two: "snd g = lo \<or> snd g = hi" if g: "g \<in> set ?H" for g
    proof (rule ccontr)
      assume "\<not> (snd g = lo \<or> snd g = hi)"
      then have "lo < snd g" "snd g < hi" using mem [OF g] by auto
      then have "lo + W \<le> snd g" "snd g + W \<le> hi" using assms(1) g_in(1) [OF g] g_in(1) [OF l(1)] g_in(1) [OF h(1)] l(2) h(2)
        unfolding windows_ok_def by blast+
      then show False using g_in(2-5) [OF l(1)] g_in(2-5) [OF h(1)] l(2) h(2) by linarith
    qed
    have "length ?H \<le> length (filter (\<lambda>g. snd g = lo) ?H) + length (filter (\<lambda>g. snd g = hi) ?H)"
    proof -
      have "\<forall>g\<in>set xs. snd g = lo \<or> snd g = hi \<Longrightarrow> length xs \<le> length (filter (\<lambda>g. snd g = lo) xs) + length (filter (\<lambda>g. snd g = hi) xs)" for xs :: "(int \<times> int) list"
        by (induction xs) auto
      then show ?thesis using two by blast
    qed
    then show ?thesis using count [of lo] count [of hi] by linarith
  qed simp
qed

subsection \<open>Both tables together\<close>

lemma drop_expired_idem [simp]: "drop_expired W t (drop_expired W t tab) = drop_expired W t tab"
  by (simp add: drop_expired_def)

lemma not_banned_drop:
  "distinct (map fst tab) \<Longrightarrow> \<not> banned W f t (map_of tab k) \<Longrightarrow> \<not> banned W f t (map_of (drop_expired W t tab) k)"
  by (cases "map_of tab k") (simp_all add: banned_def map_of_drop_expired)

text \<open>What an attempt does to either table: at most an expiry pass, and the count if it is let through and not banned.\<close>

definition attempt_on :: "int \<Rightarrow> int \<Rightarrow> int \<Rightarrow> string \<Rightarrow> bool \<Rightarrow> attempts \<Rightarrow> attempts \<Rightarrow> bool" where
  "attempt_on W f now k ok tab tab' \<longleftrightarrow> (\<exists>tab1. (tab1 = tab \<or> tab1 = drop_expired W now tab)
     \<and> tab' = (if ok then count_attempt W now k tab1 else tab1) \<and> (ok \<longrightarrow> \<not> banned W f now (map_of tab1 k)))"

lemma attempt_onI:
  assumes "distinct (map fst tab)" "tab0 = tab \<or> tab0 = drop_expired W now tab" "tab1 = tab0 \<or> tab1 = drop_expired W now tab0"
    and "tab' = (if ok then count_attempt W now k tab1 else tab1)" "ok \<longrightarrow> \<not> banned W f now (map_of tab0 k)"
  shows "attempt_on W f now k ok tab tab'"
proof -
  have "distinct (map fst tab0)" using assms(1,2) distinct_drop_expired by blast
  then have "ok \<longrightarrow> \<not> banned W f now (map_of tab1 k)" using assms(3,5) not_banned_drop by blast
  moreover have "tab1 = tab \<or> tab1 = drop_expired W now tab" using assms(2,3) by auto
  ultimately show ?thesis using assms(4) unfolding attempt_on_def by blast
qed

lemma reserve_outcome:
  assumes "reserveWith hash ip user now p s = (ok, s')"
  obtains (refused) s2 where "\<not> ok" "s2 = login_cleanup now p s \<or> s2 = removeExpiredLocked now p (login_cleanup now p s)" "s' = s2"
  | (allowed) s2 where "ok" "s2 = login_cleanup now p s \<or> s2 = removeExpiredLocked now p (login_cleanup now p s)"
      "s' = s2\<lparr>byIP := count_attempt (ipWindow p) now (ip_key ip) (byIP s2), byUsername := count_attempt (userWindow p) now (loginUsernameKey hash user) (byUsername s2)\<rparr>"
      "\<not> banned (ipWindow p) (maxFails p) now (map_of (byIP (login_cleanup now p s)) (ip_key ip))"
      "\<not> banned (userWindow p) (maxFails p) now (map_of (byUsername (login_cleanup now p s)) (loginUsernameKey hash user))"
      "\<not> no_room s2 (ip_key ip) (loginUsernameKey hash user)"
  using assms unfolding reserveWith_def Let_def ip_key_def [symmetric] by (auto split: if_splits)

lemma reserve_tables:
  assumes "distinct (map fst (byIP s))" "distinct (map fst (byUsername s))" "reserveWith hash ip user now p s = (ok, s')"
  shows "attempt_on (ipWindow p) (maxFails p) now (ip_key ip) ok (byIP s) (byIP s')"
    and "attempt_on (userWindow p) (maxFails p) now (loginUsernameKey hash user) ok (byUsername s) (byUsername s')"
proof -
  let ?c = "login_cleanup now p s"
  have c: "byIP ?c = byIP s \<or> byIP ?c = drop_expired (ipWindow p) now (byIP s)"
    "byUsername ?c = byUsername s \<or> byUsername ?c = drop_expired (userWindow p) now (byUsername s)"
    by (simp_all add: login_cleanup_def removeExpiredLocked_def)
  from assms(3) show "attempt_on (ipWindow p) (maxFails p) now (ip_key ip) ok (byIP s) (byIP s')"
  proof (cases rule: reserve_outcome)
    case (refused s2)
    then show ?thesis by (intro attempt_onI [OF assms(1) c(1), of "byIP s2"]) (auto simp: removeExpiredLocked_def)
  next
    case (allowed s2)
    then show ?thesis by (intro attempt_onI [OF assms(1) c(1), of "byIP s2"]) (auto simp: removeExpiredLocked_def)
  qed
  from assms(3) show "attempt_on (userWindow p) (maxFails p) now (loginUsernameKey hash user) ok (byUsername s) (byUsername s')"
  proof (cases rule: reserve_outcome)
    case (refused s2)
    then show ?thesis by (intro attempt_onI [OF assms(2) c(2), of "byUsername s2"]) (auto simp: removeExpiredLocked_def)
  next
    case (allowed s2)
    then show ?thesis by (intro attempt_onI [OF assms(2) c(2), of "byUsername s2"]) (auto simp: removeExpiredLocked_def)
  qed
qed

lemma inv_attempt:
  assumes "table_inv W mx k t tab G" "attempt_on W (int mx) now k' ok tab tab'" "t \<le> now" "W > 0" "mx > 0"
  shows "if ok \<and> k' = k then \<exists>w. table_inv W mx k now tab' ((now, w) # G) else table_inv W mx k now tab' G"
proof -
  obtain tab1 where t1: "tab1 = tab \<or> tab1 = drop_expired W now tab" "tab' = (if ok then count_attempt W now k' tab1 else tab1)"
      "ok \<longrightarrow> \<not> banned W (int mx) now (map_of tab1 k')"
    using assms(2) unfolding attempt_on_def by blast
  have inv: "table_inv W mx k now tab1 G" using t1(1) inv_expire [OF inv_time [OF assms(1,3)]] inv_time [OF assms(1,3)] by auto
  show ?thesis
  proof (cases "ok \<and> k' = k")
    case True then show ?thesis using inv_count [OF inv assms(4,5)] t1 by simp
  next
    case False then show ?thesis using inv inv_other [OF inv] t1 by auto
  qed
qed

text \<open>Both tables obey the same laws, so the bound is proved once.\<close>

definition tables_distinct :: "login_limiter \<Rightarrow> bool" where
  "tables_distinct s \<longleftrightarrow> distinct (map fst (byIP s)) \<and> distinct (map fst (byUsername s))"

lemma attempt_distinct:
  "distinct (map fst tab) \<Longrightarrow> attempt_on W f now k ok tab tab' \<Longrightarrow> distinct (map fst tab')"
  by (auto simp: attempt_on_def count_attempt_def Let_def distinct_update distinct_drop_expired)

lemma step_distinct: "tables_distinct s \<Longrightarrow> tables_distinct (snd (login_step hash p x s))"
proof (cases x)
  case (Attempt ip user now)
  assume "tables_distinct s"
  then show ?thesis
    using reserve_tables [of s hash ip user now p "fst (reserveWith hash ip user now p s)" "snd (reserveWith hash ip user now p s)"] attempt_distinct
    by (fastforce simp: Attempt tables_distinct_def)
qed (simp_all add: tables_distinct_def login_clear_def cleanBans_def banList_def removeExpiredLocked_def Let_def distinct_drop_expired distinct_delete)

text \<open>An operation that does not clear the entry of a key; \<open>clr\<close> gives the key a successful login clears.\<close>

fun spares :: "(string \<Rightarrow> string \<Rightarrow> string) \<Rightarrow> string \<Rightarrow> login_op \<Rightarrow> bool" where
  "spares clr k (Success ip user) = (clr ip user \<noteq> k)"
| "spares clr k _ = True"

locale attempt_table =
  fixes tab :: "login_limiter \<Rightarrow> attempts" and window :: "login_policy \<Rightarrow> int" and pick :: "string \<times> string \<Rightarrow> string"
    and cleared :: "(string \<Rightarrow> string) \<Rightarrow> string \<Rightarrow> string \<Rightarrow> string"
  assumes reserve_law: "tables_distinct s \<Longrightarrow> reserveWith hash ip user now p s = (ok, s') \<Longrightarrow>
      attempt_on (window p) (maxFails p) now (pick (ip_key ip, loginUsernameKey hash user)) ok (tab s) (tab s')"
    and clear_law: "tab (login_clear hash ip user s) = AList.delete (cleared hash ip user) (tab s)"
    and expire_law: "tab (removeExpiredLocked now p s) = drop_expired (window p) now (tab s)"
    and cleanup_law: "tab (s\<lparr>nextCleanupTime := c\<rparr>) = tab s"
    and empty_law: "tab (newLoginAttemptLimiter cap) = []"
begin

lemma run_windows:
  assumes "tables_distinct s" "table_inv (window p) (nat (maxFails p)) k t (tab s) G" "times_from t ops" "list_all (spares (cleared hash) k) ops"
    and pos: "window p > 0" "maxFails p > 0"
  shows "\<exists>t' G'. windows_ok (window p) (nat (maxFails p)) t' G' \<and> mset (map fst G') = mset (map fst G) + mset (granted hash p (\<lambda>ks. pick ks = k) ops s)"
  using assms(1-4)
proof (induction ops arbitrary: s t G)
  case Nil
  then show ?case by (auto simp: table_inv_def)
next
  case (Cons x ops)
  let ?s = "snd (login_step hash p x s)"
  note d = step_distinct [OF Cons.prems(1), of hash p x]
  show ?case
  proof (cases x)
    case (Attempt ip user now)
    obtain ok s' where r: "reserveWith hash ip user now p s = (ok, s')" by fastforce
    have le: "t \<le> now" and rest: "times_from now ops" "list_all (spares (cleared hash) k) ops" using Cons.prems Attempt by auto
    have on: "attempt_on (window p) (int (nat (maxFails p))) now (pick (ip_key ip, loginUsernameKey hash user)) ok (tab s) (tab s')"
      using reserve_law [OF Cons.prems(1) r] pos by simp
    have s': "tables_distinct s'" using d r Attempt by simp
    show ?thesis
    proof (cases "ok \<and> pick (ip_key ip, loginUsernameKey hash user) = k")
      case True
      then obtain w where "table_inv (window p) (nat (maxFails p)) k now (tab s') ((now, w) # G)"
        using inv_attempt [OF Cons.prems(2) on le] pos by auto
      from Cons.IH [OF s' this rest] True r show ?thesis by (simp add: Attempt)
    next
      case False
      then have "table_inv (window p) (nat (maxFails p)) k now (tab s') G"
        using inv_attempt [OF Cons.prems(2) on le] pos by simp
      from Cons.IH [OF s' this rest] False r show ?thesis by (simp add: Attempt)
    qed
  next
    case (Success ip user)
    then have "table_inv (window p) (nat (maxFails p)) k t (tab ?s) G"
      using inv_delete [OF Cons.prems(2)] Cons.prems(4) by (simp add: clear_law)
    from Cons.IH [OF d this] Cons.prems show ?thesis by (simp add: Success)
  next
    case (Clean now)
    then have "table_inv (window p) (nat (maxFails p)) k now (tab ?s) G"
      using inv_expire [OF inv_time [OF Cons.prems(2), of now]] Cons.prems(3) by (simp add: cleanBans_def cleanup_law expire_law)
    from Cons.IH [OF d this] Cons.prems show ?thesis by (simp add: Clean)
  next
    case (Listing now)
    then have "table_inv (window p) (nat (maxFails p)) k now (tab ?s) G"
      using inv_expire [OF inv_time [OF Cons.prems(2), of now]] Cons.prems(3) by (simp add: banList_def Let_def expire_law)
    from Cons.IH [OF d this] Cons.prems show ?thesis by (simp add: Listing)
  qed
qed

lemma run_bounded:
  assumes "times_from t ops" "list_all (spares (cleared hash) k) ops" "window p > 0" "maxFails p > 0"
  shows "length (filter (\<lambda>u. a \<le> u \<and> u < a + window p) (granted hash p (\<lambda>ks. pick ks = k) ops (newLoginAttemptLimiter cap))) \<le> 2 * nat (maxFails p)"
proof -
  let ?s = "newLoginAttemptLimiter cap"
  have "tables_distinct ?s" by (simp add: tables_distinct_def newLoginAttemptLimiter_def)
  moreover have "table_inv (window p) (nat (maxFails p)) k t (tab ?s) []"
    by (simp add: table_inv_def windows_ok_def entry_ok_def in_window_def empty_law)
  ultimately obtain t' G where G: "windows_ok (window p) (nat (maxFails p)) t' G" "mset (map fst G) = mset (granted hash p (\<lambda>ks. pick ks = k) ops ?s)"
    using run_windows [OF _ _ assms] by fastforce
  have "length (filter q xs) = length (filter q ys)" if "mset xs = mset ys" for q :: "int \<Rightarrow> bool" and xs ys
    using that by (metis mset_filter size_mset)
  from this [OF G(2), of "\<lambda>u. a \<le> u \<and> u < a + window p"] have "length (filter (\<lambda>u. a \<le> u \<and> u < a + window p) (granted hash p (\<lambda>ks. pick ks = k) ops ?s))
      = length (filter (\<lambda>g. a \<le> fst g \<and> fst g < a + window p) G)" by (simp add: filter_map comp_def)
  then show ?thesis using at_most_two_windows [OF G(1) assms(3)] by simp
qed

end

interpretation users: attempt_table byUsername userWindow snd "\<lambda>hash ip user. loginUsernameKey hash user"
  by unfold_locales (auto simp: tables_distinct_def login_clear_def removeExpiredLocked_def newLoginAttemptLimiter_def dest: reserve_tables)

interpretation addresses: attempt_table byIP ipWindow fst "\<lambda>hash ip user. TrimSpace ip"
  by unfold_locales (auto simp: tables_distinct_def login_clear_def removeExpiredLocked_def newLoginAttemptLimiter_def dest: reserve_tables)


definition demo_policy :: login_policy where "demo_policy = \<lparr>minInterval = 0, ipWindow = 10, userWindow = 10, maxFails = 1\<rparr>"


text \<open>The bound does not hold for addresses that belong to somebody with an account: a successful login clears the count of
the address, so between guesses at other names the own login keeps the address below the limit. Here one address makes
six guesses inside one window although only two attempts are allowed; without the own logins only two are let through.\<close>

theorem own_login_resets_address_limit:
  "let p = \<lparr>minInterval = 0, ipWindow = 100, userWindow = 100, maxFails = 2\<rparr>;
       guesses = map (\<lambda>k. Attempt ''a'' [k] 1) ''bcdefg'';
       mixed = concat (map (\<lambda>g. [g, Attempt ''a'' ''m'' 1, Success ''a'' ''m'']) guesses) in
   length (granted id p (\<lambda>ks. fst ks = ''a'' \<and> snd ks \<noteq> ''m'') mixed (newLoginAttemptLimiter 100)) = 6
   \<and> length (granted id p (\<lambda>ks. fst ks = ''a'') guesses (newLoginAttemptLimiter 100)) = 2"
  by code_simp

subsection \<open>Bounded memory and the list of bans\<close>

definition within_capacity :: "login_limiter \<Rightarrow> bool" where
  "within_capacity s \<longleftrightarrow> length (byIP s) \<le> lcapacity s \<and> length (byUsername s) \<le> lcapacity s"

lemma length_update: "length (AList.update k v al) = (if map_of al k = None then Suc (length al) else length al)"
  by (induction al) auto

lemma length_drop_expired: "length (drop_expired W t tab) \<le> length tab"
  by (simp add: drop_expired_def)

lemma capacity_expire: "within_capacity s \<Longrightarrow> within_capacity (removeExpiredLocked now p s) \<and> lcapacity (removeExpiredLocked now p s) = lcapacity s"
  using length_drop_expired [of "ipWindow p" now "byIP s"] length_drop_expired [of "userWindow p" now "byUsername s"]
  by (simp add: within_capacity_def removeExpiredLocked_def)

lemma capacity_cleanup: "within_capacity s \<Longrightarrow> within_capacity (login_cleanup now p s) \<and> lcapacity (login_cleanup now p s) = lcapacity s"
  using capacity_expire [of s now p] by (simp add: login_cleanup_def) (simp add: within_capacity_def)

lemma length_count: "map_of tab k = None \<longrightarrow> length tab < c \<Longrightarrow> length tab \<le> c \<Longrightarrow> length (count_attempt W now k tab) \<le> c"
  by (auto simp: count_attempt_def Let_def length_update)

lemma capacity_reserve:
  assumes "within_capacity s" "reserveWith hash ip user now p s = (ok, s')" shows "within_capacity s' \<and> lcapacity s' = lcapacity s"
proof -
  have c: "within_capacity s2 \<and> lcapacity s2 = lcapacity s" if "s2 = login_cleanup now p s \<or> s2 = removeExpiredLocked now p (login_cleanup now p s)" for s2
    using that capacity_cleanup [OF assms(1)] capacity_expire [of "login_cleanup now p s" now p] by auto
  from assms(2) show ?thesis
  proof (cases rule: reserve_outcome)
    case (allowed s2)
    then show ?thesis using c [of s2] by (auto simp: within_capacity_def no_room_def not_le intro!: length_count)
  qed (use c in auto)
qed

text \<open>The limiter never remembers more addresses or names than its capacity, whatever requests arrive: a flood of new
names is refused instead of growing the maps.\<close>

theorem limiter_memory_bounded:
  "within_capacity (snd (fold (\<lambda>x (ok, s). login_step hash p x s) ops (ok0, newLoginAttemptLimiter cap)))"
proof -
  have "within_capacity s \<Longrightarrow> within_capacity (snd (fold (\<lambda>x (ok, s). login_step hash p x s) ops (ok0, s)))" for ok0 s
  proof (induction ops arbitrary: ok0 s)
    case (Cons x ops)
    have step: "within_capacity (snd (login_step hash p x s))"
    proof (cases x)
      case (Attempt ip user now)
      then show ?thesis using capacity_reserve [OF Cons.prems, of hash ip user now p] by (metis login_step.simps(1) prod.collapse)
    next
      case (Success ip user)
      have "length (AList.delete k al) \<le> length al" for k and al :: attempts by (rule length_delete_le)
      then show ?thesis using Cons.prems by (auto simp: Success within_capacity_def login_clear_def intro: order_trans)
    next
      case (Clean now)
      then show ?thesis using capacity_expire [OF Cons.prems, of now p] by (simp add: cleanBans_def within_capacity_def)
    next
      case (Listing now)
      then show ?thesis using capacity_expire [OF Cons.prems] by (simp add: banList_def Let_def)
    qed
    obtain ok1 s1 where "login_step hash p x s = (ok1, s1)" by fastforce
    then show ?case using Cons.IH [OF step, of ok1] by simp
  qed simp
  from this [of "newLoginAttemptLimiter cap" ok0] show ?thesis by (simp add: within_capacity_def newLoginAttemptLimiter_def)
qed

text \<open>The list of bans tells the truth: a user name that is listed is refused exactly when the list shows it as banned, if the
attempt comes from an address the limiter does not know.\<close>

theorem ban_list_exact:
  assumes "tables_distinct s" "map_of (byUsername s) (loginUsernameKey hash user) = Some e" "now < windowFrom e + userWindow p"
    and "map_of (byIP s) (ip_key ip) = None" "length (byIP s) < lcapacity s"
  shows "(akey e, acount e, is_banned p (userWindow p) now e, ''username'') \<in> set (fst (banList p now s))
    \<and> fst (reserveWith hash ip user now p s) = (\<not> is_banned p (userWindow p) now e)"
proof -
  let ?c = "login_cleanup now p s" and ?u = "loginUsernameKey hash user"
  have d: "distinct (map fst (byIP s))" "distinct (map fst (byUsername s))" using assms(1) by (simp_all add: tables_distinct_def)
  have u: "map_of (drop_expired (userWindow p) now (byUsername s)) ?u = Some e" using assms(2,3) d(2) by (simp add: map_of_drop_expired)
  then have "(?u, e) \<in> set (drop_expired (userWindow p) now (byUsername s))" by (rule map_of_SomeD)
  then have "(akey e, acount e, is_banned p (userWindow p) now e, ''username'') \<in> set (fst (banList p now s))"
    by (force simp: banList_def removeExpiredLocked_def Let_def)
  moreover have "map_of (byUsername ?c) ?u = Some e" using assms(2) u by (simp add: login_cleanup_def removeExpiredLocked_def)
  moreover have "map_of (byIP ?c) (ip_key ip) = None"
    using assms(4) d(1) map_of_drop_expired [of "byIP s" "ipWindow p" now] by (simp add: login_cleanup_def removeExpiredLocked_def)
  moreover have "length (byIP ?c) < lcapacity ?c"
    using assms(5) length_drop_expired [of "ipWindow p" now "byIP s"] by (simp add: login_cleanup_def removeExpiredLocked_def)
  ultimately show ?thesis
    unfolding reserveWith_def Let_def ip_key_def [symmetric]
    by (auto simp: too_soon_def banned_def no_room_def is_banned_def)
qed

lemma ban_list_exact_witness:
  "fst (reserveWith id ''a'' ''u'' 5 demo_policy \<lparr>byIP = [], byUsername = [(''u'', \<lparr>akey = ''u'', acount = 1, windowFrom = 0, lastAttempt = 0\<rparr>)], lcapacity = 3, nextCleanupTime = 0\<rparr>) = False"
  using ban_list_exact [of "\<lparr>byIP = [], byUsername = [(''u'', \<lparr>akey = ''u'', acount = 1, windowFrom = 0, lastAttempt = 0\<rparr>)], lcapacity = 3, nextCleanupTime = 0\<rparr>" id "''u''"
      "\<lparr>akey = ''u'', acount = 1, windowFrom = 0, lastAttempt = 0\<rparr>" 5 demo_policy "''a''"]
  by (simp add: tables_distinct_def demo_policy_def is_banned_def loginUsernameKey_def ToLower_def lower_char_def TrimSpace_def trim_while_def is_space_def)

subsection \<open>Proof of work and one-time passwords\<close>

lemma mask_zero:
  fixes b :: byte
  assumes "0 < r" "r < 8"
  shows "b AND push_bit (8 - r) 255 = 0 \<longleftrightarrow> (\<forall>i<r. \<not> bit b (7 - i))"
proof -
  have ones: "bit (push_bit (8 - r) (255 :: byte)) j \<longleftrightarrow> 8 - r \<le> j \<and> j < 8" for j
  proof -
    have m: "(255 :: byte) = mask 8" by (simp add: mask_eq_exp_minus_1)
    show ?thesis unfolding m by (auto simp: bit_simps)
  qed
  have "b AND push_bit (8 - r) 255 = 0 \<longleftrightarrow> (\<forall>j. 8 - r \<le> j \<and> j < 8 \<longrightarrow> \<not> bit b j)"
    by (auto simp: bit_eq_iff bit_and_iff ones)
  also have "\<dots> \<longleftrightarrow> (\<forall>i<r. \<not> bit b (7 - i))"
  proof (intro iffI allI impI)
    fix i assume "\<forall>j. 8 - r \<le> j \<and> j < 8 \<longrightarrow> \<not> bit b j" "i < r"
    moreover have "8 - r \<le> 7 - i" "7 - i < 8" using \<open>i < r\<close> assms by auto
    ultimately show "\<not> bit b (7 - i)" by blast
  next
    fix j assume h: "\<forall>i<r. \<not> bit b (7 - i)" "8 - r \<le> j \<and> j < 8"
    then have "7 - j < r" "7 - (7 - j) = j" by auto
    then show "\<not> bit b j" using h(1) by metis
  qed
  finally show ?thesis .
qed

lemma byte_zero: "(b :: byte) = 0 \<longleftrightarrow> (\<forall>i<8. \<not> bit b (7 - i))"
proof -
  have "b = 0 \<longleftrightarrow> (\<forall>j<8. \<not> bit b j)" by (auto simp: bit_eq_iff dest: bit_imp_le_length)
  also have "\<dots> \<longleftrightarrow> (\<forall>i<8. \<not> bit b (7 - i))"
  proof (intro iffI allI impI)
    fix j :: nat assume "\<forall>i<8. \<not> bit b (7 - i)" "j < 8"
    then have "7 - j < 8" "7 - (7 - j) = j" by auto
    then show "\<not> bit b j" using \<open>\<forall>i<8. \<not> bit b (7 - i)\<close> by metis
  qed auto
  finally show ?thesis .
qed

text \<open>The byte-wise test of a proof of work accepts exactly the digests whose first \<open>n\<close> bits, most significant first, are
zero.\<close>

theorem pow_check_exact:
  assumes "n \<le> 8 * length bs"
  shows "leading_zeros_loop n bs \<longleftrightarrow> (\<forall>i<n. \<not> bit (bs ! (i div 8)) (7 - i mod 8))"
  using assms
proof (induction n bs rule: leading_zeros_loop.induct)
  case (2 n b bs)
  consider "n \<ge> 8" | "n = 0" | "0 < n" "n < 8" by linarith
  then show ?case
  proof cases
    case 1
    have "(\<forall>i<n. \<not> bit ((b # bs) ! (i div 8)) (7 - i mod 8))
        \<longleftrightarrow> (\<forall>i<8. \<not> bit b (7 - i)) \<and> (\<forall>i<n - 8. \<not> bit (bs ! (i div 8)) (7 - i mod 8))" (is "?all \<longleftrightarrow> ?head \<and> ?tail")
    proof (intro iffI conjI allI impI)
      fix i :: nat assume h: ?all "i < 8"
      then show "\<not> bit b (7 - i)" using 1 h(1) [rule_format, of i] by simp
    next
      fix i assume h: ?all "i < n - 8"
      have "(i + 8) div 8 = Suc (i div 8)" "(i + 8) mod 8 = i mod 8" by simp_all
      then show "\<not> bit (bs ! (i div 8)) (7 - i mod 8)" using h(1) [rule_format, of "i + 8"] h(2) by simp
    next
      fix i assume h: "?head \<and> ?tail" "i < n"
      show "\<not> bit ((b # bs) ! (i div 8)) (7 - i mod 8)"
      proof (cases "i < 8")
        case True then show ?thesis using h(1) by simp
      next
        case False
        then have "i div 8 = Suc ((i - 8) div 8)" "i mod 8 = (i - 8) mod 8" by (simp_all add: le_div_geq le_mod_geq)
        then show ?thesis using h False by simp
      qed
    qed
    then show ?thesis using 1 "2.IH" "2.prems" by (simp add: byte_zero [of b])
  next
    case 2 then show ?thesis by simp
  next
    case 3
    then have "(\<forall>i<n. \<not> bit ((b # bs) ! (i div 8)) (7 - i mod 8)) \<longleftrightarrow> (\<forall>i<n. \<not> bit b (7 - i))" by simp
    then show ?thesis using 3 mask_zero [OF 3, of b] by simp
  qed
qed simp

lemma pow_check_exact_witness: "leading_zeros_loop 12 [0, 15] \<longleftrightarrow> (\<forall>i<12. \<not> bit ([0, 15 :: byte] ! (i div 8)) (7 - i mod 8))"
  by (rule pow_check_exact) simp

datatype pow_op = Put string int int | Consume string int | ClearPow int

fun pow_step :: "pow_op \<Rightarrow> pow_store \<Rightarrow> pow_store" where
  "pow_step (Put n e now) s = snd (pow_put n e now s)"
| "pow_step (Consume n now) s = snd (pow_consume n now s)"
| "pow_step (ClearPow now) s = pow_clearExpired now s"

fun issues :: "string \<Rightarrow> pow_op \<Rightarrow> bool" where
  "issues n (Put m e now) = (m = n)"
| "issues n _ = False"

lemma map_of_filter_None: "map_of al k = None \<Longrightarrow> map_of (filter q al) k = None"
  by (auto simp: map_of_eq_None_iff)

lemma pow_step_absent: "map_of (pentries s) n = None \<Longrightarrow> \<not> issues n x \<Longrightarrow> map_of (pentries (pow_step x s)) n = None"
  by (cases x) (auto simp: pow_put_def pow_consume_def pow_clearExpired_def pow_clearExpiredLocked_def Let_def update_conv' delete_conv' map_of_filter_None split: if_splits)

text \<open>A proof of work counts once: after a challenge has been consumed, successfully or not, every later attempt to use it
fails until the server issues the same challenge again.\<close>

theorem pow_single_use:
  assumes "list_all (\<lambda>x. \<not> issues nonce x) ops"
  shows "\<not> fst (pow_consume nonce now' (fold pow_step ops (snd (pow_consume nonce now s))))"
proof -
  have "map_of (pentries s) nonce = None \<Longrightarrow> map_of (pentries (fold pow_step ops s)) nonce = None" for s
    using assms by (induction ops arbitrary: s) (auto simp: pow_step_absent)
  from this [of "snd (pow_consume nonce now s)"] show ?thesis by (simp add: pow_consume_def delete_conv')
qed

lemma pow_single_use_witness:
  "\<not> fst (pow_consume ''n'' 2 (fold pow_step [Put ''m'' 9 1] (snd (pow_consume ''n'' 1 (newPoWChallengeStore 4)))))"
  by (rule pow_single_use) simp

lemma zero_padded_digits: "length (zero_padded k n) = k \<and> list_all is_digit (zero_padded k n)"
proof (induction k arbitrary: n)
  case (Suc k)
  have "is_digit (char_of (48 + n mod 10))"
  proof -
    have "n mod 10 = 0 \<or> n mod 10 = 1 \<or> n mod 10 = 2 \<or> n mod 10 = 3 \<or> n mod 10 = 4 \<or> n mod 10 = 5 \<or> n mod 10 = 6 \<or> n mod 10 = 7
      \<or> n mod 10 = 8 \<or> n mod 10 = 9" by presburger
    then show ?thesis by (elim disjE) (simp_all add: is_digit_def char_of_def)
  qed
  then show ?case using Suc.IH [of "n div 10"] by simp
qed simp

text \<open>A one-time password computed at any moment is accepted by a server whose clock differs by at most thirty seconds, if
the MAC has the twenty bytes of SHA-1: no index is out of range and the text always has six digits.\<close>

theorem totp_tolerates_skew:
  assumes "\<forall>k m. length (hmac k m) = 20" "decodeTOTPSecret b32 secret = Some key" "t \<ge> 0" "t' \<ge> 0" "\<bar>t - t'\<bar> \<le> 30"
  shows "\<exists>code. map_option (zero_padded totpDigits) (totpValue hmac key (t div 30)) = Some code
    \<and> validateTOTPCodeAt hmac b32 secret code t' = Inr True"
proof -
  have "unat (last d AND 15) + 3 < length d" if "length d = 20" for d :: "byte list"
  proof -
    have "last d AND 15 \<le> 15" by (simp add: word_and_le1)
    then have "unat (last d AND 15) \<le> 15" by (simp add: word_le_nat_alt)
    then show ?thesis using that by simp
  qed
  from this [OF assms(1) [rule_format, of key "be_bytes64 (t div 30)"]]
  have "\<exists>v. totpValue hmac key (t div 30) = Some v" using assms(1) [rule_format, of key "be_bytes64 (t div 30)"] by (auto simp: totpValue_def Let_def)
  then obtain v where v: "totpValue hmac key (t div 30) = Some v" by blast
  define off where "off = t div 30 - t' div 30"
  have "t div 30 \<le> (t' + 30) div 30" "t' div 30 \<le> (t + 30) div 30" by (rule zdiv_mono1; use assms(5) in simp)+
  then have "off = -1 \<or> off = 0 \<or> off = 1" unfolding off_def by auto
  moreover have "t' div 30 + off \<ge> 0" using assms(3) unfolding off_def by simp
  moreover have "t' div 30 + off = t div 30" by (simp add: off_def)
  ultimately have "list_ex (\<lambda>off. t' div 30 + off \<ge> 0 \<and> map_option (zero_padded totpDigits) (totpValue hmac key (t' div 30 + off)) = Some (zero_padded totpDigits v)) [-1, 0, 1]"
    using v by (auto simp: list_ex_iff)
  moreover have "totpCounter t' = t' div 30" using assms(4) by (simp add: totpCounter_def)
  ultimately show ?thesis using v assms(2) zero_padded_digits [of totpDigits v] by (simp add: validateTOTPCodeAt_def Let_def)
qed

lemma totp_tolerates_skew_witness:
  "\<exists>code. map_option (zero_padded totpDigits) (totpValue (\<lambda>k m. replicate 20 7) [1] (59 div 30)) = Some code
    \<and> validateTOTPCodeAt (\<lambda>k m. replicate 20 7) (\<lambda>s. Some [1]) ''A'' code 89 = Inr True"
  by (rule totp_tolerates_skew) (simp_all add: decodeTOTPSecret_def TrimSpace_def trim_while_def is_space_def)

end
