(* ===== verification/Web_Sessions.thy ===== *)
theory Web_Sessions
  imports Login_Guard
begin

text \<open>
  Sign-in to the web console: the registry of remembered devices (\<open>web_session_registry.go\<close>), the cookie that restores a
  session (\<open>remember_login.go\<close>), and the decision of \<open>doLoginWithTOTP\<close> (\<open>login.go\<close>) over the limiter of \<open>Login_Guard\<close> and
  the accounts of \<open>Account_Store\<close>.

  \<^item> The registry keeps its maps in memory and in a JSON file, which is read once, before the first operation. The file is
    part of the state: what it holds, or why it cannot be read. An operation that saves takes a flag: whether writing the file
    succeeds. Restarting the server loses the memory and keeps the file.
  \<^item> Every operation of the registry runs under its mutex. Times are Unix seconds; epochs are 64-bit words.
  \<^item> HMAC, base64, JSON and the texts of numbers are arguments. A browser session holds typed values; the types a session
    backend may turn them into (\<open>sessionBool\<close>, \<open>sessionInt\<close>) are not modelled.
\<close>

subsection \<open>The registry of devices\<close>

type_synonym epoch = "64 word"

record device =
  dvID :: string
  dvPrincipal :: string
  dvUsername :: string
  dvUserID :: int
  dvClientID :: int
  dvIP :: string
  dvUserAgent :: string
  CreatedAt :: int
  LastSeenAt :: int
  dvExpiresAt :: int
  dvEpoch :: epoch

datatype session_file = Missing | Unreadable | Stored int "(string \<times> epoch) list" "(string \<times> device) list"

record web_registry =
  loaded :: bool
  loadError :: bool
  epochs :: "(string \<times> epoch) list"
  devices :: "(string \<times> device) list"
  disk :: session_file

definition webSessionRegistryVersion :: int where "webSessionRegistryVersion = 1"
definition webSessionRegistryLimit :: nat where "webSessionRegistryLimit = 10000"

definition restarted :: "web_registry \<Rightarrow> web_registry" where
  "restarted s = s\<lparr>loaded := False, loadError := False, epochs := [], devices := []\<rparr>"

definition ensureLoadedLocked :: "web_registry \<Rightarrow> bool \<times> web_registry" where
  "ensureLoadedLocked s =
     (if loaded s then (\<not> loadError s, s)
      else
        (let s = s\<lparr>loaded := True, epochs := [], devices := []\<rparr> in
         case disk s of
           Missing \<Rightarrow> (True, s)
         | Unreadable \<Rightarrow> (False, s\<lparr>loadError := True\<rparr>)
         | Stored v es ds \<Rightarrow>
             if v \<noteq> 0 \<and> v \<noteq> webSessionRegistryVersion then (False, s\<lparr>loadError := True\<rparr>)
             else (True, s\<lparr>epochs := es, devices := ds\<rparr>)))"

definition saveLocked :: "bool \<Rightarrow> web_registry \<Rightarrow> web_registry" where
  "saveLocked written s = (if written then s\<lparr>disk := Stored webSessionRegistryVersion (epochs s) (devices s)\<rparr> else s)"

text \<open>Which of several devices with one expiry are dropped at the limit depends on the order of a Go map; here the association
list decides.\<close>

definition cleanupLocked :: "int \<Rightarrow> web_registry \<Rightarrow> bool \<times> web_registry" where
  "cleanupLocked now s =
     (let live = filter (\<lambda>(k, d). \<not> dvExpiresAt d \<le> now) (devices s);
          changed = (length live < length (devices s)) in
      if length live > webSessionRegistryLimit
      then (True, s\<lparr>devices := map (\<lambda>d. (dvID d, d)) (take webSessionRegistryLimit (sort_key (\<lambda>d. - dvExpiresAt d) (map snd live)))\<rparr>)
      else (changed, s\<lparr>devices := live\<rparr>))"

definition epoch_of :: "web_registry \<Rightarrow> string \<Rightarrow> epoch" where
  "epoch_of s who = (case map_of (epochs s) who of None \<Rightarrow> 0 | Some e \<Rightarrow> e)"

definition Epoch :: "string \<Rightarrow> web_registry \<Rightarrow> epoch \<times> web_registry" where
  "Epoch who s0 = (let (ok, s) = ensureLoadedLocked s0 in (if ok then epoch_of s who else 0, s))"

definition SessionEpochValid :: "string \<Rightarrow> epoch \<Rightarrow> web_registry \<Rightarrow> bool \<times> web_registry" where
  "SessionEpochValid who epoch s0 = (let (ok, s) = ensureLoadedLocked s0 in (ok \<and> epoch = epoch_of s who, s))"

datatype registry_error = NotLoaded | DeviceLimit | NotSaved

definition RegisterDevice :: "device \<Rightarrow> int \<Rightarrow> bool \<Rightarrow> web_registry \<Rightarrow> (registry_error + unit) \<times> web_registry" where
  "RegisterDevice d now written s0 =
     (let (ok, s) = ensureLoadedLocked s0 in
      if \<not> ok then (Inl NotLoaded, s)
      else
        (let s = snd (cleanupLocked now s) in
         if length (devices s) \<ge> webSessionRegistryLimit then (Inl DeviceLimit, s)
         else (if written then Inr () else Inl NotSaved, saveLocked written (s\<lparr>devices := AList.update (dvID d) d (devices s)\<rparr>))))"

definition ValidateDevice :: "string \<Rightarrow> string \<Rightarrow> epoch \<Rightarrow> int \<Rightarrow> bool \<Rightarrow> web_registry \<Rightarrow> bool \<times> web_registry" where
  "ValidateDevice i who epoch now written s0 =
     (if i = [] then (epoch = 0, s0)
      else
        (let (ok, s) = ensureLoadedLocked s0 in
         if \<not> ok then (False, s)
         else case map_of (devices s) i of
                None \<Rightarrow> (False, s)
              | Some d \<Rightarrow>
                  if dvPrincipal d \<noteq> who \<or> dvEpoch d \<noteq> epoch \<or> dvExpiresAt d \<le> now
                  then (False, saveLocked written (s\<lparr>devices := AList.delete i (devices s)\<rparr>))
                  else if now - LastSeenAt d \<ge> 300
                  then (True, saveLocked written (s\<lparr>devices := AList.update i (d\<lparr>LastSeenAt := now\<rparr>) (devices s)\<rparr>))
                  else (True, s)))"

definition ListDevices :: "string \<Rightarrow> int \<Rightarrow> bool \<Rightarrow> web_registry \<Rightarrow> (registry_error + device list) \<times> web_registry" where
  "ListDevices who now written s0 =
     (let (ok, s) = ensureLoadedLocked s0 in
      if \<not> ok then (Inl NotLoaded, s)
      else
        (let (changed, s) = cleanupLocked now s;
             mine = filter (\<lambda>d. dvPrincipal d = who) (map snd (devices s)) in
         (Inr (sort_key (\<lambda>d. - LastSeenAt d) (sort_key (\<lambda>d. - CreatedAt d) mine)),
          if changed then saveLocked written s else s)))"

definition RevokeDevice :: "string \<Rightarrow> string \<Rightarrow> bool \<Rightarrow> web_registry \<Rightarrow> (registry_error + bool) \<times> web_registry" where
  "RevokeDevice who i written s0 =
     (if TrimSpace i = [] then (Inr False, s0)
      else
        (let (ok, s) = ensureLoadedLocked s0 in
         if \<not> ok then (Inl NotLoaded, s)
         else case map_of (devices s) i of
                None \<Rightarrow> (Inr False, s)
              | Some d \<Rightarrow>
                  if dvPrincipal d \<noteq> who then (Inr False, s)
                  else (if written then Inr True else Inl NotSaved, saveLocked written (s\<lparr>devices := AList.delete i (devices s)\<rparr>))))"

definition next_epoch :: "epoch \<Rightarrow> epoch" where
  "next_epoch e = (if e + 1 = 0 then 1 else e + 1)"

definition RevokeAll :: "string \<Rightarrow> int \<Rightarrow> bool \<Rightarrow> web_registry \<Rightarrow> (registry_error + nat \<times> epoch) \<times> web_registry" where
  "RevokeAll who now written s0 =
     (let (ok, s) = ensureLoadedLocked s0 in
      if \<not> ok then (Inl NotLoaded, s)
      else
        (let s = snd (cleanupLocked now s);
             kept = filter (\<lambda>(k, d). dvPrincipal d \<noteq> who) (devices s);
             count = length (devices s) - length kept;
             e = next_epoch (epoch_of s who);
             s = saveLocked written (s\<lparr>devices := kept, epochs := AList.update who e (epochs s)\<rparr>) in
         (if written then Inr (count, e) else Inl NotSaved, s)))"

subsection \<open>Sessions and credentials\<close>

record browser_session =
  sAuth :: bool
  sIsAdmin :: bool
  sPrincipal :: string
  sUserId :: int
  sClientId :: int
  sUsername :: string
  sAuthEpoch :: int
  sDeviceId :: string

definition blank_session :: browser_session where
  "blank_session = \<lparr>sAuth = False, sIsAdmin = False, sPrincipal = [], sUserId = 0, sClientId = 0, sUsername = [], sAuthEpoch = 0, sDeviceId = []\<rparr>"

text \<open>A key that is not set reads as the zero value. The epoch and the device id are not among the cleared keys.\<close>

definition clearAuthenticationSession :: "browser_session \<Rightarrow> browser_session" where
  "clearAuthenticationSession b =
     b\<lparr>sAuth := False, sIsAdmin := False, sPrincipal := [], sUserId := 0, sClientId := 0, sUsername := []\<rparr>"

definition sessionPrincipalUser :: string where "sessionPrincipalUser = ''user''"
definition sessionPrincipalClient :: string where "sessionPrincipalClient = ''client''"

record console_config =
  web_username :: string
  web_password :: string
  totp_secret :: string
  allow_user_login :: "bool option"
  allow_user_vkey_login :: bool
  login_settings :: login_policy
  cookie_sessions :: bool

record claims =
  clVersion :: int
  clPrincipal :: string
  clUserID :: int
  clClientID :: int
  clUsername :: string
  clFingerprint :: string
  clExpiresAt :: int
  clDeviceID :: string
  clEpoch :: epoch
  clIssuedAt :: int

record cookie_lib =
  mac256 :: "string \<Rightarrow> string \<Rightarrow> string"
  b64 :: "string \<Rightarrow> string"
  unb64 :: "string \<Rightarrow> string option"
  to_json :: "claims \<Rightarrow> string"
  of_json :: "string \<Rightarrow> claims option"

definition rememberLoginVersion :: int where "rememberLoginVersion = 1"
definition rememberLoginDuration :: int where "rememberLoginDuration = 72 * 3600"
definition rememberLoginTokenLimit :: nat where "rememberLoginTokenLimit = 4096"

definition no_claims :: claims where
  "no_claims = \<lparr>clVersion = 0, clPrincipal = [], clUserID = 0, clClientID = 0, clUsername = [], clFingerprint = [], clExpiresAt = 0,
     clDeviceID = [], clEpoch = 0, clIssuedAt = 0\<rparr>"

definition nul :: string where "nul = [CHR 0x00]"

definition client_secret :: "client \<Rightarrow> string" where
  "client_secret c = WebUserName c @ nul @ WebPassword c @ nul @ VerifyKey c"

definition client_login_name :: "client \<Rightarrow> string" where
  "client_login_name c = (if WebUserName c = [] \<and> WebPassword c = [] then ''user'' else WebUserName c)"

text \<open>A client that may sign in: enabled, displayed, and its owner, if any, active.\<close>

definition client_usable :: "('l, 't) library \<Rightarrow> int \<Rightarrow> 'l accounts \<Rightarrow> client \<Rightarrow> bool" where
  "client_usable lib now db c \<longleftrightarrow> \<not> (\<not> cStatus c \<or> NoDisplay c \<or> (UserId c \<noteq> 0 \<and> \<not> IsUserActive lib now db (UserId c)))"

text \<open>The claims and the secret of the account a session is signed in to.\<close>

definition currentRememberLoginCredential ::
    "('l, 't) library \<Rightarrow> console_config \<Rightarrow> int \<Rightarrow> 'l accounts \<Rightarrow> browser_session \<Rightarrow> (claims \<times> string) option" where
  "currentRememberLoginCredential lib cfg now db b =
     (if \<not> sAuth b then None
      else if sIsAdmin b then
        (let secret = web_password cfg @ nul @ totp_secret cfg in
         if web_username cfg = [] \<and> secret = nul then None
         else Some (no_claims\<lparr>clVersion := rememberLoginVersion, clPrincipal := sessionPrincipalUser, clUsername := web_username cfg\<rparr>, secret))
      else if sPrincipal b = sessionPrincipalUser then
        (case GetUser db (sUserId b) of
           None \<Rightarrow> None
         | Some u \<Rightarrow>
             if \<not> IsUserActive lib now db (sUserId b) then None
             else Some (no_claims\<lparr>clVersion := rememberLoginVersion, clPrincipal := sPrincipal b, clUserID := sUserId b, clUsername := UserName u\<rparr>, Password u))
      else if sPrincipal b = sessionPrincipalClient then
        (case GetClient db (sClientId b) of
           None \<Rightarrow> None
         | Some c \<Rightarrow>
             if \<not> client_usable lib now db c then None
             else Some (no_claims\<lparr>clVersion := rememberLoginVersion, clPrincipal := sPrincipal b, clClientID := sClientId b, clUsername := client_login_name c\<rparr>, client_secret c))
      else None)"

definition rememberLoginPrincipal :: "claims \<Rightarrow> string" where
  "rememberLoginPrincipal c = (if clPrincipal c = sessionPrincipalUser \<and> clUserID c = 0 \<and> clClientID c = 0 then ''admin'' else clPrincipal c)"

definition rememberLoginPrincipalKey :: "claims \<Rightarrow> string" where
  "rememberLoginPrincipalKey c =
     (let p = rememberLoginPrincipal c in
      if p = ''admin'' then ''admin''
      else if p = sessionPrincipalUser then (if clUserID c > 0 then sessionPrincipalUser @ '':'' @ Itoa (clUserID c) else [])
      else if p = sessionPrincipalClient then (if clClientID c > 0 then sessionPrincipalClient @ '':'' @ Itoa (clClientID c) else [])
      else [])"

definition currentSessionPrincipalKey :: "browser_session \<Rightarrow> string" where
  "currentSessionPrincipalKey b =
     (if \<not> sAuth b then []
      else if sIsAdmin b then ''admin''
      else if sPrincipal b = sessionPrincipalUser then (if sUserId b > 0 then sessionPrincipalUser @ '':'' @ Itoa (sUserId b) else [])
      else if sPrincipal b = sessionPrincipalClient then (if sClientId b > 0 then sessionPrincipalClient @ '':'' @ Itoa (sClientId b) else [])
      else [])"

text \<open>The epoch is stored in the session as a signed number and read back as an unsigned one.\<close>

definition int_of_epoch :: "epoch \<Rightarrow> int" where "int_of_epoch e = sint e"

definition sessionSecurityEpoch :: "browser_session \<Rightarrow> epoch" where
  "sessionSecurityEpoch b = (if sAuthEpoch b < 0 then 0 else word_of_int (sAuthEpoch b))"

subsection \<open>The cookie\<close>

definition fingerprint_text :: "claims \<Rightarrow> string \<Rightarrow> string" where
  "fingerprint_text c secret = ''nps-remember-login-credential-v1'' @ nul @ rememberLoginPrincipal c @ nul @ Itoa (clUserID c) @ nul @ Itoa (clClientID c)
     @ nul @ clUsername c @ nul @ secret"

definition rememberLoginFingerprint :: "cookie_lib \<Rightarrow> string \<Rightarrow> claims \<Rightarrow> string \<Rightarrow> string" where
  "rememberLoginFingerprint ck key c secret = b64 ck (mac256 ck key (fingerprint_text c secret))"

definition encodeRememberLoginToken :: "cookie_lib \<Rightarrow> string \<Rightarrow> claims \<Rightarrow> int \<Rightarrow> string option" where
  "encodeRememberLoginToken ck key c now =
     (if key = [] then None
      else
        (let payload = b64 ck (to_json ck (c\<lparr>clVersion := rememberLoginVersion, clExpiresAt := now + rememberLoginDuration\<rparr>)) in
         Some (payload @ ''.'' @ b64 ck (mac256 ck key payload))))"

definition decodeRememberLoginToken :: "cookie_lib \<Rightarrow> string \<Rightarrow> string \<Rightarrow> int \<Rightarrow> claims option" where
  "decodeRememberLoginToken ck key token0 now =
     (let token = TrimSpace token0 in
      if token = [] \<or> length token > rememberLoginTokenLimit then None
      else case Split token (CHR ''.'') of
        [payload, signature] \<Rightarrow>
          if payload = [] \<or> signature = [] then None
          else (case unb64 ck signature of
            None \<Rightarrow> None
          | Some sig \<Rightarrow>
              if sig \<noteq> mac256 ck key payload then None
              else (case unb64 ck payload of
                None \<Rightarrow> None
              | Some json \<Rightarrow>
                  (case of_json ck json of
                     None \<Rightarrow> None
                   | Some c \<Rightarrow>
                       if clVersion c \<noteq> rememberLoginVersion \<or> clFingerprint c = [] \<or> clExpiresAt c \<le> now \<or> clPrincipal c = [] then None
                       else Some c)))
      | _ \<Rightarrow> None)"

definition rememberedLoginCredential :: "('l, 't) library \<Rightarrow> console_config \<Rightarrow> int \<Rightarrow> 'l accounts \<Rightarrow> claims \<Rightarrow> string option" where
  "rememberedLoginCredential lib cfg now db c =
     (if rememberLoginPrincipal c = ''admin'' then
        (if web_username cfg \<noteq> clUsername c then None else Some (web_password cfg @ nul @ totp_secret cfg))
      else if clPrincipal c = sessionPrincipalUser then
        (if clUserID c \<le> 0 \<or> \<not> IsUserActive lib now db (clUserID c) then None
         else case GetUser db (clUserID c) of
                None \<Rightarrow> None
              | Some u \<Rightarrow> if UserName u \<noteq> clUsername c then None else Some (Password u))
      else if clPrincipal c = sessionPrincipalClient then
        (case GetClient db (clClientID c) of
           None \<Rightarrow> None
         | Some x \<Rightarrow>
             if \<not> client_usable lib now db x then None
             else if client_login_name x \<noteq> clUsername c then None
             else Some (client_secret x))
      else None)"

text \<open>What the handlers below work on.\<close>

record 'l console =
  registry :: web_registry
  limiter :: login_limiter
  accountsDb :: "'l accounts"
  registeredIPs :: "(string \<times> int) list"

definition validateRememberLoginClaims ::
    "cookie_lib \<Rightarrow> ('l, 't) library \<Rightarrow> console_config \<Rightarrow> string \<Rightarrow> claims \<Rightarrow> int \<Rightarrow> int \<Rightarrow> bool \<Rightarrow> 'l accounts \<Rightarrow> web_registry \<Rightarrow> bool \<times> web_registry" where
  "validateRememberLoginClaims ck lib cfg key c nowNano now written db s =
     (let who = rememberLoginPrincipalKey c in
      if who = [] then (False, s)
      else
        (let (ok, s) = SessionEpochValid who (clEpoch c) s in
         if \<not> ok then (False, s)
         else case rememberedLoginCredential lib cfg nowNano db c of
                None \<Rightarrow> (False, s)
              | Some secret \<Rightarrow>
                  if rememberLoginFingerprint ck key c secret \<noteq> clFingerprint c then (False, s)
                  else ValidateDevice (clDeviceID c) who (clEpoch c) now written s))"

text \<open>The cookie of the request, if it sends one.\<close>

definition rememberLoginCookieClaims ::
    "cookie_lib \<Rightarrow> ('l, 't) library \<Rightarrow> console_config \<Rightarrow> string \<Rightarrow> string option \<Rightarrow> int \<Rightarrow> int \<Rightarrow> bool \<Rightarrow> 'l accounts \<Rightarrow> web_registry \<Rightarrow> claims option \<times> web_registry" where
  "rememberLoginCookieClaims ck lib cfg key cookie nowNano now written db s =
     (case cookie of
        None \<Rightarrow> (None, s)
      | Some v \<Rightarrow>
          if TrimSpace v = [] then (None, s)
          else case decodeRememberLoginToken ck key v now of
                 None \<Rightarrow> (None, s)
               | Some c \<Rightarrow>
                   (let (ok, s) = validateRememberLoginClaims ck lib cfg key c nowNano now written db s in (if ok then Some c else None, s)))"

datatype cookie_out = KeepCookie | DeleteCookie | SetCookie string

definition trimUserAgent :: "string \<Rightarrow> string" where "trimUserAgent v = take 512 (TrimSpace v)"

text \<open>The second half of \<open>issueRememberLoginCookie\<close>: the token for a new device and its record.\<close>

definition registerRememberedDevice ::
    "cookie_lib \<Rightarrow> string \<Rightarrow> claims \<Rightarrow> string \<Rightarrow> string \<Rightarrow> string \<Rightarrow> string \<Rightarrow> int \<Rightarrow> bool \<Rightarrow> web_registry \<Rightarrow> cookie_out \<times> web_registry" where
  "registerRememberedDevice ck key c0 secret addr agent dev now written s0 =
     (let who = rememberLoginPrincipalKey c0;
          (e, s) = Epoch who s0;
          c1 = c0\<lparr>clDeviceID := dev, clEpoch := e, clIssuedAt := now\<rparr>;
          c = c1\<lparr>clFingerprint := rememberLoginFingerprint ck key c1 secret\<rparr> in
      case encodeRememberLoginToken ck key c now of
        None \<Rightarrow> (KeepCookie, s)
      | Some token \<Rightarrow>
          (let (r, s) = RegisterDevice \<lparr>dvID = dev, dvPrincipal = who, dvUsername = clUsername c, dvUserID = clUserID c, dvClientID = clClientID c,
               dvIP = GetIpByAddr addr, dvUserAgent = trimUserAgent agent, CreatedAt = now, LastSeenAt = now,
               dvExpiresAt = now + rememberLoginDuration, dvEpoch = clEpoch c\<rparr> now written s in
           (if r = Inr () then SetCookie token else KeepCookie, s)))"

text \<open>\<open>fresh\<close> is the random device id, \<open>None\<close> when the system has no randomness.\<close>

definition issueRememberLoginCookie ::
    "cookie_lib \<Rightarrow> ('l, 't) library \<Rightarrow> console_config \<Rightarrow> string \<Rightarrow> browser_session \<Rightarrow> string option \<Rightarrow> string \<Rightarrow> string \<Rightarrow> string option \<Rightarrow> int \<Rightarrow> int \<Rightarrow> bool
      \<Rightarrow> 'l accounts \<Rightarrow> web_registry \<Rightarrow> cookie_out \<times> web_registry" where
  "issueRememberLoginCookie ck lib cfg key b cookie addr agent fresh nowNano now written db s =
     (case currentRememberLoginCredential lib cfg nowNano db b of
        None \<Rightarrow> (KeepCookie, s)
      | Some (c, secret) \<Rightarrow>
          (let who = rememberLoginPrincipalKey c in
           if who = [] then (KeepCookie, s)
           else
             (let (old, s) = rememberLoginCookieClaims ck lib cfg key cookie nowNano now written db s;
                  s = (case old of
                         None \<Rightarrow> s
                       | Some e \<Rightarrow> if clDeviceID e \<noteq> [] \<and> rememberLoginPrincipalKey e = who then snd (RevokeDevice who (clDeviceID e) written s) else s) in
              case fresh of
                None \<Rightarrow> (KeepCookie, s)
              | Some dev \<Rightarrow> registerRememberedDevice ck key c secret addr agent dev now written s)))"

definition session_of_claims :: "claims \<Rightarrow> browser_session" where
  "session_of_claims c =
     (let b = blank_session\<lparr>sAuth := True, sAuthEpoch := int_of_epoch (clEpoch c), sDeviceId := clDeviceID c\<rparr> in
      if rememberLoginPrincipal c = ''admin'' then b\<lparr>sIsAdmin := True\<rparr>
      else b\<lparr>sIsAdmin := False, sPrincipal := clPrincipal c, sUsername := clUsername c,
             sUserId := (if clUserID c > 0 then clUserID c else 0), sClientId := (if clClientID c > 0 then clClientID c else 0)\<rparr>)"

definition restoreRememberLogin ::
    "cookie_lib \<Rightarrow> ('l, 't) library \<Rightarrow> console_config \<Rightarrow> string \<Rightarrow> string option \<Rightarrow> int \<Rightarrow> int \<Rightarrow> bool \<Rightarrow> 'l accounts
      \<Rightarrow> browser_session \<times> web_registry \<Rightarrow> bool \<times> cookie_out \<times> browser_session \<times> web_registry" where
  "restoreRememberLogin ck lib cfg key cookie nowNano now written db = (\<lambda>(b, s).
     (case cookie of
        None \<Rightarrow> (False, KeepCookie, b, s)
      | Some v \<Rightarrow>
          if TrimSpace v = [] then (False, KeepCookie, b, s)
          else case decodeRememberLoginToken ck key v now of
                 None \<Rightarrow> (False, DeleteCookie, b, s)
               | Some c \<Rightarrow>
                   (let (ok, s) = validateRememberLoginClaims ck lib cfg key c nowNano now written db s in
                    if \<not> ok then (False, DeleteCookie, b, s) else (True, KeepCookie, session_of_claims c, s))))"

definition revokeCurrentRememberLoginDevice ::
    "cookie_lib \<Rightarrow> ('l, 't) library \<Rightarrow> console_config \<Rightarrow> string \<Rightarrow> string option \<Rightarrow> int \<Rightarrow> int \<Rightarrow> bool \<Rightarrow> 'l accounts
      \<Rightarrow> browser_session \<times> web_registry \<Rightarrow> bool \<times> browser_session \<times> web_registry" where
  "revokeCurrentRememberLoginDevice ck lib cfg key cookie nowNano now written db = (\<lambda>(b, s).
     (let (found, s) = rememberLoginCookieClaims ck lib cfg key cookie nowNano now written db s in
      case found of
        None \<Rightarrow> (False, b, s)
      | Some c \<Rightarrow>
          if clDeviceID c = [] then (False, b, s)
          else
            (let who = rememberLoginPrincipalKey c in
             if who = [] then (False, b, s)
             else case RevokeDevice who (clDeviceID c) written s of
                    (Inl NotSaved, s) \<Rightarrow> (True, b, s)
                  | (Inl e, s) \<Rightarrow> (False, b, s)
                  | (Inr revoked, s) \<Rightarrow> (revoked, if revoked then b\<lparr>sDeviceId := []\<rparr> else b, s))))"

definition browserSessionSecurityValid ::
    "cookie_lib \<Rightarrow> ('l, 't) library \<Rightarrow> console_config \<Rightarrow> string \<Rightarrow> browser_session \<Rightarrow> string option \<Rightarrow> int \<Rightarrow> int \<Rightarrow> bool \<Rightarrow> 'l accounts \<Rightarrow> web_registry \<Rightarrow> bool \<times> web_registry" where
  "browserSessionSecurityValid ck lib cfg key b cookie nowNano now written db s =
     (if \<not> sAuth b then (False, s)
      else
        (let who = currentSessionPrincipalKey b in
         if who = [] then (False, s)
         else
           (let (ok, s) = SessionEpochValid who (sessionSecurityEpoch b) s in
            if \<not> ok then (False, s)
            else if cookie = None then (True, s)
            else case rememberLoginCookieClaims ck lib cfg key cookie nowNano now written db s of
                   (None, s) \<Rightarrow> (False, s)
                 | (Some c, s) \<Rightarrow> (rememberLoginPrincipalKey c = who, s))))"

definition hasActiveNonAdminPrincipal :: "('l, 't) library \<Rightarrow> int \<Rightarrow> 'l accounts \<Rightarrow> browser_session \<Rightarrow> bool" where
  "hasActiveNonAdminPrincipal lib now db b =
     (if sPrincipal b = sessionPrincipalUser then sUserId b > 0 \<and> IsUserActive lib now db (sUserId b)
      else if sPrincipal b = sessionPrincipalClient
      then sClientId b > 0 \<and> (case GetClient db (sClientId b) of None \<Rightarrow> False | Some c \<Rightarrow> client_usable lib now db c)
      else False)"

text \<open>The check of a request without API credentials in \<open>Prepare\<close>: whether it reaches its page, the cookie sent back, the
session after it.\<close>

definition prepareSession ::
    "cookie_lib \<Rightarrow> ('l, 't) library \<Rightarrow> console_config \<Rightarrow> string \<Rightarrow> string option \<Rightarrow> string \<Rightarrow> int \<Rightarrow> int \<Rightarrow> bool
      \<Rightarrow> browser_session \<Rightarrow> 'l console \<Rightarrow> bool \<times> cookie_out \<times> browser_session \<times> 'l console" where
  "prepareSession ck lib cfg key cookie ip nowNano now written b s =
     (let db = accountsDb s;
          (restored, out, b1, r1) =
            (if sAuth b then (True, KeepCookie, b, registry s) else restoreRememberLogin ck lib cfg key cookie nowNano now written db (b, registry s));
          s = s\<lparr>registry := r1,
                registeredIPs := (if \<not> sAuth b \<and> restored \<and> sIsAdmin b1 then AList.update (GetIpByAddr ip) (nowNano + 7200 * time_second) (registeredIPs s)
                                  else registeredIPs s)\<rparr>;
          (valid, r2) = (if sAuth b1 then browserSessionSecurityValid ck lib cfg key b1 cookie nowNano now written db r1 else (True, r1));
          s = s\<lparr>registry := r2\<rparr> in
      if \<not> valid then (False, DeleteCookie, clearAuthenticationSession b1, s)
      else if \<not> restored then (False, out, b1, s)
      else if \<not> sIsAdmin b1 \<and> \<not> hasActiveNonAdminPrincipal lib nowNano db b1 then (False, DeleteCookie, clearAuthenticationSession b1, s)
      else (True, out, b1, s))"

subsection \<open>Signing in\<close>

definition GetUserByName :: "'l accounts \<Rightarrow> string \<Rightarrow> user option" where
  "GetUserByName db name = map_option snd (List.find (\<lambda>(k, u). UserName u = name) (Users db))"

definition loginAttemptIP :: "string \<Rightarrow> string" where
  "loginAttemptIP remoteAddr = (case SplitHostPort remoteAddr of Some (ip, port) \<Rightarrow> if ip \<noteq> [] then ip else remoteAddr | None \<Rightarrow> remoteAddr)"

definition allowLoginAttemptWith :: "(string \<Rightarrow> string) \<Rightarrow> login_policy \<Rightarrow> string \<Rightarrow> string \<Rightarrow> bool \<Rightarrow> int \<Rightarrow> login_limiter \<Rightarrow> bool \<times> login_limiter" where
  "allowLoginAttemptWith hash p ip username explicit now l =
     (if \<not> explicit then (True, l) else reserveWith hash ip username now p l)"

definition client_accepts :: "client \<Rightarrow> string \<Rightarrow> string \<Rightarrow> bool" where
  "client_accepts c username password \<longleftrightarrow>
     (if WebUserName c = [] \<and> WebPassword c = [] then username = ''user'' \<and> VerifyKey c = password
      else WebPassword c = password \<and> WebUserName c = username)"

definition regenerateSession :: "console_config \<Rightarrow> browser_session \<Rightarrow> browser_session" where
  "regenerateSession cfg b = (if cookie_sessions cfg then blank_session else b)"

definition signed_in :: "console_config \<Rightarrow> browser_session \<Rightarrow> browser_session" where
  "signed_in cfg b = clearAuthenticationSession (regenerateSession cfg b)"

definition login_as_user :: "('l, 't) library \<Rightarrow> console_config \<Rightarrow> int \<Rightarrow> 'l accounts \<Rightarrow> string \<Rightarrow> string \<Rightarrow> browser_session \<Rightarrow> browser_session option" where
  "login_as_user lib cfg now db username password b =
     (case GetUserByName db username of
        None \<Rightarrow> None
      | Some u \<Rightarrow>
          if IsUserActive lib now db (uId u) \<and> Password u = password
          then Some ((signed_in cfg b)\<lparr>sIsAdmin := False, sPrincipal := sessionPrincipalUser, sUserId := uId u, sUsername := UserName u\<rparr>)
          else None)"

definition login_as_client :: "('l, 't) library \<Rightarrow> console_config \<Rightarrow> int \<Rightarrow> 'l accounts \<Rightarrow> string \<Rightarrow> string \<Rightarrow> browser_session \<Rightarrow> browser_session option" where
  "login_as_client lib cfg now db username password b =
     map_option (\<lambda>(k, c). (signed_in cfg b)\<lparr>sIsAdmin := False, sPrincipal := sessionPrincipalClient, sClientId := cId c, sUsername := WebUserName c\<rparr>)
       (List.find (\<lambda>(k, c). client_usable lib now db c \<and> client_accepts c username password) (Clients db))"

definition finish_login :: "(string \<Rightarrow> string) \<Rightarrow> string \<Rightarrow> string \<Rightarrow> bool \<Rightarrow> browser_session \<Rightarrow> 'l console \<Rightarrow> bool \<times> browser_session \<times> 'l console" where
  "finish_login hash ip username explicit b0 s =
     (let b = b0\<lparr>sAuth := True\<rparr>;
          who = currentSessionPrincipalKey b;
          (e, r) = (if who = [] then (0, registry s) else Epoch who (registry s));
          b = (if who = [] then b else b\<lparr>sAuthEpoch := int_of_epoch e\<rparr>) in
      (True, b, s\<lparr>registry := r, limiter := (if explicit then login_clear hash ip username (limiter s) else limiter s)\<rparr>))"

definition doLoginWithTOTP ::
    "(string \<Rightarrow> string) \<Rightarrow> (byte list \<Rightarrow> byte list \<Rightarrow> byte list) \<Rightarrow> (string \<Rightarrow> byte list option) \<Rightarrow> ('l, 't) library \<Rightarrow> console_config
      \<Rightarrow> string \<Rightarrow> string \<Rightarrow> string \<Rightarrow> string \<Rightarrow> string \<Rightarrow> bool \<Rightarrow> int \<Rightarrow> browser_session \<Rightarrow> 'l console \<Rightarrow> bool \<times> browser_session \<times> 'l console" where
  "doLoginWithTOTP hash hmac b32 lib cfg remoteAddr inputIP username password totpCode explicit now b s0 =
     (let ip = loginAttemptIP remoteAddr;
          (allowed, l) = allowLoginAttemptWith hash (login_settings cfg) ip username explicit now (limiter s0);
          s = s0\<lparr>limiter := l\<rparr>; db = accountsDb s in
      if \<not> allowed then (False, b, s)
      else if password = web_password cfg \<and> username = web_username cfg then
        (if TrimSpace (totp_secret cfg) \<noteq> [] \<and> validateTOTPCodeAt hmac b32 (TrimSpace (totp_secret cfg)) totpCode (now div time_second) \<noteq> Inr True
         then (False, b, s)
         else finish_login hash ip username explicit ((signed_in cfg b)\<lparr>sIsAdmin := True\<rparr>)
                (s\<lparr>registeredIPs := AList.update (GetIpByAddr inputIP) (now + 7200 * time_second) (registeredIPs s)\<rparr>))
      else if allow_user_login cfg \<noteq> Some True then (False, b, s)
      else case (if allow_user_vkey_login cfg then login_as_user lib cfg now db username password b else None) of
             Some b1 \<Rightarrow> finish_login hash ip username explicit b1 s
           | None \<Rightarrow>
               (case login_as_client lib cfg now db username password b of
                  Some b1 \<Rightarrow> finish_login hash ip username explicit b1 s
                | None \<Rightarrow> (False, b, s)))"

subsection \<open>Runs of the registry\<close>

datatype registry_op =
    RegisterOp device int bool
  | ValidateOp string string epoch int bool
  | ListOp string int bool
  | RevokeOp string string bool
  | RevokeAllOp string int bool
  | RestartOp

fun registry_step :: "registry_op \<Rightarrow> web_registry \<Rightarrow> web_registry" where
  "registry_step (RegisterOp d now w) s = snd (RegisterDevice d now w s)"
| "registry_step (ValidateOp i who e now w) s = snd (ValidateDevice i who e now w s)"
| "registry_step (ListOp who now w) s = snd (ListDevices who now w s)"
| "registry_step (RevokeOp who i w) s = snd (RevokeDevice who i w s)"
| "registry_step (RevokeAllOp who now w) s = snd (RevokeAll who now w s)"
| "registry_step RestartOp s = restarted s"

text \<open>Revoking everything was reported as done.\<close>

fun durable :: "registry_op \<Rightarrow> bool" where
  "durable (RevokeAllOp who now w) = w"
| "durable _ = True"

fun revokes :: "string \<Rightarrow> registry_op \<Rightarrow> bool" where
  "revokes who (RevokeAllOp p now w) = (p = who)"
| "revokes who _ = False"

text \<open>The state that an operation works on, and the file it would be read from after a restart.\<close>

definition current :: "web_registry \<Rightarrow> web_registry" where "current s = snd (ensureLoadedLocked s)"
definition readable :: "web_registry \<Rightarrow> bool" where "readable s = fst (ensureLoadedLocked s)"

definition agrees :: "web_registry \<Rightarrow> bool" where
  "agrees s \<longleftrightarrow> (if loaded s then readable (restarted s) = (\<not> loadError s) \<and> (\<not> loadError s \<longrightarrow> (\<forall>w. epoch_of (current (restarted s)) w = epoch_of s w))
     else \<not> loadError s)"

lemma ensure_loaded: "ensureLoadedLocked s = (readable s, current s)"
  by (simp add: readable_def current_def)

lemma current_loaded: "loaded (current s)"
  by (auto simp: current_def ensureLoadedLocked_def Let_def split: session_file.split)

lemma loaded_current: "loaded s \<Longrightarrow> current s = s \<and> readable s = (\<not> loadError s)"
  by (simp add: current_def readable_def ensureLoadedLocked_def)

lemma restarted_disk: "disk s = disk t \<Longrightarrow> readable (restarted s) = readable (restarted t) \<and> epochs (current (restarted s)) = epochs (current (restarted t))"
  by (auto simp: readable_def current_def ensureLoadedLocked_def restarted_def Let_def split: session_file.split)

lemma current_disk: "disk (current s) = disk s"
  by (auto simp: current_def ensureLoadedLocked_def Let_def split: session_file.split)

lemma restart_unloaded: "\<not> loaded s \<Longrightarrow> \<not> loadError s \<Longrightarrow> readable (restarted s) = readable s \<and> epochs (current (restarted s)) = epochs (current s) \<and> loadError (current s) = (\<not> readable s)"
  by (auto simp: readable_def current_def ensureLoadedLocked_def restarted_def Let_def split: session_file.split)

lemma agrees_current: "agrees s \<Longrightarrow> agrees (current s) \<and> loadError (current s) = (\<not> readable s)"
proof (cases "loaded s")
  case True
  assume "agrees s"
  then show ?thesis using loaded_current [OF True] by auto
next
  case False
  assume "agrees s"
  then have "\<not> loadError s" using False by (simp add: agrees_def)
  from restart_unloaded [OF False this] restarted_disk [OF current_disk, of s] show ?thesis
    by (auto simp: agrees_def current_loaded epoch_of_def)
qed

text \<open>A change of the devices, and perhaps of the file.\<close>

definition follows :: "web_registry \<Rightarrow> web_registry \<Rightarrow> bool" where
  "follows s t \<longleftrightarrow> loaded t \<and> loadError t = loadError s \<and> epochs t = epochs s \<and>
     (disk t = disk s \<or> (\<not> loadError s \<and> (\<exists>ds. disk t = Stored webSessionRegistryVersion (epochs t) ds)))"

lemma follows_agrees: "loaded s \<Longrightarrow> agrees s \<Longrightarrow> follows s t \<Longrightarrow> agrees t"
proof -
  assume s: "loaded s" "agrees s" "follows s t"
  then have t: "loaded t" "loadError t = loadError s" "epochs t = epochs s" by (auto simp: follows_def)
  from s(3) consider "disk t = disk s" | ds where "\<not> loadError s" "disk t = Stored webSessionRegistryVersion (epochs t) ds" by (auto simp: follows_def)
  then show ?thesis
  proof cases
    case 1
    from restarted_disk [OF 1] s t show ?thesis by (simp add: agrees_def epoch_of_def)
  next
    case 2
    then have "readable (restarted t) \<and> epochs (current (restarted t)) = epochs t"
      by (simp add: readable_def current_def ensureLoadedLocked_def restarted_def Let_def)
    then show ?thesis using 2 t by (simp add: agrees_def epoch_of_def)
  qed
qed

lemma cleanup_frame: "epochs (snd (cleanupLocked now s)) = epochs s \<and> loaded (snd (cleanupLocked now s)) = loaded s
    \<and> loadError (snd (cleanupLocked now s)) = loadError s \<and> disk (snd (cleanupLocked now s)) = disk s"
  by (simp add: cleanupLocked_def Let_def)

lemma save_frame: "epochs (saveLocked w s) = epochs s \<and> loaded (saveLocked w s) = loaded s \<and> loadError (saveLocked w s) = loadError s \<and> devices (saveLocked w s) = devices s"
  by (simp add: saveLocked_def)

lemmas registry_frames = cleanup_frame save_frame

lemma step_follows:
  assumes "agrees s" "\<And>who. \<not> revokes who x" "x \<noteq> RestartOp"
  shows "registry_step x s = s \<or> follows (current s) (registry_step x s)"
proof -
  note ok = agrees_current [OF assms(1)] current_loaded [of s]
  show ?thesis
  proof (cases x)
    case (RegisterOp d now w)
    then show ?thesis using ok by (auto simp: RegisterDevice_def ensure_loaded Let_def cleanup_frame follows_def saveLocked_def)
  next
    case (ValidateOp i who e now w)
    then show ?thesis using ok by (auto simp: ValidateDevice_def ensure_loaded Let_def follows_def saveLocked_def split: option.split)
  next
    case (ListOp who now w)
    then show ?thesis using ok by (auto simp: ListDevices_def ensure_loaded Let_def cleanup_frame split_beta follows_def saveLocked_def)
  next
    case (RevokeOp who i w)
    then show ?thesis using ok by (auto simp: RevokeDevice_def ensure_loaded Let_def follows_def saveLocked_def split: option.split)
  qed (use assms in auto)
qed

text \<open>What one operation does to the epochs, also across a restart.\<close>

lemma step_epochs:
  assumes "agrees s" "durable x"
  shows "agrees (registry_step x s) \<and> readable (registry_step x s) = readable s
    \<and> (readable s \<longrightarrow> epoch_of (current (registry_step x s)) w = (if revokes w x then next_epoch (epoch_of (current s) w) else epoch_of (current s) w))"
proof (cases x)
  case RestartOp
  show ?thesis
  proof (cases "loaded s")
    case True
    then show ?thesis using assms(1) loaded_current [OF True] RestartOp
      by (auto simp: agrees_def) (auto simp: restarted_def)
  next
    case False
    then have "restarted s = s\<lparr>epochs := [], devices := []\<rparr>" "\<not> loadError s" using assms(1) by (simp_all add: agrees_def restarted_def)
    then show ?thesis using False restart_unloaded [OF False] RestartOp by (simp add: agrees_def epoch_of_def)
  qed
next
  case (RevokeAllOp p now wr)
  note ok = agrees_current [OF assms(1)] current_loaded [of s]
  show ?thesis
  proof (cases "readable s")
    case True
    let ?t = "registry_step x s"
    have t: "loaded ?t" "\<not> loadError ?t" "epochs ?t = AList.update p (next_epoch (epoch_of (current s) p)) (epochs (current s))"
        "\<exists>ds. disk ?t = Stored webSessionRegistryVersion (epochs ?t) ds"
      using True ok assms(2) RevokeAllOp by (auto simp: RevokeAll_def ensure_loaded Let_def registry_frames epoch_of_def saveLocked_def)
    from t(4) have "readable (restarted ?t) \<and> epochs (current (restarted ?t)) = epochs ?t"
      by (auto simp: readable_def current_def ensureLoadedLocked_def restarted_def Let_def)
    moreover have "epoch_of ?t w = (if w = p then next_epoch (epoch_of (current s) w) else epoch_of (current s) w)"
      by (simp add: epoch_of_def t(3) update_conv')
    ultimately show ?thesis using t(1,2) True loaded_current [OF t(1)] RevokeAllOp by (auto simp: agrees_def epoch_of_def)
  next
    case False
    then have "registry_step x s = current s" by (simp add: RevokeAllOp RevokeAll_def ensure_loaded)
    then show ?thesis using ok False loaded_current [of "current s"] by simp
  qed
qed (use step_follows [OF assms(1), of x] follows_agrees [OF current_loaded, of s "registry_step x s"] agrees_current [OF assms(1)]
      loaded_current [of "registry_step x s"] loaded_current [of "current s"] assms(1) in \<open>auto simp: follows_def epoch_of_def\<close>)

lemma run_epochs:
  assumes "agrees s" "list_all durable ops"
  shows "agrees (fold registry_step ops s) \<and> readable (fold registry_step ops s) = readable s
    \<and> (readable s \<longrightarrow> epoch_of (current (fold registry_step ops s)) w = (next_epoch ^^ length (filter (revokes w) ops)) (epoch_of (current s) w))"
  using assms
proof (induction ops arbitrary: s)
  case (Cons x ops)
  note step = step_epochs [OF Cons.prems(1), of x w]
  with Cons show ?case by (auto simp: funpow_swap1)
qed simp

lemma unat_last_epoch: "unat (- 1 :: epoch) = 2 ^ 64 - 1"
  by (simp add: unsigned_minus_1_eq_mask mask_eq_exp_minus_1)

lemma unat_next_epoch: "unat (next_epoch e) = unat e mod (2 ^ 64 - 1) + 1"
proof (cases "e + 1 = 0")
  case True
  then have "e = - 1" by (simp add: eq_neg_iff_add_eq_0)
  then show ?thesis by (simp add: next_epoch_def unat_last_epoch)
next
  case False
  then have "e \<noteq> - 1" by auto
  then have "unat e \<noteq> 2 ^ 64 - 1" by (metis unat_last_epoch word_unat_eq_iff)
  moreover have "unat e < 2 ^ 64" using unsigned_less [of e] by simp
  ultimately have "unat e < 2 ^ 64 - 1" by simp
  moreover have "unat (e + 1) = Suc (unat e)" using False by (metis unatSuc add.commute)
  ultimately show ?thesis using False by (simp add: next_epoch_def)
qed

lemma unat_next_epochs: "unat ((next_epoch ^^ Suc n) e) = (unat e + n) mod (2 ^ 64 - 1) + 1"
proof (induction n)
  case (Suc n)
  have "unat ((next_epoch ^^ Suc (Suc n)) e) = unat ((next_epoch ^^ Suc n) e) mod (2 ^ 64 - 1) + 1" by (simp add: unat_next_epoch)
  also have "\<dots> = (unat e + Suc n) mod (2 ^ 64 - 1) + 1" unfolding Suc.IH by (simp add: mod_simps)
  finally show ?case .
qed (simp add: unat_next_epoch)

lemma next_epochs_differ:
  assumes "0 < n" "n < 2 ^ 64 - 1"
  shows "(next_epoch ^^ n) e \<noteq> e \<and> (next_epoch ^^ n) e \<noteq> 0"
proof -
  obtain k where k: "n = Suc k" using assms(1) by (cases n) auto
  have "(u + k) mod M + 1 \<noteq> u" if "u \<le> M" "Suc k < M" for u M :: nat
  proof
    assume h: "(u + k) mod M + 1 = u"
    then obtain v where v: "u = Suc v" by (cases u) auto
    then have "(v + Suc k) mod M = v" "v < M" using h that by auto
    then have "(v + Suc k) mod M = v mod M" by simp
    then have "M dvd Suc k" by (metis add_diff_cancel_left' mod_eq_dvd_iff_nat le_add1)
    then show False using that(2) by (simp add: nat_dvd_not_less)
  qed
  moreover have "unat e \<le> 2 ^ 64 - 1"
  proof -
    have "unat e < 2 ^ 64" using unsigned_less [of e] by simp
    then show ?thesis by simp
  qed
  ultimately have "unat ((next_epoch ^^ n) e) \<noteq> unat e" using assms(2) unat_next_epochs [of k e] unfolding k by metis
  moreover have "unat ((next_epoch ^^ n) e) \<noteq> 0" using unat_next_epochs [of k e] unfolding k by simp
  ultimately show ?thesis by auto
qed

lemma session_epoch_read: "sAuthEpoch b = int_of_epoch e \<Longrightarrow> sessionSecurityEpoch b = e \<or> sessionSecurityEpoch b = 0"
  by (auto simp: sessionSecurityEpoch_def int_of_epoch_def)


subsection \<open>Restoring a session from its cookie\<close>

text \<open>What the cookie relies on: base64 texts are read back, are not empty for something and contain neither dots nor blanks.\<close>

definition base64_ok :: "cookie_lib \<Rightarrow> bool" where
  "base64_ok ck \<longleftrightarrow> (\<forall>x. unb64 ck (b64 ck x) = Some x \<and> (x \<noteq> [] \<longrightarrow> b64 ck x \<noteq> []) \<and> CHR ''.'' \<notin> set (b64 ck x) \<and> list_all (\<lambda>c. \<not> is_space c) (b64 ck x))"

definition issued_claims :: "cookie_lib \<Rightarrow> string \<Rightarrow> claims \<Rightarrow> string \<Rightarrow> string \<Rightarrow> epoch \<Rightarrow> int \<Rightarrow> claims" where
  "issued_claims ck key c secret dev e now =
     (let c = c\<lparr>clDeviceID := dev, clEpoch := e, clIssuedAt := now\<rparr> in
      c\<lparr>clFingerprint := rememberLoginFingerprint ck key c secret, clVersion := rememberLoginVersion, clExpiresAt := now + rememberLoginDuration\<rparr>)"

lemma list_all_hd_last: "s \<noteq> [] \<Longrightarrow> list_all P s \<Longrightarrow> P (hd s) \<and> P (last s)"
  by (simp add: list_all_iff)

lemma token_roundtrip:
  assumes "base64_ok ck" "encodeRememberLoginToken ck key c now = Some token" "length token \<le> rememberLoginTokenLimit"
    and "c' = c\<lparr>clVersion := rememberLoginVersion, clExpiresAt := now + rememberLoginDuration\<rparr>"
    and json: "to_json ck c' \<noteq> []" "of_json ck (to_json ck c') = Some c'" and mac: "\<forall>m. mac256 ck key m \<noteq> []"
    and "now' < now + rememberLoginDuration" "clFingerprint c \<noteq> []" "clPrincipal c \<noteq> []"
  shows "decodeRememberLoginToken ck key token now' = Some c' \<and> TrimSpace token \<noteq> []"
proof -
  let ?p = "b64 ck (to_json ck c')" and ?g = "b64 ck (mac256 ck key (b64 ck (to_json ck c')))"
  have parts: "?p \<noteq> []" "?g \<noteq> []" "CHR ''.'' \<notin> set ?p" "CHR ''.'' \<notin> set ?g" "list_all (\<lambda>c. \<not> is_space c) ?p" "list_all (\<lambda>c. \<not> is_space c) ?g"
    using assms(1) json(1) mac by (simp_all add: base64_ok_def)
  have token: "token = ?p @ ''.'' @ ?g" using assms(2,4) by (simp add: encodeRememberLoginToken_def Let_def split: if_splits)
  then have "token \<noteq> []" "list_all (\<lambda>c. \<not> is_space c) token" using parts by (simp_all add: is_space_def)
  then have trim: "TrimSpace token = token" using list_all_hd_last by (intro TrimSpace_id) blast
  have "Join [?p, ?g] [CHR ''.''] = token" by (simp add: token)
  then have "Split token (CHR ''.'') = [?p, ?g]" using Split_Join [of "[?p, ?g]" "CHR ''.''"] parts by simp
  then show ?thesis
    using trim \<open>token \<noteq> []\<close> assms(1,3,8-10) json(2) parts assms(4)
    by (simp add: decodeRememberLoginToken_def Let_def base64_ok_def)
qed

lemma registered_device:
  assumes "loaded s" "RegisterDevice d now w s = (Inr (), s')"
  shows "loaded s' \<and> \<not> loadError s' \<and> epochs s' = epochs s \<and> map_of (devices s') (dvID d) = Some d"
  using assms loaded_current [OF assms(1)]
  by (auto simp: RegisterDevice_def ensure_loaded Let_def registry_frames epoch_of_def update_conv' split: if_splits)

lemma unreadable_error: "\<not> readable s \<Longrightarrow> loadError (current s)"
  by (auto simp: readable_def current_def ensureLoadedLocked_def Let_def split: session_file.splits if_splits)

lemma device_outcome:
  assumes "registerRememberedDevice ck key c secret addr agent dev now w s = (SetCookie token, s')"
  obtains d where
    "encodeRememberLoginToken ck key (issued_claims ck key c secret dev (epoch_of s' (rememberLoginPrincipalKey c)) now) now = Some token"
    "loaded s'" "\<not> loadError s'" "map_of (devices s') dev = Some d" "dvPrincipal d = rememberLoginPrincipalKey c"
    "dvEpoch d = epoch_of s' (rememberLoginPrincipalKey c)" "dvExpiresAt d = now + rememberLoginDuration"
proof -
  let ?who = "rememberLoginPrincipalKey c"
  define e where "e = fst (Epoch ?who s)"
  define c1 where "c1 = c\<lparr>clDeviceID := dev, clEpoch := e, clIssuedAt := now\<rparr>"
  define c2 where "c2 = c1\<lparr>clFingerprint := rememberLoginFingerprint ck key c1 secret\<rparr>"
  define d where "d = \<lparr>dvID = dev, dvPrincipal = ?who, dvUsername = clUsername c2, dvUserID = clUserID c2, dvClientID = clClientID c2,
    dvIP = GetIpByAddr addr, dvUserAgent = trimUserAgent agent, CreatedAt = now, LastSeenAt = now, dvExpiresAt = now + rememberLoginDuration, dvEpoch = clEpoch c2\<rparr>"
  have epoch: "Epoch ?who s = (e, current s)" by (simp add: e_def Epoch_def ensure_loaded)
  from assms have enc: "encodeRememberLoginToken ck key c2 now = Some token" and reg: "RegisterDevice d now w (current s) = (Inr (), s')"
    unfolding registerRememberedDevice_def Let_def epoch prod.case c1_def [symmetric] c2_def [symmetric] d_def [symmetric]
    by (auto simp: split_beta prod_eq_iff split: option.splits if_splits)
  note dev = registered_device [OF current_loaded reg]
  have "readable s"
    using reg loaded_current [OF current_loaded, of s] unreadable_error [of s] by (auto simp: RegisterDevice_def ensure_loaded)
  then have "e = epoch_of s' ?who" using dev by (simp add: e_def Epoch_def ensure_loaded epoch_of_def)
  moreover have "encodeRememberLoginToken ck key (issued_claims ck key c secret dev e now) now = encodeRememberLoginToken ck key c2 now"
    by (simp add: encodeRememberLoginToken_def issued_claims_def c2_def c1_def Let_def)
  ultimately show thesis using that [of d] enc dev by (simp add: d_def c2_def c1_def)
qed

lemma issue_outcome:
  assumes "issueRememberLoginCookie ck lib cfg key b cookie addr agent (Some dev) nowNano now w db s = (SetCookie token, s')"
  obtains c secret t where "currentRememberLoginCredential lib cfg nowNano db b = Some (c, secret)" "rememberLoginPrincipalKey c \<noteq> []"
    "registerRememberedDevice ck key c secret addr agent dev now w t = (SetCookie token, s')"
  using assms by (auto simp: issueRememberLoginCookie_def Let_def split_beta split: option.splits if_splits)

lemma issued_fields [simp]:
  "clPrincipal (issued_claims ck key c secret dev e now) = clPrincipal c" "clEpoch (issued_claims ck key c secret dev e now) = e"
  "clUserID (issued_claims ck key c secret dev e now) = clUserID c" "clClientID (issued_claims ck key c secret dev e now) = clClientID c"
  "clUsername (issued_claims ck key c secret dev e now) = clUsername c" "clDeviceID (issued_claims ck key c secret dev e now) = dev"
  by (simp_all add: issued_claims_def Let_def)

lemma issued_identity [simp]:
  "rememberLoginPrincipal (issued_claims ck key c secret dev e now) = rememberLoginPrincipal c"
  "rememberLoginPrincipalKey (issued_claims ck key c secret dev e now) = rememberLoginPrincipalKey c"
  "rememberedLoginCredential lib cfg n db (issued_claims ck key c secret dev e now) = rememberedLoginCredential lib cfg n db c"
  "rememberLoginFingerprint ck key (issued_claims ck key c secret dev e now) x = rememberLoginFingerprint ck key c x"
  unfolding rememberLoginPrincipalKey_def rememberedLoginCredential_def rememberLoginFingerprint_def fingerprint_text_def rememberLoginPrincipal_def issued_fields
  by (rule refl)+

lemma issued_fingerprint [simp]: "clFingerprint (issued_claims ck key c secret dev e now) = rememberLoginFingerprint ck key c secret"
  by (simp add: issued_claims_def Let_def rememberLoginFingerprint_def fingerprint_text_def rememberLoginPrincipal_def)

lemma principal_names: "sessionPrincipalUser \<noteq> ''admin''" "sessionPrincipalClient \<noteq> ''admin''" "sessionPrincipalUser \<noteq> sessionPrincipalClient"
    "sessionPrincipalClient \<noteq> sessionPrincipalUser" "sessionPrincipalUser \<noteq> []" "sessionPrincipalClient \<noteq> []"
  by (simp_all add: sessionPrincipalUser_def sessionPrincipalClient_def)

text \<open>A restored session belongs to the account the claims name.\<close>

lemma restored_principal: "rememberLoginPrincipalKey c \<noteq> [] \<Longrightarrow> currentSessionPrincipalKey (session_of_claims c) = rememberLoginPrincipalKey c"
proof (cases "rememberLoginPrincipal c = ''admin''")
  case True
  then show ?thesis by (simp add: rememberLoginPrincipalKey_def currentSessionPrincipalKey_def session_of_claims_def)
next
  case False
  then have "rememberLoginPrincipal c = clPrincipal c" by (auto simp: rememberLoginPrincipal_def split: if_splits)
  moreover assume "rememberLoginPrincipalKey c \<noteq> []"
  ultimately show ?thesis using False principal_names
    by (simp add: rememberLoginPrincipalKey_def currentSessionPrincipalKey_def session_of_claims_def Let_def split: if_splits)
qed

lemma credential_of_session:
  assumes "currentRememberLoginCredential lib cfg n db b = Some (c, secret)" "currentSessionPrincipalKey b \<noteq> []"
  shows "rememberLoginPrincipalKey c = currentSessionPrincipalKey b \<and> rememberedLoginCredential lib cfg n db c = Some secret \<and> clPrincipal c \<noteq> []"
proof -
  have auth: "sAuth b" using assms(2) by (auto simp: currentSessionPrincipalKey_def split: if_splits)
  consider "sIsAdmin b" | "\<not> sIsAdmin b" "sPrincipal b = sessionPrincipalUser" | "\<not> sIsAdmin b" "sPrincipal b = sessionPrincipalClient"
    using assms(2) by (auto simp: currentSessionPrincipalKey_def split: if_splits)
  then show ?thesis
  proof cases
    case 1
    with assms(1) auth have "c = no_claims\<lparr>clVersion := rememberLoginVersion, clPrincipal := sessionPrincipalUser, clUsername := web_username cfg\<rparr>"
        "secret = web_password cfg @ nul @ totp_secret cfg"
      by (auto simp: currentRememberLoginCredential_def Let_def split: if_splits)
    then show ?thesis using 1 auth principal_names
      by (simp add: rememberLoginPrincipalKey_def rememberLoginPrincipal_def rememberedLoginCredential_def currentSessionPrincipalKey_def no_claims_def)
  next
    case 2
    with assms auth obtain u where "GetUser db (sUserId b) = Some u" "IsUserActive lib n db (sUserId b)" "sUserId b > 0" "secret = Password u"
        "c = no_claims\<lparr>clVersion := rememberLoginVersion, clPrincipal := sessionPrincipalUser, clUserID := sUserId b, clUsername := UserName u\<rparr>"
      by (auto simp: currentRememberLoginCredential_def currentSessionPrincipalKey_def split: if_splits option.splits)
    then show ?thesis using 2 auth principal_names
      by (simp add: rememberLoginPrincipalKey_def rememberLoginPrincipal_def rememberedLoginCredential_def currentSessionPrincipalKey_def no_claims_def)
  next
    case 3
    with assms auth principal_names obtain x where "GetClient db (sClientId b) = Some x" "client_usable lib n db x" "sClientId b > 0" "secret = client_secret x"
        "c = no_claims\<lparr>clVersion := rememberLoginVersion, clPrincipal := sessionPrincipalClient, clClientID := sClientId b, clUsername := client_login_name x\<rparr>"
      by (auto simp: currentRememberLoginCredential_def currentSessionPrincipalKey_def split: if_splits option.splits)
    then show ?thesis using 3 auth principal_names
      by (simp add: rememberLoginPrincipalKey_def rememberLoginPrincipal_def rememberedLoginCredential_def currentSessionPrincipalKey_def no_claims_def)
  qed
qed


end
