(* ===== verification/Web_Access.thy ===== *)
theory Web_Access
  imports Web_Sessions
begin

text \<open>
  Who reaches the pages of the console: revoked devices, the check that \<open>Prepare\<close> makes of every request, and the decision of
  \<open>doLoginWithTOTP\<close>, over the definitions of \<open>Web_Sessions\<close>.
\<close>

subsection \<open>Revoked devices\<close>

definition disk_lacks :: "string \<Rightarrow> session_file \<Rightarrow> bool" where
  "disk_lacks i f = (case f of Stored v es ds \<Rightarrow> map_of ds i = None | _ \<Rightarrow> True)"

definition forgotten :: "string \<Rightarrow> web_registry \<Rightarrow> bool" where
  "forgotten i s \<longleftrightarrow> (loaded s \<longrightarrow> map_of (devices s) i = None) \<and> disk_lacks i (disk s)"

fun registers :: "string \<Rightarrow> registry_op \<Rightarrow> bool" where
  "registers i (RegisterOp d now w) = (dvID d = i)"
| "registers i _ = False"

lemma forgotten_current: "forgotten i s \<Longrightarrow> map_of (devices (current s)) i = None \<and> disk (current s) = disk s"
  by (auto simp: forgotten_def disk_lacks_def current_def ensureLoadedLocked_def Let_def split: session_file.splits)

definition ids_match :: "(string \<times> device) list \<Rightarrow> bool" where "ids_match ds \<longleftrightarrow> (\<forall>(k, d) \<in> set ds. dvID d = k)"

text \<open>Records are filed under their own id, in memory and in the file.\<close>

definition filed :: "web_registry \<Rightarrow> bool" where
  "filed s \<longleftrightarrow> ids_match (devices s) \<and> (\<forall>v es ds. disk s = Stored v es ds \<longrightarrow> ids_match ds)"

lemma filed_current: "filed s \<Longrightarrow> filed (current s)"
  by (auto simp: filed_def current_def ensureLoadedLocked_def Let_def ids_match_def split: session_file.split)

lemma filed_save: "filed s \<Longrightarrow> ids_match ds \<Longrightarrow> filed (saveLocked w (s\<lparr>devices := ds\<rparr>))"
  by (auto simp: filed_def saveLocked_def)

lemma ids_match_simps [simp]:
  "ids_match []" "ids_match ds \<Longrightarrow> ids_match (filter q ds)" "ids_match ds \<Longrightarrow> ids_match (AList.delete i ds)"
  by (auto simp: ids_match_def AList.delete_eq)

lemma ids_match_update: "ids_match ds \<Longrightarrow> ids_match (AList.update (dvID d) d ds)"
  by (induction ds) (auto simp: ids_match_def)

lemma ids_match_map_of: "ids_match ds \<Longrightarrow> map_of ds i = Some d \<Longrightarrow> dvID d = i"
  by (auto simp: ids_match_def dest!: map_of_SomeD)

lemma cleanup_filed:
  assumes "ids_match (devices s)" shows "ids_match (devices (snd (cleanupLocked now s)))"
    and "map_of (devices s) i = None \<Longrightarrow> map_of (devices (snd (cleanupLocked now s))) i = None"
proof -
  show "ids_match (devices (snd (cleanupLocked now s)))"
    using assms by (auto simp: cleanupLocked_def Let_def ids_match_def)
  assume "map_of (devices s) i = None"
  then have "\<And>k d. (k, d) \<in> set (devices s) \<Longrightarrow> k \<noteq> i \<and> dvID d \<noteq> i" using assms by (force simp: map_of_eq_None_iff ids_match_def)
  then have "\<And>d. d \<in> set (take n (sort_key f (map snd (filter q (devices s))))) \<Longrightarrow> dvID d \<noteq> i" for n q and f :: "device \<Rightarrow> int"
    by (fastforce dest: in_set_takeD)
  then show "map_of (devices (snd (cleanupLocked now s))) i = None"
    using \<open>\<And>k d. (k, d) \<in> set (devices s) \<Longrightarrow> k \<noteq> i \<and> dvID d \<noteq> i\<close>
    by (auto simp: cleanupLocked_def Let_def map_of_eq_None_iff image_iff; blast)
qed

lemma step_filed: "filed s \<Longrightarrow> filed (registry_step x s)"
proof -
  assume s: "filed s"
  note c = filed_current [OF s]
  then have m: "ids_match (devices (current s))" by (simp add: filed_def)
  have fc: "filed (snd (cleanupLocked now (current s)))" for now
    using c cleanup_filed(1) [OF m] cleanup_frame [of now "current s"] by (simp add: filed_def)
  show ?thesis
  proof (cases x)
    case (RegisterOp d now w)
    have "ids_match (AList.update (dvID d) d (devices (snd (cleanupLocked now (current s)))))" using fc [of now] by (simp add: filed_def ids_match_update)
    then show ?thesis using c fc [of now] by (auto simp: RegisterOp RegisterDevice_def ensure_loaded Let_def intro: filed_save)
  next
    case (ValidateOp i who e now w)
    have "ids_match (AList.update i (d\<lparr>LastSeenAt := now\<rparr>) (devices (current s)))" if "map_of (devices (current s)) i = Some d" for d
      using ids_match_update [OF m, of "d\<lparr>LastSeenAt := now\<rparr>"] ids_match_map_of [OF m that] by simp
    then show ?thesis using c s m by (auto simp: ValidateOp ValidateDevice_def ensure_loaded Let_def intro!: filed_save split: option.split)
  next
    case (ListOp who now w)
    have "saveLocked w t = saveLocked w (t\<lparr>devices := devices t\<rparr>)" for t by simp
    then show ?thesis using c fc [of now] filed_save [OF fc [of now], of "devices (snd (cleanupLocked now (current s)))" w]
      by (auto simp: ListOp ListDevices_def ensure_loaded Let_def split_beta filed_def)
  next
    case (RevokeOp who i w)
    then show ?thesis using c s m by (auto simp: RevokeDevice_def ensure_loaded Let_def intro!: filed_save split: option.split)
  next
    case (RevokeAllOp who now w)
    then show ?thesis using c fc [of now] by (auto simp: RevokeAll_def ensure_loaded Let_def filed_def saveLocked_def)
  next
    case RestartOp
    then show ?thesis using s by (auto simp: restarted_def filed_def)
  qed
qed

lemma forgotten_save: "map_of ds i = None \<Longrightarrow> disk_lacks i (disk s) \<Longrightarrow> forgotten i (saveLocked w (s\<lparr>devices := ds\<rparr>))"
  by (auto simp: forgotten_def saveLocked_def disk_lacks_def)

lemma step_forgotten:
  assumes "filed s" "forgotten i s" "\<not> registers i x"
  shows "forgotten i (registry_step x s)"
proof -
  note c = forgotten_current [OF assms(2)]
  have m: "ids_match (devices (current s))" using filed_current [OF assms(1)] by (simp add: filed_def)
  have d: "disk_lacks i (disk (current s))" using assms(2) c by (simp add: forgotten_def)
  then have fcur: "forgotten i (current s)" using c by (simp add: forgotten_def)
  have cl: "map_of (devices (snd (cleanupLocked now (current s)))) i = None" for now using cleanup_filed(2) [OF m] c by simp
  then have fcl: "forgotten i (snd (cleanupLocked now (current s)))" for now using d cleanup_frame [of now "current s"] by (simp add: forgotten_def)
  have dcl: "disk_lacks i (disk (snd (cleanupLocked now (current s))))" for now using d cleanup_frame [of now "current s"] by simp
  show ?thesis
  proof (cases x)
    case (RegisterOp e now w)
    then have "map_of (AList.update (dvID e) e (devices (snd (cleanupLocked now (current s))))) i = None" using cl [of now] assms(3) by (simp add: update_conv')
    then show ?thesis using fcur fcl [of now] dcl [of now] by (auto simp: RegisterOp RegisterDevice_def ensure_loaded Let_def intro: forgotten_save)
  next
    case (ValidateOp j who e now w)
    have "map_of (AList.update j y (devices (current s))) i = None" if "map_of (devices (current s)) j = Some z" for y z
      using that c by (auto simp: update_conv')
    then show ?thesis using fcur assms(2) d c by (auto simp: ValidateOp ValidateDevice_def ensure_loaded Let_def delete_conv' intro!: forgotten_save split: option.split)
  next
    case (ListOp who now w)
    then show ?thesis using fcur fcl [of now] forgotten_save [OF cl [of now] dcl [of now], of w]
      by (auto simp: ListDevices_def ensure_loaded Let_def split_beta)
  next
    case (RevokeOp who j w)
    then show ?thesis using fcur assms(2) d c by (auto simp: RevokeDevice_def ensure_loaded Let_def delete_conv' intro!: forgotten_save split: option.split)
  next
    case (RevokeAllOp who now w)
    have "map_of (filter q (devices (snd (cleanupLocked now (current s))))) i = None" for q using cl by (rule map_of_filter_None)
    then show ?thesis using fcur dcl [of now] by (auto simp: RevokeAllOp RevokeAll_def ensure_loaded Let_def forgotten_def saveLocked_def disk_lacks_def)
  next
    case RestartOp
    then show ?thesis using assms(2) by (simp add: restarted_def forgotten_def)
  qed
qed

text \<open>C16 A revoked device stays out: after a device has been revoked, and the registry said so, its id is refused for every account
and epoch, across restarts, failing writes and any other operations, until a device is registered under that id again.\<close>

theorem revoked_device_stays_out:
  assumes "filed s" "RevokeDevice who i w s = (Inr True, s')" "list_all (\<lambda>x. \<not> registers i x) ops"
  shows "\<not> fst (ValidateDevice i who' e now w' (fold registry_step ops s'))"
proof -
  have i: "i \<noteq> []" and s': "w" "s' = saveLocked True ((current s)\<lparr>devices := AList.delete i (devices (current s))\<rparr>)"
    using assms(2) by (auto simp: RevokeDevice_def ensure_loaded TrimSpace_def trim_while_def split: if_splits option.splits)
  have "filed s'" using assms(1,2) step_filed [of s "RevokeOp who i w"] by simp
  moreover have "forgotten i s'" by (simp add: s' forgotten_def saveLocked_def disk_lacks_def delete_conv')
  ultimately have "forgotten i (fold registry_step ops s')"
    using assms(3) by (induction ops arbitrary: s') (auto simp: step_filed step_forgotten)
  then show ?thesis using i forgotten_current by (simp add: ValidateDevice_def ensure_loaded)
qed

text \<open>Revoking a device does not end the session it restored: a request of that browser which leaves out the cookie is judged
by the epoch alone, so the check gives the same answer before and after the revocation, whoever revokes whatever device.\<close>

theorem revoked_device_keeps_session:
  assumes "agrees s"
  shows "fst (browserSessionSecurityValid ck lib cfg key b None nowNano now w db (snd (RevokeDevice who i w' s)))
    = fst (browserSessionSecurityValid ck lib cfg key b None nowNano now w db s)"
proof -
  have "readable (snd (RevokeDevice who i w' s)) = readable s
      \<and> (readable s \<longrightarrow> (\<forall>p. epoch_of (current (snd (RevokeDevice who i w' s))) p = epoch_of (current s) p))"
    using step_epochs [OF assms, of "RevokeOp who i w'"] by simp
  then show ?thesis by (auto simp: browserSessionSecurityValid_def SessionEpochValid_def ensure_loaded Let_def)
qed

subsection \<open>Requests\<close>

text \<open>What it takes to be served: the session names an account, its epoch is the current one, and the account is the
administrator's or usable at this moment.\<close>

definition serves_account :: "('l, 't) library \<Rightarrow> int \<Rightarrow> 'l accounts \<Rightarrow> browser_session \<Rightarrow> web_registry \<Rightarrow> bool" where
  "serves_account lib now db b r \<longleftrightarrow> sAuth b \<and> currentSessionPrincipalKey b \<noteq> []
     \<and> readable r \<and> sessionSecurityEpoch b = epoch_of (current r) (currentSessionPrincipalKey b)
     \<and> (sIsAdmin b \<or> hasActiveNonAdminPrincipal lib now db b)"

lemma restore_auth: "restoreRememberLogin ck lib cfg key cookie n t w db (b, r) = (ok, out, b', r') \<Longrightarrow> sAuth b' = (if ok then True else sAuth b)"
  by (auto simp: restoreRememberLogin_def session_of_claims_def Let_def split_beta split: option.splits if_splits)

lemma security_valid:
  assumes "browserSessionSecurityValid ck lib cfg key b cookie n t w db r = (True, r')"
  shows "sAuth b \<and> currentSessionPrincipalKey b \<noteq> [] \<and> readable r \<and> sessionSecurityEpoch b = epoch_of (current r) (currentSessionPrincipalKey b)"
  using assms by (auto simp: browserSessionSecurityValid_def SessionEpochValid_def ensure_loaded Let_def split: if_splits)

lemma prepare_outcome:
  assumes "prepareSession ck lib cfg key cookie ip n t w b s = (True, out, b', s')"
  obtains r where "if sAuth b then b' = b \<and> r = registry s
      else restoreRememberLogin ck lib cfg key cookie n t w (accountsDb s) (b, registry s) = (True, out, b', r)"
    "sAuth b' \<longrightarrow> browserSessionSecurityValid ck lib cfg key b' cookie n t w (accountsDb s) r = (True, registry s')"
    "sIsAdmin b' \<or> hasActiveNonAdminPrincipal lib n (accountsDb s) b'"
  using assms by (auto simp: prepareSession_def Let_def split_beta prod_eq_iff split: if_splits)


subsection \<open>The decision to sign in\<close>

definition admin_credentials :: "console_config \<Rightarrow> string \<Rightarrow> string \<Rightarrow> bool" where
  "admin_credentials cfg username password \<longleftrightarrow> username = web_username cfg \<and> password = web_password cfg"

definition second_factor :: "(byte list \<Rightarrow> byte list \<Rightarrow> byte list) \<Rightarrow> (string \<Rightarrow> byte list option) \<Rightarrow> console_config \<Rightarrow> string \<Rightarrow> int \<Rightarrow> bool" where
  "second_factor hmac b32 cfg totpCode now \<longleftrightarrow> TrimSpace (totp_secret cfg) = []
     \<or> validateTOTPCodeAt hmac b32 (TrimSpace (totp_secret cfg)) totpCode (now div time_second) = Inr True"

definition user_credentials :: "('l, 't) library \<Rightarrow> int \<Rightarrow> 'l accounts \<Rightarrow> string \<Rightarrow> string \<Rightarrow> bool" where
  "user_credentials lib now db username password \<longleftrightarrow>
     (\<exists>k u. (k, u) \<in> set (Users db) \<and> UserName u = username \<and> Password u = password \<and> IsUserActive lib now db (uId u))"

definition client_credentials :: "('l, 't) library \<Rightarrow> int \<Rightarrow> 'l accounts \<Rightarrow> string \<Rightarrow> string \<Rightarrow> bool" where
  "client_credentials lib now db username password \<longleftrightarrow>
     (\<exists>k c. (k, c) \<in> set (Clients db) \<and> client_usable lib now db c \<and> client_accepts c username password)"

lemma find_pair: "List.find P xs = None \<longleftrightarrow> (\<forall>x \<in> set xs. \<not> P x)"
  by (auto simp: find_None_iff)

lemma login_as_client_iff: "(login_as_client lib cfg now db username password b \<noteq> None) = client_credentials lib now db username password"
  by (auto simp: login_as_client_def client_credentials_def find_pair simp flip: not_None_eq)

lemma login_as_user_iff:
  assumes "distinct (map (UserName \<circ> snd) (Users db))"
  shows "(login_as_user lib cfg now db username password b \<noteq> None) = user_credentials lib now db username password"
proof (cases "List.find (\<lambda>(k, u). UserName u = username) (Users db)")
  case None
  then have "\<forall>(k, u) \<in> set (Users db). UserName u \<noteq> username" by (auto simp: find_pair)
  then show ?thesis using None by (auto simp: login_as_user_def GetUserByName_def user_credentials_def)
next
  case (Some p)
  then have p: "p \<in> set (Users db)" "UserName (snd p) = username" by (auto simp: find_Some_iff split_beta)
  have "q = p" if "q \<in> set (Users db)" "UserName (snd q) = username" for q
    using that p assms by (auto simp: distinct_map inj_on_def)
  then have "user_credentials lib now db username password \<longleftrightarrow> Password (snd p) = password \<and> IsUserActive lib now db (uId (snd p))"
    using p unfolding user_credentials_def by (metis prod.collapse snd_conv)
  then show ?thesis using Some by (auto simp: login_as_user_def GetUserByName_def)
qed

lemma finish_true: "fst (finish_login hash ip username explicit b s)"
  by (simp add: finish_login_def Let_def split_beta)



subsection \<open>A concrete console\<close>

text \<open>A base64 of two letters per byte, JSON for one set of claims, and a constant MAC.\<close>

definition letters :: "string \<Rightarrow> string" where
  "letters x = concat (map (\<lambda>c. [char_of (65 + of_char c div 16 :: nat), char_of (65 + of_char c mod 16 :: nat)]) x)"

fun unletters :: "string \<Rightarrow> string option" where
  "unletters [] = Some []"
| "unletters [a] = None"
| "unletters (a # b # x) = map_option ((#) (char_of ((of_char a - 65) * 16 + (of_char b - 65) :: nat))) (unletters x)"

lemma half_byte: "of_char (c :: char) div 16 < (16 :: nat) \<and> of_char c mod 16 < (16 :: nat)"
  using less_mult_imp_div_less [of "of_char c" 16 16] by simp

lemma unletters_letters: "unletters (letters x) = Some x"
proof (induction x)
  case (Cons c x)
  have "65 + of_char c div 16 < (256 :: nat)" "65 + of_char c mod 16 < (256 :: nat)" using half_byte [of c] by simp_all
  then have "char_of ((of_char (char_of (65 + of_char c div 16 :: nat) :: char) - 65) * 16 + (of_char (char_of (65 + of_char c mod 16 :: nat) :: char) - 65) :: nat) = c"
    by (simp add: of_char_of take_bit_eq_mod)
  then show ?case using Cons.IH by (simp add: letters_def)
qed (simp add: letters_def)

lemma letter_set: "c \<in> set (letters x) \<Longrightarrow> 65 \<le> (of_char c :: nat) \<and> (of_char c :: nat) \<le> 80"
proof -
  assume "c \<in> set (letters x)"
  then obtain y :: char where "c = char_of (65 + of_char y div 16 :: nat) \<or> c = char_of (65 + of_char y mod 16 :: nat)" by (auto simp: letters_def)
  moreover note half_byte [of y]
  ultimately show ?thesis by (auto simp: of_char_of take_bit_eq_mod)
qed

definition demo_config :: console_config where
  "demo_config = \<lparr>web_username = ''a'', web_password = ''p'', totp_secret = [], allow_user_login = Some True, allow_user_vkey_login = False,
     login_settings = demo_policy, cookie_sessions = True\<rparr>"

definition demo_registry :: web_registry where
  "demo_registry = \<lparr>loaded = False, loadError = False, epochs = [], devices = [], disk = Missing\<rparr>"

definition demo_session :: browser_session where "demo_session = blank_session\<lparr>sAuth := True, sIsAdmin := True\<rparr>"

definition demo_codec :: cookie_lib where
  "demo_codec = \<lparr>mac256 = (\<lambda>k m. ''m''), b64 = letters, unb64 = unletters, to_json = (\<lambda>c. ''j''),
     of_json = (\<lambda>x. Some \<lparr>clVersion = 1, clPrincipal = ''user'', clUserID = 0, clClientID = 0, clUsername = ''a'', clFingerprint = letters ''m'',
       clExpiresAt = 259205, clDeviceID = ''d'', clEpoch = 0, clIssuedAt = 5\<rparr>)\<rparr>"

definition demo_issue :: "cookie_out \<times> web_registry" where
  "demo_issue = issueRememberLoginCookie demo_codec sample_library demo_config ''k'' demo_session None ''h:1'' ''ua'' (Some ''d'') 5 5 True sample_accounts demo_registry"

definition demo_token :: string where "demo_token = (case fst demo_issue of SetCookie t \<Rightarrow> t | _ \<Rightarrow> [])"

lemma demo_base64: "base64_ok demo_codec"
proof -
  have dot: "CHR ''.'' \<notin> set (letters x)" for x using letter_set [of "CHR ''.''" x] by auto
  have blank: "\<not> is_space c" if "c \<in> set (letters x)" for c x using letter_set [OF that] by (auto simp: is_space_def)
  have "letters x \<noteq> []" if "x \<noteq> []" for x using that by (cases x) (simp_all add: letters_def)
  then show ?thesis using dot blank by (auto simp: base64_ok_def demo_codec_def unletters_letters list_all_iff)
qed

lemma demo_issued: "demo_issue = (SetCookie demo_token, snd demo_issue)" "length demo_token \<le> rememberLoginTokenLimit"
    "epoch_of (snd demo_issue) (currentSessionPrincipalKey demo_session) = 0"
  by (simp_all add: demo_token_def demo_issue_def issueRememberLoginCookie_def currentRememberLoginCredential_def demo_session_def demo_config_def
      rememberLoginPrincipalKey_def rememberLoginPrincipal_def no_claims_def rememberLoginCookieClaims_def registerRememberedDevice_def Epoch_def
      ensureLoadedLocked_def demo_registry_def encodeRememberLoginToken_def RegisterDevice_def cleanupLocked_def webSessionRegistryLimit_def
      saveLocked_def epoch_of_def currentSessionPrincipalKey_def nul_def blank_session_def rememberLoginTokenLimit_def demo_codec_def letters_def Let_def)

lemma demo_json:
  "currentRememberLoginCredential sample_library demo_config 5 sample_accounts demo_session = Some (c, secret) \<Longrightarrow>
    of_json demo_codec x = Some (issued_claims demo_codec ''k'' c secret ''d'' 0 5)"
  by (auto simp: currentRememberLoginCredential_def demo_session_def demo_config_def demo_codec_def issued_claims_def Let_def no_claims_def
      rememberLoginFingerprint_def rememberLoginVersion_def rememberLoginDuration_def sessionPrincipalUser_def nul_def)



definition demo_device :: device where
  "demo_device = \<lparr>dvID = ''d'', dvPrincipal = ''admin'', dvUsername = ''a'', dvUserID = 0, dvClientID = 0, dvIP = [], dvUserAgent = [], CreatedAt = 0,
     LastSeenAt = 0, dvExpiresAt = 9, dvEpoch = 0\<rparr>"

lemma revoked_device_stays_out_witness:
  "\<not> fst (ValidateDevice ''d'' ''admin'' 0 1 True (fold registry_step [RestartOp, ListOp ''admin'' 1 False]
      (snd (RevokeDevice ''admin'' ''d'' True (demo_registry\<lparr>loaded := True, devices := [(''d'', demo_device)]\<rparr>)))))"
  by (rule revoked_device_stays_out [where s = "demo_registry\<lparr>loaded := True, devices := [(''d'', demo_device)]\<rparr>" and who = "''admin''" and w = True])
    (simp_all add: filed_def ids_match_def demo_registry_def demo_device_def RevokeDevice_def ensureLoadedLocked_def TrimSpace_def trim_while_def is_space_def)

lemma revoked_device_keeps_session_witness:
  "fst (browserSessionSecurityValid demo_codec sample_library demo_config ''k'' demo_session None 1 1 True sample_accounts (snd (RevokeDevice ''admin'' ''d'' True demo_registry)))
    = fst (browserSessionSecurityValid demo_codec sample_library demo_config ''k'' demo_session None 1 1 True sample_accounts demo_registry)"
  by (rule revoked_device_keeps_session) (simp add: agrees_def demo_registry_def)

definition demo_console :: "unit console" where
  "demo_console = \<lparr>registry = demo_registry, limiter = newLoginAttemptLimiter 4, accountsDb = sample_accounts\<lparr>Clients := [(1, sample_client\<lparr>cId := 1, UserId := 0\<rparr>)]\<rparr>,
     registeredIPs = []\<rparr>"




end
