(* ===== verification/Target_Health.thy ===== *)
theory Target_Health
  imports Host_Store Wire_Conn
begin

text \<open>
  Backend targets and their health: the rotation over a resource's targets (\<open>Target\<close> in \<open>lib/file/obj.go\<close>), the checks that
  a client makes (\<open>client/health.go\<close>), their reports on the control connection (\<open>lib/conn/conn.go\<close>) and what the server does
  with them (\<open>applyHealthResult\<close> and its callers in \<open>bridge/bridge.go\<close>).

  \<^item> A list of targets that is \<open>nil\<close> is \<open>None\<close>. The cursor of the rotation starts at 0 and is never negative, so it is
    a natural number. Selecting and applying a report each run under the lock of the target.
  \<^item> Whether a target answers a probe is an argument. A pass of checks is one step: concurrent passes of one profile (a
    probe that takes longer than the interval) are not modelled.
  \<^item> The failure counters are a map with default 0.
\<close>

subsection \<open>Rotation over targets\<close>

record target =
  nowIndex :: nat
  TargetStr :: string
  TargetArr :: "string list option"

abbreviation "LF \<equiv> CHR 0x0A"
abbreviation "CR \<equiv> CHR 0x0D"

definition TrimRight_cr :: "string \<Rightarrow> string" where "TrimRight_cr v = rev (dropWhile (\<lambda>c. c = CR) (rev v))"

definition target_lines :: "string \<Rightarrow> string list" where
  "target_lines s = filter (\<lambda>v. v \<noteq> []) (map TrimRight_cr (Split s LF))"

definition GetRandomTarget :: "target \<Rightarrow> string option \<times> target" where
  "GetRandomTarget s0 =
     (let arr = (case TargetArr s0 of None \<Rightarrow> target_lines (TargetStr s0) | Some a \<Rightarrow> a); s = s0\<lparr>TargetArr := Some arr\<rparr> in
      if arr = [] then (None, s)
      else
        (let i = (if nowIndex s + 1 \<ge> length arr then 0 else nowIndex s + 1) in
         (Some (arr ! i), s\<lparr>nowIndex := i\<rparr>)))"

definition PreviewTarget :: "target \<Rightarrow> string option" where
  "PreviewTarget s =
     (let listed = (case TargetArr s of None \<Rightarrow> [] | Some a \<Rightarrow> a);
          targets = (if listed = [] then target_lines (TargetStr s) else listed);
          next = nowIndex s + 1 in
      if targets = [] then None else Some (targets ! (if next \<ge> length targets then 0 else next)))"

subsection \<open>Reports on the server\<close>

definition TrimArr :: "string list \<Rightarrow> string list" where "TrimArr arr = filter (\<lambda>v. v \<noteq> []) arr"

definition IsArrContains :: "string list \<Rightarrow> string \<Rightarrow> bool" where "IsArrContains arr val = list_ex (\<lambda>v. v = val) arr"

fun RemoveArrVal :: "string list \<Rightarrow> string \<Rightarrow> string list" where
  "RemoveArrVal [] val = []"
| "RemoveArrVal (v # arr) val = (if v = val then arr else v # RemoveArrVal arr val)"

text \<open>The state is the target and the list \<open>HealthRemoveArr\<close> of its resource.\<close>

definition applyHealthResult :: "string \<Rightarrow> bool \<Rightarrow> target \<times> string list \<Rightarrow> target \<times> string list" where
  "applyHealthResult info healthy = (\<lambda>(t, removed).
     (if \<not> Contains_str (TargetStr t) info then (t, removed)
      else if \<not> healthy then
        (let arr = (case TargetArr t of
                      None \<Rightarrow> TrimArr (Split (TargetStr t) LF)
                    | Some a \<Rightarrow> if a = [] \<and> removed = [] then TrimArr (Split (TargetStr t) LF) else a) in
         (t\<lparr>TargetArr := Some (RemoveArrVal arr info)\<rparr>, if IsArrContains removed info then removed else removed @ [info]))
      else
        (let arr = (case TargetArr t of None \<Rightarrow> [] | Some a \<Rightarrow> a) in
         (if IsArrContains removed info \<and> \<not> IsArrContains arr info then t\<lparr>TargetArr := Some (arr @ [info])\<rparr> else t,
          RemoveArrVal removed info))))"

text \<open>A resource of a client: \<open>rMode\<close> is the mode of a tunnel, and \<open>None\<close> for a host.\<close>

record resource =
  rClient :: "int option"
  rMode :: "string option"
  rActive :: bool
  rTarget :: "target option"
  rHealth :: health
  rRemoved :: "string list"

definition update_resource_health :: "int \<Rightarrow> string \<Rightarrow> bool \<Rightarrow> resource \<Rightarrow> resource" where
  "update_resource_health clientID info healthy r =
     (case rTarget r of
        None \<Rightarrow> r
      | Some t \<Rightarrow>
          if (case rMode r of None \<Rightarrow> False | Some m \<Rightarrow> m \<noteq> ''tcp'') \<or> rClient r \<noteq> Some clientID then r
          else (let (t', removed) = applyHealthResult info healthy (t, rRemoved r) in r\<lparr>rTarget := Some t', rRemoved := removed\<rparr>))"

text \<open>One report of a client, applied to every tunnel and host.\<close>

definition health_report :: "int \<Rightarrow> string \<Rightarrow> bool \<Rightarrow> resource list \<Rightarrow> resource list" where
  "health_report clientID info healthy = map (update_resource_health clientID info healthy)"

definition profile_key :: "health \<Rightarrow> string" where
  "profile_key h = HealthCheckType h @ [CHR 0x00] @ HealthCheckTarget h @ [CHR 0x00] @ Itoa (HealthCheckTimeout h) @ [CHR 0x00]
     @ Itoa (HealthMaxFail h) @ [CHR 0x00] @ Itoa (HealthCheckInterval h) @ [CHR 0x00] @ HttpHealthUrl h"

fun append_profile :: "health \<Rightarrow> health list \<Rightarrow> health list" where
  "append_profile h profiles =
     (if \<not> HealthConfigEnabled h then profiles
      else case NormalizeHealth h of
             Inl e \<Rightarrow> profiles
           | Inr p \<Rightarrow>
               if \<not> HealthConfigEnabled p then profiles
               else if list_ex (\<lambda>q. profile_key q = profile_key p) profiles then profiles
               else profiles @ [p])"

definition healthProfilesForClientFromDB :: "int \<Rightarrow> resource list \<Rightarrow> health list" where
  "healthProfilesForClientFromDB clientID rs =
     (if clientID \<le> 0 then []
      else fold (\<lambda>r profiles.
        if rActive r \<and> (case rMode r of None \<Rightarrow> True | Some m \<Rightarrow> m = ''tcp'') \<and> rClient r = Some clientID then append_profile (rHealth r) profiles
        else profiles) rs [])"

subsection \<open>Checks of the client\<close>

record check_session =
  profile :: health
  HealthNextTime :: int
  HealthMap :: "string \<Rightarrow> int"

definition normalizedHealthCopy :: "health \<Rightarrow> health option" where
  "normalizedHealthCopy h = (case NormalizeHealth h of Inl e \<Rightarrow> None | Inr p \<Rightarrow> if HealthConfigEnabled p then Some p else None)"

definition add_distinct :: "health \<Rightarrow> health list \<Rightarrow> health list" where
  "add_distinct h profiles =
     (case normalizedHealthCopy h of
        None \<Rightarrow> profiles
      | Some p \<Rightarrow> if list_ex (\<lambda>q. profile_key q = profile_key p) profiles then profiles else profiles @ [p])"

text \<open>The profiles that a client runs: those of its configuration file, then those the server sent.\<close>

definition healthProfiles :: "health list \<Rightarrow> health list \<Rightarrow> health list" where
  "healthProfiles configured remoteHealths = fold add_distinct (configured @ remoteHealths) []"

text \<open>What a configuration message of the server leaves as \<open>remoteHealths\<close>.\<close>

definition applyRemoteHealthConfig :: "health list \<Rightarrow> health list" where
  "applyRemoteHealthConfig profiles = List.map_filter normalizedHealthCopy profiles"

text \<open>A run of checks starts with empty counters for every usable profile; \<open>now\<close> is in seconds.\<close>

definition heathCheck :: "int \<Rightarrow> health list \<Rightarrow> check_session list" where
  "heathCheck now healths =
     map (\<lambda>h. \<lparr>profile = h, HealthNextTime = now + HealthCheckInterval h, HealthMap = (\<lambda>_. 0)\<rparr>)
       (filter (\<lambda>h. HealthMaxFail h > 0 \<and> HealthCheckTimeout h > 0 \<and> HealthCheckInterval h > 0) healths)"

definition due :: "int \<Rightarrow> check_session \<Rightarrow> bool" where "due now s \<longleftrightarrow> \<not> HealthNextTime s > now"

definition check_target :: "int \<Rightarrow> string \<Rightarrow> bool \<Rightarrow> (string \<Rightarrow> int) \<Rightarrow> string option \<times> (string \<Rightarrow> int)" where
  "check_target maxFail target answers counts =
     (if \<not> answers \<and> maxFail > 0 then
        (let counts = counts(target := counts target + 1) in
         (if counts target > 0 \<and> counts target mod maxFail = 0 then Some ''0'' else None, counts))
      else if answers \<and> counts target \<ge> maxFail then (Some ''1'', counts(target := 0))
      else (None, counts))"

fun check_targets :: "int \<Rightarrow> (string \<Rightarrow> bool) \<Rightarrow> string list \<Rightarrow> (string \<Rightarrow> int) \<Rightarrow> (string \<times> string) list \<times> (string \<Rightarrow> int)" where
  "check_targets maxFail probe [] counts = ([], counts)"
| "check_targets maxFail probe (t # ts) counts =
     (let (status, counts) = check_target maxFail t (probe t) counts;
          (reports, counts) = check_targets maxFail probe ts counts in
      ((case status of None \<Rightarrow> [] | Some v \<Rightarrow> [(t, v)]) @ reports, counts))"

text \<open>One tick: the profiles that are due are rescheduled and checked; the reports are sent.\<close>

definition check :: "(string \<Rightarrow> bool) \<Rightarrow> check_session \<Rightarrow> (string \<times> string) list \<times> check_session" where
  "check probe s =
     (let (reports, counts) = check_targets (HealthMaxFail (profile s)) probe (Split (HealthCheckTarget (profile s)) (CHR '','')) (HealthMap s) in
      (reports, s\<lparr>HealthMap := counts\<rparr>))"

fun session_tick :: "int \<Rightarrow> (string \<Rightarrow> bool) \<Rightarrow> check_session list \<Rightarrow> (string \<times> string) list \<times> check_session list" where
  "session_tick now probe [] = ([], [])"
| "session_tick now probe (s # ss) =
     (let (reports, s') = (if due now s then check probe (s\<lparr>HealthNextTime := now + HealthCheckInterval (profile s)\<rparr>) else ([], s));
          (rest, ss') = session_tick now probe ss in
      (reports @ rest, s' # ss'))"

subsection \<open>Reports on the wire\<close>

definition CONN_DATA_SEQ :: string where "CONN_DATA_SEQ = ''*#*''"

definition GetWriteStr :: "string list \<Rightarrow> string" where "GetWriteStr vs = concat (map (\<lambda>v. v @ CONN_DATA_SEQ) vs)"

definition SendHealthInfo :: "string \<Rightarrow> string \<Rightarrow> ('s, unit) io" where
  "SendHealthInfo info status = WriteLenContent (bytes (GetWriteStr [info, status]))"

text \<open>\<open>strings.Split\<close> at a separator of several characters.\<close>

function split_seq :: "string \<Rightarrow> string \<Rightarrow> string \<Rightarrow> string list" where
  "split_seq sep acc s =
     (if s = [] \<or> sep = [] then [rev acc @ s]
      else if HasPrefix s sep then rev acc # split_seq sep [] (drop (length sep) s)
      else split_seq sep (hd s # acc) (tl s))"
  by auto
termination by (relation "measure (\<lambda>(sep, acc, s). length s)") auto

declare split_seq.simps [simp del]

definition GetBoolByStr :: "string \<Rightarrow> bool" where "GetBoolByStr s \<longleftrightarrow> s = ''1'' \<or> s = ''true''"

definition GetHealthInfo :: "('s, string \<times> bool) io" where
  "GetHealthInfo = bind_io GetLen (\<lambda>l. bind_io (ReadLen l (nat PoolSize)) (\<lambda>buf.
     case split_seq CONN_DATA_SEQ [] (text_of buf) of
       info # status # _ \<Rightarrow> return_io (info, GetBoolByStr status)
     | _ \<Rightarrow> fail_io BadLength))"

subsection \<open>The pool of targets\<close>

definition pool :: "target \<Rightarrow> string list" where
  "pool t = (case TargetArr t of None \<Rightarrow> target_lines (TargetStr t) | Some a \<Rightarrow> a)"

datatype pool_op = Report string bool | Select

fun pool_step :: "pool_op \<Rightarrow> target \<times> string list \<Rightarrow> target \<times> string list" where
  "pool_step (Report info healthy) st = applyHealthResult info healthy st"
| "pool_step Select (t, removed) = (snd (GetRandomTarget t), removed)"

text \<open>The specification: the targets whose last report was bad.\<close>

fun down_step :: "pool_op \<Rightarrow> string set \<Rightarrow> string set" where
  "down_step (Report info healthy) D = (if healthy then D - {info} else insert info D)"
| "down_step Select D = D"

text \<open>A report about a configured target, or about something that does not occur in the configured text at all.\<close>

fun exact_report :: "string \<Rightarrow> pool_op \<Rightarrow> bool" where
  "exact_report str (Report info healthy) = (info \<in> set (target_lines str) \<or> \<not> Contains_str str info)"
| "exact_report str Select = True"

lemma RemoveArrVal_remove1: "RemoveArrVal arr v = remove1 v arr"
  by (induction arr) auto

lemma IsArrContains_iff: "IsArrContains arr v \<longleftrightarrow> v \<in> set arr"
  by (induction arr) (auto simp: IsArrContains_def)

lemma Contains_infix: "Contains_str (u @ p @ w) p"
proof (induction u)
  case Nil
  show ?case
  proof (cases "p @ w")
    case (Cons a x)
    have "take (length p) (p @ w) = p" by simp
    then show ?thesis by (simp add: HasPrefix_def Cons)
  qed simp
qed simp

lemma split_piece: "v \<in> set (split_acc sep acc s) \<Longrightarrow> \<exists>u w. rev acc @ s = u @ v @ w"
proof (induction sep acc s rule: split_acc.induct)
  case (1 sep acc)
  then show ?case by (auto intro: exI [of _ "[]"])
next
  case (2 sep acc c s)
  show ?case
  proof (cases "c = sep")
    case True
    from 2(3) True consider "v = rev acc" | "v \<in> set (split_acc sep [] s)" by auto
    then show ?thesis
    proof cases
      case 1
      then have "rev acc @ c # s = [] @ v @ (c # s)" by simp
      then show ?thesis by blast
    next
      case 2
      then obtain u w where "s = u @ v @ w" using "2.IH"(1) [OF True] by auto
      then have "rev acc @ c # s = (rev acc @ c # u) @ v @ w" by simp
      then show ?thesis by blast
    qed
  next
    case False
    then show ?thesis using 2(3) "2.IH"(2) by simp
  qed
qed

lemma no_cr_lines:
  assumes "CR \<notin> set str" shows "target_lines str = TrimArr (Split str LF)"
proof -
  have "TrimRight_cr v = v" if v: "v \<in> set (Split str LF)" for v
  proof -
    obtain u w where "str = u @ v @ w" using v split_piece [of v LF "[]" str] by (auto simp: Split_def)
    then have "CR \<notin> set v" using assms by auto
    then have "dropWhile (\<lambda>c. c = CR) (rev v) = rev v" unfolding dropWhile_eq_self_iff by (metis hd_in_set set_rev)
    then show ?thesis by (simp add: TrimRight_cr_def)
  qed
  then have "map TrimRight_cr (Split str LF) = Split str LF" by (simp add: map_idI)
  then show ?thesis by (simp add: target_lines_def TrimArr_def)
qed

lemma line_contained:
  assumes "CR \<notin> set str" "v \<in> set (target_lines str)" shows "Contains_str str v"
proof -
  have "v \<in> set (split_acc LF [] str)" using assms by (auto simp: no_cr_lines TrimArr_def Split_def)
  then obtain u w where "str = u @ v @ w" using split_piece [of v LF "[]" str] by auto
  then show ?thesis using Contains_infix by simp
qed

definition pool_inv :: "string \<Rightarrow> string set \<Rightarrow> target \<times> string list \<Rightarrow> bool" where
  "pool_inv str D = (\<lambda>(t, removed). TargetStr t = str \<and> distinct (pool t) \<and> set (pool t) = set (target_lines str) - D
     \<and> set removed = set (target_lines str) \<inter> D \<and> distinct removed \<and> (TargetArr t = None \<longrightarrow> removed = []))"

lemma select_keeps_pool: "pool (snd (GetRandomTarget t)) = pool t \<and> TargetStr (snd (GetRandomTarget t)) = TargetStr t \<and> TargetArr (snd (GetRandomTarget t)) = Some (pool t)"
  by (simp add: GetRandomTarget_def pool_def Let_def)

lemma inv_bad_report:
  assumes "pool_inv str D (t, removed)" "CR \<notin> set str" "info \<in> set (target_lines str)"
  shows "pool_inv str (insert info D) (applyHealthResult info False (t, removed))"
proof -
  have str: "TargetStr t = str" using assms(1) by (simp add: pool_inv_def)
  have arr: "(case TargetArr t of None \<Rightarrow> TrimArr (Split (TargetStr t) LF) | Some a \<Rightarrow> if a = [] \<and> removed = [] then TrimArr (Split (TargetStr t) LF) else a) = pool t"
  proof (cases "TargetArr t")
    case None
    then show ?thesis using assms(2) str by (simp add: pool_def no_cr_lines)
  next
    case (Some a)
    have "target_lines str = []" if "a = []" "removed = []"
    proof -
      have "set (target_lines str) - D = {}" "set (target_lines str) \<inter> D = {}" using that Some assms(1) by (simp_all add: pool_inv_def pool_def)
      then show ?thesis by (metis Un_Diff_Int Un_empty set_empty)
    qed
    then show ?thesis using Some assms(2) str by (auto simp: pool_def no_cr_lines)
  qed
  have "applyHealthResult info False (t, removed)
      = (t\<lparr>TargetArr := Some (RemoveArrVal (pool t) info)\<rparr>, if IsArrContains removed info then removed else removed @ [info])"
    using line_contained [OF assms(2,3)] str by (simp add: applyHealthResult_def arr Let_def)
  then show ?thesis using assms(1,3)
    by (auto simp: pool_inv_def pool_def RemoveArrVal_remove1 IsArrContains_iff set_remove1_eq split: option.splits)
qed

lemma inv_good_report:
  assumes "pool_inv str D (t, removed)" "CR \<notin> set str" "info \<in> set (target_lines str)"
  shows "pool_inv str (D - {info}) (applyHealthResult info True (t, removed))"
proof (cases "info \<in> D")
  case True
  then have r: "info \<in> set removed" "info \<notin> set (pool t)" and str: "TargetStr t = str" using assms(1,3) by (auto simp: pool_inv_def)
  then obtain a where a: "TargetArr t = Some a" using assms(1) by (cases "TargetArr t") (auto simp: pool_inv_def)
  then have "applyHealthResult info True (t, removed) = (t\<lparr>TargetArr := Some (a @ [info])\<rparr>, RemoveArrVal removed info)"
    using line_contained [OF assms(2,3)] r by (simp add: applyHealthResult_def str IsArrContains_iff pool_def)
  then show ?thesis using assms(1,3) a r by (auto simp: pool_inv_def pool_def RemoveArrVal_remove1 set_remove1_eq)
next
  case False
  then have r: "info \<notin> set removed" and str: "TargetStr t = str" using assms(1) by (auto simp: pool_inv_def)
  then have "applyHealthResult info True (t, removed) = (t, removed)"
    by (simp add: applyHealthResult_def str IsArrContains_iff RemoveArrVal_remove1 remove1_idem)
  then show ?thesis using assms(1) False by (auto simp: pool_inv_def)
qed

lemma inv_step:
  assumes "pool_inv str D st" "CR \<notin> set str" "exact_report str x"
  shows "pool_inv str (down_step x D) (pool_step x st)"
proof -
  obtain t removed where st: "st = (t, removed)" by fastforce
  show ?thesis
  proof (cases x)
    case (Report info healthy)
    show ?thesis
    proof (cases "info \<in> set (target_lines str)")
      case True
      then show ?thesis using inv_bad_report [of str D t removed info] inv_good_report [of str D t removed info] assms(1,2) st Report by auto
    next
      case False
      then have "\<not> Contains_str (TargetStr t) info" using assms(1,3) Report st by (auto simp: pool_inv_def)
      then have "pool_step x st = st" by (simp add: Report st applyHealthResult_def)
      then show ?thesis using assms(1) False st Report by (auto simp: pool_inv_def)
    qed
  next
    case Select
    then show ?thesis using assms(1) st select_keeps_pool [of t] by (auto simp: pool_inv_def)
  qed
qed

definition fresh_target :: "string \<Rightarrow> target" where "fresh_target str = \<lparr>nowIndex = 0, TargetStr = str, TargetArr = None\<rparr>"

lemma inv_run:
  assumes "distinct (target_lines str)" "CR \<notin> set str" "list_all (exact_report str) ops"
  shows "pool_inv str (fold down_step ops {}) (fold pool_step ops (fresh_target str, []))"
proof -
  have "pool_inv str {} (fresh_target str, [])" using assms(1) by (simp add: pool_inv_def fresh_target_def pool_def)
  then have "pool_inv str D st \<Longrightarrow> pool_inv str (fold down_step ops D) (fold pool_step ops st)" for D st
    using assms(3) by (induction ops arbitrary: D st) (auto simp: inv_step [OF _ assms(2)])
  then show ?thesis using \<open>pool_inv str {} (fresh_target str, [])\<close> by blast
qed

lemma selected_in_pool: "case fst (GetRandomTarget t) of None \<Rightarrow> pool t = [] | Some a \<Rightarrow> a \<in> set (pool t)"
  by (auto simp: GetRandomTarget_def pool_def Let_def)



subsection \<open>Profiles\<close>

lemma add_distinct_keys:
  assumes "distinct (map profile_key ps)"
  shows "distinct (map profile_key (add_distinct h ps))" "set (map profile_key (add_distinct h ps)) = set (map profile_key ps) \<union> profile_key ` set_option (normalizedHealthCopy h)"
  using assms by (auto simp: add_distinct_def list_ex_iff split: option.split intro: rev_image_eqI)

lemma fold_add_distinct:
  assumes "distinct (map profile_key ps)"
  shows "distinct (map profile_key (fold add_distinct hs ps))
    \<and> set (map profile_key (fold add_distinct hs ps)) = set (map profile_key ps) \<union> profile_key ` (\<Union>h\<in>set hs. set_option (normalizedHealthCopy h))"
  using assms
proof (induction hs arbitrary: ps)
  case (Cons h hs)
  show ?case using Cons.IH [OF add_distinct_keys(1) [OF Cons.prems]] add_distinct_keys(2) [OF Cons.prems, of h] by auto
qed simp

text \<open>A client checks every usable profile of its file and of the server's message, and none twice.\<close>

theorem profiles_complete:
  "distinct (map profile_key (healthProfiles configured remote))
    \<and> set (map profile_key (healthProfiles configured remote)) = profile_key ` (\<Union>h\<in>set configured \<union> set remote. set_option (normalizedHealthCopy h))"
  using fold_add_distinct [of "[]" "configured @ remote"] by (simp add: healthProfiles_def)

subsection \<open>Rotation\<close>

fun selections :: "nat \<Rightarrow> target \<Rightarrow> string option list" where
  "selections 0 t = []"
| "selections (Suc n) t = fst (GetRandomTarget t) # selections n (snd (GetRandomTarget t))"

definition cursor :: "target \<Rightarrow> nat" where
  "cursor t = (if nowIndex t + 1 \<ge> length (pool t) then 0 else nowIndex t + 1)"

lemma select_at_cursor: "pool t \<noteq> [] \<Longrightarrow> fst (GetRandomTarget t) = Some (pool t ! cursor t) \<and> nowIndex (snd (GetRandomTarget t)) = cursor t"
  by (simp add: GetRandomTarget_def pool_def cursor_def Let_def)

lemma cursor_advances:
  assumes "pool t \<noteq> []" shows "cursor t < length (pool t)" "cursor (snd (GetRandomTarget t)) = Suc (cursor t) mod length (pool t)"
proof -
  show c: "cursor t < length (pool t)" using assms by (simp add: cursor_def)
  show "cursor (snd (GetRandomTarget t)) = Suc (cursor t) mod length (pool t)"
    using select_at_cursor [OF assms] select_keeps_pool [of t] c by (auto simp: cursor_def [of "snd (GetRandomTarget t)"] le_Suc_eq mod_if)
qed

lemma selections_rotate:
  assumes "pool t \<noteq> []" shows "selections n t = map (\<lambda>j. Some (pool t ! ((cursor t + j) mod length (pool t)))) [0..<n]"
  using assms
proof (induction n arbitrary: t)
  case (Suc n)
  let ?t = "snd (GetRandomTarget t)"
  have p: "pool ?t = pool t" by (simp add: select_keeps_pool)
  have step: "(cursor ?t + j) mod length (pool t) = (cursor t + Suc j) mod length (pool t)" for j
    using cursor_advances(2) [OF Suc.prems] by (simp add: mod_simps)
  have "selections n ?t = map (\<lambda>j. Some (pool t ! ((cursor t + Suc j) mod length (pool t)))) [0..<n]"
    using Suc.IH [of ?t] Suc.prems p step by simp
  then show ?case using select_at_cursor [OF Suc.prems] cursor_advances(1) [OF Suc.prems]
    by (simp add: upt_conv_Cons map_Suc_upt [symmetric] del: upt_Suc)
qed simp

text \<open>C27 Targets are used in turn: as many selections as there are targets in the pool return each of them once, wherever the
cursor stands; the preview of the console shows the target that is selected next, and changes nothing.\<close>

theorem rotation_is_fair:
  assumes "pool t \<noteq> []"
  shows "mset (selections (length (pool t)) t) = mset (map Some (pool t)) \<and> PreviewTarget t = fst (GetRandomTarget t)"
proof -
  have turn: "map (\<lambda>j. pool t ! ((cursor t + j) mod length (pool t))) [0..<length (pool t)] = rotate (cursor t) (pool t)"
    by (rule nth_equalityI) (simp_all add: nth_rotate)
  have "selections (length (pool t)) t = map Some (rotate (cursor t) (pool t))"
    unfolding turn [symmetric] by (simp add: selections_rotate [OF assms])
  moreover have "mset (rotate k xs) = mset xs" for k and xs :: "string list"
    by (metis rotate_drop_take append_take_drop_id mset_append union_commute)
  ultimately have "mset (selections (length (pool t)) t) = mset (map Some (pool t))" by simp
  moreover have "PreviewTarget t = fst (GetRandomTarget t)"
    using assms select_at_cursor [OF assms] by (auto simp: PreviewTarget_def pool_def cursor_def Let_def split: option.splits)
  ultimately show ?thesis by simp
qed

lemma rotation_is_fair_witness:
  "mset (selections (length (pool (fresh_target (''a'' @ [LF] @ ''b'')))) (fresh_target (''a'' @ [LF] @ ''b'')))
    = mset (map Some (pool (fresh_target (''a'' @ [LF] @ ''b'')))) \<and> PreviewTarget (fresh_target (''a'' @ [LF] @ ''b'')) = fst (GetRandomTarget (fresh_target (''a'' @ [LF] @ ''b'')))"
  by (rule rotation_is_fair) (simp add: pool_def fresh_target_def target_lines_def Split_def TrimRight_cr_def)

text \<open>When every target is down the preview falls back to the configured text and names a target, while visitors get none.\<close>

theorem preview_hides_outage:
  assumes "TargetArr t = Some []" "target_lines (TargetStr t) \<noteq> []"
  shows "PreviewTarget t \<noteq> None \<and> fst (GetRandomTarget t) = None"
  using assms by (simp add: PreviewTarget_def GetRandomTarget_def Let_def)

subsection \<open>Checks, reports and pool together\<close>

definition probe_step :: "int \<Rightarrow> string \<times> bool \<Rightarrow> (string \<Rightarrow> int) \<times> target \<times> string list \<Rightarrow> (string \<Rightarrow> int) \<times> target \<times> string list" where
  "probe_step maxFail = (\<lambda>(tgt, answers) (counts, st).
     (let (status, counts) = check_target maxFail tgt answers counts in
      (counts, case status of None \<Rightarrow> st | Some v \<Rightarrow> applyHealthResult tgt (GetBoolByStr v) st)))"

definition down_of :: "int \<Rightarrow> (string \<Rightarrow> int) \<Rightarrow> string set" where "down_of maxFail counts = {t. counts t \<ge> maxFail}"

text \<open>The failures of a target that count: all since its last recovery.\<close>

fun failures :: "int \<Rightarrow> bool list \<Rightarrow> int \<Rightarrow> int" where
  "failures maxFail [] n = n"
| "failures maxFail (answers # ps) n = failures maxFail ps (if \<not> answers then n + 1 else if n \<ge> maxFail then 0 else n)"

lemma check_target_count:
  "maxFail > 0 \<Longrightarrow> snd (check_target maxFail tgt answers counts) x = (if x = tgt then failures maxFail [answers] (counts tgt) else counts x)"
  by (simp add: check_target_def Let_def)

lemma probe_inv:
  assumes "pool_inv str (down_of m counts) st" "\<forall>t. counts t \<ge> 0" "CR \<notin> set str" "tgt \<in> set (target_lines str)" "m > 0"
    and "probe_step m (tgt, answers) (counts, st) = (counts', st')"
  shows "pool_inv str (down_of m counts') st' \<and> (\<forall>t. counts' t \<ge> 0)"
proof -
  obtain t removed where st: "st = (t, removed)" by fastforce
  note bad = inv_bad_report [OF assms(1) [unfolded st] assms(3,4)] and good = inv_good_report [OF assms(1) [unfolded st] assms(3,4)]
  have strings: "GetBoolByStr ''1''" "\<not> GetBoolByStr ''0''" by (simp_all add: GetBoolByStr_def)
  consider "answers" "counts tgt \<ge> m" | "answers" "counts tgt < m" | "\<not> answers" "(counts tgt + 1) mod m = 0" | "\<not> answers" "(counts tgt + 1) mod m \<noteq> 0" by linarith
  then show ?thesis
  proof cases
    case 1
    then have "counts' = counts(tgt := 0)" "st' = applyHealthResult tgt True st" using assms(5,6) strings by (auto simp: probe_step_def check_target_def)
    moreover from this have "down_of m counts' = down_of m counts - {tgt}" using assms(5) by (auto simp: down_of_def)
    ultimately show ?thesis using good assms(2) st by simp
  next
    case 2
    then show ?thesis using assms(1,2,6) by (simp add: probe_step_def check_target_def)
  next
    case 3
    then have c: "counts' = counts(tgt := counts tgt + 1)" "st' = applyHealthResult tgt False st"
      using assms(2,5,6) strings by (auto simp: probe_step_def check_target_def Let_def add_nonneg_pos split: if_splits)
    have "m \<le> counts tgt + 1" using 3(2) assms(2,5) by (metis add_nonneg_pos zdvd_imp_le dvd_eq_mod_eq_0 zero_less_one)
    then have "down_of m counts' = insert tgt (down_of m counts)" using c(1) by (auto simp: down_of_def)
    then show ?thesis using bad c assms(2) st by (auto intro: add_nonneg_nonneg)
  next
    case 4
    then have c: "counts' = counts(tgt := counts tgt + 1)" "st' = st"
      using assms(5,6) by (auto simp: probe_step_def check_target_def Let_def split: if_splits)
    have "counts tgt + 1 \<noteq> m" using 4(2) by auto
    then have "down_of m counts' = down_of m counts" using c(1) by (auto simp: down_of_def)
    then show ?thesis using c assms(1,2) by (auto intro: add_nonneg_nonneg)
  qed
qed

lemma probe_count:
  "m > 0 \<Longrightarrow> fst (probe_step m (tgt, answers) (counts, st)) x = (if x = tgt then failures m [answers] (counts tgt) else counts x)"
  by (simp add: probe_step_def split_beta check_target_count)

lemma failures_append: "failures m (ps @ qs) n = failures m qs (failures m ps n)"
  by (induction ps arbitrary: n) auto

lemma probes_inv:
  assumes "pool_inv str (down_of m counts) st" "\<forall>t. counts t \<ge> 0" "CR \<notin> set str" "list_all (\<lambda>p. fst p \<in> set (target_lines str)) ps" "m > 0"
    and "fold (probe_step m) ps (counts, st) = (counts', st')"
  shows "pool_inv str (down_of m counts') st' \<and> (\<forall>x. counts' x = failures m (map snd (filter (\<lambda>p. fst p = x) ps)) (counts x))"
  using assms(1,2,4,6)
proof (induction ps arbitrary: counts st)
  case (Cons p ps)
  obtain tgt answers where p: "p = (tgt, answers)" by fastforce
  obtain c1 s1 where one: "probe_step m (tgt, answers) (counts, st) = (c1, s1)" by (meson surj_pair)
  have t: "tgt \<in> set (target_lines str)" using Cons.prems(3) p by simp
  note step = probe_inv [OF Cons.prems(1,2) assms(3) t assms(5) one]
  have c1: "c1 x = failures m (if x = tgt then [answers] else []) (counts x)" for x
    using probe_count [OF assms(5), of tgt answers counts st x] one by (simp split: if_splits)
  have rest: "pool_inv str (down_of m counts') st'" "counts' x = failures m (map snd (filter (\<lambda>p. fst p = x) ps)) (c1 x)" for x
    using Cons.IH [of c1 s1] step Cons.prems(3,4) p one by simp_all
  have "counts' x = failures m (map snd (filter (\<lambda>p. fst p = x) (p # ps))) (counts x)" for x
    unfolding rest(2) c1 failures_append [symmetric] p by simp
  then show ?case using rest(1) by blast
qed simp

lemma probed_pool:
  assumes "distinct (target_lines str)" "CR \<notin> set str" "list_all (\<lambda>p. fst p \<in> set (target_lines str)) ps" "m > 0"
    and "fold (probe_step m) ps (\<lambda>_. 0, fresh_target str, []) = (counts, t, removed)"
  shows "set (pool t) = {a \<in> set (target_lines str). failures m (map snd (filter (\<lambda>p. fst p = a) ps)) 0 < m}"
proof -
  have "down_of m (\<lambda>_. 0) = {}" using assms(4) by (auto simp: down_of_def)
  then have "pool_inv str (down_of m (\<lambda>_. 0)) (fresh_target str, [])" using assms(1) by (simp add: pool_inv_def fresh_target_def pool_def)
  from probes_inv [OF this _ assms(2-5)] show ?thesis by (auto simp: pool_inv_def down_of_def)
qed



subsection \<open>Where the pool does not follow\<close>

lemma failures_below: "n + int (length (filter Not ps)) < m \<Longrightarrow> failures m ps n = n + int (length (filter Not ps))"
  by (induction ps arbitrary: n) auto

text \<open>The threshold does not count consecutive failures: whatever successes lie between them, the failure that makes the total
reach the threshold takes the target out of the pool.\<close>

theorem failures_need_not_be_consecutive:
  assumes "distinct (target_lines str)" "CR \<notin> set str" "tgt \<in> set (target_lines str)" "m > 0"
    and "int (length (filter Not ps)) = m - 1"
    and "fold (probe_step m) (map (Pair tgt) (ps @ [False])) (\<lambda>_. 0, fresh_target str, []) = (counts, t, removed)"
  shows "tgt \<notin> set (pool t)"
proof -
  have "map snd (filter (\<lambda>p. fst p = tgt) (map (Pair tgt) xs)) = xs" for xs :: "bool list" by (induction xs) auto
  then have "set (pool t) = {a \<in> set (target_lines str). failures m (map snd (filter (\<lambda>p. fst p = a) (map (Pair tgt) (ps @ [False])))) 0 < m}"
    using probed_pool [OF assms(1,2) _ assms(4,6)] assms(3) by (simp add: list_all_iff)
  moreover have "failures m (ps @ [False]) 0 = m" using failures_below [of 0 ps m] assms(5) by (simp add: failures_append)
  ultimately show ?thesis using \<open>\<And>xs. map snd (filter (\<lambda>p. fst p = tgt) (map (Pair tgt) xs)) = xs\<close> by auto
qed

text \<open>A restart of the checks loses the recovery: the client starts with empty counters when it reconnects or receives a new
profile, so a target that the server has taken out of the pool stays out, however many probes succeed.\<close>

theorem restart_loses_recovery:
  assumes "s \<in> set (heathCheck now profiles)"
  shows "fold (probe_step (HealthMaxFail (profile s))) (replicate n (tgt, True)) (HealthMap s, st) = (HealthMap s, st)"
proof -
  have "HealthMap s = (\<lambda>_. 0)" "HealthMaxFail (profile s) > 0" using assms by (auto simp: heathCheck_def)
  then show ?thesis by (induction n) (simp_all add: probe_step_def check_target_def)
qed

lemma restart_loses_recovery_witness:
  "fold (probe_step 2) (replicate 9 (''a'', True)) (\<lambda>_. 0, fresh_target ''a'', [''a'']) = (\<lambda>_. 0, fresh_target ''a'', [''a''])"
  using restart_loses_recovery [of "\<lparr>profile = \<lparr>HealthCheckTimeout = 1, HealthMaxFail = 2, HealthCheckInterval = 1, HttpHealthUrl = [], HealthCheckType = ''tcp'', HealthCheckTarget = ''a''\<rparr>,
      HealthNextTime = 1, HealthMap = \<lambda>_. 0\<rparr>" 0 "[\<lparr>HealthCheckTimeout = 1, HealthMaxFail = 2, HealthCheckInterval = 1, HttpHealthUrl = [], HealthCheckType = ''tcp'', HealthCheckTarget = ''a''\<rparr>]"
      9 "''a''" "(fresh_target ''a'', [''a''])"]
  by (simp add: heathCheck_def)

text \<open>A report about a part of the configured text puts that part into the pool: once bad and then good, and an address that nobody
configured for this resource receives its visitors.\<close>

theorem foreign_target_enters_pool:
  assumes "Contains_str (TargetStr t) info" "info \<notin> set removed" "info \<notin> set (pool t)" "info \<notin> set (TrimArr (Split (TargetStr t) LF))"
  shows "info \<in> set (pool (fst (applyHealthResult info True (applyHealthResult info False (t, removed)))))"
  using assms by (auto simp: applyHealthResult_def pool_def IsArrContains_iff RemoveArrVal_remove1 remove1_idem Let_def split: option.splits)

lemma foreign_target_enters_pool_witness:
  "''a:80'' \<in> set (pool (fst (applyHealthResult ''a:80'' True (applyHealthResult ''a:80'' False (fresh_target ''a:8080'', [])))))"
  by (rule foreign_target_enters_pool) (simp_all add: fresh_target_def HasPrefix_def pool_def target_lines_def TrimArr_def Split_def TrimRight_cr_def)

subsection \<open>Reports survive the wire\<close>

lemma split_seq_piece: "CHR ''*'' \<notin> set v \<Longrightarrow> split_seq CONN_DATA_SEQ acc (v @ CONN_DATA_SEQ @ r) = (rev acc @ v) # split_seq CONN_DATA_SEQ [] r"
proof (induction v arbitrary: acc)
  case Nil
  show ?case by (subst split_seq.simps) (simp add: CONN_DATA_SEQ_def HasPrefix_def)
next
  case (Cons c v)
  then have "c \<noteq> CHR ''*''" by auto
  then show ?case using Cons by (subst split_seq.simps) (simp add: CONN_DATA_SEQ_def HasPrefix_def)
qed

text \<open>What a client reports is what the server reads: the target and whether it is healthy, with whatever follows on the
connection left untouched.\<close>

theorem health_report_roundtrip:
  assumes "CHR ''*'' \<notin> set info" "length info < 60000" "status = ''0'' \<or> status = ''1''"
    and "incoming s' = written (snd (SendHealthInfo info status s)) @ rest" "written s = []"
  shows "GetHealthInfo s' = (Inr (info, status = ''1''), s'\<lparr>incoming := rest\<rparr>)"
proof -
  let ?b = "bytes (GetWriteStr [info, status])"
  have len: "length ?b = length info + 7" using assms(3) by (auto simp: GetWriteStr_def CONN_DATA_SEQ_def)
  have "s' = s'\<lparr>incoming := GetLenBytes ?b @ rest\<rparr>" using assms(4,5) by (simp add: SendHealthInfo_def WriteLenContent_def Write_def)
  then have "GetLen s' = (Inr (int (length ?b)), s'\<lparr>incoming := ?b @ rest\<rparr>)"
    using GetLen_record [where b = ?b and s = s' and rest = rest] assms(2) len by simp
  moreover have "ReadLen (int (length ?b)) (nat PoolSize) (s'\<lparr>incoming := ?b @ rest\<rparr>) = (Inr ?b, s'\<lparr>incoming := rest\<rparr>)"
    using assms(2) len by (simp add: ReadLen_def PoolSize_def ReadFull_append)
  moreover have "split_seq CONN_DATA_SEQ [] (text_of ?b) = [info, status, []]"
  proof -
    have "CHR ''*'' \<notin> set status" using assms(3) by auto
    then show ?thesis using split_seq_piece [of info "[]" "status @ CONN_DATA_SEQ"] split_seq_piece [of status "[]" "[]"] assms(1)
      by (simp add: GetWriteStr_def split_seq.simps [of _ _ "[]"])
  qed
  ultimately show ?thesis using assms(3) by (auto simp: GetHealthInfo_def return_io_def GetBoolByStr_def)
qed

lemma health_report_roundtrip_witness:
  "GetHealthInfo \<lparr>incoming = written (snd (SendHealthInfo ''a:80'' ''1'' \<lparr>incoming = [], written = [], store = ()\<rparr>)) @ [7], written = [], store = ()\<rparr>
    = (Inr (''a:80'', ''1'' = ''1''), \<lparr>incoming = written (snd (SendHealthInfo ''a:80'' ''1'' \<lparr>incoming = [], written = [], store = ()\<rparr>)) @ [7], written = [], store = ()\<rparr>\<lparr>incoming := [7]\<rparr>)"
  by (rule health_report_roundtrip [where s = "\<lparr>incoming = [], written = [], store = ()\<rparr>"]) simp_all

lemma failures_need_not_be_consecutive_witness:
  "''a'' \<notin> set (pool (fst (snd (fold (probe_step 2) (map (Pair ''a'') ([True, False, True, True] @ [False])) (\<lambda>_. 0, fresh_target (''a'' @ [LF] @ ''b''), [])))))"
proof -
  obtain c t r where run: "fold (probe_step 2) (map (Pair ''a'') ([True, False, True, True] @ [False])) (\<lambda>_. 0, fresh_target (''a'' @ [LF] @ ''b''), []) = (c, t, r)"
    by (metis prod_cases3)
  have "''a'' \<notin> set (pool t)"
    by (rule failures_need_not_be_consecutive [OF _ _ _ _ _ run]) (simp_all add: target_lines_def Split_def TrimRight_cr_def)
  then show ?thesis unfolding run by simp
qed

end
