(* ===== verification/User_Migration.thy ===== *)
theory User_Migration
  imports Account_Store
begin

text \<open>
  The migration of dashboard accounts at start-up (\<open>MigrateUsersFromClients\<close> in \<open>lib/file/db.go\<close>): older releases kept a web name and
  password on each client. The clients are visited in the order of the association list (the order of \<open>Range\<close> is arbitrary).
  Whether the users file is absent is the argument \<open>recover\<close>; remarks, creation times and writing the files are left out.
\<close>

record 'l migration =
  mdb :: "'l accounts"
  byName :: "(string \<times> int \<times> string) list"
  byID :: "int list"

definition migrated_user :: "int \<Rightarrow> string \<Rightarrow> string \<Rightarrow> user" where
  "migrated_user i name password = \<lparr>uId = i, UserName = name, Password = password, Email = [], uStatus = True, MaxClientNum = 0, MaxTunnelNum = 0,
     uMaxConn = 0, uUploadLimit = 0, uDownloadLimit = 0, uExpireTime = []\<rparr>"

definition numbered_name :: "string \<Rightarrow> int \<Rightarrow> string" where "numbered_name name i = name @ ''_'' @ Itoa i"

definition set_owner :: "int \<Rightarrow> int \<Rightarrow> 'l accounts \<Rightarrow> 'l accounts" where
  "set_owner k i db = db\<lparr>Clients := map (\<lambda>(l, c). (l, if l = k then c\<lparr>UserId := i\<rparr> else c)) (Clients db)\<rparr>"

definition store_user :: "user \<Rightarrow> 'l accounts \<Rightarrow> 'l accounts" where
  "store_user u db = db\<lparr>Users := AList.update (uId u) u (Users db)\<rparr>"

text \<open>A client whose owner is not among the users.\<close>

definition migrate_orphan :: "bool \<Rightarrow> int \<Rightarrow> client \<Rightarrow> 'l migration \<Rightarrow> 'l migration" where
  "migrate_orphan recover k c m =
     (let cred = map_of (byName m) (WebUserName c) in
      if WebUserName c \<noteq> [] \<and> WebPassword c \<noteq> [] \<and> map_option snd cred = Some (WebPassword c)
      then m\<lparr>mdb := set_owner k (fst (the cred)) (mdb m)\<rparr>
      else if \<not> recover \<or> WebUserName c = [] \<or> WebPassword c = [] then m
      else
        (let name = (case cred of
                       None \<Rightarrow> WebUserName c
                     | Some (i, p) \<Rightarrow> if p \<noteq> WebPassword c \<or> i \<noteq> UserId c then numbered_name (WebUserName c) (UserId c) else WebUserName c);
             db = store_user (migrated_user (UserId c) name (WebPassword c)) (mdb m) in
         m\<lparr>mdb := (if UserId c > UserIncreaseId db then db\<lparr>UserIncreaseId := UserId c\<rparr> else db),
           byID := UserId c # byID m, byName := AList.update name (UserId c, WebPassword c) (byName m)\<rparr>))"

text \<open>A client without owner.\<close>

definition migrate_unowned :: "bool \<Rightarrow> int \<Rightarrow> client \<Rightarrow> 'l migration \<Rightarrow> 'l migration" where
  "migrate_unowned recover k c m =
     (if WebUserName c = [] \<or> WebPassword c = [] then m
      else case map_of (byName m) (WebUserName c) of
        Some (i, p) \<Rightarrow>
          if p = WebPassword c then m\<lparr>mdb := set_owner k i (mdb m)\<rparr>
          else if \<not> recover then m
          else
            (let i = wrap32 (UserIncreaseId (mdb m) + 1); name = numbered_name (WebUserName c) (cId c) in
             m\<lparr>mdb := set_owner k i (store_user (migrated_user i name (WebPassword c)) (mdb m\<lparr>UserIncreaseId := i\<rparr>)),
               byName := AList.update name (i, WebPassword c) (byName m)\<rparr>)
      | None \<Rightarrow>
          if \<not> recover then m
          else
            (let i = wrap32 (UserIncreaseId (mdb m) + 1); name = WebUserName c in
             m\<lparr>mdb := set_owner k i (store_user (migrated_user i name (WebPassword c)) (mdb m\<lparr>UserIncreaseId := i\<rparr>)),
               byName := AList.update name (i, WebPassword c) (byName m)\<rparr>))"

definition migrate_client :: "bool \<Rightarrow> int \<times> client \<Rightarrow> 'l migration \<Rightarrow> 'l migration" where
  "migrate_client recover = (\<lambda>(k, c) m.
     (if UserId c \<noteq> 0 then (if UserId c \<in> set (byID m) then m else migrate_orphan recover k c m)
      else migrate_unowned recover k c m))"

definition MigrateUsersFromClients :: "bool \<Rightarrow> 'l accounts \<Rightarrow> 'l accounts" where
  "MigrateUsersFromClients recover db =
     mdb (fold (migrate_client recover) (Clients db)
       \<lparr>mdb = db, byName = fold (\<lambda>(k, u) bn. AList.update (UserName u) (uId u, Password u) bn) (Users db) [], byID = map (\<lambda>(k, u). uId u) (Users db)\<rparr>)"

subsection \<open>Clients stay with their credentials\<close>

text \<open>A client keeps everything but its owner, and a new owner has the client's own credentials.\<close>

definition attached :: "(int \<times> user) list \<Rightarrow> client \<Rightarrow> client \<Rightarrow> bool" where
  "attached us c c' \<longleftrightarrow> c' = c\<lparr>UserId := UserId c'\<rparr> \<and> (UserId c' = UserId c \<or> (\<exists>u. map_of us (UserId c') = Some u \<and> Password u = WebPassword c
     \<and> WebPassword c \<noteq> [] \<and> (UserName u = WebUserName c \<or> UserName u = numbered_name (WebUserName c) (cId c))))"

definition names_sound :: "'l migration \<Rightarrow> bool" where
  "names_sound m \<longleftrightarrow> (\<forall>n i p. map_of (byName m) n = Some (i, p) \<longrightarrow> (\<exists>u. map_of (Users (mdb m)) i = Some u \<and> UserName u = n \<and> Password u = p))"

definition ids_below :: "'l accounts \<Rightarrow> bool" where "ids_below db \<longleftrightarrow> (\<forall>k u. map_of (Users db) k = Some u \<longrightarrow> k \<le> UserIncreaseId db)"

definition clients_attached :: "'l accounts \<Rightarrow> 'l accounts \<Rightarrow> bool" where
  "clients_attached db0 db \<longleftrightarrow> map fst (Clients db) = map fst (Clients db0)
     \<and> (\<forall>k c c'. map_of (Clients db0) k = Some c \<longrightarrow> map_of (Clients db) k = Some c' \<longrightarrow> attached (Users db) c c')"

definition users_kept :: "'l accounts \<Rightarrow> 'l accounts \<Rightarrow> bool" where
  "users_kept db0 db \<longleftrightarrow> (\<forall>k u. map_of (Users db0) k = Some u \<longrightarrow> map_of (Users db) k = Some u)"

definition minv :: "'l accounts \<Rightarrow> nat \<Rightarrow> 'l migration \<Rightarrow> bool" where
  "minv db0 n m \<longleftrightarrow> users_kept db0 (mdb m) \<and> ids_below (mdb m) \<and> names_sound m \<and> clients_attached db0 (mdb m)
     \<and> byID m = map (\<lambda>(k, u). uId u) (Users db0) \<and> UserIncreaseId db0 \<le> UserIncreaseId (mdb m) \<and> UserIncreaseId (mdb m) \<le> UserIncreaseId db0 + int n"

lemma names_soundD: "minv db0 n m \<Longrightarrow> map_of (byName m) x = Some (i, p) \<Longrightarrow> \<exists>u. map_of (Users (mdb m)) i = Some u \<and> UserName u = x \<and> Password u = p"
  by (simp add: minv_def names_sound_def)

lemma map_of_set_owner: "map_of (Clients (set_owner k i db)) l = map_option (\<lambda>c. if l = k then c\<lparr>UserId := i\<rparr> else c) (map_of (Clients db) l)"
proof -
  have "map_of (map (\<lambda>(l, c). (l, f l c)) cs) l = map_option (f l) (map_of cs l)" for f :: "int \<Rightarrow> client \<Rightarrow> client" and cs
    by (induction cs) auto
  then show ?thesis by (simp add: set_owner_def)
qed

lemma set_owner_fields [simp]: "Users (set_owner k i db) = Users db" "UserIncreaseId (set_owner k i db) = UserIncreaseId db"
    "map fst (Clients (set_owner k i db)) = map fst (Clients db)"
  by (simp_all add: set_owner_def comp_def split_beta)

lemma store_user_fields [simp]: "map_of (Users (store_user u db)) = (map_of (Users db))(uId u \<mapsto> u)" "UserIncreaseId (store_user u db) = UserIncreaseId db"
    "Clients (store_user u db) = Clients db"
  by (simp_all add: store_user_def update_conv')

lemma migrated_user_sel [simp]: "uId (migrated_user i name p) = i" "UserName (migrated_user i name p) = name" "Password (migrated_user i name p) = p"
  by (simp_all add: migrated_user_def)

lemma attached_mono: "attached us c c' \<Longrightarrow> (\<And>k u. map_of us k = Some u \<Longrightarrow> map_of us' k = Some u) \<Longrightarrow> attached us' c c'"
  by (auto simp: attached_def)

lemma own_client:
  assumes "clients_attached db0 db" "map_of (Clients db0) k = Some c" "map_of (Users db) i = Some u" "Password u = WebPassword c" "WebPassword c \<noteq> []"
    and "UserName u = WebUserName c \<or> UserName u = numbered_name (WebUserName c) (cId c)"
  shows "clients_attached db0 (set_owner k i db)"
proof -
  have att: "attached (Users db) x (if l = k then y\<lparr>UserId := i\<rparr> else y)"
    if "map_of (Clients db0) l = Some x" "map_of (Clients db) l = Some y" for l x y
  proof -
    have a: "attached (Users db) x y" using assms(1) that by (auto simp: clients_attached_def)
    show ?thesis
    proof (cases "l = k")
      case True
      then have "x = c" using that assms(2) by simp
      moreover have "y\<lparr>UserId := i\<rparr> = x\<lparr>UserId := i\<rparr>" using a by (cases x, cases y) (auto simp: attached_def)
      ultimately show ?thesis using True assms(3-6) by (auto simp: attached_def)
    qed (use a in simp)
  qed
  have "attached (Users db) x y" if "map_of (Clients db0) l = Some x" "map_of (Clients (set_owner k i db)) l = Some y" for l x y
    using att [OF that(1)] that(2) by (auto simp: map_of_set_owner)
  then show ?thesis using assms(1) by (simp add: clients_attached_def)
qed

lemma add_user:
  assumes "minv db0 n m" "i = UserIncreaseId (mdb m) + 1"
  shows "users_kept db0 (store_user (migrated_user i name p) (mdb m\<lparr>UserIncreaseId := i\<rparr>))"
    "ids_below (store_user (migrated_user i name p) (mdb m\<lparr>UserIncreaseId := i\<rparr>))"
    "clients_attached db0 (store_user (migrated_user i name p) (mdb m\<lparr>UserIncreaseId := i\<rparr>))"
    "map_of (Users (store_user (migrated_user i name p) (mdb m\<lparr>UserIncreaseId := i\<rparr>))) i = Some (migrated_user i name p)"
    "\<And>j u. map_of (Users (mdb m)) j = Some u \<Longrightarrow> map_of (Users (store_user (migrated_user i name p) (mdb m\<lparr>UserIncreaseId := i\<rparr>))) j = Some u"
proof -
  let ?d = "store_user (migrated_user i name p) (mdb m\<lparr>UserIncreaseId := i\<rparr>)"
  have le: "j \<le> UserIncreaseId (mdb m)" if "map_of (Users (mdb m)) j = Some u" for j u
    using assms(1) that by (auto simp: minv_def ids_below_def)
  show keep: "map_of (Users ?d) j = Some u" if "map_of (Users (mdb m)) j = Some u" for j u
    using le [OF that] that assms(2) by auto
  show "users_kept db0 ?d" using assms(1) keep by (auto simp: minv_def users_kept_def)
  show "ids_below ?d" using le assms(2) by (fastforce simp: ids_below_def split: if_splits)
  show "map_of (Users ?d) i = Some (migrated_user i name p)" by simp
  have "attached (Users ?d) x y" if "attached (Users (mdb m)) x y" for x y by (rule attached_mono [OF that keep])
  then show "clients_attached db0 ?d" using assms(1) by (simp add: minv_def clients_attached_def)
qed

lemma create_step:
  assumes "minv db0 n m" "map_of (Clients db0) k = Some c" "WebPassword c \<noteq> []" "i = UserIncreaseId (mdb m) + 1"
    and "name = WebUserName c \<or> name = numbered_name (WebUserName c) (cId c)"
  shows "minv db0 (Suc n) (m\<lparr>mdb := set_owner k i (store_user (migrated_user i name (WebPassword c)) (mdb m\<lparr>UserIncreaseId := i\<rparr>)),
     byName := AList.update name (i, WebPassword c) (byName m)\<rparr>)"
proof -
  note add = add_user [OF assms(1,4), where name = name and p = "WebPassword c"]
  have "clients_attached db0 (set_owner k i (store_user (migrated_user i name (WebPassword c)) (mdb m\<lparr>UserIncreaseId := i\<rparr>)))"
    by (rule own_client [OF add(3) assms(2) add(4)]) (use assms(3,5) in auto)
  moreover have "names_sound (m\<lparr>mdb := set_owner k i (store_user (migrated_user i name (WebPassword c)) (mdb m\<lparr>UserIncreaseId := i\<rparr>)),
      byName := AList.update name (i, WebPassword c) (byName m)\<rparr>)"
  proof (unfold names_sound_def, intro allI impI)
    fix n' i' p' assume h: "map_of (byName (m\<lparr>mdb := set_owner k i (store_user (migrated_user i name (WebPassword c)) (mdb m\<lparr>UserIncreaseId := i\<rparr>)),
      byName := AList.update name (i, WebPassword c) (byName m)\<rparr>)) n' = Some (i', p')"
    show "\<exists>u. map_of (Users (mdb (m\<lparr>mdb := set_owner k i (store_user (migrated_user i name (WebPassword c)) (mdb m\<lparr>UserIncreaseId := i\<rparr>)),
      byName := AList.update name (i, WebPassword c) (byName m)\<rparr>))) i' = Some u \<and> UserName u = n' \<and> Password u = p'"
    proof (cases "n' = name")
      case True
      then show ?thesis using h add(4) by (simp add: update_conv')
    next
      case False
      then have "map_of (byName m) n' = Some (i', p')" using h by (simp add: update_conv')
      then obtain u where "map_of (Users (mdb m)) i' = Some u" "UserName u = n'" "Password u = p'" using names_soundD [OF assms(1)] by blast
      then show ?thesis using add(5) by auto
    qed
  qed
  ultimately show ?thesis using assms(1,4) add(1,2) by (simp add: minv_def users_kept_def ids_below_def)
qed

lemma migrate_step:
  assumes "minv db0 n m" "(k, c) \<in> set (Clients db0)" "distinct (map fst (Clients db0))"
    and "UserId c = 0 \<or> UserId c \<in> uId ` snd ` set (Users db0)" "0 \<le> UserIncreaseId db0" "UserIncreaseId db0 + int n + 1 < 2 ^ 31"
  shows "minv db0 (Suc n) (migrate_client recover (k, c) m)"
proof (cases "UserId c = 0")
  case False
  then have "migrate_client recover (k, c) m = m" using assms(1,4) by (auto simp: migrate_client_def minv_def split_beta image_comp)
  then show ?thesis using assms(1) by (auto simp: minv_def)
next
  case True
  have own: "map_of (Clients db0) k = Some c" using assms(2,3) by simp
  have w: "wrap32 (UserIncreaseId (mdb m) + 1) = UserIncreaseId (mdb m) + 1" using assms(1,5,6) by (simp add: wrap32_def minv_def)
  have stay: "minv db0 (Suc n) m" using assms(1) by (auto simp: minv_def)
  show ?thesis
  proof (cases "WebUserName c = [] \<or> WebPassword c = []")
    case True
    then show ?thesis using stay \<open>UserId c = 0\<close> by (auto simp: migrate_client_def migrate_unowned_def)
  next
    case False
    note create = create_step [OF assms(1) own _ refl]
    show ?thesis
    proof (cases "map_of (byName m) (WebUserName c)")
      case None
      then show ?thesis using False True stay create [of "WebUserName c"] w by (simp add: migrate_client_def migrate_unowned_def Let_def)
    next
      case (Some e)
      obtain i p where e: "e = (i, p)" by fastforce
      from Some e obtain u where u: "map_of (Users (mdb m)) i = Some u" "UserName u = WebUserName c" "Password u = p"
        using names_soundD [OF assms(1), of "WebUserName c" i p] by auto
      show ?thesis
      proof (cases "p = WebPassword c")
        case True
        then have "clients_attached db0 (set_owner k i (mdb m))"
          using own_client [OF _ own u(1)] u False assms(1) by (auto simp: minv_def)
        then show ?thesis using assms(1) True Some e False \<open>UserId c = 0\<close>
          by (auto simp: migrate_client_def migrate_unowned_def minv_def users_kept_def ids_below_def names_sound_def)
      next
        case False2: False
        then show ?thesis using Some e False True stay create [of "numbered_name (WebUserName c) (cId c)"] w
          by (simp add: migrate_client_def migrate_unowned_def Let_def)
      qed
    qed
  qed
qed

lemma initial_names:
  assumes "\<forall>(k, u) \<in> set us. map_of all k = Some u \<and> uId u = k"
    and "\<forall>n i p. map_of bn n = Some (i, p) \<longrightarrow> (\<exists>u. map_of all i = Some u \<and> UserName u = n \<and> Password u = p)"
  shows "map_of (fold (\<lambda>(k, u) bn. AList.update (UserName u) (uId u, Password u) bn) us bn) n = Some (i, p) \<Longrightarrow> \<exists>u. map_of all i = Some u \<and> UserName u = n \<and> Password u = p"
  using assms
proof (induction us arbitrary: bn)
  case (Cons x us)
  obtain k u where x: "x = (k, u)" by fastforce
  have "\<forall>n i p. map_of (AList.update (UserName u) (uId u, Password u) bn) n = Some (i, p) \<longrightarrow> (\<exists>u. map_of all i = Some u \<and> UserName u = n \<and> Password u = p)"
    using Cons.prems(2,3) x by (auto simp: update_conv' split: if_splits)
  then show ?case using Cons.IH [of "AList.update (UserName u) (uId u, Password u) bn"] Cons.prems x by simp
qed simp


definition legacy_client :: "int \<Rightarrow> int \<Rightarrow> string \<Rightarrow> string \<Rightarrow> client" where
  "legacy_client i owner name password = sample_client\<lparr>cId := i, UserId := owner, WebUserName := name, WebPassword := password\<rparr>"


text \<open>A client that names a lost owner can take over another account: the user created for a client without owner is not entered among
the known ids, so a later client that names the same number overwrites this user. Here the client of \<open>a\<close> ends up owned by
\<open>b\<close>, and no user \<open>a\<close> is left.\<close>

theorem migration_overwrites_user:
  "let db = MigrateUsersFromClients True (sample_accounts\<lparr>Clients := [(1, legacy_client 1 0 ''a'' ''pa''), (2, legacy_client 2 1 ''b'' ''pb'')]\<rparr>) in
   map (\<lambda>(k, u). (UserName u, Password u)) (Users db) = [(''b'', ''pb'')] \<and> map (\<lambda>(k, c). (WebUserName c, UserId c)) (Clients db) = [(''a'', 1), (''b'', 1)]"
  by code_simp

end
