(* ===== verification/Spec2Isabelle.thy ===== *)
theory Spec2Isabelle
  imports Mux_Core Access_Lists Ip_Registry Handshake Socks_Udp Bridge_Runs Web_Access Target_Health User_Migration
begin

text \<open>
  A verification library for NPS, an intranet tunnelling server.

  \<^bold>\<open>The program.\<close> A public server (\<open>server/\<close>, \<open>bridge/\<close>) accepts visitors and passes their connections to
  clients behind NAT. A client authenticates with a key (\<open>bridge.go\<close>, \<open>client/control.go\<close>) and then keeps one transport
  connection on which \<open>lib/nps_mux\<close> multiplexes streams with per-stream flow control. Before a visitor's connection becomes a stream, the server routes it (virtual
  hosts of users and clients, \<open>lib/file/db.go\<close>), checks the access lists (\<open>lib/acl\<close>, \<open>lib/file/acl.go\<close>) and the visitor registrations
  (\<open>lib/ipreg\<close>), takes a connection slot of the owner, the client and the server (\<open>lib/file/obj.go\<close>,
  \<open>user_runtime.go\<close>, \<open>global_connections.go\<close>) and charges the bytes to rate limits (\<open>lib/rate\<close>,
  \<open>lib/file/rate_limits.go\<close>). The administrator, users and clients sign in to a web console (\<open>web/controllers\<close>).

  \<^bold>\<open>The theories.\<close>
  \<^item> \<open>Prelude\<close>: machine integers, Go slices, little-endian codecs and shared lemmas.
  \<^item> \<open>Mux_Frame\<close> (\<open>netpackager.go\<close>, \<open>pool.go\<close>): \<open>muxPackager_Set\<close>, \<open>Pack\<close> and \<open>UnPack\<close> on byte streams. Frames
    survive the round trip and concatenation, a truncated frame is an error, buffers return to their pool.
  \<^item> \<open>Mux_Queue\<close> (\<open>queue.go\<close>): the ring buffer with wrapping indices implements a bounded FIFO; the write queue
    implements a three-class scheduler that starves nobody and loses nothing; the blocking receive queue is a step
    relation in which no wake-up is lost.
  \<^item> \<open>Mux_Window\<close> (\<open>conn.go\<close>): the packed window word, the receive window and the send window, and the system of
    both with the frames in flight as a step relation. The bytes unacknowledged and the bytes delivered are
    accounted for in every reachable state.
  \<^item> \<open>Mux_Core\<close> (\<open>mux.go\<close>, \<open>map.go\<close>, \<open>conn.go\<close>): streams, ids, dispatch of frames, ping and close. The stream table is
    consistent under every interleaving; a frame reaches at most the stream it names.
  \<^item> \<open>Rate_Limit\<close> (\<open>lib/rate\<close>, \<open>rate_limits.go\<close>): chains of token buckets over a parameter for the third-party limiter.
  \<^item> \<open>Admission\<close>: the three connection counters as instances of one locale \<open>bounded_counter\<close>, and \<open>GetConn\<close> and
    \<open>AddConn\<close> over them: exact admission, full roll-back, conservation of slots.
  \<^item> \<open>Go_Std\<close>: the parts of \<open>strings\<close>, \<open>net\<close> and \<open>net/netip\<close> that the following theories call.
  \<^item> \<open>Access_Lists\<close> (\<open>lib/acl\<close>, \<open>lib/file/acl.go\<close>): a compiled list decides as its rules do and fails closed; two
    defects of list refreshing and of destination lists.
  \<^item> \<open>Ip_Registry\<close> (\<open>lib/ipreg\<close>): the store answers what its history grants; listings are confined to a tenant.
  \<^item> \<open>Host_Rules\<close> and \<open>Host_Store\<close> (\<open>db.go\<close>, \<open>basic_auth.go\<close>): texts and overlap of rules; creating and editing
    hosts, platform domains and routing. Tenants are isolated for requests with a path; routing is deterministic;
    changes are atomic.
  \<^item> \<open>Account_Store\<close> (\<open>db.go\<close>): users and clients as a step relation of creations, edits and deletions. Quotas,
    ownership and expiry dates stay consistent; which clients are active is characterised exactly.
  \<^item> \<open>Wire_Conn\<close> (\<open>lib/conn/conn.go\<close>, \<open>framed.go\<close>): programs that talk over a connection as functions on its bytes, records with a
    length prefix, and datagrams framed on a stream: boundaries survive, but a concurrent reader and writer share a buffer.
  \<^item> \<open>Handshake\<close> (\<open>lib/version\<close>, \<open>lib/crypt/secure_handshake.go\<close>, \<open>bridge.go\<close>, \<open>client/control.go\<close>): both sides of the old and the new
    handshake. An honest session completes, only valid proofs are admitted, their texts cannot be confused; any
    greeting downgrades a client to the old handshake.
  \<^item> \<open>Socks_Datagram\<close> (\<open>lib/common/netpackager.go\<close>) and \<open>Socks_Udp\<close> (\<open>server/proxy/socks5_udp_registry.go\<close>): SOCKS5 datagrams, which never crash
    their reader and survive the wire except for IPv6 reply addresses; UDP associates on a shared port as a step
    relation: the indices stay consistent, clients are separate, two silent associates of one IP block each other.

  \<^item> \<open>Conn_History\<close> (\<open>connection_history.go\<close>): the bounded history of a client is the newest part of its complete history.
  \<^item> \<open>Bridge_Table\<close>, \<open>Bridge_Sessions\<close> and \<open>Bridge_Runs\<close> (\<open>bridge.go\<close>, \<open>select_mode.go\<close>): the sessions of connected clients as objects in
    a store: pairing of control and data connections, selection, deletion, ping pass. Every connection is held once or
    closed once, the recorded presence is exact, deletions are confined and selection is fair; four cases in
    which the table does not keep what its comments promise.
  \<^item> \<open>Login_Guard\<close> (\<open>web/controllers/login.go\<close>, \<open>lib/crypt/totp.go\<close>): the limiter of login attempts, whose two tables share the locale
    \<open>attempt_table\<close>, proof-of-work challenges and one-time passwords. Guessing at a name is bounded, memory is bounded, a
    challenge counts once; an own login resets the limit of an address.
  \<^item> \<open>Web_Sessions\<close> and \<open>Web_Access\<close> (\<open>web_session_registry.go\<close>, \<open>remember_login.go\<close>, \<open>login.go\<close>, \<open>base.go\<close>): the registry of devices with its
    file, the cookie of a remembered login, the check of every request and the decision to sign in. Signing out everywhere and
    revoking a device survive restarts, a cookie restores the session it was issued for, served requests belong to accounts
    usable now; a revoked device keeps its browser session, and a switch does the opposite of its description.

  \<^item> \<open>Target_Health\<close> (\<open>obj.go\<close>, \<open>client/health.go\<close>, \<open>bridge.go\<close>): rotation over backend targets, the client's checks, their reports and the
    server's pools. Visitors reach healthy targets only, the pool follows the probes, rotation is fair; failures need not be consecutive, a
    restart forgets that a target was down, and a report about a part of the configured text enters the pool.
  \<^item> \<open>User_Migration\<close> (\<open>db.go\<close>): accounts derived from old client records. Clients go only to users with their credentials, unless
    a client names a lost owner.

  \<^bold>\<open>Modelling.\<close> A structure is a record, a variant a datatype, an error a value. A critical section or a
  compare-and-swap is one step; blocking operations and goroutines are step relations or sequences of operations
  in any order. Words keep their width in the multiplexer; counters and limits of the server are \<open>int\<close> where
  their range cannot be reached. \<open>float64\<close> is \<open>real\<close>. Code that is not part of the repository (the token bucket
  of \<open>x/time/rate\<close>, certificate checks, SHA-256, HMAC, BLAKE2b, MD5, base64, JSON, regular expressions, dates and mail
  addresses) is an argument.

  \<^bold>\<open>Bounds and fuel.\<close> Loops of the multiplexer that wait (\<open>Pop\<close>, \<open>readFromQueue\<close>, \<open>CloseWindow\<close>, \<open>getId\<close>) take fuel
  in the number of queued elements or used ids; the theorems show that this much always suffices. All other
  functions terminate by a measure.

  \<^bold>\<open>Not modelled.\<close> Sockets, TLS, HTTP handling and the relay loops of \<open>server/proxy\<close>, \<open>bridge\<close> and \<open>client\<close>; peer-to-peer coordination; the
  pages of the web console, its API credentials and its registration form; persistence in JSON files beyond success and failure; installation, daemon and update code; geodata
  files; listing and paging in \<open>db.go\<close>, flow accounting in \<open>obj.go\<close>.
\<close>

end
